(* ===== verification/Prelude.thy ===== *)
theory Prelude
  imports Main "HOL-Library.Word"
begin

text \<open>
  Shared vocabulary of the development.  The library reports failures by throwing
  \<^verbatim>\<open>std::runtime_error\<close>; a fallible operation is modelled as a function into
  \<open>'a res\<close>, where \<open>Inl\<close> carries the thrown message.  The theory also holds the generic
  facts on lists the components share: the longest common prefix of two digit
  strings, the lexicographic order, the numeric value of a digit string and
  association lists that are strictly sorted by key.
\<close>

named_theorems res_simps \<open>case rules for fallible computations\<close>

section \<open>Exceptions\<close>

datatype exn = Runtime_Error string

type_synonym 'a res = "exn + 'a"

abbreviation throw :: "string \<Rightarrow> 'a res" where
  "throw msg \<equiv> Inl (Runtime_Error msg)"

definition rbind :: "'a res \<Rightarrow> ('a \<Rightarrow> 'b res) \<Rightarrow> 'b res" where
  "rbind r f = (case r of Inl e \<Rightarrow> Inl e | Inr x \<Rightarrow> f x)"

lemma rbind_simps [simp, res_simps]:
  "rbind (Inl e) f = Inl e"
  "rbind (Inr x) f = f x"
  by (simp_all add: rbind_def)

lemma rbind_cong [fundef_cong]:
  "r = r' \<Longrightarrow> (\<And>x. r' = Inr x \<Longrightarrow> f x = g x) \<Longrightarrow> rbind r f = rbind r' g"
  by (simp add: rbind_def split: sum.splits)

lemma rbind_eq_Inr [res_simps]:
  "rbind r f = Inr y \<longleftrightarrow> (\<exists>x. r = Inr x \<and> f x = Inr y)"
  by (cases r) auto

lemma rbind_eq_Inl [res_simps]:
  "rbind r f = Inl e \<longleftrightarrow> r = Inl e \<or> (\<exists>x. r = Inr x \<and> f x = Inl e)"
  by (cases r) auto

text \<open>A loop whose body may throw.\<close>

fun rfold :: "('a \<Rightarrow> 's \<Rightarrow> 's res) \<Rightarrow> 'a list \<Rightarrow> 's \<Rightarrow> 's res" where
  "rfold f [] s = Inr s"
| "rfold f (x # xs) s = rbind (f x s) (rfold f xs)"

lemma rfold_cong [fundef_cong]:
  "xs = ys \<Longrightarrow> s = s' \<Longrightarrow> (\<And>x s. x \<in> set ys \<Longrightarrow> f x s = g x s) \<Longrightarrow> rfold f xs s = rfold g ys s'"
proof (induction xs arbitrary: ys s s')
  case (Cons x xs)
  show ?case
  proof (cases "g x s'")
    case (Inr s'')
    have "rfold f xs s'' = rfold g xs s''" by (rule Cons.IH) (use Cons.prems in auto)
    then show ?thesis using Inr Cons.prems by auto
  qed (use Cons.prems in auto)
qed simp

fun rmap :: "('a \<Rightarrow> 'b res) \<Rightarrow> 'a list \<Rightarrow> 'b list res" where
  "rmap f [] = Inr []"
| "rmap f (x # xs) = rbind (f x) (\<lambda>y. rbind (rmap f xs) (\<lambda>ys. Inr (y # ys)))"

lemma rmap_cong [fundef_cong]:
  "xs = ys \<Longrightarrow> (\<And>x. x \<in> set ys \<Longrightarrow> f x = g x) \<Longrightarrow> rmap f xs = rmap g ys"
  by (induction xs arbitrary: ys) auto

lemma rmap_Inr: "(\<And>x. x \<in> set xs \<Longrightarrow> f x = Inr (g x)) \<Longrightarrow> rmap f xs = Inr (map g xs)"
  by (induction xs) auto

lemma rmap_choice:
  assumes "\<forall>x \<in> set xs. \<exists>y. f x = Inr y \<and> Q x y"
  shows "\<exists>ys. rmap f xs = Inr ys \<and> list_all2 Q xs ys"
  using assms by (induction xs) auto

section \<open>Longest common prefix\<close>

definition lcp :: "'a list \<Rightarrow> 'a list \<Rightarrow> nat" where
  "lcp xs ys = length (takeWhile (\<lambda>(x, y). x = y) (zip xs ys))"

lemma length_takeWhile_eqI:
  assumes "n \<le> length xs" and "\<And>i. i < n \<Longrightarrow> Q (xs ! i)"
    and "n < length xs \<Longrightarrow> \<not> Q (xs ! n)"
  shows "length (takeWhile Q xs) = n"
  using assms
proof (induction xs arbitrary: n)
  case (Cons x xs)
  show ?case
  proof (cases n)
    case (Suc m)
    have "Q x" using Cons.prems(2) [of 0] Suc by simp
    moreover have "length (takeWhile Q xs) = m"
      using Cons.prems(2) [of "Suc _"] by (intro Cons.IH) (use Cons.prems Suc in auto)
    ultimately show ?thesis using Suc by simp
  qed (use Cons.prems(3) in simp)
qed simp

lemma length_takeWhile_nth: "i < length (takeWhile Q xs) \<Longrightarrow> Q (xs ! i)"
  using takeWhile_nth [of i Q xs] nth_mem [of i "takeWhile Q xs"] by (auto dest: set_takeWhileD)

lemma lcp_eqI:
  assumes "length xs = length ys" "n \<le> length xs" "\<And>i. i < n \<Longrightarrow> xs ! i = ys ! i"
    and "n < length xs \<Longrightarrow> xs ! n \<noteq> ys ! n"
  shows "lcp xs ys = n"
  unfolding lcp_def by (rule length_takeWhile_eqI) (use assms in auto)

lemma lcp_le: "lcp xs ys \<le> length xs" "lcp xs ys \<le> length ys"
  using length_takeWhile_le [of "\<lambda>(x, y). x = y" "zip xs ys"] by (simp_all add: lcp_def)

lemma lcp_nth: "i < lcp xs ys \<Longrightarrow> xs ! i = ys ! i"
  using length_takeWhile_nth [of i "\<lambda>(x, y). x = y" "zip xs ys"]
    length_takeWhile_le [of "\<lambda>(x, y). x = y" "zip xs ys"]
  by (simp add: lcp_def)

lemma lcp_differ:
  assumes "lcp xs ys < length xs" "lcp xs ys < length ys"
  shows "xs ! lcp xs ys \<noteq> ys ! lcp xs ys"
  using nth_length_takeWhile [of "\<lambda>(x, y). x = y" "zip xs ys"] assms
  by (simp add: lcp_def)

lemma le_lcp_iff:
  assumes "length xs = length ys" "n \<le> length xs"
  shows "n \<le> lcp xs ys \<longleftrightarrow> take n xs = take n ys"
proof
  assume "n \<le> lcp xs ys"
  then show "take n xs = take n ys"
    using assms lcp_nth [of _ xs ys] by (auto intro!: nth_equalityI)
next
  assume eq: "take n xs = take n ys"
  show "n \<le> lcp xs ys"
  proof (rule ccontr)
    assume "\<not> n \<le> lcp xs ys"
    then have lt: "lcp xs ys < n" by simp
    then have "take n xs ! lcp xs ys = take n ys ! lcp xs ys" using eq by simp
    with lt have "xs ! lcp xs ys = ys ! lcp xs ys" by simp
    moreover have "xs ! lcp xs ys \<noteq> ys ! lcp xs ys"
      using lt assms by (intro lcp_differ) auto
    ultimately show False by simp
  qed
qed

lemma lcp_commute: "lcp xs ys = lcp ys xs"
  unfolding lcp_def
proof (induction xs arbitrary: ys)
  case (Cons x xs)
  then show ?case by (cases ys) auto
qed simp

lemma lcp_full_iff: "length xs = length ys \<Longrightarrow> lcp xs ys = length xs \<longleftrightarrow> xs = ys"
  using le_lcp_iff [of xs ys "length xs"] lcp_le [of xs ys] by auto

section \<open>Lexicographic order and numeric value of digit strings\<close>

fun lexless :: "'a::linorder list \<Rightarrow> 'a list \<Rightarrow> bool" where
  "lexless [] ys = (ys \<noteq> [])"
| "lexless (x # xs) [] = False"
| "lexless (x # xs) (y # ys) = (x < y \<or> x = y \<and> lexless xs ys)"

lemma lexless_irrefl [simp]: "\<not> lexless xs xs"
  by (induction xs) auto

lemma lexless_trans: "lexless xs ys \<Longrightarrow> lexless ys zs \<Longrightarrow> lexless xs zs"
proof (induction xs arbitrary: ys zs)
  case (Cons x xs)
  obtain y ys' where ys: "ys = y # ys'" using Cons.prems(1) by (cases ys) auto
  obtain z zs' where zs: "zs = z # zs'" using Cons.prems(2) ys by (cases zs) auto
  show ?case using Cons.prems Cons.IH [of ys' zs'] by (auto simp: ys zs)
qed (metis lexless.elims(2) lexless.simps(1) list.distinct(1))

lemma lexless_linear: "lexless xs ys \<or> xs = ys \<or> lexless ys xs"
proof (induction xs arbitrary: ys)
  case (Cons x xs)
  show ?case
  proof (cases ys)
    case (Cons y ys')
    then show ?thesis using Cons.IH [of ys'] neq_iff [of x y] by auto
  qed simp
qed auto

lemma lexless_at_diff:
  assumes "take n xs = take n ys" "n < length xs" "n < length ys" "xs ! n < ys ! n"
  shows "lexless xs ys"
  using assms
proof (induction n arbitrary: xs ys)
  case 0
  then show ?case by (cases xs; cases ys) auto
next
  case (Suc n)
  then show ?case by (cases xs; cases ys) auto
qed

definition digits_val :: "nat \<Rightarrow> nat list \<Rightarrow> nat" where
  "digits_val b ds = foldl (\<lambda>a d. b * a + d) 0 ds"

lemma digits_val_Nil [simp]: "digits_val b [] = 0"
  by (simp add: digits_val_def)

lemma digits_val_snoc [simp]: "digits_val b (ds @ [d]) = b * digits_val b ds + d"
  by (simp add: digits_val_def)

lemma digits_val_Cons: "digits_val b (d # ds) = d * b ^ length ds + digits_val b ds"
  by (induction ds rule: rev_induct)
    (simp_all add: digits_val_snoc [of b "_ # _", simplified] digits_val_def algebra_simps)

lemma digits_val_less:
  "(\<And>d. d \<in> set ds \<Longrightarrow> d < b) \<Longrightarrow> digits_val b ds < b ^ length ds"
proof (induction ds)
  case (Cons d ds)
  have "digits_val b ds < b ^ length ds" and "d < b" using Cons by auto
  then have "d * b ^ length ds + digits_val b ds < (d + 1) * b ^ length ds"
    by simp
  also have "\<dots> \<le> b * b ^ length ds"
    using \<open>d < b\<close> by (intro mult_right_mono) auto
  finally show ?case by (simp add: digits_val_Cons)
qed simp

lemma digits_val_lexless:
  assumes "length xs = length ys" "\<And>d. d \<in> set xs \<Longrightarrow> d < b" "\<And>d. d \<in> set ys \<Longrightarrow> d < b"
    and "lexless xs ys"
  shows "digits_val b xs < digits_val b ys"
  using assms
proof (induction xs arbitrary: ys)
  case (Cons x xs)
  then obtain y ys' where ys: "ys = y # ys'" by (cases ys) auto
  have len: "length xs = length ys'" using Cons.prems(1) ys by simp
  show ?case
  proof (cases "x = y")
    case True
    then have "digits_val b xs < digits_val b ys'"
      using Cons.prems ys by (intro Cons.IH) auto
    then show ?thesis using True len ys by (simp add: digits_val_Cons)
  next
    case False
    then have "x < y" using Cons.prems(4) ys by auto
    have "x * b ^ length xs + digits_val b xs < (x + 1) * b ^ length xs"
      using digits_val_less [of xs b] Cons.prems(2) by simp
    also have "\<dots> \<le> y * b ^ length ys'"
      unfolding len using \<open>x < y\<close> by (intro mult_right_mono) auto
    finally show ?thesis using ys by (simp add: digits_val_Cons)
  qed
qed simp

lemma digits_val_less_iff:
  assumes "length xs = length ys" "\<And>d. d \<in> set xs \<Longrightarrow> d < b" "\<And>d. d \<in> set ys \<Longrightarrow> d < b"
  shows "digits_val b xs < digits_val b ys \<longleftrightarrow> lexless xs ys"
  using digits_val_lexless [of xs ys b] digits_val_lexless [of ys xs b] assms
    lexless_linear [of xs ys] by fastforce

lemma less_div_mod_iff:
  fixes x y k :: nat
  assumes "0 < k"
  shows "x < y \<longleftrightarrow> x div k < y div k \<or> x div k = y div k \<and> x mod k < y mod k"
proof -
  have d: "x = k * (x div k) + x mod k" "y = k * (y div k) + y mod k" by simp_all
  show ?thesis
  proof (cases "x div k = y div k")
    case True
    then show ?thesis using d by (metis nat_add_left_cancel_less less_irrefl)
  next
    case False
    then show ?thesis
      using div_le_mono [of x y k] div_le_mono [of y x k] by linarith
  qed
qed

section \<open>Association lists strictly sorted by key\<close>

abbreviation sorted_keys :: "('k::linorder \<times> 'a) list \<Rightarrow> bool" where
  "sorted_keys cs \<equiv> sorted_wrt (<) (map fst cs)"

fun al_put :: "'k::linorder \<Rightarrow> 'a \<Rightarrow> ('k \<times> 'a) list \<Rightarrow> ('k \<times> 'a) list" where
  "al_put b c [] = [(b, c)]"
| "al_put b c ((b', c') # cs) =
     (if b < b' then (b, c) # (b', c') # cs
      else if b = b' then (b, c) # cs
      else (b', c') # al_put b c cs)"

definition al_del :: "'k \<Rightarrow> ('k \<times> 'a) list \<Rightarrow> ('k \<times> 'a) list" where
  "al_del b cs = filter (\<lambda>x. fst x \<noteq> b) cs"

lemma al_put_keys: "fst ` set (al_put b c cs) = insert b (fst ` set cs)"
  by (induction b c cs rule: al_put.induct) auto

lemma sorted_al_put: "sorted_keys cs \<Longrightarrow> sorted_keys (al_put b c cs)"
  by (induction b c cs rule: al_put.induct) (auto simp: al_put_keys)

lemma map_of_al_put: "map_of (al_put b c cs) = (map_of cs)(b \<mapsto> c)"
  by (induction cs) (auto simp: fun_eq_iff)

lemma set_al_put: "sorted_keys cs \<Longrightarrow> set (al_put b c cs) = insert (b, c) {x \<in> set cs. fst x \<noteq> b}"
  by (induction cs) force+

lemma length_al_put:
  "sorted_keys cs \<Longrightarrow> length (al_put b c cs) = (if b \<in> fst ` set cs then length cs else Suc (length cs))"
  by (induction cs) force+

lemma sorted_al_del: "sorted_keys cs \<Longrightarrow> sorted_keys (al_del b cs)"
  by (induction cs) (auto simp: al_del_def)

lemma map_of_al_del: "map_of (al_del b cs) = (map_of cs)(b := None)"
  by (induction cs) (auto simp: al_del_def fun_eq_iff)

lemma sorted_keys_distinct: "sorted_keys cs \<Longrightarrow> distinct (map fst cs)"
  using strict_sorted_iff by blast

lemma map_of_sorted_iff: "sorted_keys cs \<Longrightarrow> map_of cs b = Some c \<longleftrightarrow> (b, c) \<in> set cs"
  using sorted_keys_distinct map_of_eq_Some_iff by fastforce

lemma sorted_keys_map_of_inject:
  assumes "sorted_keys cs" "sorted_keys ds" "map_of cs = map_of ds"
  shows "cs = ds"
proof (rule map_sorted_distinct_set_unique [where f = fst])
  have "(b, c) \<in> set cs \<longleftrightarrow> (b, c) \<in> set ds" for b c
    using map_of_sorted_iff [of cs b c] map_of_sorted_iff [of ds b c] assms by simp
  then show eq: "set cs = set ds" by auto
  show "inj_on fst (set cs \<union> set ds)"
    using sorted_keys_distinct [OF assms(1)] eq by (simp add: distinct_map)
qed (use assms strict_sorted_iff in blast)+

lemma sum_al_put:
  fixes f :: "'k::linorder \<times> 'a \<Rightarrow> 'm::ab_group_add"
  assumes "sorted_keys cs"
  shows "sum_list (map f (al_put b c cs)) =
    sum_list (map f cs) + (f (b, c) - (case map_of cs b of None \<Rightarrow> 0 | Some c' \<Rightarrow> f (b, c')))"
  using assms
proof (induction cs)
  case (Cons x cs)
  obtain b' c' where x: "x = (b', c')" by (cases x)
  have "map_of cs b = None" if "b < b'"
    using Cons.prems x that by (force simp: map_of_eq_None_iff)
  then show ?case using Cons x by (auto simp: algebra_simps split: option.splits)
qed simp

lemma sum_al_del:
  fixes f :: "'k::linorder \<times> 'a \<Rightarrow> 'm::ab_group_add"
  assumes "sorted_keys cs"
  shows "sum_list (map f (al_del b cs)) =
    sum_list (map f cs) - (case map_of cs b of None \<Rightarrow> 0 | Some c' \<Rightarrow> f (b, c'))"
  using assms
proof (induction cs)
  case (Cons x cs)
  have "al_del b cs = cs" if "b = fst x"
    using Cons.prems that by (fastforce simp: al_del_def filter_id_conv)
  then show ?case using Cons by (auto simp: al_del_def algebra_simps split: option.splits)
qed (simp add: al_del_def)

lemma set_al_del: "set (al_del b cs) = {x \<in> set cs. fst x \<noteq> b}"
  by (auto simp: al_del_def)

lemma length_al_del:
  "sorted_keys cs \<Longrightarrow> length (al_del b cs) = (if b \<in> fst ` set cs then length cs - 1 else length cs)"
proof (induction cs)
  case (Cons x cs)
  have "al_del b cs = cs" if "b = fst x"
    using Cons.prems that by (fastforce simp: al_del_def filter_id_conv)
  moreover have "length cs \<noteq> 0" if "b \<in> fst ` set cs" using that by auto
  ultimately show ?case using Cons by (auto simp: al_del_def)
qed (simp add: al_del_def)

text \<open>Elements of a mapped list are smaller than the list: used by every recursion on a node.\<close>

lemma map_of_size_less [termination_simp]:
  "map_of cs b = Some c \<Longrightarrow> f c < Suc (size_list (size_prod (\<lambda>_. 0) f) cs)"
  by (induction cs) (auto split: if_splits)

end
