(* ===== verification/Prefix.thy ===== *)
theory Prefix
  imports Prelude
begin

text \<open>
  Key prefixes: \<^verbatim>\<open>common/prefix.h\<close>.  A trie is a template over a prefix type that
  satisfies the concept \<^verbatim>\<open>TriePrefix\<close>; here the concept is the record \<open>TriePrefix\<close> of
  the operations the tries call.  The two implementations of the source are
  translated at machine width: \<open>UInt64Prefix\<close> on one 64-bit word and
  \<open>ByteArrayPrefix\<close> on an array of little-endian 64-bit words.  The locale \<open>trie_prefix\<close>
  states what the tries rely on, in terms of the string of 4-bit digits a prefix
  stands for, and is interpreted on both implementations.

  A \<^verbatim>\<open>PrefixLenBits\<close> is modelled by the value of its 16-bit field \<open>len\<close>; the one
  operation that can leave 16 bits, the sum, has the wrap-around written out.
\<close>

unbundle bit_operations_syntax

section \<open>PrefixLenBits\<close>

type_synonym PrefixLenBits = nat

definition num_prefix_bytes :: "PrefixLenBits \<Rightarrow> nat" where
  "num_prefix_bytes len = len div 8 + (if len mod 8 = 0 then 0 else 1)"

definition get_truncate_mask :: "PrefixLenBits \<Rightarrow> 8 word" where
  "get_truncate_mask len = ucast (push_bit (len mod 8) (0xFF :: 32 word))"

definition num_fully_covered_bytes :: "PrefixLenBits \<Rightarrow> nat" where
  "num_fully_covered_bytes len = len div 8"

definition PrefixLenBits_plus :: "PrefixLenBits \<Rightarrow> nat \<Rightarrow> PrefixLenBits" where
  "PrefixLenBits_plus len other_bits = (len + other_bits) mod 2 ^ 16"

section \<open>The concept TriePrefix\<close>

record 'p TriePrefix =
  get_branch_bits :: "'p \<Rightarrow> PrefixLenBits \<Rightarrow> nat res"
  get_prefix_match_len :: "'p \<Rightarrow> PrefixLenBits \<Rightarrow> 'p \<Rightarrow> PrefixLenBits \<Rightarrow> PrefixLenBits"
  prefix_truncate :: "'p \<Rightarrow> PrefixLenBits \<Rightarrow> 'p res"
  prefix_less :: "'p \<Rightarrow> 'p \<Rightarrow> bool"
  prefix_zero :: "'p"
  prefix_bits :: "PrefixLenBits"

section \<open>UInt64Prefix\<close>

type_synonym UInt64Prefix = "64 word"

text \<open>Count leading and trailing zeros, the compiler intrinsics; the source guards the
  argument 0, on which they are undefined.\<close>

definition clzll :: "64 word \<Rightarrow> nat" where
  "clzll w = length (takeWhile (\<lambda>i. \<not> bit w i) (rev [0..<64]))"

definition ctzll :: "64 word \<Rightarrow> nat" where
  "ctzll w = length (takeWhile (\<lambda>i. \<not> bit w i) [0..<64])"

definition UInt64_get_branch_bits :: "UInt64Prefix \<Rightarrow> PrefixLenBits \<Rightarrow> nat res" where
  "UInt64_get_branch_bits prefix branch_point =
     (if branch_point \<ge> 64 then throw ''can't branch beyond end''
      else Inr (unat (drop_bit (60 - branch_point) prefix AND 0x0F)))"

definition UInt64_get_prefix_match_len ::
    "UInt64Prefix \<Rightarrow> PrefixLenBits \<Rightarrow> UInt64Prefix \<Rightarrow> PrefixLenBits \<Rightarrow> PrefixLenBits" where
  "UInt64_get_prefix_match_len prefix self_len other other_len =
     (let diff = prefix XOR other;
          computed_bits =
            (if diff \<noteq> 0
             then (let matching_bits = clzll diff in matching_bits - matching_bits mod 4)
             else 64)
      in min computed_bits (min self_len other_len))"

definition UInt64_truncate :: "UInt64Prefix \<Rightarrow> PrefixLenBits \<Rightarrow> UInt64Prefix" where
  "UInt64_truncate prefix truncate_point =
     (if truncate_point = 0 then 0
      else prefix AND push_bit (64 - truncate_point) (- 1))"

definition UInt64_at :: "UInt64Prefix \<Rightarrow> nat \<Rightarrow> 8 word res" where
  "UInt64_at prefix i =
     (if i \<ge> 8 then throw ''invalid prefix array access!''
      else Inr (ucast (drop_bit (8 * i) prefix)))"

definition UInt64_set_next_branch_bits ::
    "UInt64Prefix \<Rightarrow> PrefixLenBits \<Rightarrow> 8 word \<Rightarrow> UInt64Prefix" where
  "UInt64_set_next_branch_bits prefix fixed_len bb =
     (let offset = 60 - fixed_len;
          msk = push_bit offset (0x0F :: 64 word);
          adjust = push_bit offset (ucast bb :: 64 word)
      in (prefix AND NOT msk) OR adjust)"

definition UInt64Prefix_ops :: "UInt64Prefix TriePrefix" where
  "UInt64Prefix_ops =
     \<lparr> get_branch_bits = UInt64_get_branch_bits,
       get_prefix_match_len = UInt64_get_prefix_match_len,
       prefix_truncate = (\<lambda>p n. Inr (UInt64_truncate p n)),
       prefix_less = (<),
       prefix_zero = 0,
       prefix_bits = 64 \<rparr>"

section \<open>The contract of a prefix type\<close>

text \<open>
  \<open>nib p\<close> is the string of 4-bit digits of a full-length prefix.  Lengths are in bits
  and always multiples of 4.  \<open>pvalid\<close> says which representations the code produces.
\<close>

locale trie_prefix =
  fixes P :: "'p TriePrefix" and pvalid :: "'p \<Rightarrow> bool" and nib :: "'p \<Rightarrow> nat list"
  assumes bits_pos: "0 < prefix_bits P"
    and bits_dvd: "8 dvd prefix_bits P"
    and nib_length: "pvalid p \<Longrightarrow> length (nib p) = prefix_bits P div 4"
    and nib_bound: "pvalid p \<Longrightarrow> d \<in> set (nib p) \<Longrightarrow> d < 16"
    and nib_inject: "pvalid p \<Longrightarrow> pvalid q \<Longrightarrow> nib p = nib q \<Longrightarrow> p = q"
    and branch_bits: "pvalid p \<Longrightarrow> 4 * i < prefix_bits P \<Longrightarrow>
        get_branch_bits P p (4 * i) = Inr (nib p ! i)"
    and branch_end: "pvalid p \<Longrightarrow> prefix_bits P \<le> n \<Longrightarrow>
        get_branch_bits P p n = throw ''can't branch beyond end''"
    and match_len: "pvalid p \<Longrightarrow> pvalid q \<Longrightarrow>
        4 * i \<le> prefix_bits P \<Longrightarrow> 4 * j \<le> prefix_bits P \<Longrightarrow>
        get_prefix_match_len P p (4 * i) q (4 * j) = 4 * min (lcp (nib p) (nib q)) (min i j)"
    and truncate_ok: "pvalid p \<Longrightarrow> 4 * i < prefix_bits P \<Longrightarrow>
        \<exists>q. prefix_truncate P p (4 * i) = Inr q \<and> pvalid q \<and>
            nib q = take i (nib p) @ replicate (prefix_bits P div 4 - i) 0"
    and less_iff: "pvalid p \<Longrightarrow> pvalid q \<Longrightarrow> prefix_less P p q = lexless (nib p) (nib q)"
    and zero_valid: "pvalid (prefix_zero P)"
    and zero_nib: "nib (prefix_zero P) = replicate (prefix_bits P div 4) 0"

section \<open>UInt64Prefix meets the contract\<close>

definition UInt64_nib :: "UInt64Prefix \<Rightarrow> nat list" where
  "UInt64_nib w = map (\<lambda>i. unat (drop_bit (60 - 4 * i) w AND 0x0F)) [0..<16]"

lemma unat_and_15: "unat ((w :: 'a::len word) AND 0x0F) = unat w mod 16"
proof -
  have "w AND 0x0F = take_bit 4 w" by (simp add: take_bit_eq_mask mask_eq_exp_minus_1)
  then show ?thesis using take_bit_eq_mod [of 4 "unat w"] by (simp add: unsigned_take_bit_eq)
qed

lemma xor_zero_iff: "(v :: 'a::len word) XOR w = 0 \<longleftrightarrow> v = w"
  by (auto simp: bit_eq_iff bit_xor_iff)

lemma unat_drop_bit: "unat (drop_bit n (w :: 'a::len word)) = unat w div 2 ^ n"
  using unat_drop_bit_eq [of n w] by (simp only: drop_bit_eq_div)

lemma UInt64_nib_nth: "i < 16 \<Longrightarrow> UInt64_nib w ! i = unat w div 2 ^ (60 - 4 * i) mod 16"
  by (simp add: UInt64_nib_def unat_and_15 unat_drop_bit)

lemma UInt64_nib_length [simp]: "length (UInt64_nib w) = 16"
  by (simp add: UInt64_nib_def)

lemma UInt64_nib_bound: "d \<in> set (UInt64_nib w) \<Longrightarrow> d < 16"
  by (auto simp: in_set_conv_nth UInt64_nib_nth)

lemma UInt64_nib_take_val:
  "i \<le> 16 \<Longrightarrow> digits_val 16 (take i (UInt64_nib w)) = unat w div 2 ^ (64 - 4 * i)"
proof (induction i)
  case 0
  then show ?case using unsigned_less [where ?'a = nat, of w] by (simp add: div_eq_0_iff)
next
  case (Suc i)
  have e: "64 - 4 * i = (60 - 4 * i) + 4" "64 - 4 * Suc i = 60 - 4 * i" using Suc.prems by auto
  have "unat w div 2 ^ (64 - 4 * i) = unat w div 2 ^ (60 - 4 * i) div 16"
    unfolding e(1) by (simp add: power_add div_mult2_eq)
  then show ?case
    using Suc e(2) by (simp add: take_Suc_conv_app_nth UInt64_nib_nth)
qed

lemma UInt64_nib_val: "digits_val 16 (UInt64_nib w) = unat w"
  using UInt64_nib_take_val [of 16 w] by simp

lemma UInt64_nib_inject: "UInt64_nib v = UInt64_nib w \<Longrightarrow> v = w"
  by (metis UInt64_nib_val word_unat_eq_iff)

lemma UInt64_less_iff: "v < w \<longleftrightarrow> lexless (UInt64_nib v) (UInt64_nib w)"
  using digits_val_less_iff [of "UInt64_nib v" "UInt64_nib w" 16]
  by (simp add: UInt64_nib_val UInt64_nib_bound word_less_nat_alt)

text \<open>Two digits agree when their four bits do.\<close>

lemma UInt64_nib_eq_iff:
  assumes "i < 16"
  shows "UInt64_nib v ! i = UInt64_nib w ! i \<longleftrightarrow>
    (\<forall>j < 4. bit v (60 - 4 * i + j) = bit w (60 - 4 * i + j))"
proof -
  have "UInt64_nib v ! i = UInt64_nib w ! i \<longleftrightarrow>
      drop_bit (60 - 4 * i) v AND mask 4 = drop_bit (60 - 4 * i) w AND mask 4"
    using assms by (simp add: UInt64_nib_def mask_eq_exp_minus_1 flip: word_unat_eq_iff)
  also have "\<dots> \<longleftrightarrow> (\<forall>j < 4. bit v (60 - 4 * i + j) = bit w (60 - 4 * i + j))"
  proof
    assume eq: "drop_bit (60 - 4 * i) v AND mask 4 = drop_bit (60 - 4 * i) w AND mask 4"
    have "bit v (60 - 4 * i + j) = bit w (60 - 4 * i + j)" if "j < 4" for j
      using arg_cong [OF eq, of "\<lambda>x. bit x j"] that by (simp add: bit_simps)
    then show "\<forall>j < 4. bit v (60 - 4 * i + j) = bit w (60 - 4 * i + j)" by blast
  qed (auto simp: bit_eq_iff bit_simps)
  finally show ?thesis .
qed

lemma clzll_zero_bits: "i < clzll w \<Longrightarrow> \<not> bit w (63 - i)"
  using length_takeWhile_nth [of i "\<lambda>i. \<not> bit w i" "rev [0..<64]"]
    length_takeWhile_le [of "\<lambda>i. \<not> bit w i" "rev [0..<64]"]
  by (simp add: clzll_def rev_nth)

lemma clzll_one_bit: "clzll w < 64 \<Longrightarrow> bit w (63 - clzll w)"
  using nth_length_takeWhile [of "\<lambda>i. \<not> bit w i" "rev [0..<64]"]
  by (simp add: clzll_def rev_nth)

lemma clzll_less: "w \<noteq> 0 \<Longrightarrow> clzll w < 64"
proof (rule ccontr)
  assume "w \<noteq> 0" and "\<not> clzll w < 64"
  then obtain n where n: "bit w n" by (metis bit_eqI bit_0_eq bot_apply bot_bool_def)
  then have "n < 64" using bit_imp_le_length [of w n] by simp
  then have "\<not> bit w (63 - (63 - n))"
    using \<open>\<not> clzll w < 64\<close> by (intro clzll_zero_bits) simp
  with n \<open>n < 64\<close> show False by simp
qed

lemma UInt64_lcp:
  assumes "v \<noteq> w"
  shows "lcp (UInt64_nib v) (UInt64_nib w) = clzll (v XOR w) div 4"
proof (rule lcp_eqI)
  define m where "m = clzll (v XOR w)"
  have m: "m < 64" using assms by (simp add: m_def clzll_less xor_zero_iff)
  show "clzll (v XOR w) div 4 \<le> length (UInt64_nib v)" using m by (simp add: m_def)
  fix i assume i: "i < clzll (v XOR w) div 4"
  have "bit v (60 - 4 * i + j) = bit w (60 - 4 * i + j)" if "j < 4" for j
  proof -
    have "63 - (4 * i + 3 - j) = 60 - 4 * i + j" using i m that by (simp add: m_def)
    then show ?thesis
      using clzll_zero_bits [of "4 * i + 3 - j" "v XOR w"] i that by (simp add: bit_xor_iff)
  qed
  then show "UInt64_nib v ! i = UInt64_nib w ! i"
    using i m by (subst UInt64_nib_eq_iff) (auto simp: m_def)
next
  define m where "m = clzll (v XOR w)"
  assume "clzll (v XOR w) div 4 < length (UInt64_nib v)"
  then have m: "m div 4 < 16" by (simp add: m_def)
  then have "bit (v XOR w) (63 - m)" unfolding m_def by (intro clzll_one_bit) simp
  moreover have "63 - m = 60 - 4 * (m div 4) + (3 - m mod 4)" using m by presburger
  ultimately have "bit v (60 - 4 * (m div 4) + (3 - m mod 4)) \<noteq>
      bit w (60 - 4 * (m div 4) + (3 - m mod 4))"
    by (auto simp: bit_xor_iff)
  then show "UInt64_nib v ! (clzll (v XOR w) div 4) \<noteq> UInt64_nib w ! (clzll (v XOR w) div 4)"
    unfolding m_def [symmetric] using m by (auto simp: UInt64_nib_eq_iff intro!: exI [of _ "3 - m mod 4"])
qed simp

lemma UInt64_match_len:
  assumes "i \<le> 16" "j \<le> 16"
  shows "UInt64_get_prefix_match_len v (4 * i) w (4 * j) =
    4 * min (lcp (UInt64_nib v) (UInt64_nib w)) (min i j)"
proof (cases "v = w")
  case True
  then show ?thesis
    using assms lcp_full_iff [of "UInt64_nib w" "UInt64_nib w"]
    by (simp add: UInt64_get_prefix_match_len_def min_def)
next
  case False
  then show ?thesis
    by (simp add: UInt64_get_prefix_match_len_def UInt64_lcp xor_zero_iff min_def
        minus_mod_eq_mult_div Let_def)
qed

lemma UInt64_truncate_nib:
  assumes "i < 16"
  shows "UInt64_nib (UInt64_truncate w (4 * i)) = take i (UInt64_nib w) @ replicate (16 - i) 0"
proof (rule nth_equalityI)
  fix k assume "k < length (UInt64_nib (UInt64_truncate w (4 * i)))"
  then have k: "k < 16" by simp
  have b: "bit (UInt64_truncate w (4 * i)) n \<longleftrightarrow> n < 64 \<and> 64 - 4 * i \<le> n \<and> bit w n" for n
    using assms by (auto simp: UInt64_truncate_def bit_simps)
  show "UInt64_nib (UInt64_truncate w (4 * i)) ! k =
      (take i (UInt64_nib w) @ replicate (16 - i) 0) ! k"
  proof (cases "k < i")
    case True
    then have "UInt64_nib (UInt64_truncate w (4 * i)) ! k = UInt64_nib w ! k"
      using assms k by (subst UInt64_nib_eq_iff) (auto simp: b)
    then show ?thesis using True k by (simp add: nth_append)
  next
    case False
    have "UInt64_nib (UInt64_truncate w (4 * i)) ! k = UInt64_nib 0 ! k"
      using assms k False by (subst UInt64_nib_eq_iff) (auto simp: b)
    then show ?thesis using False k assms by (simp add: nth_append UInt64_nib_nth)
  qed
qed (use assms in simp)

lemma UInt64_branch_bits:
  "n < 64 \<Longrightarrow> UInt64_get_branch_bits w n = Inr (unat w div 2 ^ (60 - n) mod 16)"
  by (simp add: UInt64_get_branch_bits_def unat_and_15 unat_drop_bit)

lemma UInt64_nib_zero: "UInt64_nib 0 = replicate 16 0"
  by (rule nth_equalityI) (simp_all add: UInt64_nib_nth)

interpretation u64: trie_prefix UInt64Prefix_ops "\<lambda>_. True" UInt64_nib
  unfolding UInt64Prefix_ops_def
proof (unfold_locales, goal_cases)
  case (3 p)
  then show ?case by simp
next
  case (4 p d)
  then show ?case by (simp add: UInt64_nib_bound)
next
  case (5 p q)
  then show ?case by (simp add: UInt64_nib_inject)
next
  case (6 p i)
  then show ?case by (simp add: UInt64_branch_bits UInt64_nib_nth)
next
  case (7 p n)
  then show ?case by (simp add: UInt64_get_branch_bits_def)
next
  case (8 p q i j)
  then show ?case by (simp add: UInt64_match_len)
next
  case (9 p i)
  then show ?case by (simp add: UInt64_truncate_nib)
next
  case (10 p q)
  then show ?case by (simp add: UInt64_less_iff)
qed (simp_all add: UInt64_nib_zero)

section \<open>Extending a prefix by one branch\<close>

lemma UInt64_set_next_nib:
  fixes bb :: "8 word"
  assumes i: "i < 16" and bb: "unat bb < 16"
  shows "UInt64_nib (UInt64_set_next_branch_bits w (4 * i) bb) = (UInt64_nib w)[i := unat bb]"
proof (rule nth_equalityI)
  have c: "(0x0F :: 64 word) = mask 4" by (simp add: mask_eq_exp_minus_1)
  have "take_bit 4 bb = bb"
    using bb take_bit_eq_mod [of 4 "unat bb"] by (simp add: word_unat_eq_iff unsigned_take_bit_eq)
  then have small: "\<not> bit bb t" if "4 \<le> t" for t using that by (metis bit_take_bit_iff not_less)
  have b: "bit (UInt64_set_next_branch_bits w (4 * i) bb) m \<longleftrightarrow>
      m < 64 \<and> (if 60 - 4 * i \<le> m \<and> m < 64 - 4 * i then bit bb (m - (60 - 4 * i)) else bit w m)" for m
    unfolding UInt64_set_next_branch_bits_def Let_def c using i small
    by (auto simp: bit_simps dest: bit_imp_le_length)
  fix k assume "k < length (UInt64_nib (UInt64_set_next_branch_bits w (4 * i) bb))"
  then have k: "k < 16" by simp
  show "UInt64_nib (UInt64_set_next_branch_bits w (4 * i) bb) ! k = (UInt64_nib w)[i := unat bb] ! k"
  proof (cases "k = i")
    case True
    have "drop_bit (60 - 4 * i) (UInt64_set_next_branch_bits w (4 * i) bb) AND 0x0F = ucast bb"
      unfolding c using i small by (intro bit_word_eqI) (auto simp: bit_simps b)
    then have "UInt64_nib (UInt64_set_next_branch_bits w (4 * i) bb) ! i = unat (ucast bb :: 64 word)"
      using i by (simp add: UInt64_nib_def)
    then show ?thesis using True i bb by (simp add: unsigned_ucast_eq take_bit_nat_eq_self)
  next
    case False
    then have "UInt64_nib (UInt64_set_next_branch_bits w (4 * i) bb) ! k = UInt64_nib w ! k"
      using k i by (subst UInt64_nib_eq_iff) (auto simp: b)
    then show ?thesis using False by simp
  qed
qed simp

end
