(* ===== verification/ByteArrayPrefix.thy ===== *)
theory ByteArrayPrefix
  imports Prefix
begin

text \<open>
  \<^verbatim>\<open>ByteArrayPrefix<MAX_LEN_BYTES>\<close> of \<^verbatim>\<open>common/prefix.h\<close>: a key of \<open>n\<close> bytes held in
  an array of little-endian 64-bit words.  Every method that touches the words is
  translated with its shifts and masks; the last section shows that the class meets
  the contract \<open>trie_prefix\<close> for every size.
\<close>

unbundle bit_operations_syntax

type_synonym byte = "8 word"
type_synonym ByteArrayPrefix = "64 word list"

section \<open>Operations\<close>

text \<open>Number of words, the class constant \<^verbatim>\<open>WORDS\<close>.\<close>

definition WORDS :: "nat \<Rightarrow> nat" where
  "WORDS n = n div 8 + (if n mod 8 = 0 then 0 else 1)"

text \<open>\<^verbatim>\<open>operator[]\<close>: byte \<open>i\<close> of the underlying memory, and a store to it.\<close>

definition ByteArray_byte :: "ByteArrayPrefix \<Rightarrow> nat \<Rightarrow> byte" where
  "ByteArray_byte data i = ucast (drop_bit (8 * (i mod 8)) (data ! (i div 8)))"

definition ByteArray_put_byte :: "ByteArrayPrefix \<Rightarrow> nat \<Rightarrow> byte \<Rightarrow> ByteArrayPrefix" where
  "ByteArray_put_byte data i b =
     data[i div 8 :=
       (data ! (i div 8) AND NOT (push_bit (8 * (i mod 8)) 0xFF))
         OR push_bit (8 * (i mod 8)) (ucast b)]"

definition ByteArray_clear :: "nat \<Rightarrow> ByteArrayPrefix" where
  "ByteArray_clear n = replicate (WORDS n) 0"

definition ByteArray_set_max :: "nat \<Rightarrow> ByteArrayPrefix" where
  "ByteArray_set_max n = replicate (WORDS n) (- 1)"

text \<open>The constructors copy \<open>n\<close> bytes into zeroed words.\<close>

definition ByteArray_from_bytes :: "nat \<Rightarrow> byte list \<Rightarrow> ByteArrayPrefix" where
  "ByteArray_from_bytes n input =
     foldl (\<lambda>data i. ByteArray_put_byte data i (input ! i)) (ByteArray_clear n) [0..<n]"

definition ByteArray_get_bytes_array :: "nat \<Rightarrow> ByteArrayPrefix \<Rightarrow> byte list" where
  "ByteArray_get_bytes_array n data = map (ByteArray_byte data) [0..<n]"

text \<open>The body of the loop of \<^verbatim>\<open>get_prefix_match_len\<close> for the first differing word.\<close>

definition word_match_offset :: "64 word \<Rightarrow> nat" where
  "word_match_offset local =
     (let word_offset = ctzll local;
          word_offset = word_offset - word_offset mod 8
      in if drop_bit word_offset local AND 0xF0 = 0 \<and> drop_bit word_offset local AND 0x0F \<noteq> 0
         then word_offset + 4 else word_offset)"

fun ByteArray_match_loop :: "nat \<Rightarrow> 64 word list \<Rightarrow> 64 word list \<Rightarrow> nat \<Rightarrow> nat" where
  "ByteArray_match_loop i (x # xs) (y # ys) res =
     (let local = x XOR y in
      if local \<noteq> 0 then min (i * 64 + word_match_offset local) res
      else ByteArray_match_loop (Suc i) xs ys res)"
| "ByteArray_match_loop i _ _ res = res"

definition ByteArray_get_prefix_match_len ::
    "nat \<Rightarrow> ByteArrayPrefix \<Rightarrow> PrefixLenBits \<Rightarrow> ByteArrayPrefix \<Rightarrow> PrefixLenBits \<Rightarrow> PrefixLenBits" where
  "ByteArray_get_prefix_match_len n data self_len other other_len =
     (let res = ByteArray_match_loop 0 (take (WORDS n) data) other (n * 8);
          res_final = res - res mod 4
      in min res_final (min self_len other_len))"

definition ByteArray_get_branch_bits :: "nat \<Rightarrow> ByteArrayPrefix \<Rightarrow> PrefixLenBits \<Rightarrow> nat res" where
  "ByteArray_get_branch_bits n data branch_point =
     (if branch_point \<ge> 8 * n then throw ''can't branch beyond end''
      else
        let word_idx = branch_point div 64;
            byte_offset = branch_point AND 0x38;
            b = (ucast (drop_bit byte_offset (data ! word_idx) AND 0xFF) :: byte)
        in Inr (unat ((if branch_point mod 8 = 0 then drop_bit 4 b else b) AND 0x0F)))"

definition ByteArray_truncate :: "nat \<Rightarrow> ByteArrayPrefix \<Rightarrow> PrefixLenBits \<Rightarrow> ByteArrayPrefix res" where
  "ByteArray_truncate n data truncate_point =
     (if truncate_point \<ge> 8 * n then throw ''can't truncate beyond end''
      else
        let word_idx = truncate_point div 64;
            word_offset = truncate_point AND 0x38;
            truncate_mask = push_bit word_offset (1 :: 64 word) - 1;
            truncate_mask = (if truncate_point mod 8 \<noteq> 0
                             then truncate_mask OR push_bit word_offset 0xF0
                             else truncate_mask)
        in Inr (map (\<lambda>i. if i < word_idx then data ! i
                         else if i = word_idx then data ! i AND truncate_mask
                         else 0) [0..<WORDS n]))"

definition ByteArray_set_byte :: "nat \<Rightarrow> ByteArrayPrefix \<Rightarrow> nat \<Rightarrow> byte \<Rightarrow> ByteArrayPrefix res" where
  "ByteArray_set_byte n data i b =
     (if i \<ge> n then throw ''invalid prefix array access!''
      else Inr (ByteArray_put_byte data i b))"

definition ByteArray_at :: "nat \<Rightarrow> ByteArrayPrefix \<Rightarrow> nat \<Rightarrow> byte res" where
  "ByteArray_at n data i =
     (if i \<ge> n then throw ''invalid prefix array access!'' else Inr (ByteArray_byte data i))"

definition ByteArray_set_next_branch_bits ::
    "nat \<Rightarrow> ByteArrayPrefix \<Rightarrow> PrefixLenBits \<Rightarrow> byte \<Rightarrow> ByteArrayPrefix res" where
  "ByteArray_set_next_branch_bits n data fixed_len branch_bits =
     (let byte_index = fixed_len div 8;
          remaining_bits = fixed_len mod 8
      in if byte_index \<ge> n then throw ''invalid set_next_branch_bits access''
         else rbind (ByteArray_at n data byte_index) (\<lambda>next_byte.
           let next_byte = next_byte AND ucast (push_bit (8 - remaining_bits) (0xFF :: 32 word));
               branch_bits_offset = 8 - remaining_bits - 4;
               next_byte = next_byte OR ucast (push_bit branch_bits_offset (ucast branch_bits :: 32 word))
           in ByteArray_set_byte n data byte_index next_byte))"

text \<open>\<^verbatim>\<open>write_bytes_to\<close>: append the bytes the length needs and mask the last byte of the
  buffer.  The buffer is non-empty at every call, since \<^verbatim>\<open>write_node_header\<close> has already
  written the length.\<close>

definition mask_back :: "byte list \<Rightarrow> byte \<Rightarrow> byte list" where
  "mask_back out m = butlast out @ [last out AND m]"

definition ByteArray_write_bytes_to :: "ByteArrayPrefix \<Rightarrow> byte list \<Rightarrow> PrefixLenBits \<Rightarrow> byte list" where
  "ByteArray_write_bytes_to data out prefix_len =
     mask_back (out @ map (ByteArray_byte data) [0..<num_prefix_bytes prefix_len mod 256])
       (get_truncate_mask prefix_len)"

fun memcmp :: "byte list \<Rightarrow> byte list \<Rightarrow> int" where
  "memcmp (x # xs) (y # ys) = (if x < y then - 1 else if y < x then 1 else memcmp xs ys)"
| "memcmp _ _ = 0"

definition ByteArray_less :: "nat \<Rightarrow> ByteArrayPrefix \<Rightarrow> ByteArrayPrefix \<Rightarrow> bool" where
  "ByteArray_less n data other =
     (memcmp (ByteArray_get_bytes_array n data) (ByteArray_get_bytes_array n other) < 0)"

definition ByteArrayPrefix_ops :: "nat \<Rightarrow> ByteArrayPrefix TriePrefix" where
  "ByteArrayPrefix_ops n =
     \<lparr> get_branch_bits = ByteArray_get_branch_bits n,
       get_prefix_match_len = ByteArray_get_prefix_match_len n,
       prefix_truncate = ByteArray_truncate n,
       prefix_less = ByteArray_less n,
       prefix_zero = ByteArray_clear n,
       prefix_bits = 8 * n \<rparr>"

section \<open>The digits of a byte array\<close>

text \<open>Digit \<open>j\<close> is the high half of byte \<open>j div 2\<close> when \<open>j\<close> is even, else its low half.\<close>

definition nib_shift :: "nat \<Rightarrow> nat" where
  "nib_shift j = 8 * (j div 2 mod 8) + (if even j then 4 else 0)"

definition ByteArray_nib :: "nat \<Rightarrow> ByteArrayPrefix \<Rightarrow> nat list" where
  "ByteArray_nib n data =
     map (\<lambda>j. unat (drop_bit (nib_shift j) (data ! (j div 16)) AND 0x0F)) [0..<2 * n]"

text \<open>The words have the right number, and the bytes past the key are 0.\<close>

definition ByteArray_valid :: "nat \<Rightarrow> ByteArrayPrefix \<Rightarrow> bool" where
  "ByteArray_valid n data \<longleftrightarrow>
     length data = WORDS n \<and>
     (\<forall>k < WORDS n. \<forall>b < 64. n \<le> 8 * k + b div 8 \<longrightarrow> \<not> bit (data ! k) b)"

lemma ByteArray_nib_length [simp]: "length (ByteArray_nib n data) = 2 * n"
  by (simp add: ByteArray_nib_def)

lemma ByteArray_nib_nth:
  "j < 2 * n \<Longrightarrow> ByteArray_nib n data ! j = unat (drop_bit (nib_shift j) (data ! (j div 16)) AND 0x0F)"
  by (simp add: ByteArray_nib_def)

lemma ByteArray_nib_bound: "d \<in> set (ByteArray_nib n data) \<Longrightarrow> d < 16"
  by (auto simp: ByteArray_nib_def unat_and_15)

lemma nib_shift_bound: "nib_shift j + 4 \<le> 64"
proof -
  have "j div 2 mod 8 < 8" by simp
  then show ?thesis unfolding nib_shift_def by (auto split: if_splits)
qed

lemma and_15_eq_iff:
  fixes v w :: "64 word"
  assumes "s + 4 \<le> 64"
  shows "unat (drop_bit s v AND 0x0F) = unat (drop_bit s w AND 0x0F) \<longleftrightarrow>
    (\<forall>t < 4. bit v (s + t) = bit w (s + t))"
proof -
  have "unat (drop_bit s v AND 0x0F) = unat (drop_bit s w AND 0x0F) \<longleftrightarrow>
      drop_bit s v AND mask 4 = drop_bit s w AND mask 4"
    by (simp add: mask_eq_exp_minus_1 flip: word_unat_eq_iff)
  also have "\<dots> \<longleftrightarrow> (\<forall>t < 4. bit v (s + t) = bit w (s + t))"
  proof
    assume eq: "drop_bit s v AND mask 4 = drop_bit s w AND mask 4"
    have "bit v (s + t) = bit w (s + t)" if "t < 4" for t
      using arg_cong [OF eq, of "\<lambda>x. bit x t"] that by (simp add: bit_simps)
    then show "\<forall>t < 4. bit v (s + t) = bit w (s + t)" by blast
  qed (auto simp: bit_eq_iff bit_simps)
  finally show ?thesis .
qed

lemma ByteArray_nib_eq_iff:
  assumes "j < 2 * n"
  shows "ByteArray_nib n v ! j = ByteArray_nib n w ! j \<longleftrightarrow>
    (\<forall>t < 4. bit (v ! (j div 16)) (nib_shift j + t) = bit (w ! (j div 16)) (nib_shift j + t))"
  using assms by (simp add: ByteArray_nib_nth and_15_eq_iff nib_shift_bound)

text \<open>Every bit of the array belongs to one digit.\<close>

definition nib_of_bit :: "nat \<Rightarrow> nat \<Rightarrow> nat" where
  "nib_of_bit k b = 2 * (8 * k + b div 8) + (if b mod 8 < 4 then 1 else 0)"

lemma nib_of_bit:
  assumes "b < 64"
  shows "nib_of_bit k b div 16 = k" "nib_of_bit k b div 2 = 8 * k + b div 8"
    "nib_shift (nib_of_bit k b) + b mod 4 = b"
proof -
  show half: "nib_of_bit k b div 2 = 8 * k + b div 8" by (simp add: nib_of_bit_def)
  have "nib_of_bit k b div 16 = nib_of_bit k b div 2 div 8" by (simp add: div_mult2_eq [symmetric])
  also have "\<dots> = k" using assms by (simp add: half div_add1_eq) 
  finally show "nib_of_bit k b div 16 = k" .
  have "(8 * k + b div 8) mod 8 = b div 8" using assms by simp
  then have "nib_shift (nib_of_bit k b) = 8 * (b div 8) + (if b mod 8 < 4 then 0 else 4)"
    unfolding nib_shift_def half by (auto simp: nib_of_bit_def)
  moreover have "8 * (b div 8) + (if b mod 8 < 4 then 0 else 4) + b mod 4 = b"
    by presburger
  ultimately show "nib_shift (nib_of_bit k b) + b mod 4 = b" by simp
qed

lemma ByteArray_bit_eqI:
  assumes "ByteArray_nib n v ! nib_of_bit k b = ByteArray_nib n w ! nib_of_bit k b"
    and "b < 64" "8 * k + b div 8 < n"
  shows "bit (v ! k) b = bit (w ! k) b"
proof -
  have "nib_of_bit k b < 2 * n" using assms(3) by (simp add: nib_of_bit_def)
  then have "bit (v ! k) (nib_shift (nib_of_bit k b) + b mod 4) =
      bit (w ! k) (nib_shift (nib_of_bit k b) + b mod 4)"
    using assms(1) ByteArray_nib_eq_iff [of "nib_of_bit k b" n v w] nib_of_bit(1) [OF assms(2)]
    by simp
  then show ?thesis using nib_of_bit(3) [OF assms(2)] by simp
qed

lemma ByteArray_nib_inject:
  assumes "ByteArray_valid n v" "ByteArray_valid n w" "ByteArray_nib n v = ByteArray_nib n w"
  shows "v = w"
proof (rule nth_equalityI)
  show "length v = length w" using assms by (simp add: ByteArray_valid_def)
  fix k assume k: "k < length v"
  have "bit (v ! k) b = bit (w ! k) b" if "b < 64" for b
  proof (cases "8 * k + b div 8 < n")
    case True
    then show ?thesis using assms(3) that by (intro ByteArray_bit_eqI) auto
  next
    case False
    then show ?thesis using assms(1,2) k that by (simp add: ByteArray_valid_def)
  qed
  then show "v ! k = w ! k" by (auto intro: bit_word_eqI)
qed

section \<open>The class meets the contract\<close>

lemma and_56: "(x :: nat) AND 0x38 = 8 * (x div 8 mod 8)"
proof -
  have c: "(0x38 :: nat) = push_bit 3 (mask 3)" by (simp add: mask_eq_exp_minus_1 push_bit_eq_mult)
  have "x AND 0x38 = push_bit 3 (take_bit 3 (drop_bit 3 x))"
    unfolding c by (auto intro!: bit_eqI simp: bit_simps)
  then show ?thesis by (simp add: push_bit_eq_mult take_bit_eq_mod drop_bit_eq_div)
qed

lemma and_56_of_nib: "4 * i AND 0x38 = 8 * (i div 2 mod 8)" for i :: nat
  unfolding and_56 by (simp add: div_mult_mult1 [of 4 _ 2, simplified])

lemma nib_arith: "x mod 256 div 16 = x div 16 mod (16 :: nat)" "x mod 256 mod 16 = x mod (16 :: nat)"
  using mod_mult2_eq [of x 16 16] by (simp_all add: mod_mod_cancel)

lemma ByteArray_branch_bits:
  assumes "4 * i < 8 * n"
  shows "ByteArray_get_branch_bits n data (4 * i) = Inr (ByteArray_nib n data ! i)"
proof -
  define x where "x = unat (data ! (i div 16)) div 2 ^ (8 * (i div 2 mod 8))"
  have ff: "y AND 0xFF = take_bit 8 y" for y :: "64 word"
    by (simp add: take_bit_eq_mask mask_eq_exp_minus_1)
  have b: "unat (ucast (drop_bit (8 * (i div 2 mod 8)) (data ! (i div 16)) AND 0xFF) :: byte) = x mod 256"
    unfolding ff x_def by (simp add: unsigned_ucast_eq unsigned_take_bit_eq unat_drop_bit)
      (simp add: take_bit_eq_mod)
  have "ByteArray_nib n data ! i = (if even i then x div 16 else x) mod 16"
    using assms by (simp add: ByteArray_nib_nth unat_and_15 unat_drop_bit nib_shift_def x_def
        power_add div_mult2_eq)
  moreover have "4 * i div 64 = i div 16" "4 * i mod 8 = 0 \<longleftrightarrow> even i" by presburger+
  ultimately show ?thesis
    using assms b unfolding ByteArray_get_branch_bits_def and_56_of_nib Let_def
    by (simp add: unat_and_15 unat_drop_bit nib_arith)
qed

lemma ctzll_zero_bits: "i < ctzll w \<Longrightarrow> \<not> bit w i"
  using length_takeWhile_nth [of i "\<lambda>i. \<not> bit w i" "[0..<64]"]
    length_takeWhile_le [of "\<lambda>i. \<not> bit w i" "[0..<64]"]
  by (simp add: ctzll_def)

lemma ctzll_one_bit: "w \<noteq> 0 \<Longrightarrow> ctzll w < 64 \<and> bit w (ctzll w)"
proof -
  assume "w \<noteq> 0"
  then obtain m where m: "bit w m" by (metis bit_eqI bit_0_eq bot_apply bot_bool_def)
  then have "m < 64" using bit_imp_le_length [of w m] by simp
  with m have "\<not> m < ctzll w" using ctzll_zero_bits [of m w] by blast
  with \<open>m < 64\<close> have "ctzll w < 64" by simp
  then show ?thesis
    using nth_length_takeWhile [of "\<lambda>i. \<not> bit w i" "[0..<64]"] by (simp add: ctzll_def)
qed

text \<open>The offset computed for a non-zero difference: no digit before it differs, the digit
  at it does.\<close>

lemma and_eq_0_bits:
  fixes w :: "64 word"
  shows "drop_bit s w AND 0xF0 = 0 \<longleftrightarrow> (\<forall>t < 4. \<not> bit w (s + 4 + t))"
    and "drop_bit s w AND 0x0F = 0 \<longleftrightarrow> (\<forall>t < 4. \<not> bit w (s + t))"
proof -
  have c: "(0xF0 :: 64 word) = push_bit 4 (mask 4)" "(0x0F :: 64 word) = mask 4"
    by (simp_all add: mask_eq_exp_minus_1 push_bit_eq_mult)
  have le: "bit w k \<Longrightarrow> k < 64" for k using bit_imp_le_length [of w k] by simp
  show "drop_bit s w AND 0xF0 = 0 \<longleftrightarrow> (\<forall>t < 4. \<not> bit w (s + 4 + t))" (is "?l \<longleftrightarrow> ?r")
  proof
    assume l: ?l
    have "\<not> bit w (s + 4 + t)" if "t < 4" for t
      using arg_cong [OF l, of "\<lambda>x. bit x (4 + t)"] that unfolding c
      by (simp add: bit_simps add.assoc)
    then show ?r by blast
  next
    assume r: ?r
    show ?l unfolding c
    proof (rule bit_word_eqI)
      fix k assume "k < LENGTH(64)"
      show "bit (drop_bit s w AND push_bit 4 (mask 4)) k = bit (0 :: 64 word) k"
        using r [rule_format, of "k - 4"] by (auto simp: bit_simps)
    qed
  qed
  show "drop_bit s w AND 0x0F = 0 \<longleftrightarrow> (\<forall>t < 4. \<not> bit w (s + t))" (is "?l \<longleftrightarrow> ?r")
  proof
    assume l: ?l
    have "\<not> bit w (s + t)" if "t < 4" for t
      using arg_cong [OF l, of "\<lambda>x. bit x t"] that unfolding c by (simp add: bit_simps)
    then show ?r by blast
  qed (unfold c, auto intro!: bit_word_eqI simp: bit_simps)
qed

lemma word_match_offset_cases:
  assumes "w \<noteq> 0"
  defines "c \<equiv> ctzll w div 8"
  shows "c < 8"
    and "(\<forall>t < 4. \<not> bit w (8 * c + 4 + t)) \<Longrightarrow> word_match_offset w = 8 * c + 4 \<and> (\<exists>t < 4. bit w (8 * c + t))"
    and "\<exists>t < 4. bit w (8 * c + 4 + t) \<Longrightarrow> word_match_offset w = 8 * c"
proof -
  have z: "ctzll w < 64" "bit w (ctzll w)" using ctzll_one_bit [OF assms(1)] by auto
  have off: "ctzll w - ctzll w mod 8 = 8 * c" by (simp add: c_def minus_mod_eq_mult_div)
  have r: "ctzll w = 8 * c + ctzll w mod 8" by (simp add: c_def)
  show "c < 8" using z by (simp add: c_def)
  show "word_match_offset w = 8 * c" if "\<exists>t < 4. bit w (8 * c + 4 + t)"
    unfolding word_match_offset_def off Let_def and_eq_0_bits using that by auto
  show "word_match_offset w = 8 * c + 4 \<and> (\<exists>t < 4. bit w (8 * c + t))"
    if h: "\<forall>t < 4. \<not> bit w (8 * c + 4 + t)"
  proof -
    have "ctzll w mod 8 < 4"
    proof (rule ccontr)
      assume "\<not> ctzll w mod 8 < 4"
      then have "ctzll w = 8 * c + 4 + (ctzll w mod 8 - 4)" "ctzll w mod 8 - 4 < 4" using r by auto
      with h z(2) show False by metis
    qed
    then have "\<exists>t < 4. bit w (8 * c + t)" using z(2) r by metis
    then show ?thesis unfolding word_match_offset_def off Let_def and_eq_0_bits using h by auto
  qed
qed

lemma ByteArray_match_loop_eq:
  assumes "length xs = length ys"
  shows "ByteArray_match_loop i xs ys res =
    (if xs = ys then res
     else min ((i + lcp xs ys) * 64 + word_match_offset (xs ! lcp xs ys XOR ys ! lcp xs ys)) res)"
  using assms
proof (induction i xs ys res rule: ByteArray_match_loop.induct)
  case (1 i x xs y ys res)
  then show ?case by (auto simp: lcp_def xor_zero_iff Let_def)
qed auto

lemma nib_position:
  assumes "c < 8"
  shows "(16 * k + 2 * c) div 16 = k" "nib_shift (16 * k + 2 * c) = 8 * c + 4"
    "(16 * k + 2 * c + 1) div 16 = k" "nib_shift (16 * k + 2 * c + 1) = 8 * c"
proof -
  have "(16 * k + 2 * c) div 2 = 8 * k + c" "(16 * k + 2 * c + 1) div 2 = 8 * k + c" by auto
  then show "nib_shift (16 * k + 2 * c) = 8 * c + 4" "nib_shift (16 * k + 2 * c + 1) = 8 * c"
    using assms unfolding nib_shift_def by simp_all
qed (use assms in auto)

lemma ByteArray_lcp:
  assumes v: "ByteArray_valid n p" "ByteArray_valid n q" and ne: "p \<noteq> q"
  defines "k \<equiv> lcp p q"
  shows "lcp (ByteArray_nib n p) (ByteArray_nib n q) = 16 * k + word_match_offset (p ! k XOR q ! k) div 4"
    and "k * 64 + word_match_offset (p ! k XOR q ! k) < 8 * n"
    and "4 dvd word_match_offset (p ! k XOR q ! k)"
proof -
  define w where "w = p ! k XOR q ! k"
  define c where "c = ctzll w div 8"
  have len: "length p = WORDS n" "length q = WORDS n" using v by (auto simp: ByteArray_valid_def)
  have k: "k < WORDS n"
    using lcp_full_iff [of p q] lcp_le [of p q] len ne by (simp add: k_def)
  have w0: "w \<noteq> 0" using lcp_differ [of p q] k len by (simp add: w_def k_def xor_zero_iff)
  have c: "c < 8" using word_match_offset_cases(1) [OF w0] by (simp add: c_def)
  have wb: "bit w b \<longleftrightarrow> bit (p ! k) b \<noteq> bit (q ! k) b" for b by (auto simp: w_def bit_xor_iff)
  have low: "bit (p ! k) b = bit (q ! k) b" if "b < 8 * c" for b
    using ctzll_zero_bits [of b w] that wb [of b] by (simp add: c_def)
  have inside: "8 * k + c < n" if "bit w b" "b div 8 = c" "b < 64" for b
    using that v k wb [of b] by (metis ByteArray_valid_def not_less)
  have before: "ByteArray_nib n p ! j = ByteArray_nib n q ! j" if j: "j < 2 * n" "j < 16 * k + 2 * c" for j
  proof (cases "j div 16 < k")
    case True
    then show ?thesis using j lcp_nth [of "j div 16" p q] by (simp add: ByteArray_nib_eq_iff k_def)
  next
    case False
    then have jk: "j div 16 = k" using j(2) c by (simp add: less_mult_imp_div_less)
    have "j div 2 mod 8 < c" using j(2) jk c by presburger
    then have "nib_shift j + t < 8 * c" if "t < 4" for t using that by (auto simp: nib_shift_def)
    then show ?thesis using j jk low by (simp add: ByteArray_nib_eq_iff)
  qed
  have main: "lcp (ByteArray_nib n p) (ByteArray_nib n q) = 16 * k + word_match_offset w div 4 \<and>
      k * 64 + word_match_offset w < 8 * n \<and> 4 dvd word_match_offset w"
  proof (cases "\<exists>t < 4. bit w (8 * c + 4 + t)")
    case True
    then obtain t where t: "t < 4" "bit w (8 * c + 4 + t)" by blast
    have off: "word_match_offset w = 8 * c"
      using word_match_offset_cases(3) [OF w0] True by (simp add: c_def)
    have n: "8 * k + c < n" using t c by (intro inside [of "8 * c + 4 + t"]) auto
    have "lcp (ByteArray_nib n p) (ByteArray_nib n q) = 16 * k + 2 * c"
    proof (rule lcp_eqI)
      show "ByteArray_nib n p ! (16 * k + 2 * c) \<noteq> ByteArray_nib n q ! (16 * k + 2 * c)"
        using n t wb nib_position [OF c, of k] by (auto simp: ByteArray_nib_eq_iff)
    qed (use n before in auto)
    then show ?thesis using off n by auto
  next
    case False
    then have off: "word_match_offset w = 8 * c + 4" and "\<exists>t < 4. bit w (8 * c + t)"
      using word_match_offset_cases(2) [OF w0] by (auto simp: c_def)
    then obtain t where t: "t < 4" "bit w (8 * c + t)" by blast
    have n: "8 * k + c < n" using t c by (intro inside [of "8 * c + t"]) auto
    have high: "ByteArray_nib n p ! (16 * k + 2 * c) = ByteArray_nib n q ! (16 * k + 2 * c)"
      using n False wb nib_position [OF c, of k] by (simp add: ByteArray_nib_eq_iff)
    have "lcp (ByteArray_nib n p) (ByteArray_nib n q) = 16 * k + 2 * c + 1"
    proof (rule lcp_eqI)
      show "ByteArray_nib n p ! (16 * k + 2 * c + 1) \<noteq> ByteArray_nib n q ! (16 * k + 2 * c + 1)"
        using n t wb nib_position(3,4) [OF c, of k] by (auto simp: ByteArray_nib_eq_iff)
      show "ByteArray_nib n p ! j = ByteArray_nib n q ! j" if "j < 16 * k + 2 * c + 1" for j
        using that before [of j] high n by (cases "j = 16 * k + 2 * c") auto
    qed (use n in auto)
    then show ?thesis using off n by auto
  qed
  from main show "lcp (ByteArray_nib n p) (ByteArray_nib n q) = 16 * k + word_match_offset (p ! k XOR q ! k) div 4"
    and "k * 64 + word_match_offset (p ! k XOR q ! k) < 8 * n"
    and "4 dvd word_match_offset (p ! k XOR q ! k)"
    by (simp_all add: w_def)
qed

lemma ByteArray_match_len:
  assumes v: "ByteArray_valid n p" "ByteArray_valid n q" and "4 * i \<le> 8 * n" "4 * j \<le> 8 * n"
  shows "ByteArray_get_prefix_match_len n p (4 * i) q (4 * j) =
    4 * min (lcp (ByteArray_nib n p) (ByteArray_nib n q)) (min i j)"
proof -
  have len: "length p = WORDS n" "length q = WORDS n" using v by (auto simp: ByteArray_valid_def)
  have mr: "4 * min a (min i j) = min (4 * a) (min (4 * i) (4 * j))" for a by (simp add: min_def)
  show ?thesis
  proof (cases "p = q")
    case True
    then show ?thesis
      using assms len lcp_full_iff [of "ByteArray_nib n q" "ByteArray_nib n q"]
      by (simp add: ByteArray_get_prefix_match_len_def ByteArray_match_loop_eq mr)
  next
    case False
    note l = ByteArray_lcp [OF v False]
    have m: "min (lcp p q * 64 + word_match_offset (p ! lcp p q XOR q ! lcp p q)) (n * 8) =
        lcp p q * 64 + word_match_offset (p ! lcp p q XOR q ! lcp p q)"
      using l(2) by simp
    have d: "4 dvd lcp p q * 64 + word_match_offset (p ! lcp p q XOR q ! lcp p q)"
      using l(3) by simp
    have "4 * (16 * lcp p q + word_match_offset (p ! lcp p q XOR q ! lcp p q) div 4) =
        lcp p q * 64 + word_match_offset (p ! lcp p q XOR q ! lcp p q)" using l(3) by simp
    then show ?thesis
      using False len d unfolding mr l(1) ByteArray_get_prefix_match_len_def
      by (simp add: ByteArray_match_loop_eq m Let_def dvd_eq_mod_eq_0 del: mult_less_cancel2)
  qed
qed

lemma nib_word: "j < 2 * n \<Longrightarrow> j div 16 < WORDS n"
  unfolding WORDS_def by (auto split: if_splits)

lemma ByteArray_clear_nib: "ByteArray_nib n (ByteArray_clear n) = replicate (2 * n) 0"
  by (rule nth_equalityI) (simp_all add: ByteArray_nib_nth ByteArray_clear_def nib_word)

lemma nib_gap: "8 * a + 4 \<le> 8 * b + t \<Longrightarrow> 8 * b + t < 8 * a + 8 \<Longrightarrow> (4::nat) \<le> t"
  by presburger

lemma nib_order:
  fixes i j :: nat
  shows "j < i \<longleftrightarrow> j div 16 < i div 16 \<or> j div 16 = i div 16 \<and>
     (j div 2 mod 8 < i div 2 mod 8 \<or> j div 2 mod 8 = i div 2 mod 8 \<and> even j \<and> odd i)"
proof -
  have d: "x div 16 = x div 2 div 8" for x :: nat by (simp add: div_mult2_eq [symmetric])
  have "j mod 2 < i mod 2 \<longleftrightarrow> even j \<and> odd i" by presburger
  then show ?thesis
    unfolding d using less_div_mod_iff [of 2 j i] less_div_mod_iff [of 8 "j div 2" "i div 2"]
    by (metis div_mult_mod_eq zero_less_numeral)
qed

lemma ByteArray_clear_valid: "ByteArray_valid n (ByteArray_clear n)"
  by (simp add: ByteArray_valid_def ByteArray_clear_def)

lemma truncate_mask_bit:
  fixes off b :: nat
  shows "bit ((2 :: 64 word) ^ off - 1) b \<longleftrightarrow> b < off \<and> b < 64"
    and "off + 8 \<le> 64 \<Longrightarrow> bit (push_bit off (0xF0 :: 64 word)) b \<longleftrightarrow> off + 4 \<le> b \<and> b < off + 8"
proof -
  show "bit ((2 :: 64 word) ^ off - 1) b \<longleftrightarrow> b < off \<and> b < 64"
    by (auto simp: bit_simps simp flip: mask_eq_exp_minus_1)
  have c: "(0xF0 :: 64 word) = push_bit 4 (mask 4)" by (simp add: mask_eq_exp_minus_1 push_bit_eq_mult)
  have "push_bit off (0xF0 :: 64 word) = push_bit (off + 4) (mask 4)"
    unfolding c by (simp add: push_bit_push_bit)
  then show "off + 8 \<le> 64 \<Longrightarrow> bit (push_bit off (0xF0 :: 64 word)) b \<longleftrightarrow> off + 4 \<le> b \<and> b < off + 8"
    by (auto simp: bit_simps)
qed

lemma ByteArray_truncate_bits:
  assumes "4 * i < 8 * n" "length data = WORDS n"
  shows "\<exists>q. ByteArray_truncate n data (4 * i) = Inr q \<and> length q = WORDS n \<and>
    (\<forall>k < WORDS n. \<forall>b < 64. bit (q ! k) b \<longleftrightarrow> bit (data ! k) b \<and>
       (k < i div 16 \<or> k = i div 16 \<and>
        (b < 8 * (i div 2 mod 8) \<or>
         odd i \<and> 8 * (i div 2 mod 8) + 4 \<le> b \<and> b < 8 * (i div 2 mod 8) + 8)))"
proof -
  have e: "4 * i div 64 = i div 16" "4 * i mod 8 \<noteq> 0 \<longleftrightarrow> odd i" by presburger+
  have m8: "8 * (i div 2 mod 8) + 8 \<le> 64" using mod_less_divisor [of 8 "i div 2"] by simp
  show ?thesis
    unfolding ByteArray_truncate_def Let_def and_56_of_nib e using assms(1)
    by (auto simp: bit_and_iff bit_or_iff truncate_mask_bit(1) truncate_mask_bit(2) [OF m8])
qed

lemma ByteArray_truncate_nib:
  assumes v: "ByteArray_valid n data" and i: "4 * i < 8 * n"
  shows "\<exists>q. ByteArray_truncate n data (4 * i) = Inr q \<and> ByteArray_valid n q \<and>
    ByteArray_nib n q = take i (ByteArray_nib n data) @ replicate (2 * n - i) 0"
proof -
  have len: "length data = WORDS n" using v by (simp add: ByteArray_valid_def)
  obtain q where q: "ByteArray_truncate n data (4 * i) = Inr q" "length q = WORDS n"
    and bits: "\<And>k b. k < WORDS n \<Longrightarrow> b < 64 \<Longrightarrow> bit (q ! k) b \<longleftrightarrow> bit (data ! k) b \<and>
       (k < i div 16 \<or> k = i div 16 \<and>
        (b < 8 * (i div 2 mod 8) \<or>
         odd i \<and> 8 * (i div 2 mod 8) + 4 \<le> b \<and> b < 8 * (i div 2 mod 8) + 8))"
    using ByteArray_truncate_bits [OF i len] by blast
  have "ByteArray_valid n q" using v q(2) bits by (auto simp: ByteArray_valid_def)
  moreover have "ByteArray_nib n q = take i (ByteArray_nib n data) @ replicate (2 * n - i) 0"
  proof (rule nth_equalityI)
    show "length (ByteArray_nib n q) = length (take i (ByteArray_nib n data) @ replicate (2 * n - i) 0)"
      using i by simp
    fix j assume "j < length (ByteArray_nib n q)"
    then have j: "j < 2 * n" by simp
    then have w: "j div 16 < WORDS n" by (rule nib_word)
    have b: "nib_shift j + t < 64" if "t < 4" for t using nib_shift_bound [of j] that by simp
    show "ByteArray_nib n q ! j = (take i (ByteArray_nib n data) @ replicate (2 * n - i) 0) ! j"
    proof (cases "j < i")
      case True
      then have "j div 16 < i div 16 \<or> j div 16 = i div 16 \<and>
          (j div 2 mod 8 < i div 2 mod 8 \<or> j div 2 mod 8 = i div 2 mod 8 \<and> even j \<and> odd i)"
        using nib_order [of j i] by blast
      then have "ByteArray_nib n q ! j = ByteArray_nib n data ! j"
        using j by (subst ByteArray_nib_eq_iff) (auto simp: bits w b nib_shift_def)
      then show ?thesis using True j by (simp add: nth_append)
    next
      case False
      then have "i div 16 < j div 16 \<or> j div 16 = i div 16 \<and>
          (i div 2 mod 8 < j div 2 mod 8 \<or> i div 2 mod 8 = j div 2 mod 8 \<and> (even i \<or> odd j))"
        using nib_order [of j i] by (meson linorder_neqE_nat)
      then have "ByteArray_nib n q ! j = ByteArray_nib n (ByteArray_clear n) ! j"
        using j w by (subst ByteArray_nib_eq_iff) (auto simp: bits w b nib_shift_def ByteArray_clear_def dest: nib_gap)
      then show ?thesis using False j i by (simp add: nth_append ByteArray_clear_nib)
    qed
  qed
  ultimately show ?thesis using q(1) by blast
qed

lemma memcmp_less_iff:
  "length xs = length ys \<Longrightarrow> memcmp xs ys < 0 \<longleftrightarrow> lexless (map unat xs) (map unat ys)"
  by (induction xs ys rule: memcmp.induct) (auto simp: word_less_nat_alt word_unat_eq_iff)

lemma lexless_nib_pairs:
  "length xs = length ys \<Longrightarrow>
   lexless (concat (map (\<lambda>x. [x div 16, x mod 16]) xs)) (concat (map (\<lambda>x. [x div 16, x mod 16 :: nat]) ys))
   \<longleftrightarrow> lexless xs ys"
proof (induction xs ys rule: list_induct2)
  case (Cons x xs y ys)
  have "x = y \<longleftrightarrow> x div 16 = y div 16 \<and> x mod 16 = y mod 16"
    by (metis div_mult_mod_eq)
  moreover have "x < y \<longleftrightarrow> x div 16 < y div 16 \<or> x div 16 = y div 16 \<and> x mod 16 < y mod 16"
    by (rule less_div_mod_iff) simp
  ultimately show ?case using Cons by auto
qed simp

lemma ByteArray_nib_concat:
  "ByteArray_nib n data = concat (map (\<lambda>x. [x div 16, x mod 16]) (map unat (ByteArray_get_bytes_array n data)))"
proof (induction n)
  case (Suc n)
  have u: "unat (ByteArray_byte data n) = unat (data ! (n div 8)) div 2 ^ (8 * (n mod 8)) mod 256"
    by (simp add: ByteArray_byte_def unsigned_ucast_eq unat_drop_bit) (simp add: take_bit_eq_mod)
  have "2 * n div 16 = n div 8" "Suc (2 * n) div 16 = n div 8" by presburger+
  moreover have "nib_shift (2 * n) = 8 * (n mod 8) + 4" "nib_shift (Suc (2 * n)) = 8 * (n mod 8)"
    by (simp_all add: nib_shift_def)
  ultimately have "ByteArray_nib (Suc n) data = ByteArray_nib n data @
      [unat (ByteArray_byte data n) div 16, unat (ByteArray_byte data n) mod 16]"
    by (simp add: ByteArray_nib_def u unat_and_15 unat_drop_bit power_add div_mult2_eq nib_arith)
  then show ?case using Suc by (simp add: ByteArray_get_bytes_array_def)
qed (simp add: ByteArray_nib_def ByteArray_get_bytes_array_def)

lemma ByteArray_less_iff:
  "ByteArray_less n p q \<longleftrightarrow> lexless (ByteArray_nib n p) (ByteArray_nib n q)"
  unfolding ByteArray_less_def ByteArray_nib_concat
  by (subst lexless_nib_pairs) (simp_all add: memcmp_less_iff ByteArray_get_bytes_array_def)

locale byte_array_prefix =
  fixes n :: nat
  assumes n_pos: "0 < n"

sublocale byte_array_prefix \<subseteq> trie_prefix "ByteArrayPrefix_ops n" "ByteArray_valid n" "ByteArray_nib n"
proof (unfold_locales, unfold ByteArrayPrefix_ops_def, goal_cases)
  case 1
  then show ?case using n_pos by simp
next
  case 2
  then show ?case by simp
next
  case (3 p)
  then show ?case by simp
next
  case (4 p d)
  then show ?case by (simp add: ByteArray_nib_bound)
next
  case (5 p q)
  then show ?case by (simp add: ByteArray_nib_inject)
next
  case (6 p i)
  then show ?case by (simp add: ByteArray_branch_bits)
next
  case (7 p n)
  then show ?case by (simp add: ByteArray_get_branch_bits_def)
next
  case (8 p q i j)
  then show ?case by (simp add: ByteArray_match_len)
next
  case (9 p i)
  then show ?case using ByteArray_truncate_nib [of n p i] by simp
next
  case (10 p q)
  then show ?case by (simp add: ByteArray_less_iff)
next
  case 11
  then show ?case by (simp add: ByteArray_clear_valid)
next
  case 12
  then show ?case by (simp add: ByteArray_clear_nib)
qed

text \<open>The size of the keys that are hashes.\<close>

context byte_array_prefix
begin

lemma prefix_contract: "trie_prefix (ByteArrayPrefix_ops n) (ByteArray_valid n) (ByteArray_nib n)"
  by (rule trie_prefix_axioms)

end

interpretation ba32: byte_array_prefix 32
  by unfold_locales simp

section \<open>Reading and writing bytes\<close>

lemma ByteArray_byte_bit:
  "t < 8 \<Longrightarrow> bit (ByteArray_byte data i) t \<longleftrightarrow> bit (data ! (i div 8)) (8 * (i mod 8) + t)"
  by (simp add: ByteArray_byte_def bit_simps)

lemma ByteArray_put_byte_bit:
  assumes "i div 8 < length data" "k < length data" "b < 64"
  shows "bit (ByteArray_put_byte data i x ! k) b \<longleftrightarrow>
    (if 8 * k + b div 8 = i then bit x (b mod 8) else bit (data ! k) b)"
proof (cases "k = i div 8")
  case True
  have ff: "(0xFF :: 64 word) = mask 8" by (simp add: mask_eq_exp_minus_1)
  have dm: "b div 8 = m \<longleftrightarrow> 8 * m \<le> b \<and> b < 8 * m + 8" for m
    using mult_div_mod_eq [of 8 b] mod_less_divisor [of 8 b] by (auto intro: div_nat_eqI)
  have "8 * k + b div 8 = i \<longleftrightarrow> b div 8 = i mod 8"
    unfolding True using mult_div_mod_eq [of 8 i] by linarith
  then have R: "8 * k + b div 8 = i \<longleftrightarrow> 8 * (i mod 8) \<le> b \<and> b < 8 * (i mod 8) + 8"
    by (simp only: dm)
  have put: "bit (ByteArray_put_byte data i x ! k) b \<longleftrightarrow>
      bit (data ! k) b \<and> \<not> (8 * (i mod 8) \<le> b \<and> b < 8 * (i mod 8) + 8) \<or>
      8 * (i mod 8) \<le> b \<and> bit x (b - 8 * (i mod 8))"
    using assms True unfolding ByteArray_put_byte_def ff by (auto simp: bit_simps)
  show ?thesis
  proof (cases "8 * k + b div 8 = i")
    case eq: True
    then have "b div 8 = i mod 8" using True mult_div_mod_eq [of 8 i] by linarith
    then have "b - 8 * (i mod 8) = b mod 8" by (metis minus_mult_div_eq_mod)
    then show ?thesis using eq R put by simp
  next
    case ne: False
    have "\<not> (8 * (i mod 8) \<le> b \<and> bit x (b - 8 * (i mod 8)))"
      using ne R bit_imp_le_length [of x "b - 8 * (i mod 8)"] by auto
    then show ?thesis using ne R put by auto
  qed
next
  case False
  then have "8 * k + b div 8 \<noteq> i" using assms(3) by auto
  then show ?thesis using False by (simp add: ByteArray_put_byte_def)
qed

lemma ByteArray_byte_put:
  assumes "i div 8 < length data" "j div 8 < length data"
  shows "ByteArray_byte (ByteArray_put_byte data i x) j = (if i = j then x else ByteArray_byte data j)"
proof (rule bit_word_eqI)
  fix t assume "t < LENGTH(8)"
  then have t: "t < 8" by simp
  have j: "8 * (j mod 8) + t < 64" "(8 * (j mod 8) + t) div 8 = j mod 8" "(8 * (j mod 8) + t) mod 8 = t"
    using t mod_less_divisor [of 8 j] by simp_all
  have "8 * (j div 8) + j mod 8 = j" by simp
  then show "bit (ByteArray_byte (ByteArray_put_byte data i x) j) t =
      bit (if i = j then x else ByteArray_byte data j) t"
    using t j assms ByteArray_put_byte_bit [of i data "j div 8" "8 * (j mod 8) + t" x]
    by (auto simp: ByteArray_byte_bit)
qed

lemma ByteArray_put_byte_valid:
  assumes "ByteArray_valid n data" "i < n"
  shows "ByteArray_valid n (ByteArray_put_byte data i x)"
proof -
  have "i div 8 < WORDS n" using assms(2) nib_word [of "2 * i" n] by simp
  then show ?thesis
    using assms ByteArray_put_byte_bit [of i data _ _ x]
    by (auto simp: ByteArray_valid_def ByteArray_put_byte_def [of data i x, THEN arg_cong [of _ _ length]])
qed

lemma ByteArray_from_bytes_aux:
  assumes "m \<le> n"
  shows "ByteArray_valid n (foldl (\<lambda>d i. ByteArray_put_byte d i (input ! i)) (ByteArray_clear n) [0..<m])
    \<and> (\<forall>j < n. ByteArray_byte (foldl (\<lambda>d i. ByteArray_put_byte d i (input ! i)) (ByteArray_clear n) [0..<m]) j
         = (if j < m then input ! j else 0))"
  using assms
proof (induction m)
  case 0
  have "j < n \<Longrightarrow> j div 8 < WORDS n" for j using nib_word [of "2 * j" n] by simp
  then have "j < n \<Longrightarrow> ByteArray_byte (ByteArray_clear n) j = 0" for j
    by (simp add: ByteArray_byte_def ByteArray_clear_def)
  then show ?case by (simp add: ByteArray_clear_valid)
next
  case (Suc m)
  have w: "j < n \<Longrightarrow> j div 8 < WORDS n" for j using nib_word [of "2 * j" n] by simp
  let ?d = "foldl (\<lambda>d i. ByteArray_put_byte d i (input ! i)) (ByteArray_clear n) [0..<m]"
  have v: "ByteArray_valid n ?d" and len: "length ?d = WORDS n"
    using Suc by (auto simp: ByteArray_valid_def)
  have "ByteArray_valid n (ByteArray_put_byte ?d m (input ! m))"
    using v Suc.prems by (intro ByteArray_put_byte_valid) auto
  then show ?case using Suc by (auto simp: ByteArray_byte_put w len less_Suc_eq)
qed

lemma ByteArray_from_bytes_valid: "ByteArray_valid n (ByteArray_from_bytes n input)"
  unfolding ByteArray_from_bytes_def using ByteArray_from_bytes_aux [of n n] by simp

lemma ByteArray_bytes_from_bytes:
  "length input = n \<Longrightarrow> ByteArray_get_bytes_array n (ByteArray_from_bytes n input) = input"
  unfolding ByteArray_from_bytes_def ByteArray_get_bytes_array_def
  using ByteArray_from_bytes_aux [of n n input] by (intro nth_equalityI) auto

lemma ByteArray_from_bytes_bytes:
  assumes "ByteArray_valid n data"
  shows "ByteArray_from_bytes n (ByteArray_get_bytes_array n data) = data"
proof (rule ByteArray_nib_inject [OF ByteArray_from_bytes_valid assms])
  show "ByteArray_nib n (ByteArray_from_bytes n (ByteArray_get_bytes_array n data)) = ByteArray_nib n data"
    by (simp add: ByteArray_nib_concat ByteArray_bytes_from_bytes [of "ByteArray_get_bytes_array n data"]
        ByteArray_get_bytes_array_def [of n data, THEN arg_cong [of _ _ length]])
qed

section \<open>Extending a prefix by one branch\<close>

lemma ByteArray_nib_byte:
  "j < 2 * n \<Longrightarrow> ByteArray_nib n data ! j =
     (if even j then unat (ByteArray_byte data (j div 2)) div 16
      else unat (ByteArray_byte data (j div 2)) mod 16)"
proof -
  assume j: "j < 2 * n"
  have u: "unat (ByteArray_byte data i) = unat (data ! (i div 8)) div 2 ^ (8 * (i mod 8)) mod 256" for i
    by (simp add: ByteArray_byte_def unsigned_ucast_eq unat_drop_bit) (simp add: take_bit_eq_mod)
  have "j div 2 div 8 = j div 16" by (simp add: div_mult2_eq [symmetric])
  then show ?thesis
    using j by (simp add: ByteArray_nib_nth u unat_and_15 unat_drop_bit nib_shift_def power_add
        div_mult2_eq nib_arith)
qed

lemma branch_byte_even:
  fixes bb :: byte
  assumes "unat bb < 16"
  shows "unat (ucast (push_bit 4 (ucast bb :: 32 word)) :: byte) = 16 * unat bb"
proof -
  have "(ucast (push_bit 4 (ucast bb :: 32 word)) :: byte) = push_bit 4 bb"
    by (rule bit_word_eqI) (auto simp: bit_simps)
  then show ?thesis using assms by (simp add: push_bit_eq_mult unat_word_ariths)
qed

lemma branch_byte_odd:
  fixes bb old :: byte
  assumes "unat bb < 16"
  shows "unat ((old AND 0xF0) OR bb) div 16 = unat old div 16"
    and "unat ((old AND 0xF0) OR bb) mod 16 = unat bb"
proof -
  have c: "(0xF0 :: byte) = push_bit 4 (mask 4)" by (simp add: mask_eq_exp_minus_1 push_bit_eq_mult)
  have "take_bit 4 bb = bb"
    using assms take_bit_eq_mod [of 4 "unat bb"]
    by (simp add: word_unat_eq_iff unsigned_take_bit_eq)
  then have small: "\<not> bit bb t" if "4 \<le> t" for t using that by (metis bit_take_bit_iff not_less)
  then have smallD: "bit bb t \<Longrightarrow> t < 4" for t using not_less by blast
  have "drop_bit 4 ((old AND 0xF0) OR bb) = drop_bit 4 old"
    unfolding c by (rule bit_word_eqI) (auto simp: bit_simps small dest: bit_imp_le_length)
  then show "unat ((old AND 0xF0) OR bb) div 16 = unat old div 16"
    using unat_drop_bit [of 4 "(old AND 0xF0) OR bb"] unat_drop_bit [of 4 old] by simp
  have "((old AND 0xF0) OR bb) AND 0x0F = bb"
    unfolding c by (rule bit_word_eqI) (auto simp: bit_simps mask_eq_exp_minus_1 [of 4, where ?'a = "8 word", simplified, symmetric] dest: smallD)
  then show "unat ((old AND 0xF0) OR bb) mod 16 = unat bb"
    using unat_and_15 [of "(old AND 0xF0) OR bb"] by simp
qed

lemma ByteArray_set_next_nib:
  fixes bb :: byte
  assumes v: "ByteArray_valid n data" and i: "4 * i < 8 * n" and bb: "unat bb < 16"
  shows "\<exists>q. ByteArray_set_next_branch_bits n data (4 * i) bb = Inr q \<and> ByteArray_valid n q \<and>
    take (Suc i) (ByteArray_nib n q) = take i (ByteArray_nib n data) @ [unat bb]"
proof -
  define old where "old = ByteArray_byte data (i div 2)"
  define new where "new = (if even i then ucast (push_bit 4 (ucast bb :: 32 word))
    else (old AND 0xF0) OR bb)"
  have e: "4 * i div 8 = i div 2" "4 * i mod 8 = (if even i then 0 else 4)" by presburger+
  have lt: "i div 2 < n" using i by simp
  have ff: "(65280 :: byte) = 0" "(4080 :: byte) = 240" by (simp_all add: word_unat_eq_iff)
  have up: "ucast (ucast bb :: 32 word) = bb" by (rule bit_word_eqI) (auto simp: bit_simps)
  have set: "ByteArray_set_next_branch_bits n data (4 * i) bb = Inr (ByteArray_put_byte data (i div 2) new)"
    unfolding ByteArray_set_next_branch_bits_def e Let_def using lt
    by (simp add: ByteArray_at_def ByteArray_set_byte_def new_def old_def ff up)
  have w: "j < n \<Longrightarrow> j div 8 < length data" for j
    using nib_word [of "2 * j" n] v by (simp add: ByteArray_valid_def)
  have "ByteArray_nib n (ByteArray_put_byte data (i div 2) new) ! j = (take i (ByteArray_nib n data) @ [unat bb]) ! j"
    if "j < Suc i" for j
  proof (cases "j = i")
    case True
    then show ?thesis
      using i lt w branch_byte_even [OF bb] branch_byte_odd [OF bb, of old]
      by (simp add: ByteArray_nib_byte ByteArray_byte_put new_def nth_append)
  next
    case False
    then have j: "j < i" "j < 2 * n" "j div 2 < n" using that i by auto
    have "ByteArray_nib n (ByteArray_put_byte data (i div 2) new) ! j = ByteArray_nib n data ! j"
    proof (cases "j div 2 = i div 2")
      case eq: True
      then have "even j" "odd i" using j(1) by presburger+
      then show ?thesis
        using eq j lt w branch_byte_odd [OF bb, of old]
        by (simp add: ByteArray_nib_byte ByteArray_byte_put new_def old_def)
    next
      case False
      then show ?thesis using j lt w by (simp add: ByteArray_nib_byte ByteArray_byte_put)
    qed
    then show ?thesis using j by (simp add: nth_append)
  qed
  then have "take (Suc i) (ByteArray_nib n (ByteArray_put_byte data (i div 2) new)) =
      take i (ByteArray_nib n data) @ [unat bb]"
    using i by (intro nth_equalityI) auto
  then show ?thesis using set ByteArray_put_byte_valid [OF v lt] by blast
qed

end
