(* ===== verification/ChildrenMap.thy ===== *)
theory ChildrenMap
  imports Prelude
begin

text \<open>
  \<^verbatim>\<open>trie/children_map.h\<close>: the contents of a trie node, either a value or up to 16
  children selected by branch bits.

  The source keeps an array of 16 pointers, of which a 16-bit vector says which are
  live.  The bit vector class \<^verbatim>\<open>utils::BitVector\<close> is not part of the repository; its
  operations are the record \<open>BitVector_ops\<close> passed to the definitions, and the locale
  \<open>bit_vector\<close> names what the code relies on.  \<open>FixedChildrenMap\<close> and the operations
  \<open>fcm_*\<close> translate the class.  The tries use the abstract form \<open>children_map\<close>, a value
  or a list of children sorted by branch bits, with the operations \<open>cm_*\<close>; the last
  section proves that the class implements it.
\<close>

unbundle bit_operations_syntax

section \<open>The abstract children map\<close>

datatype ('n, 'v) children_map = Value 'v | Children "(nat \<times> 'n) list"

fun cm_find :: "('n, 'v) children_map \<Rightarrow> nat \<Rightarrow> 'n option" where
  "cm_find (Value v) bb = None"
| "cm_find (Children cs) bb = map_of cs bb"

fun cm_list :: "('n, 'v) children_map \<Rightarrow> (nat \<times> 'n) list" where
  "cm_list (Value v) = []"
| "cm_list (Children cs) = cs"

definition cm_size :: "('n, 'v) children_map \<Rightarrow> nat" where
  "cm_size ch = length (cm_list ch)"

fun cm_value :: "('n, 'v) children_map \<Rightarrow> 'v res" where
  "cm_value (Value v) = Inr v"
| "cm_value (Children cs) = throw ''can't get value from non leaf''"

fun cm_emplace :: "('n, 'v) children_map \<Rightarrow> nat \<Rightarrow> 'n \<Rightarrow> ('n, 'v) children_map res" where
  "cm_emplace (Value v) bb n = throw ''can't emplace ptr if value active!''"
| "cm_emplace (Children cs) bb n = Inr (Children (al_put bb n cs))"

fun cm_extract :: "('n, 'v) children_map \<Rightarrow> nat \<Rightarrow> ('n \<times> ('n, 'v) children_map) res" where
  "cm_extract (Value v) bb = throw ''can't erase if value active''"
| "cm_extract (Children cs) bb =
     (case map_of cs bb of
        None \<Rightarrow> throw ''can't extract invalid node!''
      | Some n \<Rightarrow> Inr (n, Children (al_del bb cs)))"

definition cm_erase :: "('n, 'v) children_map \<Rightarrow> nat \<Rightarrow> ('n, 'v) children_map res" where
  "cm_erase ch bb =
     (case cm_find ch bb of
        None \<Rightarrow> throw ''cannot erase nonexistent loc!''
      | Some n \<Rightarrow> Inr (Children (al_del bb (cm_list ch))))"

text \<open>A child updated in place, through the pointer the map holds.\<close>

definition cm_set :: "('n, 'v) children_map \<Rightarrow> nat \<Rightarrow> 'n \<Rightarrow> ('n, 'v) children_map" where
  "cm_set ch bb n = Children (al_put bb n (cm_list ch))"

lemma cm_simps [simp]:
  "cm_size (Value v) = 0" "cm_size (Children cs) = length cs"
  "cm_set (Children cs) bb n = Children (al_put bb n cs)"
  by (simp_all add: cm_size_def cm_set_def)

lemma cm_find_list: "cm_find ch bb = map_of (cm_list ch) bb"
  by (cases ch) simp_all

lemma cm_erase_Children [simp]:
  "cm_erase (Children cs) bb =
     (case map_of cs bb of None \<Rightarrow> throw ''cannot erase nonexistent loc!''
      | Some n \<Rightarrow> Inr (Children (al_del bb cs)))"
  by (simp add: cm_erase_def split: option.split)

lemma cm_find_size_less [termination_simp]:
  "cm_find ch bb = Some c \<Longrightarrow> f c < Suc (size_children_map f g ch)"
  by (cases ch) (auto simp: less_Suc_eq dest!: map_of_size_less [where f = f])

section \<open>The bit vector interface\<close>

record 'b BitVector_ops =
  bv_clear :: "'b"
  bv_add :: "'b \<Rightarrow> nat \<Rightarrow> 'b"
  bv_erase :: "'b \<Rightarrow> nat \<Rightarrow> 'b"
  bv_contains :: "'b \<Rightarrow> nat \<Rightarrow> bool"
  bv_lowest :: "'b \<Rightarrow> nat"
  bv_pop :: "'b \<Rightarrow> nat \<times> 'b"
  bv_drop_lt :: "'b \<Rightarrow> nat \<Rightarrow> 'b"
  bv_size :: "'b \<Rightarrow> nat"

locale bit_vector =
  fixes B :: "'b BitVector_ops" and bvset :: "'b \<Rightarrow> nat set"
  assumes bv_range: "bvset s \<subseteq> {..<16}"
    and bv_clear: "bvset (bv_clear B) = {}"
    and bv_add: "b < 16 \<Longrightarrow> bvset (bv_add B s b) = insert b (bvset s)"
    and bv_erase: "b < 16 \<Longrightarrow> bvset (bv_erase B s b) = bvset s - {b}"
    and bv_contains: "b < 16 \<Longrightarrow> bv_contains B s b \<longleftrightarrow> b \<in> bvset s"
    and bv_lowest: "bvset s \<noteq> {} \<Longrightarrow> bv_lowest B s = Min (bvset s)"
    and bv_pop: "bvset s \<noteq> {} \<Longrightarrow> bv_pop B s = (Min (bvset s), bv_erase B s (Min (bvset s)))"
    and bv_drop_lt: "b < 16 \<Longrightarrow> bvset (bv_drop_lt B s b) = {x \<in> bvset s. b \<le> x}"
    and bv_size: "bv_size B s = card (bvset s)"

section \<open>FixedChildrenMap\<close>

text \<open>The array holds a pointer per branch (\<open>None\<close> is null); entries whose bit is not set are
  stale.  \<open>value_slot\<close> shares storage with the array and is meaningful while \<open>value_active\<close>.\<close>

record ('n, 'v, 'b) FixedChildrenMap =
  ptr_map :: "nat \<Rightarrow> 'n option"
  value_slot :: "'v"
  bv :: "'b"
  value_active :: bool

definition fcm_of_value :: "'b BitVector_ops \<Rightarrow> (nat \<Rightarrow> 'n option) \<Rightarrow> 'v \<Rightarrow> ('n, 'v, 'b) FixedChildrenMap" where
  "fcm_of_value B junk v = \<lparr>ptr_map = junk, value_slot = v, bv = bv_clear B, value_active = True\<rparr>"

definition fcm_clear :: "'b BitVector_ops \<Rightarrow> ('n, 'v, 'b) FixedChildrenMap \<Rightarrow> ('n, 'v, 'b) FixedChildrenMap" where
  "fcm_clear B m = m\<lparr>value_active := False, bv := bv_clear B\<rparr>"

definition fcm_set_value ::
    "'b BitVector_ops \<Rightarrow> ('n, 'v, 'b) FixedChildrenMap \<Rightarrow> 'v \<Rightarrow> ('n, 'v, 'b) FixedChildrenMap" where
  "fcm_set_value B m v =
     (let m = (if \<not> value_active m then m\<lparr>bv := bv_clear B, value_active := True\<rparr> else m)
      in m\<lparr>value_slot := v\<rparr>)"

definition fcm_value :: "('n, 'v, 'b) FixedChildrenMap \<Rightarrow> 'v res" where
  "fcm_value m = (if value_active m then Inr (value_slot m) else throw ''can't get value from non leaf'')"

definition fcm_emplace ::
    "'b BitVector_ops \<Rightarrow> ('n, 'v, 'b) FixedChildrenMap \<Rightarrow> nat \<Rightarrow> 'n \<Rightarrow> ('n, 'v, 'b) FixedChildrenMap res" where
  "fcm_emplace B m branch_bits ptr =
     (if value_active m then throw ''can't emplace ptr if value active!''
      else Inr (m\<lparr>ptr_map := (ptr_map m)(branch_bits := Some ptr),
                  bv := bv_add B (bv m) branch_bits\<rparr>))"

definition fcm_extract ::
    "'b BitVector_ops \<Rightarrow> ('n, 'v, 'b) FixedChildrenMap \<Rightarrow> nat \<Rightarrow>
     ('n option \<times> ('n, 'v, 'b) FixedChildrenMap) res" where
  "fcm_extract B m branch_bits =
     (if value_active m then throw ''can't erase if value active''
      else
        let out = ptr_map m branch_bits in
        if \<not> bv_contains B (bv m) branch_bits then throw ''can't extract invalid node!''
        else Inr (out, m\<lparr>bv := bv_erase B (bv m) branch_bits\<rparr>))"

definition fcm_erase ::
    "'b BitVector_ops \<Rightarrow> ('n, 'v, 'b) FixedChildrenMap \<Rightarrow> nat \<Rightarrow> ('n, 'v, 'b) FixedChildrenMap res" where
  "fcm_erase B m loc =
     (if bv_contains B (bv m) loc then Inr (m\<lparr>bv := bv_erase B (bv m) loc\<rparr>)
      else throw ''cannot erase nonexistent loc!'')"

text \<open>\<^verbatim>\<open>find\<close> returns an iterator, which is a bit vector with the bits of the positions still to
  visit; \<open>None\<close> is \<^verbatim>\<open>end()\<close>.  Dereferencing reads the lowest bit.\<close>

definition fcm_find :: "'b BitVector_ops \<Rightarrow> ('n, 'v, 'b) FixedChildrenMap \<Rightarrow> nat \<Rightarrow> 'b option" where
  "fcm_find B m bb = (if bv_contains B (bv m) bb then Some (bv_drop_lt B (bv m) bb) else None)"

definition fcm_deref ::
    "'b BitVector_ops \<Rightarrow> ('n, 'v, 'b) FixedChildrenMap \<Rightarrow> 'b \<Rightarrow> nat \<times> 'n option" where
  "fcm_deref B m it = (let branch = bv_lowest B it in (branch, ptr_map m branch))"

text \<open>The loop \<^verbatim>\<open>for (iter = begin(); iter != end(); iter++)\<close>: an iterator visits at most 16
  positions, so 16 rounds are enough (\<open>fcm_iterate_list\<close> below).\<close>

fun fcm_iterate ::
    "nat \<Rightarrow> 'b BitVector_ops \<Rightarrow> ('n, 'v, 'b) FixedChildrenMap \<Rightarrow> 'b \<Rightarrow> (nat \<times> 'n option) list" where
  "fcm_iterate 0 B m it = []"
| "fcm_iterate (Suc fuel) B m it =
     (if bv_size B it = 0 then []
      else fcm_deref B m it # fcm_iterate fuel B m (snd (bv_pop B it)))"

definition fcm_list :: "'b BitVector_ops \<Rightarrow> ('n, 'v, 'b) FixedChildrenMap \<Rightarrow> (nat \<times> 'n option) list" where
  "fcm_list B m = fcm_iterate 16 B m (bv m)"

definition fcm_size :: "'b BitVector_ops \<Rightarrow> ('n, 'v, 'b) FixedChildrenMap \<Rightarrow> nat" where
  "fcm_size B m = bv_size B (bv m)"

text \<open>The move constructor: the new map takes the contents, the old one is left empty.\<close>

definition fcm_move ::
    "'b BitVector_ops \<Rightarrow> ('n, 'v, 'b) FixedChildrenMap \<Rightarrow>
     ('n, 'v, 'b) FixedChildrenMap \<times> ('n, 'v, 'b) FixedChildrenMap" where
  "fcm_move B other =
     (if value_active other then (other, other)
      else (other, other\<lparr>ptr_map := (\<lambda>_. None), bv := bv_clear B\<rparr>))"

section \<open>The class implements the abstract map\<close>

definition fcm_inv :: "('b \<Rightarrow> nat set) \<Rightarrow> ('n, 'v, 'b) FixedChildrenMap \<Rightarrow> bool" where
  "fcm_inv bvset m \<longleftrightarrow>
     (value_active m \<longrightarrow> bvset (bv m) = {}) \<and> (\<forall>b \<in> bvset (bv m). ptr_map m b \<noteq> None)"

definition fcm_children :: "('b \<Rightarrow> nat set) \<Rightarrow> ('n, 'v, 'b) FixedChildrenMap \<Rightarrow> (nat \<times> 'n) list" where
  "fcm_children bvset m = map (\<lambda>b. (b, the (ptr_map m b))) (sorted_list_of_set (bvset (bv m)))"

definition fcm_abs :: "('b \<Rightarrow> nat set) \<Rightarrow> ('n, 'v, 'b) FixedChildrenMap \<Rightarrow> ('n, 'v) children_map" where
  "fcm_abs bvset m =
     (if value_active m then Value (value_slot m) else Children (fcm_children bvset m))"

context bit_vector
begin

lemma bv_finite [simp]: "finite (bvset s)"
  using bv_range [of s] finite_subset by blast

lemma bv_in_range: "b \<in> bvset s \<Longrightarrow> b < 16"
  using bv_range [of s] by auto

lemma sorted_fcm_children: "sorted_keys (fcm_children bvset m)"
  by (simp add: fcm_children_def comp_def)

lemma map_of_fcm_children:
  "map_of (fcm_children bvset m) b = (if b \<in> bvset (bv m) then Some (the (ptr_map m b)) else None)"
  by (simp add: fcm_children_def map_of_map_restrict)

lemma fcm_children_eqI:
  "sorted_keys cs \<Longrightarrow> (\<And>b. map_of cs b = map_of (fcm_children bvset m) b) \<Longrightarrow> fcm_children bvset m = cs"
  using sorted_keys_map_of_inject [OF sorted_fcm_children, of cs m] by (auto simp: fun_eq_iff)

lemma fcm_find_abs:
  assumes "fcm_inv bvset m" "b < 16"
  shows "(case fcm_find B m b of
            None \<Rightarrow> cm_find (fcm_abs bvset m) b = None
          | Some it \<Rightarrow> fcm_deref B m it = (b, cm_find (fcm_abs bvset m) b) \<and>
              cm_find (fcm_abs bvset m) b \<noteq> None)"
proof (cases "b \<in> bvset (bv m)")
  case True
  have "Min {x \<in> bvset (bv m). b \<le> x} = b" using True by (intro Min_eqI) auto
  moreover have "bvset (bv_drop_lt B (bv m) b) \<noteq> {}" using True assms(2) by (auto simp: bv_drop_lt)
  ultimately show ?thesis
    using True assms by (auto simp: fcm_find_def fcm_deref_def bv_contains bv_lowest bv_drop_lt fcm_abs_def
        fcm_inv_def map_of_fcm_children Let_def)
qed (use assms in \<open>auto simp: fcm_find_def bv_contains fcm_abs_def map_of_fcm_children\<close>)

lemma fcm_emplace_abs:
  assumes "fcm_inv bvset m" "b < 16"
  shows "map_sum id (fcm_abs bvset) (fcm_emplace B m b n) = cm_emplace (fcm_abs bvset m) b n"
    and "fcm_emplace B m b n = Inr m' \<Longrightarrow> fcm_inv bvset m'"
proof -
  have "fcm_children bvset (m\<lparr>ptr_map := (ptr_map m)(b \<mapsto> n), bv := bv_add B (bv m) b\<rparr>) =
      al_put b n (fcm_children bvset m)"
    using assms by (intro fcm_children_eqI sorted_al_put sorted_fcm_children)
      (auto simp: map_of_al_put map_of_fcm_children bv_add)
  then show "map_sum id (fcm_abs bvset) (fcm_emplace B m b n) = cm_emplace (fcm_abs bvset m) b n"
    by (auto simp: fcm_emplace_def fcm_abs_def)
qed (use assms in \<open>auto simp: fcm_emplace_def fcm_inv_def bv_add split: if_splits\<close>)

lemma fcm_children_erase:
  assumes "b < 16"
  shows "fcm_children bvset (m\<lparr>bv := bv_erase B (bv m) b\<rparr>) = al_del b (fcm_children bvset m)"
  using assms by (intro fcm_children_eqI sorted_al_del sorted_fcm_children)
    (auto simp: map_of_al_del map_of_fcm_children bv_erase)

lemma fcm_extract_abs:
  assumes "fcm_inv bvset m" "b < 16"
  shows "map_sum id (\<lambda>(out, m'). (the out, fcm_abs bvset m')) (fcm_extract B m b) = cm_extract (fcm_abs bvset m) b"
    and "fcm_extract B m b = Inr (out, m') \<Longrightarrow> fcm_inv bvset m' \<and> out \<noteq> None"
  using assms
  by (auto simp: fcm_extract_def fcm_abs_def fcm_inv_def bv_contains bv_erase map_of_fcm_children
      fcm_children_erase Let_def split: if_splits)

lemma fcm_erase_abs:
  assumes "fcm_inv bvset m" "b < 16"
  shows "map_sum id (fcm_abs bvset) (fcm_erase B m b) = cm_erase (fcm_abs bvset m) b"
    and "fcm_erase B m b = Inr m' \<Longrightarrow> fcm_inv bvset m'"
  using assms
  by (auto simp: fcm_erase_def fcm_abs_def fcm_inv_def bv_contains bv_erase map_of_fcm_children
      fcm_children_erase cm_erase_def split: if_splits)

lemma fcm_value_abs: "fcm_value m = cm_value (fcm_abs bvset m)"
  by (simp add: fcm_value_def fcm_abs_def)

lemma fcm_size_abs: "fcm_inv bvset m \<Longrightarrow> fcm_size B m = cm_size (fcm_abs bvset m)"
  by (auto simp: fcm_size_def fcm_abs_def fcm_inv_def fcm_children_def bv_size)

lemma fcm_init_abs:
  "fcm_abs bvset (fcm_of_value B junk v) = Value v" "fcm_inv bvset (fcm_of_value B junk v)"
  "fcm_abs bvset (fcm_clear B m) = Children []" "fcm_inv bvset (fcm_clear B m)"
  "fcm_abs bvset (fcm_set_value B m v) = Value v" "fcm_inv bvset m \<Longrightarrow> fcm_inv bvset (fcm_set_value B m v)"
  by (auto simp: fcm_of_value_def fcm_clear_def fcm_set_value_def fcm_abs_def fcm_inv_def fcm_children_def
      bv_clear Let_def)

lemma fcm_move_abs:
  assumes "fcm_inv bvset m" "fcm_move B m = (m1, m2)"
  shows "fcm_abs bvset m1 = fcm_abs bvset m" "fcm_inv bvset m1" "fcm_inv bvset m2" "cm_list (fcm_abs bvset m2) = []"
  using assms by (auto simp: fcm_move_def fcm_abs_def fcm_inv_def fcm_children_def bv_clear split: if_splits)

text \<open>The iteration visits the children in increasing order of their branch bits and stops
  within 16 rounds.\<close>

lemma fcm_iterate_eq:
  assumes "card (bvset it) \<le> fuel"
  shows "fcm_iterate fuel B m it = map (\<lambda>b. (b, ptr_map m b)) (sorted_list_of_set (bvset it))"
  using assms
proof (induction fuel arbitrary: it)
  case (Suc fuel)
  show ?case
  proof (cases "bvset it = {}")
    case False
    then have m: "Min (bvset it) \<in> bvset it" by simp
    then have e: "bvset (bv_erase B it (Min (bvset it))) = bvset it - {Min (bvset it)}"
      using bv_in_range by (simp add: bv_erase)
    then have "card (bvset (bv_erase B it (Min (bvset it)))) \<le> fuel" using Suc.prems m by simp
    moreover have "sorted_list_of_set (bvset it) =
        Min (bvset it) # sorted_list_of_set (bvset it - {Min (bvset it)})"
      using False by (simp add: sorted_list_of_set_nonempty)
    ultimately show ?thesis
      using Suc.IH [of "bv_erase B it (Min (bvset it))"] False e
      by (simp add: bv_size bv_pop bv_lowest fcm_deref_def Let_def)
  qed (simp add: bv_size)
qed simp

lemma fcm_list_abs:
  assumes "fcm_inv bvset m"
  shows "fcm_list B m = map (\<lambda>(b, n). (b, Some n)) (cm_list (fcm_abs bvset m))"
proof -
  have "card (bvset (bv m)) \<le> 16" using card_mono [OF _ bv_range, of "bv m"] by simp
  moreover have "set (sorted_list_of_set (bvset (bv m))) = bvset (bv m)" by simp
  ultimately show ?thesis
    using assms unfolding fcm_list_def by (auto simp: fcm_iterate_eq fcm_abs_def fcm_inv_def fcm_children_def)
qed

end

section \<open>A 16-bit word is such a bit vector\<close>

definition word16_bits :: "16 word \<Rightarrow> nat list" where
  "word16_bits w = filter (bit w) [0..<16]"

definition word16_ops :: "16 word BitVector_ops" where
  "word16_ops =
     \<lparr> bv_clear = 0,
       bv_add = (\<lambda>w b. set_bit b w),
       bv_erase = (\<lambda>w b. unset_bit b w),
       bv_contains = bit,
       bv_lowest = (\<lambda>w. hd (word16_bits w)),
       bv_pop = (\<lambda>w. (hd (word16_bits w), unset_bit (hd (word16_bits w)) w)),
       bv_drop_lt = (\<lambda>w b. w AND NOT (mask b)),
       bv_size = (\<lambda>w. length (word16_bits w)) \<rparr>"

lemma word16_bits_hd:
  assumes "set (word16_bits w) \<noteq> {}"
  shows "hd (word16_bits w) = Min (set (word16_bits w))"
proof (rule Min_eqI [symmetric])
  have "sorted (word16_bits w)" by (simp add: word16_bits_def sorted_wrt_filter)
  then show "hd (word16_bits w) \<le> y" if "y \<in> set (word16_bits w)" for y
    using that by (cases "word16_bits w") auto
qed (use assms in auto)

interpretation word16: bit_vector word16_ops "\<lambda>w. set (word16_bits w)"
proof (unfold_locales, goal_cases)
  case (7 s)
  then show ?case by (simp add: word16_ops_def word16_bits_hd)
next
  case (6 s)
  then show ?case by (simp add: word16_ops_def word16_bits_hd)
next
  case (9 s)
  have "distinct (word16_bits s)" by (simp add: word16_bits_def)
  then show ?case by (simp add: word16_ops_def distinct_card)
qed (auto simp: word16_ops_def word16_bits_def bit_simps)

end
