(* ===== verification/Metadata.thy ===== *)
theory Metadata
  imports Prelude
begin

text \<open>
  \<^verbatim>\<open>trie/metadata.h\<close>, \<^verbatim>\<open>common/insert_fn.h\<close> and the merge callbacks of \<^verbatim>\<open>trie/utils.h\<close>.
  Metadata are elements of a commutative group, as the header requires, so the tries are
  polymorphic over the type class \<open>ab_group_add\<close>: \<open>+=\<close> and \<open>-=\<close> are the group operations and
  the default constructor is 0.  \<open>CombinedMetadata\<close> joins the mixins of the library
  with one further component of the application; counters keep their width, so they
  wrap around as the atomic counters do.  \<open>InsertFn\<close> and \<open>MergeFn\<close> are the template
  callbacks, and the locales name the law the tries need of them: the change they
  report is the change they make.
\<close>

section \<open>Metadata types\<close>

datatype EmptyMetadata = EmptyMetadata

instantiation EmptyMetadata :: ab_group_add
begin

definition plus_EmptyMetadata :: "EmptyMetadata \<Rightarrow> EmptyMetadata \<Rightarrow> EmptyMetadata" where
  "plus_EmptyMetadata a b = EmptyMetadata"

definition minus_EmptyMetadata :: "EmptyMetadata \<Rightarrow> EmptyMetadata \<Rightarrow> EmptyMetadata" where
  "minus_EmptyMetadata a b = EmptyMetadata"

definition uminus_EmptyMetadata :: "EmptyMetadata \<Rightarrow> EmptyMetadata" where
  "uminus_EmptyMetadata a = EmptyMetadata"

definition zero_EmptyMetadata :: EmptyMetadata where
  "zero_EmptyMetadata = EmptyMetadata"

instance
  by standard (metis EmptyMetadata.exhaust)+

end

datatype 'x CombinedMetadata = CombinedMetadata
  (md_size: "64 word")
  (num_deleted_subnodes: "32 word")
  (num_rollback_subnodes: "32 word")
  (md_extra: 'x)

instantiation CombinedMetadata :: (ab_group_add) ab_group_add
begin

definition plus_CombinedMetadata :: "'a CombinedMetadata \<Rightarrow> 'a CombinedMetadata \<Rightarrow> 'a CombinedMetadata" where
  "plus_CombinedMetadata a b = CombinedMetadata (md_size a + md_size b)
     (num_deleted_subnodes a + num_deleted_subnodes b)
     (num_rollback_subnodes a + num_rollback_subnodes b) (md_extra a + md_extra b)"

definition minus_CombinedMetadata :: "'a CombinedMetadata \<Rightarrow> 'a CombinedMetadata \<Rightarrow> 'a CombinedMetadata" where
  "minus_CombinedMetadata a b = CombinedMetadata (md_size a - md_size b)
     (num_deleted_subnodes a - num_deleted_subnodes b)
     (num_rollback_subnodes a - num_rollback_subnodes b) (md_extra a - md_extra b)"

definition zero_CombinedMetadata :: "'a CombinedMetadata" where
  "zero_CombinedMetadata = CombinedMetadata 0 0 0 0"

definition uminus_CombinedMetadata :: "'a CombinedMetadata \<Rightarrow> 'a CombinedMetadata" where
  "uminus_CombinedMetadata a = 0 - a"

instance
  by standard (auto simp: plus_CombinedMetadata_def minus_CombinedMetadata_def uminus_CombinedMetadata_def
      zero_CombinedMetadata_def algebra_simps intro: CombinedMetadata.expand)

end

lemma CombinedMetadata_sel [simp]:
  "md_size (a + b) = md_size a + md_size b" "md_size (a - b) = md_size a - md_size b"
  "md_size 0 = 0" "md_size (- a) = - md_size a"
  "num_deleted_subnodes (a + b) = num_deleted_subnodes a + num_deleted_subnodes b"
  "num_deleted_subnodes (a - b) = num_deleted_subnodes a - num_deleted_subnodes b"
  "num_deleted_subnodes 0 = 0" "num_deleted_subnodes (- a) = - num_deleted_subnodes a"
  "num_rollback_subnodes (a + b) = num_rollback_subnodes a + num_rollback_subnodes b"
  "num_rollback_subnodes (a - b) = num_rollback_subnodes a - num_rollback_subnodes b"
  "num_rollback_subnodes 0 = 0" "num_rollback_subnodes (- a) = - num_rollback_subnodes a"
  "md_extra (a + b) = md_extra a + md_extra b" "md_extra (a - b) = md_extra a - md_extra b"
  "md_extra 0 = 0" "md_extra (- a) = - md_extra a"
  for a b :: "'x::ab_group_add CombinedMetadata"
  by (simp_all add: plus_CombinedMetadata_def minus_CombinedMetadata_def zero_CombinedMetadata_def
      uminus_CombinedMetadata_def)

text \<open>The constructor from a leaf value: size 1, nothing deleted, nothing to roll back.\<close>

definition metadata_of :: "('v \<Rightarrow> 'x) \<Rightarrow> 'v \<Rightarrow> 'x CombinedMetadata" where
  "metadata_of extra_of v = CombinedMetadata 1 0 0 (extra_of v)"

text \<open>\<^verbatim>\<open>AtomicDeletableMixin::compare_exchange\<close> and the stores to one counter.\<close>

definition compare_exchange ::
    "'x CombinedMetadata \<Rightarrow> 32 word \<Rightarrow> 32 word \<Rightarrow> bool \<times> 'x CombinedMetadata" where
  "compare_exchange md expect desired =
     (if num_deleted_subnodes md = expect
      then (True, CombinedMetadata (md_size md) desired (num_rollback_subnodes md) (md_extra md))
      else (False, md))"

definition set_num_deleted :: "32 word \<Rightarrow> 'x CombinedMetadata \<Rightarrow> 'x CombinedMetadata" where
  "set_num_deleted n md = CombinedMetadata (md_size md) n (num_rollback_subnodes md) (md_extra md)"

definition set_num_rollback :: "32 word \<Rightarrow> 'x CombinedMetadata \<Rightarrow> 'x CombinedMetadata" where
  "set_num_rollback n md = CombinedMetadata (md_size md) (num_deleted_subnodes md) n (md_extra md)"

section \<open>Insert callbacks\<close>

record ('p, 'v, 'i, 'm) InsertFn =
  new_value :: "'p \<Rightarrow> 'v"
  value_insert :: "'v \<Rightarrow> 'i \<Rightarrow> 'v"
  new_metadata :: "'v \<Rightarrow> 'm"
  metadata_insert :: "'m \<Rightarrow> 'v \<Rightarrow> 'm \<times> 'm"

text \<open>\<^verbatim>\<open>metadata_insert\<close> stores the new metadata and returns the difference; \<open>dflt\<close> is the
  value \<^verbatim>\<open>ValueType{}\<close> and \<open>meta\<close> the metadata constructor.\<close>

definition OverwriteInsertFn :: "'v \<Rightarrow> ('v \<Rightarrow> 'm::ab_group_add) \<Rightarrow> ('p, 'v, 'v, 'm) InsertFn" where
  "OverwriteInsertFn dflt meta =
     \<lparr> new_value = (\<lambda>prefix. dflt),
       value_insert = (\<lambda>main_value other_value. other_value),
       new_metadata = meta,
       metadata_insert = (\<lambda>original new_value. (meta new_value, meta new_value - original)) \<rparr>"

definition RollbackInsertFn ::
    "'v \<Rightarrow> ('v \<Rightarrow> 'x::ab_group_add CombinedMetadata) \<Rightarrow> ('p, 'v, 'v, 'x CombinedMetadata) InsertFn" where
  "RollbackInsertFn dflt meta =
     \<lparr> new_value = (\<lambda>prefix. dflt),
       value_insert = (\<lambda>main_value other_value. other_value),
       new_metadata = (\<lambda>v. set_num_rollback 1 (meta v)),
       metadata_insert = (\<lambda>original new_value.
         let new_md = set_num_rollback 1 (meta new_value) in (new_md, new_md - original)) \<rparr>"

locale insert_fn =
  fixes I :: "('p, 'v, 'i, 'm::ab_group_add) InsertFn"
  assumes metadata_insert_delta: "metadata_insert I m v = (m', d) \<Longrightarrow> m' = m + d"

interpretation overwrite_insert: insert_fn "OverwriteInsertFn dflt meta"
  by unfold_locales (auto simp: OverwriteInsertFn_def)

interpretation rollback_insert: insert_fn "RollbackInsertFn dflt meta"
  by unfold_locales (auto simp: RollbackInsertFn_def Let_def)

section \<open>Merge callbacks\<close>

record ('v, 'm) MergeFn =
  value_merge :: "'v \<Rightarrow> 'v \<Rightarrow> 'v res"
  metadata_merge :: "'m \<Rightarrow> 'm \<Rightarrow> ('m \<times> 'm) res"

definition OverwriteMergeFn :: "('v, 'm::ab_group_add) MergeFn" where
  "OverwriteMergeFn =
     \<lparr> value_merge = (\<lambda>main_value other_value. Inr other_value),
       metadata_merge = (\<lambda>main_metadata other_metadata.
         Inr (other_metadata, other_metadata - main_metadata)) \<rparr>"

definition NoDuplicateKeysMergeFn :: "('v, 'm) MergeFn" where
  "NoDuplicateKeysMergeFn =
     \<lparr> value_merge = (\<lambda>main_value other_value. throw ''no duplicate keys allowed''),
       metadata_merge = (\<lambda>main_metadata other_metadata. throw ''no duplicate keys allowed'') \<rparr>"

locale merge_fn =
  fixes M :: "('v, 'm::ab_group_add) MergeFn"
  assumes metadata_merge_delta: "metadata_merge M m other = Inr (m', d) \<Longrightarrow> m' = m + d"

interpretation overwrite_merge: merge_fn OverwriteMergeFn
  by unfold_locales (auto simp: OverwriteMergeFn_def)

interpretation no_duplicates_merge: merge_fn NoDuplicateKeysMergeFn
  by unfold_locales (auto simp: NoDuplicateKeysMergeFn_def)

end
