(* ===== verification/TrieNode.thy ===== *)
theory TrieNode
  imports ByteArrayPrefix ChildrenMap Metadata
begin

text \<open>
  The node of \<^verbatim>\<open>trie/merkle_trie.h\<close>: its data, the well-formedness that every operation
  keeps, and the read-only operations.  A node owns its children through
  \<^verbatim>\<open>std::unique_ptr\<close>, so a trie is a tree and the null-pointer checks of the source are
  always false; they have no branch here.  The per-node locks order concurrent
  callers and do not occur in the sequential model.
\<close>

section \<open>Data\<close>

type_synonym Hash = "byte list"

text \<open>A node constructed in the source does not initialise its hash; it is not read before
  \<open>hash_valid\<close> is set.\<close>

definition uninit_hash :: Hash where
  "uninit_hash = []"

datatype ('p, 'v, 'm) TrieNode = TrieNode
  (tn_children: "(('p, 'v, 'm) TrieNode, 'v) children_map")
  (tn_prefix: 'p)
  (tn_prefix_len: nat)
  (tn_hash_valid: bool)
  (tn_metadata: 'm)
  (tn_hash: Hash)

abbreviation MAX_KEY_LEN_BITS :: "'p TriePrefix \<Rightarrow> PrefixLenBits" where
  "MAX_KEY_LEN_BITS P \<equiv> prefix_bits P"

definition MAX_BRANCH_VALUE :: nat where
  "MAX_BRANCH_VALUE = 15"

text \<open>The empty trie: a node of length 0 whose children map holds a default value.\<close>

definition make_empty_node :: "'p TriePrefix \<Rightarrow> 'v \<Rightarrow> ('p, 'v, 'm::zero) TrieNode" where
  "make_empty_node P dflt = TrieNode (Value dflt) (prefix_zero P) 0 False 0 uninit_hash"

text \<open>The two overloads of \<^verbatim>\<open>make_value_leaf\<close>: for an inserted value of the stored type,
  and for one of another type, which is inserted into a fresh value (its metadata are
  computed from the inserted value).\<close>

definition make_value_leaf ::
    "'p TriePrefix \<Rightarrow> ('p, 'v, 'v, 'm) InsertFn \<Rightarrow> 'p \<Rightarrow> 'v \<Rightarrow> ('p, 'v, 'm) TrieNode" where
  "make_value_leaf P I key leaf_value =
     TrieNode (Value leaf_value) key (MAX_KEY_LEN_BITS P) False (new_metadata I leaf_value) uninit_hash"

definition make_value_leaf_other ::
    "'p TriePrefix \<Rightarrow> ('i \<Rightarrow> 'm) \<Rightarrow> ('p, 'v, 'i, 'm) InsertFn \<Rightarrow> 'p \<Rightarrow> 'i \<Rightarrow> ('p, 'v, 'm) TrieNode" where
  "make_value_leaf_other P new_metadata_i I key leaf_value =
     (let value_out = new_value I key;
          md = new_metadata_i leaf_value
      in TrieNode (Value (value_insert I value_out leaf_value)) key (MAX_KEY_LEN_BITS P) False md uninit_hash)"

definition single_child :: "('p, 'v, 'm) TrieNode \<Rightarrow> bool" where
  "single_child t = (cm_size (tn_children t) = 1)"

definition get_single_child :: "('p, 'v, 'm) TrieNode \<Rightarrow> ('p, 'v, 'm) TrieNode res" where
  "get_single_child t =
     (case cm_list (tn_children t) of
        [(b, c)] \<Rightarrow> Inr c
      | _ \<Rightarrow> throw ''can't get single child from nonsingle children map'')"

lemma cm_list_size_less [termination_simp]:
  "(b, c) \<in> set (cm_list ch) \<Longrightarrow> f c < Suc (size_children_map f g ch)"
  by (cases ch) (auto simp: less_Suc_eq_le dest: size_list_estimation' [where f = "size_prod (\<lambda>_. 0) f"])

lemma cm_list_hd_size_less [termination_simp]:
  "cm_list ch = (b, c) # cs \<Longrightarrow> f c < Suc (size_children_map f g ch)"
  by (rule cm_list_size_less [of b]) simp

lemma node_induct [case_names Value Children]:
  assumes "\<And>v p l hv m h. Q (TrieNode (Value v) p l hv m h)"
    and "\<And>cs p l hv m h. (\<And>bb c. (bb, c) \<in> set cs \<Longrightarrow> Q c) \<Longrightarrow>
        Q (TrieNode (Children cs) p l hv m h)"
  shows "Q t"
proof (induction t)
  case (TrieNode ch p l hv m h)
  then show ?case
    by (cases ch) (auto intro!: assms simp: snds.simps, metis snd_conv)
qed

section \<open>Read-only operations\<close>

fun get_value :: "'p TriePrefix \<Rightarrow> 'p \<Rightarrow> ('p, 'v, 'm) TrieNode \<Rightarrow> 'v option res" where
  "get_value P query_key (TrieNode ch p l hv m h) =
     (let prefix_match_len = get_prefix_match_len P p l query_key (MAX_KEY_LEN_BITS P) in
      if prefix_match_len \<noteq> l then Inr None
      else if l = MAX_KEY_LEN_BITS P then rbind (cm_value ch) (\<lambda>v. Inr (Some v))
      else rbind (get_branch_bits P query_key l) (\<lambda>bb.
        case cm_find ch bb of
          None \<Rightarrow> Inr None
        | Some c \<Rightarrow> get_value P query_key c))"

fun contains_key :: "'p TriePrefix \<Rightarrow> 'p \<Rightarrow> ('p, 'v, 'm) TrieNode \<Rightarrow> bool res" where
  "contains_key P key (TrieNode ch p l hv m h) =
     (let prefix_match_len = get_prefix_match_len P p l key (MAX_KEY_LEN_BITS P) in
      if prefix_match_len < l then Inr False
      else if prefix_match_len = MAX_KEY_LEN_BITS P then Inr True
      else rbind (get_branch_bits P key l) (\<lambda>bb.
        case cm_find ch bb of
          None \<Rightarrow> Inr False
        | Some c \<Rightarrow> contains_key P key c))"

text \<open>\<^verbatim>\<open>uncached_size\<close> adds in \<^verbatim>\<open>uint32_t\<close>.\<close>

fun uncached_size :: "'p TriePrefix \<Rightarrow> ('p, 'v, 'm) TrieNode \<Rightarrow> 32 word" where
  "uncached_size P (TrieNode ch p l hv m h) =
     (if l = MAX_KEY_LEN_BITS P then 1
      else sum_list (map (\<lambda>(bb, c). uncached_size P c) (cm_list ch)))"

fun accumulate_values :: "'p TriePrefix \<Rightarrow> ('p, 'v, 'm) TrieNode \<Rightarrow> 'v list \<Rightarrow> 'v list res" where
  "accumulate_values P (TrieNode ch p l hv m h) output =
     (if l = MAX_KEY_LEN_BITS P then rbind (cm_value ch) (\<lambda>v. Inr (output @ [v]))
      else fold (\<lambda>(bb, c) out. rbind out (accumulate_values P c)) (cm_list ch) (Inr output))"

fun accumulate_keys :: "'p TriePrefix \<Rightarrow> ('p, 'v, 'm) TrieNode \<Rightarrow> 'p list \<Rightarrow> 'p list" where
  "accumulate_keys P (TrieNode ch p l hv m h) output =
     (if l = MAX_KEY_LEN_BITS P then output @ [p]
      else fold (\<lambda>(bb, c) out. accumulate_keys P c out) (cm_list ch) output)"

fun get_lowest_key :: "'p TriePrefix \<Rightarrow> ('p, 'v, 'm) TrieNode \<Rightarrow> 'p option" where
  "get_lowest_key P (TrieNode ch p l hv m h) =
     (if l = MAX_KEY_LEN_BITS P then Some p
      else (case cm_list ch of [] \<Rightarrow> None | (b, c) # cs \<Rightarrow> get_lowest_key P c))"

section \<open>Meaning and well-formedness\<close>

text \<open>The entries of a trie in the order of the iterator, and the finite map they represent.\<close>

fun entries :: "'p TriePrefix \<Rightarrow> ('p, 'v, 'm) TrieNode \<Rightarrow> ('p \<times> 'v) list" where
  "entries P (TrieNode ch p l hv m h) =
     (if l = MAX_KEY_LEN_BITS P then (case ch of Value v \<Rightarrow> [(p, v)] | Children cs \<Rightarrow> [])
      else concat (map (\<lambda>(bb, c). entries P c) (cm_list ch)))"

definition trie_map :: "'p TriePrefix \<Rightarrow> ('p, 'v, 'm) TrieNode \<Rightarrow> 'p \<rightharpoonup> 'v" where
  "trie_map P t = map_of (entries P t)"

text \<open>
  \<open>wf_node P pvalid nib k t\<close>: a leaf has a full-length prefix; an inner node has at least \<open>k\<close>
  children sorted by branch bits, a prefix that is 0 past its length, and every
  child extends that prefix by its branch bits.  Nodes of a trie at rest have at
  least 2 children.
\<close>

fun wf_node :: "'p TriePrefix \<Rightarrow> ('p \<Rightarrow> bool) \<Rightarrow> ('p \<Rightarrow> nat list) \<Rightarrow> nat \<Rightarrow> ('p, 'v, 'm) TrieNode \<Rightarrow> bool" where
  "wf_node P pvalid nib k (TrieNode ch p l hv m h) =
     (pvalid p \<and>
      (case ch of
         Value v \<Rightarrow> l = MAX_KEY_LEN_BITS P
       | Children cs \<Rightarrow>
           l < MAX_KEY_LEN_BITS P \<and> 4 dvd l \<and> k \<le> length cs \<and> sorted_keys cs \<and>
           drop (l div 4) (nib p) = replicate (MAX_KEY_LEN_BITS P div 4 - l div 4) 0 \<and>
           (\<forall>(bb, c) \<in> set cs. wf_node P pvalid nib k c \<and> l < tn_prefix_len c \<and>
              take (Suc (l div 4)) (nib (tn_prefix c)) = take (l div 4) (nib p) @ [bb])))"

text \<open>A trie is empty or a well-formed node.\<close>

definition is_empty_node :: "('p, 'v, 'm) TrieNode \<Rightarrow> bool" where
  "is_empty_node t \<longleftrightarrow> tn_prefix_len t = 0 \<and> cm_size (tn_children t) = 0"

definition wf_trie :: "'p TriePrefix \<Rightarrow> ('p \<Rightarrow> bool) \<Rightarrow> ('p \<Rightarrow> nat list) \<Rightarrow> ('p, 'v, 'm) TrieNode \<Rightarrow> bool" where
  "wf_trie P pvalid nib t \<longleftrightarrow>
     wf_node P pvalid nib 2 t \<or> is_empty_node t \<and> pvalid (tn_prefix t)"

text \<open>Every inner node carries the sum of its children's metadata.\<close>

fun metadata_sum_ok :: "('p, 'v, 'm::ab_group_add) TrieNode \<Rightarrow> bool" where
  "metadata_sum_ok (TrieNode ch p l hv m h) =
     (case ch of
        Value v \<Rightarrow> True
      | Children cs \<Rightarrow>
          m = sum_list (map (\<lambda>(bb, c). tn_metadata c) cs) \<and>
          (\<forall>(bb, c) \<in> set cs. metadata_sum_ok c))"

text \<open>The subnodes whose cached hash is marked valid, each with its whole subtree.\<close>

fun hashed_nodes :: "('p, 'v, 'm) TrieNode \<Rightarrow> ('p, 'v, 'm) TrieNode set" where
  "hashed_nodes (TrieNode ch p l hv m h) =
     (if hv then {TrieNode ch p l hv m h} else {}) \<union>
     (\<Union>x \<in> set (cm_list ch). case x of (bb, c) \<Rightarrow> hashed_nodes c)"

text \<open>The leaves with their metadata, in the order of the iterator.\<close>

fun leaves :: "'p TriePrefix \<Rightarrow> ('p, 'v, 'm) TrieNode \<Rightarrow> ('p \<times> 'v \<times> 'm) list" where
  "leaves P (TrieNode ch p l hv m h) =
     (if l = MAX_KEY_LEN_BITS P then (case ch of Value v \<Rightarrow> [(p, v, m)] | Children cs \<Rightarrow> [])
      else concat (map (\<lambda>(bb, c). leaves P c) (cm_list ch)))"

text \<open>A node covers the keys that agree with its prefix up to its length.\<close>

definition covers :: "('p \<Rightarrow> nat list) \<Rightarrow> ('p, 'v, 'm) TrieNode \<Rightarrow> 'p \<Rightarrow> bool" where
  "covers nib t q \<longleftrightarrow>
     take (tn_prefix_len t div 4) (nib q) = take (tn_prefix_len t div 4) (nib (tn_prefix t))"

text \<open>The children of a node at depth \<open>d\<close> (in digits) below the path \<open>pi\<close>.\<close>

definition branch_ok ::
    "'p TriePrefix \<Rightarrow> ('p \<Rightarrow> bool) \<Rightarrow> ('p \<Rightarrow> nat list) \<Rightarrow> nat \<Rightarrow> nat list \<Rightarrow> (nat \<times> ('p, 'v, 'm) TrieNode) list \<Rightarrow> bool" where
  "branch_ok P pvalid nib k pi cs \<longleftrightarrow>
     sorted_keys cs \<and>
     (\<forall>(bb, c) \<in> set cs. wf_node P pvalid nib k c \<and> 4 * length pi < tn_prefix_len c \<and>
        take (Suc (length pi)) (nib (tn_prefix c)) = pi @ [bb])"

section \<open>Facts about well-formed nodes\<close>

context trie_prefix
begin

abbreviation wf :: "nat \<Rightarrow> ('p, 'v, 'm) TrieNode \<Rightarrow> bool" where
  "wf \<equiv> wf_node P pvalid nib"

abbreviation branch :: "nat \<Rightarrow> nat list \<Rightarrow> (nat \<times> ('p, 'v, 'm) TrieNode) list \<Rightarrow> bool" where
  "branch \<equiv> branch_ok P pvalid nib"

lemma bits_eq: "prefix_bits P = 4 * (prefix_bits P div 4)"
  using dvd_trans [OF _ bits_dvd, of 4] by simp

lemma bits_bytes: "n < prefix_bits P \<Longrightarrow> n div 8 < prefix_bits P div 8"
  using bits_dvd by (simp add: less_mult_imp_div_less)

lemma wf_prefix: "wf k t \<Longrightarrow> pvalid (tn_prefix t)"
  by (cases t) auto

lemma wf_len: "wf k t \<Longrightarrow> 4 * (tn_prefix_len t div 4) = tn_prefix_len t \<and> tn_prefix_len t \<le> prefix_bits P"
  using bits_eq by (cases t; cases "tn_children t") auto

lemma wf_nib_len: "wf k t \<Longrightarrow> tn_prefix_len t div 4 \<le> length (nib (tn_prefix t))"
  using wf_len [of k t] nib_length [OF wf_prefix] div_le_mono by metis

lemma wf_Value: "wf k (TrieNode (Value v) p l hv m h) \<longleftrightarrow> pvalid p \<and> l = prefix_bits P"
  by simp

lemma wf_Children:
  "wf k (TrieNode (Children cs) p (4 * d) hv m h) \<longleftrightarrow>
     pvalid p \<and> 4 * d < prefix_bits P \<and> k \<le> length cs \<and>
     drop d (nib p) = replicate (prefix_bits P div 4 - d) 0 \<and> branch k (take d (nib p)) cs"
proof -
  have "length (take d (nib p)) = d" if "pvalid p" "4 * d < prefix_bits P"
    using that nib_length [of p] bits_eq by simp
  then show ?thesis by (auto simp: branch_ok_def)
qed

lemma wf_ChildrenE:
  assumes "wf k (TrieNode (Children cs) p l hv m h)"
  obtains d where "l = 4 * d" "pvalid p" "4 * d < prefix_bits P" "k \<le> length cs"
    "drop d (nib p) = replicate (prefix_bits P div 4 - d) 0" "branch k (take d (nib p)) cs"
    "length (take d (nib p)) = d"
proof -
  obtain d where d: "l = 4 * d" using assms by (auto elim: dvdE)
  show ?thesis
    using that [OF d] assms nib_length [of p] bits_eq unfolding d wf_Children by simp
qed

lemma wf_weaken: "wf k t \<Longrightarrow> j \<le> k \<Longrightarrow> wf j t"
  by (induction t rule: node_induct) fastforce+

lemma branch_covers:
  assumes "branch k pi cs" "(bb, c) \<in> set cs" "covers nib c q" "pvalid q"
  shows "take (Suc (length pi)) (nib q) = pi @ [bb]"
proof -
  have c: "wf k c" "4 * length pi < tn_prefix_len c" "take (Suc (length pi)) (nib (tn_prefix c)) = pi @ [bb]"
    using assms by (auto simp: branch_ok_def)
  then have "Suc (length pi) \<le> tn_prefix_len c div 4" using wf_len [of k c] by linarith
  then have "take (Suc (length pi)) (nib q) = take (Suc (length pi)) (nib (tn_prefix c))"
    using arg_cong [OF assms(3) [unfolded covers_def], of "take (Suc (length pi))"]
    by (simp add: min_absorb1)
  with c(3) show ?thesis by simp
qed

lemma branch_nth:
  assumes "take (Suc (length pi)) xs = pi @ [bb]"
  shows "length pi < length xs" "xs ! length pi = bb" "take (length pi) xs = pi"
proof -
  have l: "length (take (Suc (length pi)) xs) = Suc (length pi)" by (simp add: assms)
  then show len: "length pi < length xs" by simp
  show "xs ! length pi = bb" using assms by (metis lessI nth_append_length nth_take)
  show "take (length pi) xs = pi"
    using assms by (metis append_eq_conv_conj le_add2 min.absorb1 plus_1_eq_Suc take_take)
qed

lemma entries_covers:
  "wf k t \<Longrightarrow> (q, v) \<in> set (entries P t) \<Longrightarrow> pvalid q \<and> covers nib t q"
proof (induction t arbitrary: q v rule: node_induct)
  case (Children cs p l hv m h)
  from Children.prems(1) obtain d where d: "l = 4 * d" "4 * d < prefix_bits P"
      "branch k (take d (nib p)) cs" "length (take d (nib p)) = d"
    by (rule wf_ChildrenE)
  obtain bb c where c: "(bb, c) \<in> set cs" "(q, v) \<in> set (entries P c)"
    using Children.prems(2) d by auto
  then have "wf k c" using d(3) by (auto simp: branch_ok_def)
  then have q: "pvalid q" "covers nib c q" using Children.IH c by blast+
  then have "take d (nib q) = take d (nib p)"
    using branch_nth(3) [OF branch_covers [OF d(3) c(1)]] d(4) by simp
  then show ?case using q(1) d(1) by (simp add: covers_def)
qed (auto simp: covers_def)

text \<open>The map of a node is the map of the child its branch bits select.\<close>

lemma branch_map_of:
  assumes "branch k pi cs" "pvalid q"
  shows "map_of (concat (map (\<lambda>(bb, c). entries P c) cs)) q =
    (case map_of cs (nib q ! length pi) of None \<Rightarrow> None | Some c \<Rightarrow> map_of (entries P c) q)"
  using assms(1)
proof (induction cs)
  case (Cons x cs)
  obtain bb c where x: "x = (bb, c)" by (cases x)
  have br: "branch k pi cs" using Cons.prems by (simp add: branch_ok_def)
  have c: "wf k c" using Cons.prems x by (simp add: branch_ok_def)
  show ?case
  proof (cases "nib q ! length pi = bb")
    case True
    have "bb \<notin> fst ` set cs" using Cons.prems x by (auto simp: branch_ok_def)
    then have "map_of (concat (map (\<lambda>(bb, c). entries P c) cs)) q = None"
      using Cons.IH [OF br] True by (simp add: map_of_eq_None_iff [THEN iffD2])
    then show ?thesis using True x by (simp add: map_add_def split: option.split)
  next
    case False
    have "q \<notin> fst ` set (entries P c)"
    proof
      assume "q \<in> fst ` set (entries P c)"
      then have "covers nib c q" using entries_covers [OF c] by auto
      then have "take (Suc (length pi)) (nib q) = pi @ [bb]"
        using branch_covers [OF Cons.prems, of bb c q] x assms(2) by simp
      then show False using branch_nth(2) [of pi "nib q" bb] False by simp
    qed
    then show ?thesis using False Cons.IH [OF br] x
      by (simp add: map_add_dom_app_simps(3) dom_map_of_conv_image_fst)
  qed
qed simp

lemma trie_map_Children:
  assumes "wf k (TrieNode (Children cs) p l hv m h)" "pvalid q"
  shows "trie_map P (TrieNode (Children cs) p l hv m h) q =
    (case map_of cs (nib q ! (l div 4)) of None \<Rightarrow> None | Some c \<Rightarrow> trie_map P c q)"
  using assms by (elim wf_ChildrenE) (simp add: trie_map_def branch_map_of split: option.split)

lemma trie_map_Value: "trie_map P (TrieNode (Value v) p (prefix_bits P) hv m h) = [p \<mapsto> v]"
  by (simp add: trie_map_def)

lemma trie_map_covers: "wf k t \<Longrightarrow> trie_map P t q = Some v \<Longrightarrow> pvalid q \<and> covers nib t q"
  unfolding trie_map_def using entries_covers map_of_SomeD by metis

lemma trie_map_empty: "is_empty_node t \<Longrightarrow> trie_map P t = Map.empty"
  using bits_pos by (cases t; cases "tn_children t") (auto simp: is_empty_node_def trie_map_def)

section \<open>Comparing a key with a node\<close>

lemma match_eq:
  assumes "wf k t" "pvalid q"
  shows "get_prefix_match_len P (tn_prefix t) (tn_prefix_len t) q (prefix_bits P) =
    4 * min (lcp (nib (tn_prefix t)) (nib q)) (tn_prefix_len t div 4)"
proof -
  have "get_prefix_match_len P (tn_prefix t) (4 * (tn_prefix_len t div 4)) q (4 * (prefix_bits P div 4)) =
      4 * min (lcp (nib (tn_prefix t)) (nib q)) (min (tn_prefix_len t div 4) (prefix_bits P div 4))"
    using assms wf_len [OF assms(1)] wf_prefix bits_eq by (intro match_len) auto
  then show ?thesis
    using wf_len [OF assms(1)] bits_eq div_le_mono [of "tn_prefix_len t" "prefix_bits P" 4]
    by (simp add: min_def)
qed

lemma covers_lcp:
  assumes "wf k t" "pvalid q"
  shows "covers nib t q \<longleftrightarrow> tn_prefix_len t div 4 \<le> lcp (nib (tn_prefix t)) (nib q)"
  using le_lcp_iff [of "nib (tn_prefix t)" "nib q" "tn_prefix_len t div 4"]
    nib_length [OF assms(2)] nib_length [OF wf_prefix [OF assms(1)]] wf_nib_len [OF assms(1)]
  by (auto simp: covers_def)

lemma match_eq_iff:
  assumes "wf k t" "pvalid q"
  shows "get_prefix_match_len P (tn_prefix t) (tn_prefix_len t) q (prefix_bits P) = tn_prefix_len t
    \<longleftrightarrow> covers nib t q"
  using match_eq [OF assms] covers_lcp [OF assms] wf_len [OF assms(1)] by (auto simp: min_def)

lemma match_less_iff:
  assumes "wf k t" "pvalid q"
  shows "get_prefix_match_len P (tn_prefix t) (tn_prefix_len t) q (prefix_bits P) < tn_prefix_len t
    \<longleftrightarrow> \<not> covers nib t q"
  using match_eq [OF assms] covers_lcp [OF assms] wf_len [OF assms(1)] by (auto simp: min_def)

lemma covers_full:
  assumes "wf k t" "tn_prefix_len t = prefix_bits P" "pvalid q"
  shows "covers nib t q \<longleftrightarrow> q = tn_prefix t"
proof
  assume "covers nib t q"
  then have "nib q = nib (tn_prefix t)"
    using assms nib_length wf_prefix [OF assms(1)] by (simp add: covers_def)
  then show "q = tn_prefix t" using nib_inject assms wf_prefix by metis
qed (simp add: covers_def)

lemma branch_bits_at:
  assumes "pvalid q" "4 * d < prefix_bits P"
  shows "get_branch_bits P q (4 * d) = Inr (nib q ! d)"
  using assms branch_bits by simp

lemma trie_map_not_covers:
  assumes "wf k t" "\<not> covers nib t q"
  shows "trie_map P t q = None"
  using trie_map_covers [OF assms(1), of q] assms(2) by (cases "trie_map P t q") auto

section \<open>Lookups\<close>

lemma get_value_correct: "wf k t \<Longrightarrow> pvalid q \<Longrightarrow> get_value P q t = Inr (trie_map P t q)"
proof (induction t rule: node_induct)
  case (Value v p l hv m h)
  note iff = match_eq_iff [OF Value] covers_full [OF Value(1) _ Value(2)]
  have "l = prefix_bits P" using Value by simp
  then show ?case using iff by (auto simp: trie_map_Value)
next
  case (Children cs p l hv m h)
  note iff = match_eq_iff [OF Children.prems]
  from Children.prems(1) obtain d where d: "l = 4 * d" "4 * d < prefix_bits P"
      "branch k (take d (nib p)) cs"
    by (rule wf_ChildrenE)
  show ?case
  proof (cases "covers nib (TrieNode (Children cs) p l hv m h) q")
    case True
    then have "get_value P q (TrieNode (Children cs) p l hv m h) =
        (case map_of cs (nib q ! d) of None \<Rightarrow> Inr None | Some c \<Rightarrow> get_value P q c)"
      using iff d Children.prems(2) by (simp add: branch_bits_at)
    also have "\<dots> = Inr (trie_map P (TrieNode (Children cs) p l hv m h) q)"
      unfolding trie_map_Children [OF Children.prems]
      using Children.IH Children.prems(2) d
      by (auto simp: branch_ok_def split: option.split dest!: map_of_SomeD)
    finally show ?thesis .
  next
    case False
    then show ?thesis using iff trie_map_not_covers [OF Children.prems(1)] by simp
  qed
qed

lemma contains_key_correct:
  "wf k t \<Longrightarrow> pvalid q \<Longrightarrow> contains_key P q t = Inr (trie_map P t q \<noteq> None)"
proof (induction t rule: node_induct)
  case (Value v p l hv m h)
  note iff = match_less_iff [OF Value] match_eq_iff [OF Value] covers_full [OF Value(1) _ Value(2)]
  have "l = prefix_bits P" using Value by simp
  then show ?case using iff by (auto simp: trie_map_Value)
next
  case (Children cs p l hv m h)
  note iff = match_less_iff [OF Children.prems] match_eq_iff [OF Children.prems]
  from Children.prems(1) obtain d where d: "l = 4 * d" "4 * d < prefix_bits P"
      "branch k (take d (nib p)) cs"
    by (rule wf_ChildrenE)
  show ?case
  proof (cases "covers nib (TrieNode (Children cs) p l hv m h) q")
    case True
    then have "contains_key P q (TrieNode (Children cs) p l hv m h) =
        (case map_of cs (nib q ! d) of None \<Rightarrow> Inr False | Some c \<Rightarrow> contains_key P q c)"
      using iff d Children.prems(2) by (simp add: branch_bits_at)
    also have "\<dots> = Inr (trie_map P (TrieNode (Children cs) p l hv m h) q \<noteq> None)"
      unfolding trie_map_Children [OF Children.prems]
      using Children.IH Children.prems(2) d
      by (auto simp: branch_ok_def split: option.split dest!: map_of_SomeD)
    finally show ?thesis .
  next
    case False
    then show ?thesis using iff trie_map_not_covers [OF Children.prems(1)] by simp
  qed
qed

lemma empty_lookup:
  assumes "is_empty_node t" "pvalid (tn_prefix t)" "pvalid q"
  shows "get_value P q t = Inr None" "contains_key P q t = Inr False"
proof -
  obtain ch p l hv m h where t: "t = TrieNode ch p l hv m h" by (cases t)
  have "get_prefix_match_len P p (4 * 0) q (4 * (prefix_bits P div 4)) = 0"
    using assms t bits_eq by (subst match_len) auto
  moreover have "cm_find ch bb = None" for bb
    using assms t by (cases ch) (auto simp: is_empty_node_def)
  moreover have "get_branch_bits P q (4 * 0) = Inr (nib q ! 0)"
    using assms bits_pos by (intro branch_bits) auto
  ultimately show "get_value P q t = Inr None" "contains_key P q t = Inr False"
    using assms(1) t bits_pos bits_eq by (auto simp: is_empty_node_def)
qed

lemma get_value_trie:
  "wf_trie P pvalid nib t \<Longrightarrow> pvalid q \<Longrightarrow> get_value P q t = Inr (trie_map P t q)"
  by (auto simp: wf_trie_def get_value_correct empty_lookup trie_map_empty)

lemma contains_key_trie:
  "wf_trie P pvalid nib t \<Longrightarrow> pvalid q \<Longrightarrow> contains_key P q t = Inr (trie_map P t q \<noteq> None)"
  by (auto simp: wf_trie_def contains_key_correct empty_lookup trie_map_empty)

end

end
