(* ===== verification/TrieInsert.thy ===== *)
theory TrieInsert
  imports TrieNode
begin

text \<open>
  Insertion: \<^verbatim>\<open>TrieNode::_insert\<close> of \<^verbatim>\<open>trie/merkle_trie.h\<close>.  The result is the updated node and
  the change of metadata that the caller adds to its own.  \<open>mk\<close> is the overload of
  \<^verbatim>\<open>make_value_leaf\<close> that the inserted type selects.
\<close>

fun insert_node ::
    "'p TriePrefix \<Rightarrow> ('p, 'v, 'i, 'm::ab_group_add) InsertFn \<Rightarrow> ('p \<Rightarrow> 'i \<Rightarrow> ('p, 'v, 'm) TrieNode) \<Rightarrow>
     'p \<Rightarrow> 'i \<Rightarrow> ('p, 'v, 'm) TrieNode \<Rightarrow> (('p, 'v, 'm) TrieNode \<times> 'm) res" where
  "insert_node P I mk data leaf_value (TrieNode ch p l hv m h) =
     (if cm_size ch = 1 then throw ''children size should never be 1 (insert)''
      else if cm_size ch = 0 \<and> \<not> (l = MAX_KEY_LEN_BITS P \<or> l = 0)
      then throw ''invalid initialization somewhere''
      else
        let prefix_match_len = get_prefix_match_len P p l data (MAX_KEY_LEN_BITS P) in
        if prefix_match_len > MAX_KEY_LEN_BITS P then throw ''invalid prefix match len!''
        else if l = 0 \<and> cm_size ch = 0 then
          let v = value_insert I (new_value I data) leaf_value; md = new_metadata I v
          in Inr (TrieNode (Value v) data (MAX_KEY_LEN_BITS P) False md h, md)
        else if prefix_match_len > l then throw ''invalid prefix match len!''
        else if prefix_match_len = l then
          if l = MAX_KEY_LEN_BITS P then
            rbind (cm_value ch) (\<lambda>v.
              let v' = value_insert I v leaf_value; (md, delta) = metadata_insert I m v'
              in Inr (TrieNode (Value v') p l False md h, delta))
          else
            rbind (get_branch_bits P data l) (\<lambda>branch_bits.
              case cm_find ch branch_bits of
                Some child \<Rightarrow>
                  rbind (insert_node P I mk data leaf_value child) (\<lambda>(child', metadata_delta).
                    Inr (TrieNode (cm_set ch branch_bits child') p l False (m + metadata_delta) h,
                         metadata_delta))
              | None \<Rightarrow>
                  let new_child = mk data leaf_value; new_child_meta = tn_metadata new_child
                  in rbind (cm_emplace ch branch_bits new_child) (\<lambda>ch'.
                       Inr (TrieNode ch' p l False (m + new_child_meta) h, new_child_meta)))
        else
          let original_child_branch = TrieNode ch p l False m uninit_hash;
              new_child = mk data leaf_value;
              new_child_metadata = tn_metadata new_child;
              original_child_metadata = m
          in rbind (get_branch_bits P data prefix_match_len) (\<lambda>branch_bits.
             rbind (cm_emplace (Children []) branch_bits new_child) (\<lambda>ch1.
             rbind (get_branch_bits P p prefix_match_len) (\<lambda>old_branch_bits.
             rbind (cm_emplace ch1 old_branch_bits original_child_branch) (\<lambda>ch2.
             if branch_bits = old_branch_bits then throw ''we split at the wrong index!''
             else if cm_size ch2 \<noteq> 2 then throw ''invalid children size!''
             else if prefix_match_len div 8 \<ge> MAX_KEY_LEN_BITS P div 8 then throw ''invalid prefix_len''
             else rbind (prefix_truncate P p prefix_match_len) (\<lambda>p'.
               Inr (TrieNode ch2 p' prefix_match_len False (new_child_metadata + original_child_metadata) h,
                    new_child_metadata)))))))"

declare insert_node.simps [simp del]

text \<open>What a leaf constructor has to produce.\<close>

definition leaf_maker ::
    "'p TriePrefix \<Rightarrow> ('p, 'v, 'i, 'm) InsertFn \<Rightarrow> ('p \<Rightarrow> 'i \<Rightarrow> 'v) \<Rightarrow> ('p \<Rightarrow> 'i \<Rightarrow> ('p, 'v, 'm) TrieNode) \<Rightarrow> bool" where
  "leaf_maker P I lv mk \<longleftrightarrow>
     (\<forall>key i. \<exists>md h. mk key i = TrieNode (Value (lv key i)) key (MAX_KEY_LEN_BITS P) False md h) \<and>
     (\<forall>key i. lv key i = value_insert I (new_value I key) i)"

lemma make_value_leaf_maker:
  "leaf_maker P (OverwriteInsertFn dflt meta) (\<lambda>key v. v) (make_value_leaf P (OverwriteInsertFn dflt meta))"
  "leaf_maker P (RollbackInsertFn dflt meta2) (\<lambda>key v. v) (make_value_leaf P (RollbackInsertFn dflt meta2))"
  by (auto simp: leaf_maker_def make_value_leaf_def OverwriteInsertFn_def RollbackInsertFn_def)

lemma make_value_leaf_other_maker:
  "leaf_maker P I (\<lambda>key i. value_insert I (new_value I key) i) (make_value_leaf_other P nm I)"
  by (auto simp: leaf_maker_def make_value_leaf_other_def Let_def)

text \<open>The value stored for a key after the insertion.\<close>

definition inserted_value ::
    "('p, 'v, 'i, 'm) InsertFn \<Rightarrow> 'p \<Rightarrow> 'i \<Rightarrow> 'v option \<Rightarrow> 'v" where
  "inserted_value I key i old =
     (case old of None \<Rightarrow> value_insert I (new_value I key) i | Some v \<Rightarrow> value_insert I v i)"

text \<open>A node that replaces a child after the key has been joined in keeps its place.\<close>

definition joined :: "('p \<Rightarrow> nat list) \<Rightarrow> ('p, 'v, 'm) TrieNode \<Rightarrow> nat list \<Rightarrow> ('p, 'v, 'm) TrieNode \<Rightarrow> bool" where
  "joined nib t ks t' \<longleftrightarrow>
     tn_prefix_len t' = 4 * min (lcp (nib (tn_prefix t)) ks) (tn_prefix_len t div 4) \<and>
     take (tn_prefix_len t' div 4) (nib (tn_prefix t')) = take (tn_prefix_len t' div 4) (nib (tn_prefix t))"

definition insert_post ::
    "'p TriePrefix \<Rightarrow> ('p \<Rightarrow> bool) \<Rightarrow> ('p \<Rightarrow> nat list) \<Rightarrow> ('p, 'v, 'i, 'm::ab_group_add) InsertFn \<Rightarrow> 'p \<Rightarrow> 'i \<Rightarrow>
     ('p, 'v, 'm) TrieNode \<Rightarrow> ('p, 'v, 'm) TrieNode \<Rightarrow> 'm \<Rightarrow> bool" where
  "insert_post P pvalid nib I key i t t' delta \<longleftrightarrow>
    wf_node P pvalid nib 2 t' \<and> joined nib t (nib key) t' \<and>
    trie_map P t' = (trie_map P t)(key \<mapsto> inserted_value I key i (trie_map P t key)) \<and>
    tn_metadata t' = tn_metadata t + delta \<and>
    (metadata_sum_ok t \<longrightarrow> metadata_sum_ok t') \<and>
    \<not> tn_hash_valid t' \<and> hashed_nodes t' \<subseteq> hashed_nodes t"

context trie_prefix
begin

lemma leaf_wf:
  assumes "leaf_maker P I lv mk" "pvalid key"
  shows "wf k (mk key i)" "tn_prefix (mk key i) = key" "tn_prefix_len (mk key i) = prefix_bits P"
    "trie_map P (mk key i) = [key \<mapsto> value_insert I (new_value I key) i]" "metadata_sum_ok (mk key i)"
    "hashed_nodes (mk key i) = {}"
proof -
  obtain md h where "mk key i = TrieNode (Value (lv key i)) key (prefix_bits P) False md h"
    and "lv key i = value_insert I (new_value I key) i"
    using assms(1) unfolding leaf_maker_def by meson
  then show "wf k (mk key i)" "tn_prefix (mk key i) = key" "tn_prefix_len (mk key i) = prefix_bits P"
    "trie_map P (mk key i) = [key \<mapsto> value_insert I (new_value I key) i]" "metadata_sum_ok (mk key i)"
    "hashed_nodes (mk key i) = {}"
    using assms(2) by (simp_all add: trie_map_Value)
qed

lemma wf_children_size: "wf 2 (TrieNode (Children cs) p l hv m h) \<Longrightarrow> 2 \<le> length cs"
  by (elim wf_ChildrenE)

text \<open>Two nodes below a common path that differ in the next digit can be joined.\<close>

lemma branch_put:
  assumes "branch k pi cs" "wf k c" "4 * length pi < tn_prefix_len c"
    "take (Suc (length pi)) (nib (tn_prefix c)) = pi @ [bb]"
  shows "branch k pi (al_put bb c cs)"
  using assms by (auto simp: branch_ok_def sorted_al_put set_al_put)

lemma branch_child:
  assumes "branch k pi cs" "map_of cs bb = Some c"
  shows "wf k c" "4 * length pi < tn_prefix_len c" "take (Suc (length pi)) (nib (tn_prefix c)) = pi @ [bb]"
  using assms by (auto simp: branch_ok_def dest!: map_of_SomeD)

lemma joined_branch:
  assumes "joined nib c ks c'" "wf k c" "length ks = prefix_bits P div 4"
    and "4 * length pi < tn_prefix_len c" "take (Suc (length pi)) (nib (tn_prefix c)) = pi @ [bb]"
    and "take (Suc (length pi)) ks = pi @ [bb]"
  shows "4 * length pi < tn_prefix_len c'" "take (Suc (length pi)) (nib (tn_prefix c')) = pi @ [bb]"
proof -
  have len: "length (nib (tn_prefix c)) = length ks" using assms(2,3) wf_prefix nib_length by metis
  have "Suc (length pi) \<le> lcp (nib (tn_prefix c)) ks"
    using assms(5,6) len branch_nth(1) [OF assms(6)] by (subst le_lcp_iff) auto
  moreover have "Suc (length pi) \<le> tn_prefix_len c div 4" using assms(4) wf_len [OF assms(2)] by linarith
  ultimately have d: "Suc (length pi) \<le> tn_prefix_len c' div 4" using assms(1) by (simp add: joined_def)
  then show "4 * length pi < tn_prefix_len c'" by linarith
  have "take (Suc (length pi)) (nib (tn_prefix c')) = take (Suc (length pi)) (nib (tn_prefix c))"
    using arg_cong [OF conjunct2 [OF assms(1) [unfolded joined_def]], of "take (Suc (length pi))"] d
    by (simp add: min_absorb1)
  with assms(5) show "take (Suc (length pi)) (nib (tn_prefix c')) = pi @ [bb]" by simp
qed

lemma trie_map_eqI:
  assumes "wf k t" "\<And>q. \<not> pvalid q \<Longrightarrow> f q = None" "\<And>q. pvalid q \<Longrightarrow> trie_map P t q = f q"
  shows "trie_map P t = f"
proof
  fix q
  show "trie_map P t q = f q"
    using assms trie_map_covers [OF assms(1), of q] by (cases "pvalid q"; cases "trie_map P t q") auto
qed

lemma trie_map_fields: "trie_map P (TrieNode ch p l hv m h) = trie_map P (TrieNode ch p l hv' m' h')"
  by (simp add: trie_map_def)

lemma trie_map_not_covers': "wf k t \<Longrightarrow> trie_map P t q \<noteq> None \<Longrightarrow> covers nib t q"
  by (metis trie_map_not_covers)

lemma al_put_pair: "a \<noteq> b \<Longrightarrow> al_put a x (al_put b y []) = (if a < b then [(a, x), (b, y)] else [(b, y), (a, x)])"
  for a b :: nat
  by simp

text \<open>The common ancestor built for a node and a node that does not extend it.\<close>

lemma join_two:
  fixes t u :: "('p, 'v, 'm) TrieNode"
  assumes t: "wf k t" and u: "wf k u" and k: "k \<le> 2"
    and n: "n = lcp (nib (tn_prefix t)) (nib (tn_prefix u))"
    and lt: "n < tn_prefix_len t div 4" "n < tn_prefix_len u div 4"
  obtains p' where
    "prefix_truncate P (tn_prefix t) (4 * n) = Inr p'"
    "get_branch_bits P (tn_prefix t) (4 * n) = Inr (nib (tn_prefix t) ! n)"
    "get_branch_bits P (tn_prefix u) (4 * n) = Inr (nib (tn_prefix u) ! n)"
    "nib (tn_prefix t) ! n \<noteq> nib (tn_prefix u) ! n"
    "4 * n < prefix_bits P"
    "\<And>cs hv m h. set cs = {(nib (tn_prefix t) ! n, t), (nib (tn_prefix u) ! n, u)} \<Longrightarrow>
       sorted_keys cs \<Longrightarrow> length cs = 2 \<Longrightarrow>
       wf k (TrieNode (Children cs) p' (4 * n) hv m h) \<and>
       trie_map P (TrieNode (Children cs) p' (4 * n) hv m h) = trie_map P t ++ trie_map P u \<and>
       take n (nib p') = take n (nib (tn_prefix t))"
proof -
  let ?p = "tn_prefix t" and ?q = "tn_prefix u"
  have v: "pvalid ?p" "pvalid ?q" using t u wf_prefix by auto
  have N: "length (nib ?p) = prefix_bits P div 4" "length (nib ?q) = prefix_bits P div 4"
    using v nib_length by auto
  have nb: "4 * n < prefix_bits P" using lt(1) wf_len [OF t] by linarith
  then have nN: "n < prefix_bits P div 4" using bits_eq by linarith
  have ne: "nib ?p ! n \<noteq> nib ?q ! n" using lcp_differ [of "nib ?p" "nib ?q"] nN N n by simp
  have same: "take n (nib ?p) = take n (nib ?q)"
    using le_lcp_iff [of "nib ?p" "nib ?q" n] N n lcp_le [of "nib ?p" "nib ?q"] by simp
  obtain p' where p': "prefix_truncate P ?p (4 * n) = Inr p'" "pvalid p'"
      "nib p' = take n (nib ?p) @ replicate (prefix_bits P div 4 - n) 0"
    using truncate_ok [OF v(1) nb] by blast
  have tk: "take n (nib p') = take n (nib ?p)" "length (take n (nib p')) = n" using p'(3) N nN by auto
  have goal: "wf k (TrieNode (Children cs) p' (4 * n) hv m h) \<and>
       trie_map P (TrieNode (Children cs) p' (4 * n) hv m h) = trie_map P t ++ trie_map P u \<and>
       take n (nib p') = take n (nib ?p)"
    if cs: "set cs = {(nib ?p ! n, t), (nib ?q ! n, u)}" "sorted_keys cs" "length cs = 2" for cs hv m h
  proof -
    have "4 * n < tn_prefix_len t" "4 * n < tn_prefix_len u" using lt wf_len [OF t] wf_len [OF u] by linarith+
    then have br: "branch k (take n (nib p')) cs"
      using cs t u same N nN tk by (auto simp: branch_ok_def take_Suc_conv_app_nth)
    then have w: "wf k (TrieNode (Children cs) p' (4 * n) hv m h)"
      unfolding wf_Children using p' nb cs(3) k N nN by simp
    have "trie_map P (TrieNode (Children cs) p' (4 * n) hv m h) = trie_map P t ++ trie_map P u"
    proof (rule trie_map_eqI [OF w])
      fix q assume "\<not> pvalid q"
      then show "(trie_map P t ++ trie_map P u) q = None"
        using trie_map_covers [OF t, of q] trie_map_covers [OF u, of q]
        by (cases "trie_map P t q"; cases "trie_map P u q") auto
    next
      fix q assume q: "pvalid q"
      have ct: "nib q ! n = nib ?p ! n" if "trie_map P t q \<noteq> None"
        using trie_map_not_covers' [OF t that] lt(1) unfolding covers_def by (metis nth_take)
      have cu: "nib q ! n = nib ?q ! n" if "trie_map P u q \<noteq> None"
        using trie_map_not_covers' [OF u that] lt(2) unfolding covers_def by (metis nth_take)
      have "map_of cs x = Some c \<longleftrightarrow> (x = nib ?p ! n \<and> c = t) \<or> (x = nib ?q ! n \<and> c = u)" for x c
        using map_of_sorted_iff [OF cs(2), of x c] cs(1) by auto
      then have "map_of cs (nib q ! n) =
          (if nib q ! n = nib ?p ! n then Some t else if nib q ! n = nib ?q ! n then Some u else None)"
        using ne by (metis not_None_eq)
      then show "trie_map P (TrieNode (Children cs) p' (4 * n) hv m h) q = (trie_map P t ++ trie_map P u) q"
        using trie_map_Children [OF w q] ct cu ne
        by (cases "trie_map P t q"; cases "trie_map P u q") (auto simp: map_add_def)
    qed
    then show ?thesis using w tk by simp
  qed
  show ?thesis
    by (rule that [OF p'(1) branch_bits_at [OF v(1) nb] branch_bits_at [OF v(2) nb] ne nb]) (rule goal)
qed

lemma wf_guard:
  assumes "wf 2 (TrieNode ch p l hv m h)"
  shows "cm_size ch \<noteq> 1" "cm_size ch = 0 \<longleftrightarrow> l = prefix_bits P"
  using assms by (cases ch; auto)+

lemma insert_node_split:
  fixes t :: "('p, 'v, 'm::ab_group_add) TrieNode"
  assumes mk: "leaf_maker P I lv mk" and key: "pvalid key" and t: "wf 2 t" and nc: "\<not> covers nib t key"
  shows "\<exists>t' delta. insert_node P I mk key i t = Inr (t', delta) \<and> insert_post P pvalid nib I key i t t' delta"
proof -
  obtain ch p l hv m h where te: "t = TrieNode ch p l hv m h" by (cases t)
  define orig where "orig = TrieNode ch p l False m uninit_hash"
  define leaf where "leaf = mk key i"
  define n where "n = lcp (nib p) (nib key)"
  have leaf: "wf 2 leaf" "tn_prefix leaf = key" "tn_prefix_len leaf = prefix_bits P"
    "trie_map P leaf = [key \<mapsto> value_insert I (new_value I key) i]" "metadata_sum_ok leaf" "hashed_nodes leaf = {}"
    using leaf_wf [OF mk key] by (simp_all add: leaf_def)
  have orig: "wf 2 orig" "tn_prefix orig = p" "tn_prefix_len orig = l" "trie_map P orig = trie_map P t"
    using t te by (simp_all add: orig_def trie_map_def)
  have nl: "n < l div 4" using nc covers_lcp [OF t key] te by (simp add: n_def)
  have match: "get_prefix_match_len P p l key (prefix_bits P) = 4 * n"
    using match_eq [OF t key] te nl by (simp add: n_def)
  have N: "n < prefix_bits P div 4" using nl wf_len [OF t] te div_le_mono [of l "prefix_bits P" 4] by simp
  obtain p' where j:
    "prefix_truncate P p (4 * n) = Inr p'"
    "get_branch_bits P p (4 * n) = Inr (nib p ! n)" "get_branch_bits P key (4 * n) = Inr (nib key ! n)"
    "nib p ! n \<noteq> nib key ! n" "4 * n < prefix_bits P"
    and post: "\<And>cs hv m h. set cs = {(nib p ! n, orig), (nib key ! n, leaf)} \<Longrightarrow>
       sorted_keys cs \<Longrightarrow> length cs = 2 \<Longrightarrow>
       wf 2 (TrieNode (Children cs) p' (4 * n) hv m h) \<and>
       trie_map P (TrieNode (Children cs) p' (4 * n) hv m h) = trie_map P orig ++ trie_map P leaf \<and>
       take n (nib p') = take n (nib p)"
    by (rule join_two [OF orig(1) leaf(1) order.refl, of n])
      (simp_all add: orig(2,3) leaf(2,3) nl N n_def [symmetric])
  define cs where "cs = al_put (nib p ! n) orig (al_put (nib key ! n) leaf [])"
  have cs: "set cs = {(nib p ! n, orig), (nib key ! n, leaf)}" "sorted_keys cs" "length cs = 2"
    using j(4) by (auto simp: cs_def)
  let ?t' = "TrieNode (Children cs) p' (4 * n) False (tn_metadata leaf + m) h"
  have "insert_node P I mk key i t = Inr (?t', tn_metadata leaf)"
    using wf_guard [OF t [unfolded te]] match j nl wf_len [OF t] te bits_bytes [OF j(5)] cs(3)
    by (auto simp: insert_node.simps Let_def orig_def [symmetric] leaf_def [symmetric] cs_def)
  moreover have "insert_post P pvalid nib I key i t ?t' (tn_metadata leaf)"
  proof -
    note pt = post [OF cs, of False "tn_metadata leaf + m" h]
    have none: "trie_map P t key = None" using trie_map_not_covers [OF t nc] .
    have "joined nib t (nib key) ?t'" using nl pt te by (simp add: joined_def n_def [symmetric])
    moreover have "metadata_sum_ok t \<longrightarrow> metadata_sum_ok ?t'"
      using leaf(5) te j(4) by (auto simp: cs_def orig_def add.commute)
    moreover have "hashed_nodes ?t' \<subseteq> hashed_nodes t"
      using leaf(6) te cs(1) by (auto simp: orig_def)
    ultimately show ?thesis
      using pt none leaf(4) orig(4) te
      by (simp add: insert_post_def inserted_value_def add.commute
        del: wf_node.simps metadata_sum_ok.simps hashed_nodes.simps)
  qed
  ultimately show ?thesis by blast
qed

lemma insert_node_leaf:
  assumes I: "insert_fn I" and t: "wf 2 t" and key: "pvalid key" and te: "t = TrieNode (Value v) p l hv m h" and c: "covers nib t key"
  shows "\<exists>t' delta. insert_node P I mk key i t = Inr (t', delta) \<and> insert_post P pvalid nib I key i t t' delta"
proof -
  have l: "l = prefix_bits P" and kp: "key = p" using t te c key covers_full [OF t] by auto
  have ml: "get_prefix_match_len P p l key (prefix_bits P) = l"
    using match_eq_iff [OF t key] te c by simp
  let ?v = "value_insert I v i"
  obtain md delta where mi: "metadata_insert I m ?v = (md, delta)" by (cases "metadata_insert I m ?v")
  have md: "md = m + delta" using insert_fn.metadata_insert_delta [OF I mi] by simp
  have "insert_node P I mk key i t = Inr (TrieNode (Value ?v) p l False md h, delta)"
    using ml l te bits_pos mi by (simp add: insert_node.simps Let_def)
  moreover have "insert_post P pvalid nib I key i t (TrieNode (Value ?v) p l False md h) delta"
    using t te l kp md nib_length [OF key] lcp_full_iff [of "nib p" "nib key"] bits_eq
    by (auto simp: insert_post_def joined_def inserted_value_def trie_map_Value fun_eq_iff)
  ultimately show ?thesis by blast
qed

text \<open>A child put in place of another, or in a free slot.\<close>

lemma put_child:
  fixes c' :: "('p, 'v, 'm) TrieNode"
  assumes t: "wf k (TrieNode (Children cs) p (4 * d) hv m h)"
    and c': "wf k c'" "4 * d < tn_prefix_len c'" "take (Suc d) (nib (tn_prefix c')) = take d (nib p) @ [bb]"
  shows "wf k (TrieNode (Children (al_put bb c' cs)) p (4 * d) hv' m' h')"
    and "pvalid q \<Longrightarrow> trie_map P (TrieNode (Children (al_put bb c' cs)) p (4 * d) hv' m' h') q =
      (if nib q ! d = bb then trie_map P c' q else trie_map P (TrieNode (Children cs) p (4 * d) hv m h) q)"
    and "sorted_keys cs"
proof -
  from t have w: "pvalid p" "4 * d < prefix_bits P" "k \<le> length cs"
      "drop d (nib p) = replicate (prefix_bits P div 4 - d) 0" "branch k (take d (nib p)) cs"
    unfolding wf_Children by blast+
  then have len: "length (take d (nib p)) = d" using nib_length bits_eq by simp
  show s: "sorted_keys cs" using w(5) by (simp add: branch_ok_def)
  have "length cs \<le> length (al_put bb c' cs)" using s by (simp add: length_al_put)
  then show w': "wf k (TrieNode (Children (al_put bb c' cs)) p (4 * d) hv' m' h')"
    unfolding wf_Children using w branch_put [OF w(5) c'(1)] c' len by simp
  show "trie_map P (TrieNode (Children (al_put bb c' cs)) p (4 * d) hv' m' h') q =
      (if nib q ! d = bb then trie_map P c' q else trie_map P (TrieNode (Children cs) p (4 * d) hv m h) q)"
    if "pvalid q"
    unfolding trie_map_Children [OF w' that] trie_map_Children [OF t that] by (simp add: map_of_al_put)
qed

lemma insert_node_child:
  fixes t :: "('p, 'v, 'm::ab_group_add) TrieNode"
  assumes t: "wf 2 t" and te: "t = TrieNode (Children cs) p (4 * d) hv m h" and key: "pvalid key"
    and c: "covers nib t key"
    and c': "wf 2 c'" "4 * d < tn_prefix_len c'" "take (Suc d) (nib (tn_prefix c')) = take d (nib p) @ [nib key ! d]"
    and map_c': "trie_map P c' = (case map_of cs (nib key ! d) of None \<Rightarrow> Map.empty | Some c \<Rightarrow> trie_map P c)
      (key \<mapsto> inserted_value I key i (trie_map P t key))"
    and delta: "tn_metadata c' = (case map_of cs (nib key ! d) of None \<Rightarrow> 0 | Some c \<Rightarrow> tn_metadata c) + delta"
    and md: "metadata_sum_ok t \<Longrightarrow> metadata_sum_ok c'"
    and hn: "hashed_nodes c' \<subseteq> hashed_nodes t"
  shows "insert_post P pvalid nib I key i t (TrieNode (Children (al_put (nib key ! d) c' cs)) p (4 * d) False (m + delta) h) delta"
proof -
  let ?t' = "TrieNode (Children (al_put (nib key ! d) c' cs)) p (4 * d) False (m + delta) h"
  note pc = put_child [OF t [unfolded te] c']
  have dk: "d \<le> lcp (nib p) (nib key)" using covers_lcp [OF t key] c te by simp
  have "trie_map P ?t' = (trie_map P t)(key \<mapsto> inserted_value I key i (trie_map P t key))"
  proof (rule trie_map_eqI [OF pc(1)])
    fix q assume "\<not> pvalid q"
    then show "((trie_map P t)(key \<mapsto> inserted_value I key i (trie_map P t key))) q = None"
      using key trie_map_covers [OF t, of q] by (cases "trie_map P t q") auto
  next
    fix q assume q: "pvalid q"
    then show "trie_map P ?t' q = ((trie_map P t)(key \<mapsto> inserted_value I key i (trie_map P t key))) q"
      using pc(2) [OF q] map_c' trie_map_Children [OF t [unfolded te] q] te
      by (auto split: option.splits)
  qed
  moreover have "metadata_sum_ok ?t'" if "metadata_sum_ok t"
  proof -
    have "tn_metadata c' - (case map_of cs (nib key ! d) of None \<Rightarrow> 0 | Some c \<Rightarrow> tn_metadata c) = delta"
      using delta by simp
    then show ?thesis
      using that md te pc(3) by (auto simp: set_al_put sum_al_put)
  qed
  moreover have "hashed_nodes ?t' \<subseteq> hashed_nodes t"
    using hn te by (auto simp: set_al_put [OF pc(3)])
  ultimately show ?thesis
    using pc(1) te dk
    by (auto simp: insert_post_def joined_def simp del: wf_node.simps metadata_sum_ok.simps hashed_nodes.simps)
qed

lemma metadata_sum_ok_child: "metadata_sum_ok (TrieNode (Children cs) p l hv m h) \<Longrightarrow> map_of cs bb = Some c \<Longrightarrow> metadata_sum_ok c"
  by (auto dest!: map_of_SomeD)

lemma hashed_nodes_child: "map_of cs bb = Some c \<Longrightarrow> hashed_nodes c \<subseteq> hashed_nodes (TrieNode (Children cs) p l hv m h)"
  by (auto dest!: map_of_SomeD)

theorem insert_node_correct:
  fixes t :: "('p, 'v, 'm::ab_group_add) TrieNode"
  assumes I: "insert_fn I" and mk: "leaf_maker P I lv mk" and key: "pvalid key"
  shows "wf 2 t \<Longrightarrow> \<exists>t' delta. insert_node P I mk key i t = Inr (t', delta) \<and>
    insert_post P pvalid nib I key i t t' delta"
proof (induction t rule: node_induct)
  case (Value v p l hv m h)
  then show ?case
    using insert_node_leaf [OF I Value key refl] insert_node_split [OF mk key Value] by blast
next
  case (Children cs p l hv m h)
  let ?t = "TrieNode (Children cs) p l hv m h"
  show ?case
  proof (cases "covers nib ?t key")
    case True
    from Children.prems obtain d where d: "l = 4 * d" "4 * d < prefix_bits P" "2 \<le> length cs"
        "branch 2 (take d (nib p)) cs" "length (take d (nib p)) = d"
      by (rule wf_ChildrenE)
    let ?bb = "nib key ! d"
    note bb = branch_bits_at [OF key d(2)]
    have ml: "get_prefix_match_len P p (4 * d) key (prefix_bits P) = 4 * d"
      using match_eq_iff [OF Children.prems key] True d(1) by simp
    have sk: "take (Suc d) (nib key) = take d (nib p) @ [?bb]"
      using True d nib_length [OF key] bits_eq by (simp add: covers_def take_Suc_conv_app_nth)
    note tm = trie_map_Children [OF Children.prems key]
    note inner = insert_node_child [OF Children.prems, unfolded d(1), OF refl key True [unfolded d(1)], of _ I i]
    show ?thesis
    proof (cases "map_of cs ?bb")
      case None
      let ?leaf = "mk key i"
      note leaf = leaf_wf [OF mk key]
      have "insert_node P I mk key i ?t =
          Inr (TrieNode (Children (al_put ?bb ?leaf cs)) p l False (m + tn_metadata ?leaf) h, tn_metadata ?leaf)"
        using d ml bb None by (auto simp: insert_node.simps Let_def)
      moreover have "insert_post P pvalid nib I key i ?t
          (TrieNode (Children (al_put ?bb ?leaf cs)) p l False (m + tn_metadata ?leaf) h) (tn_metadata ?leaf)"
        unfolding d(1) using None tm d sk leaf
        by (intro inner) (auto simp: inserted_value_def)
      ultimately show ?thesis by blast
    next
      case (Some c)
      note c = branch_child [OF d(4) Some]
      obtain c' delta where ins: "insert_node P I mk key i c = Inr (c', delta)"
          and post: "insert_post P pvalid nib I key i c c' delta"
        using Children.IH [OF map_of_SomeD [OF Some] c(1)] by blast
      note pp = post [unfolded insert_post_def]
      have "insert_node P I mk key i ?t =
          Inr (TrieNode (Children (al_put ?bb c' cs)) p l False (m + delta) h, delta)"
        using d ml bb Some ins by (auto simp: insert_node.simps Let_def)
      moreover have "insert_post P pvalid nib I key i ?t
          (TrieNode (Children (al_put ?bb c' cs)) p l False (m + delta) h) delta"
        unfolding d(1)
      proof (rule inner)
        show "4 * d < tn_prefix_len c'" "take (Suc d) (nib (tn_prefix c')) = take d (nib p) @ [?bb]"
          using joined_branch [OF conjunct1 [OF conjunct2 [OF pp]] c(1) nib_length [OF key] c(2,3)] d(5) sk by simp_all
        show "metadata_sum_ok c'" if "metadata_sum_ok (TrieNode (Children cs) p (4 * d) hv m h)"
          using pp metadata_sum_ok_child [OF that Some] by blast
        show "hashed_nodes c' \<subseteq> hashed_nodes (TrieNode (Children cs) p (4 * d) hv m h)"
          using pp hashed_nodes_child [OF Some] by blast
      qed (use pp Some tm d(1) in auto)
      ultimately show ?thesis by blast
    qed
  next
    case False
    then show ?thesis using insert_node_split [OF mk key Children.prems] by blast
  qed
qed

text \<open>Insertion into the empty trie turns the root into a leaf.\<close>

lemma insert_node_empty:
  assumes "is_empty_node t" "pvalid (tn_prefix t)" "pvalid key"
  shows "\<exists>t' delta. insert_node P I mk key i t = Inr (t', delta) \<and> wf 2 t' \<and>
    trie_map P t' = [key \<mapsto> value_insert I (new_value I key) i] \<and> tn_metadata t' = delta \<and>
    metadata_sum_ok t' \<and> \<not> tn_hash_valid t' \<and> hashed_nodes t' = {}"
proof -
  obtain ch p l hv m h where t: "t = TrieNode ch p l hv m h" by (cases t)
  have "get_prefix_match_len P p (4 * 0) key (4 * (prefix_bits P div 4)) = 0"
    using assms t bits_eq by (subst match_len) auto
  then have "get_prefix_match_len P p 0 key (prefix_bits P) = 0" using bits_eq by simp
  then show ?thesis
    using assms t by (auto simp: insert_node.simps Let_def is_empty_node_def trie_map_Value)
qed

lemma insert_trie:
  fixes t :: "('p, 'v, 'm::ab_group_add) TrieNode"
  assumes "insert_fn I" "leaf_maker P I lv mk" "pvalid key" "wf_trie P pvalid nib t"
  shows "\<exists>t' delta. insert_node P I mk key i t = Inr (t', delta) \<and> wf 2 t' \<and>
    trie_map P t' = (trie_map P t)(key \<mapsto> inserted_value I key i (trie_map P t key)) \<and>
    (metadata_sum_ok t \<longrightarrow> metadata_sum_ok t') \<and>
    ((is_empty_node t \<longrightarrow> tn_metadata t = 0) \<longrightarrow> tn_metadata t' = tn_metadata t + delta) \<and>
    \<not> tn_hash_valid t' \<and> hashed_nodes t' \<subseteq> hashed_nodes t"
  using assms(4) unfolding wf_trie_def
proof (elim disjE conjE)
  assume "wf 2 t"
  then show ?thesis using insert_node_correct [OF assms(1-3), of t i] by (auto simp: insert_post_def)
next
  assume e: "is_empty_node t" "pvalid (tn_prefix t)"
  then show ?thesis
    using insert_node_empty [OF e assms(3), of I mk i] trie_map_empty [OF e(1)]
    by (auto simp: inserted_value_def)
qed

end

end
