(* ===== verification/Canonical.thy ===== *)
theory Canonical
  imports TrieInsert
begin

text \<open>
  The shape of a trie is a function of the map it stores: two well-formed tries with the
  same keys and values are the same tree of prefixes, branch bits and values, whatever the order of
  the operations that built them.  The second half relates the iterator order of the
  entries to the order of the prefixes.
\<close>

section \<open>Shape\<close>

fun strip :: "('p, 'v, 'm) TrieNode \<Rightarrow> ('p, 'v, unit) TrieNode" where
  "strip (TrieNode ch p l hv m h) =
     TrieNode (case ch of Value v \<Rightarrow> Value v | Children cs \<Rightarrow> Children (map (\<lambda>(bb, c). (bb, strip c)) cs))
       p l False () []"

context trie_prefix
begin

lemma child_map:
  assumes t: "wf k (TrieNode (Children cs) p (4 * d) hv m h)" and c: "map_of cs bb = Some c"
  shows "trie_map P c q =
    (if pvalid q \<and> nib q ! d = bb then trie_map P (TrieNode (Children cs) p (4 * d) hv m h) q else None)"
proof -
  from t obtain e where e: "4 * d = 4 * e" "branch k (take e (nib p)) cs" "length (take e (nib p)) = e"
    by (rule wf_ChildrenE)
  note wc = branch_child [OF e(2) c]
  show ?thesis
  proof (cases "trie_map P c q")
    case None
    then show ?thesis using trie_map_Children [OF t, of q] c by auto
  next
    case (Some v)
    then have q: "pvalid q" "covers nib c q" using trie_map_covers [OF wc(1)] by blast+
    then have "nib q ! d = bb"
      using branch_nth(2) [OF branch_covers [OF e(2) map_of_SomeD [OF c] q(2,1)]] e(1,3) by simp
    then show ?thesis using q(1) trie_map_Children [OF t q(1)] c by simp
  qed
qed

lemma trie_nonempty: "wf 2 t \<Longrightarrow> \<exists>q v. trie_map P t q = Some v"
proof (induction t rule: node_induct)
  case (Value v p l hv m h)
  then show ?case by (auto simp: trie_map_Value)
next
  case (Children cs p l hv m h)
  from Children.prems obtain d where d: "l = 4 * d" "2 \<le> length cs" "branch 2 (take d (nib p)) cs"
    by (rule wf_ChildrenE)
  then obtain bb c ds where "cs = (bb, c) # ds" by (cases cs) auto
  then have c: "map_of cs bb = Some c" by simp
  obtain q v where "trie_map P c q = Some v"
    using Children.IH [OF map_of_SomeD [OF c]] branch_child(1) [OF d(3) c] by blast
  then show ?case
    using child_map [OF Children.prems [unfolded d(1)] c, of q] d(1) by (auto split: if_splits)
qed

text \<open>An inner node has two keys that differ in the digit at its length.\<close>

lemma trie_two_keys:
  assumes t: "wf 2 t" and l: "tn_prefix_len t < prefix_bits P"
  obtains q r where "trie_map P t q \<noteq> None" "trie_map P t r \<noteq> None"
    "nib q ! (tn_prefix_len t div 4) \<noteq> nib r ! (tn_prefix_len t div 4)"
proof -
  obtain cs p l hv m h where te: "t = TrieNode (Children cs) p l hv m h"
    using t l by (cases t; cases "tn_children t") auto
  from t [unfolded te] obtain d where d: "l = 4 * d" "2 \<le> length cs" "branch 2 (take d (nib p)) cs"
    by (rule wf_ChildrenE)
  obtain a ca b cb ds where cs: "cs = (a, ca) # (b, cb) # ds" using d(2) by (cases cs; cases "tl cs") auto
  have ab: "a < b" using d(3) cs by (simp add: branch_ok_def)
  have m: "map_of cs a = Some ca" "map_of cs b = Some cb" using cs ab by auto
  obtain q v r w where "trie_map P ca q = Some v" "trie_map P cb r = Some w"
    using trie_nonempty branch_child(1) [OF d(3) m(1)] branch_child(1) [OF d(3) m(2)] by meson
  then have "nib q ! d = a" "nib r ! d = b" "trie_map P t q = Some v" "trie_map P t r = Some w"
    using child_map [OF t [unfolded te d(1)] m(1), of q] child_map [OF t [unfolded te d(1)] m(2), of r] te d(1)
    by (metis option.discI)+
  then show ?thesis using that [of q r] ab d(1) te by simp
qed

lemma same_map_len_le:
  assumes t: "wf 2 t" and u: "wf 2 u" and eq: "trie_map P t = trie_map P u"
  shows "tn_prefix_len u \<le> tn_prefix_len t"
proof (rule ccontr)
  assume lt: "\<not> tn_prefix_len u \<le> tn_prefix_len t"
  then have "tn_prefix_len t < prefix_bits P" using wf_len [OF u] by simp
  then obtain q r where qr: "trie_map P t q \<noteq> None" "trie_map P t r \<noteq> None"
      "nib q ! (tn_prefix_len t div 4) \<noteq> nib r ! (tn_prefix_len t div 4)"
    using trie_two_keys [OF t] by blast
  have "covers nib u q" "covers nib u r" using qr(1,2) eq trie_map_not_covers' [OF u] by auto
  then have "take (tn_prefix_len u div 4) (nib q) = take (tn_prefix_len u div 4) (nib r)"
    by (simp add: covers_def)
  moreover have "tn_prefix_len t div 4 < tn_prefix_len u div 4" using lt wf_len [OF t] wf_len [OF u] by linarith
  ultimately show False using qr(3) by (metis nth_take)
qed

lemma same_map_prefix:
  assumes t: "wf 2 t" and u: "wf 2 u" and eq: "trie_map P t = trie_map P u"
  shows "tn_prefix_len t = tn_prefix_len u" "tn_prefix t = tn_prefix u"
proof -
  show len: "tn_prefix_len t = tn_prefix_len u"
    using same_map_len_le [OF t u eq] same_map_len_le [OF u t eq [symmetric]] by simp
  obtain q where "trie_map P t q \<noteq> None" using trie_nonempty [OF t] by auto
  then have "covers nib t q" "covers nib u q" using eq trie_map_not_covers' [OF t] trie_map_not_covers' [OF u] by auto
  then have tk: "take (tn_prefix_len t div 4) (nib (tn_prefix t)) = take (tn_prefix_len t div 4) (nib (tn_prefix u))"
    using len by (simp add: covers_def)
  have pad: "drop (tn_prefix_len x div 4) (nib (tn_prefix x)) =
      replicate (prefix_bits P div 4 - tn_prefix_len x div 4) 0" if "wf 2 x" for x :: "('p, 'w, 'n) TrieNode"
    using that nib_length [OF wf_prefix [OF that]] by (cases x; cases "tn_children x") auto
  have "nib (tn_prefix t) = nib (tn_prefix u)"
    using tk pad [OF t] pad [OF u] len by (metis append_take_drop_id)
  then show "tn_prefix t = tn_prefix u" using nib_inject wf_prefix t u by metis
qed

text \<open>Two inner nodes with the same prefix and the same map have the same children.\<close>

lemma same_children:
  fixes cs :: "(nat \<times> ('p, 'v, 'm) TrieNode) list" and ds :: "(nat \<times> ('p, 'v, 'n) TrieNode) list"
  assumes t: "wf k (TrieNode (Children cs) p (4 * d) hv m h)" and u: "wf j (TrieNode (Children ds) p (4 * d) hv' m' h')"
    and br: "branch 2 (take d (nib p)) cs" "branch 2 (take d (nib p)) ds"
    and same: "trie_map P (TrieNode (Children cs) p (4 * d) hv m h) = trie_map P (TrieNode (Children ds) p (4 * d) hv' m' h')"
    and sub: "\<And>bb c c'. (bb, c) \<in> set cs \<Longrightarrow> wf 2 c \<Longrightarrow> wf 2 c' \<Longrightarrow> trie_map P c = trie_map P c' \<Longrightarrow> strip c = strip (c' :: ('p, 'v, 'n) TrieNode)"
  shows "map (\<lambda>(bb, c). (bb, strip c)) cs = map (\<lambda>(bb, c). (bb, strip c)) ds"
proof -
  note ct = child_map [OF t] and cu = child_map [OF u]
  note mt = trie_map_Children [OF t] and mu = trie_map_Children [OF u]
  note meq = fun_cong [OF same]
  have child: "map_option strip (map_of cs bb) = map_option strip (map_of ds bb)" for bb
  proof (cases "map_of cs bb")
    case None
    have "map_of ds bb = None"
    proof (rule ccontr)
      assume "map_of ds bb \<noteq> None"
      then obtain c where c: "map_of ds bb = Some c" by blast
      then obtain q v where q: "trie_map P c q = Some v" using trie_nonempty branch_child(1) [OF br(2) c] by blast
      then have "pvalid q" "nib q ! d = bb" "trie_map P (TrieNode (Children ds) p (4 * d) hv' m' h') q = Some v"
        using cu [OF c, of q] by (auto split: if_splits)
      then show False using meq [of q] mt [of q] None by simp
    qed
    then show ?thesis using None by simp
  next
    case (Some c)
    obtain q v where q: "trie_map P c q = Some v" using trie_nonempty branch_child(1) [OF br(1) Some] by blast
    then have qv: "pvalid q" "nib q ! d = bb" "trie_map P (TrieNode (Children cs) p (4 * d) hv m h) q = Some v"
      using ct [OF Some, of q] by (auto split: if_splits)
    obtain c' where c': "map_of ds bb = Some c'"
      using meq [of q] mu [OF qv(1)] qv by (auto split: option.splits)
    have "trie_map P c = trie_map P c'" using ct [OF Some] cu [OF c'] meq by (auto simp: fun_eq_iff)
    then have "strip c = strip c'"
      using sub [OF map_of_SomeD [OF Some]] branch_child(1) [OF br(1) Some] branch_child(1) [OF br(2) c'] by blast
    then show ?thesis using Some c' by simp
  qed
  show ?thesis
  proof (rule sorted_keys_map_of_inject)
    show "sorted_keys (map (\<lambda>(bb, c). (bb, strip c)) cs)" "sorted_keys (map (\<lambda>(bb, c). (bb, strip c)) ds)"
      using br by (auto simp: branch_ok_def comp_def case_prod_beta)
    have map_eq: "map_of (map (\<lambda>(bb, c). (bb, strip c)) xs) = map_option strip \<circ> map_of xs"
      for xs :: "(nat \<times> ('p, 'v, 'x) TrieNode) list"
      by (rule map_of_map)
    show "map_of (map (\<lambda>(bb, c). (bb, strip c)) cs) = map_of (map (\<lambda>(bb, c). (bb, strip c)) ds)"
      unfolding map_eq using child by (auto simp: fun_eq_iff)
  qed
qed

theorem canonical:
  fixes t :: "('p, 'v, 'm) TrieNode" and u :: "('p, 'v, 'n) TrieNode"
  shows "wf 2 t \<Longrightarrow> wf 2 u \<Longrightarrow> trie_map P t = trie_map P u \<Longrightarrow> strip t = strip u"
proof (induction t arbitrary: u rule: node_induct)
  case (Value v p l hv m h)
  note same = same_map_prefix [OF Value]
  have "l = prefix_bits P" using Value.prems by simp
  then obtain w hv' m' h' where ue: "u = TrieNode (Value w) p l hv' m' h'"
    using same Value.prems(2) by (cases u; cases "tn_children u") auto
  then show ?case using Value.prems(3) \<open>l = prefix_bits P\<close> by (simp add: trie_map_Value fun_eq_iff split: if_splits)
next
  case (Children cs p l hv m h)
  note same = same_map_prefix [OF Children.prems]
  from Children.prems(1) obtain d where d: "l = 4 * d" "4 * d < prefix_bits P" "branch 2 (take d (nib p)) cs"
    by (rule wf_ChildrenE)
  obtain ds hv' m' h' where ue: "u = TrieNode (Children ds) p (4 * d) hv' m' h'"
    using same Children.prems(2) d(1,2) by (cases u; cases "tn_children u") auto
  from Children.prems(2) [unfolded ue] obtain e where e: "4 * d = 4 * e" "branch 2 (take e (nib p)) ds"
    by (rule wf_ChildrenE)
  then have b: "branch 2 (take d (nib p)) ds" by simp
  have "map (\<lambda>(bb, c). (bb, strip c)) cs = map (\<lambda>(bb, c). (bb, strip c)) ds"
    by (rule same_children [OF Children.prems(1) [unfolded d(1)] Children.prems(2) [unfolded ue] d(3) b])
      (use Children.prems(3) d(1) ue Children.IH in auto)
  then show ?case using ue d(1) by simp
qed

section \<open>Iteration order\<close>

lemma entries_Children:
  "wf k (TrieNode (Children cs) p l hv m h) \<Longrightarrow>
     entries P (TrieNode (Children cs) p l hv m h) = concat (map (\<lambda>(bb, c). entries P c) cs)"
  by (auto elim!: wf_ChildrenE)

lemma branch_sorted:
  assumes "branch k pi cs" "\<And>bb c. (bb, c) \<in> set cs \<Longrightarrow> sorted_wrt (prefix_less P) (map fst (entries P c))"
  shows "sorted_wrt (prefix_less P) (map fst (concat (map (\<lambda>(bb, c). entries P c) cs)))"
  using assms
proof (induction cs)
  case (Cons x cs)
  obtain a ca where x: "x = (a, ca)" by (cases x)
  have "prefix_less P q r" if q: "(q, v) \<in> set (entries P ca)" and c: "(b, c) \<in> set cs" and r: "(r, w) \<in> set (entries P c)"
    for q v b c r w
  proof -
    have wf: "wf k ca" "wf k c" "a < b" using Cons.prems(1) x c by (auto simp: branch_ok_def)
    have v: "pvalid q" "pvalid r" "covers nib ca q" "covers nib c r" using entries_covers [OF wf(1) q] entries_covers [OF wf(2) r] by auto
    have "take (Suc (length pi)) (nib q) = pi @ [a]" "take (Suc (length pi)) (nib r) = pi @ [b]"
      using branch_covers [OF Cons.prems(1)] x c v by auto
    then show ?thesis
      using less_iff [OF v(1,2)] lexless_at_diff [of "length pi" "nib q" "nib r"]
        branch_nth [of pi "nib q" a] branch_nth [of pi "nib r" b] wf(3) by simp
  qed
  then show ?case
    using Cons.IH Cons.prems x by (fastforce simp: sorted_wrt_append branch_ok_def)
qed simp

lemma entries_sorted: "wf k t \<Longrightarrow> sorted_wrt (prefix_less P) (map fst (entries P t))"
proof (induction t rule: node_induct)
  case (Children cs p l hv m h)
  from Children.prems obtain d where d: "branch k (take d (nib p)) cs" by (rule wf_ChildrenE)
  then show ?case
    unfolding entries_Children [OF Children.prems]
    using Children.IH by (intro branch_sorted [OF d]) (auto simp: branch_ok_def)
qed simp

lemma prefix_less_irrefl: "pvalid p \<Longrightarrow> \<not> prefix_less P p p"
  by (simp add: less_iff lexless_irrefl)

lemma entries_distinct:
  assumes "wf k t"
  shows "distinct (map fst (entries P t))"
proof -
  have "sorted_wrt R xs \<Longrightarrow> (\<And>x. x \<in> set xs \<Longrightarrow> \<not> R x x) \<Longrightarrow> distinct xs" for R and xs :: "'p list"
    by (induction xs) auto
  then show ?thesis
    using entries_sorted [OF assms] prefix_less_irrefl entries_covers [OF assms] by fastforce
qed

lemma set_entries: "wf k t \<Longrightarrow> (q, v) \<in> set (entries P t) \<longleftrightarrow> trie_map P t q = Some v"
  unfolding trie_map_def by (metis entries_distinct map_of_eq_Some_iff)

section \<open>The accumulating traversals\<close>

lemma fold_rbind_append:
  assumes "\<forall>(b, c) \<in> set cs. \<forall>out. f c out = Inr (out @ g c)"
  shows "fold (\<lambda>(b, c) out. rbind out (f c)) cs (Inr out) = Inr (out @ concat (map (\<lambda>(b, c). g c) cs))"
  using assms by (induction cs arbitrary: out) auto

lemma fold_append:
  assumes "\<forall>(b, c) \<in> set cs. \<forall>out. f c out = out @ g c"
  shows "fold (\<lambda>(b, c). f c) cs out = out @ concat (map (\<lambda>(b, c). g c) cs)"
  using assms by (induction cs arbitrary: out) auto

lemma sum_of_nat_length:
  fixes f :: "'n \<Rightarrow> 'w::semiring_1"
  assumes "\<forall>(b, c) \<in> set cs. f c = of_nat (length (g c))"
  shows "sum_list (map (\<lambda>(b, c). f c) cs) = of_nat (length (concat (map (\<lambda>(b, c). g c) cs)))"
  using assms by (induction cs) auto

lemma accumulate_values_entries:
  "wf k t \<Longrightarrow> accumulate_values P t out = Inr (out @ map snd (entries P t))"
proof (induction t arbitrary: out rule: node_induct)
  case (Children cs p l hv m h)
  from Children.prems obtain d where d: "l = 4 * d" "4 * d < prefix_bits P" "branch k (take d (nib p)) cs"
    by (rule wf_ChildrenE)
  have "\<forall>(bb, c) \<in> set cs. \<forall>out. accumulate_values P c out = Inr (out @ map snd (entries P c))"
    using Children.IH d(3) by (auto simp: branch_ok_def)
  from fold_rbind_append [OF this] show ?case
    using d(1,2) by (simp add: map_concat comp_def split_beta')
qed simp

lemma accumulate_keys_entries: "wf k t \<Longrightarrow> accumulate_keys P t out = out @ map fst (entries P t)"
proof (induction t arbitrary: out rule: node_induct)
  case (Children cs p l hv m h)
  from Children.prems obtain d where d: "l = 4 * d" "4 * d < prefix_bits P" "branch k (take d (nib p)) cs"
    by (rule wf_ChildrenE)
  have "\<forall>(bb, c) \<in> set cs. \<forall>out. accumulate_keys P c out = out @ map fst (entries P c)"
    using Children.IH d(3) by (auto simp: branch_ok_def)
  from fold_append [OF this] show ?case
    using d(1,2) by (simp add: map_concat comp_def split_beta')
qed simp

lemma uncached_size_entries: "wf k t \<Longrightarrow> uncached_size P t = of_nat (length (entries P t))"
proof (induction t rule: node_induct)
  case (Children cs p l hv m h)
  from Children.prems obtain d where d: "l = 4 * d" "4 * d < prefix_bits P" "branch k (take d (nib p)) cs"
    by (rule wf_ChildrenE)
  have "\<forall>(bb, c) \<in> set cs. uncached_size P c = of_nat (length (entries P c))"
    using Children.IH d(3) by (auto simp: branch_ok_def)
  from sum_of_nat_length [OF this] show ?case using d(1,2) by simp
qed simp

lemma get_lowest_key_entries: "wf 2 t \<Longrightarrow> get_lowest_key P t = Some (fst (hd (entries P t))) \<and> entries P t \<noteq> []"
proof (induction t rule: node_induct)
  case (Children cs p l hv m h)
  from Children.prems obtain d where d: "l = 4 * d" "4 * d < prefix_bits P" "2 \<le> length cs"
      "branch 2 (take d (nib p)) cs"
    by (rule wf_ChildrenE)
  then obtain bb c ds where cs: "cs = (bb, c) # ds" by (cases cs) auto
  then have "wf 2 c" using d(4) by (simp add: branch_ok_def)
  then show ?case using Children.IH [of bb c] cs d by simp
qed simp

end

end
