(* ===== verification/TrieMerge.thy ===== *)
theory TrieMerge
  imports Canonical
begin

text \<open>
  Merging two tries: \<^verbatim>\<open>TrieNode::_merge_in\<close>.
  The recursion of \<^verbatim>\<open>_merge_in\<close> goes down on either side (cases 2 and 3), so it is bounded by
  fuel; \<open>merge_in_node\<close> supplies the number of nodes of both tries, and
  \<open>merge_node_correct\<close> shows that this is always enough.
\<close>

section \<open>Operations\<close>

text \<open>One round of the loop over the children of the other node; \<open>rec\<close> is the recursive call.\<close>

definition merge_child_step ::
    "(('p, 'v, 'm::ab_group_add) TrieNode \<Rightarrow> ('p, 'v, 'm) TrieNode \<Rightarrow> (('p, 'v, 'm) TrieNode \<times> 'm) res) \<Rightarrow>
     nat \<times> ('p, 'v, 'm) TrieNode \<Rightarrow> (('p, 'v, 'm) TrieNode, 'v) children_map \<times> 'm \<times> 'm \<Rightarrow>
     ((('p, 'v, 'm) TrieNode, 'v) children_map \<times> 'm \<times> 'm) res" where
  "merge_child_step rec = (\<lambda>(bb, oc) (ch, m, metadata_delta).
     if bb > MAX_BRANCH_VALUE then throw ''invalid other->first''
     else case cm_find ch bb of
       None \<Rightarrow>
         let child_metadata = tn_metadata oc
         in rbind (cm_emplace ch bb oc) (\<lambda>ch'.
              Inr (ch', m + child_metadata, metadata_delta + child_metadata))
     | Some merge_child \<Rightarrow>
         rbind (rec merge_child oc) (\<lambda>(merge_child', child_metadata).
           Inr (cm_set ch bb merge_child', m + child_metadata, metadata_delta + child_metadata)))"

text \<open>The body of \<^verbatim>\<open>_merge_in\<close>; \<open>rec\<close> is the recursive call.\<close>

definition merge_step ::
    "'p TriePrefix \<Rightarrow> ('v, 'm::ab_group_add) MergeFn \<Rightarrow>
     (('p, 'v, 'm) TrieNode \<Rightarrow> ('p, 'v, 'm) TrieNode \<Rightarrow> (('p, 'v, 'm) TrieNode \<times> 'm) res) \<Rightarrow>
     ('p, 'v, 'm) TrieNode \<Rightarrow> ('p, 'v, 'm) TrieNode \<Rightarrow> (('p, 'v, 'm) TrieNode \<times> 'm) res" where
  "merge_step P M rec this other =
    (case (this, other) of (TrieNode ch p l hv m h, TrieNode och op ol ohv om oh) \<Rightarrow>
     if cm_size ch = 0 \<and> l = 0 then throw ''cannot _merge into empty trie!''
     else if list_ex (\<lambda>(bb, c). bb > MAX_BRANCH_VALUE) (cm_list ch) then throw ''invalid iter->first!''
     else
     let prefix_match_len = get_prefix_match_len P p l op ol in
     if prefix_match_len > MAX_KEY_LEN_BITS P then throw ''invalid too long prefix_match_len''
     else if prefix_match_len = MAX_KEY_LEN_BITS P then
       rbind (cm_value ch) (\<lambda>v. rbind (cm_value och) (\<lambda>ov.
       rbind (value_merge M v ov) (\<lambda>v'.
       rbind (metadata_merge M m om) (\<lambda>(m', metadata_delta).
         Inr (TrieNode (Value v') p l False m' h, metadata_delta)))))
     else if l = ol \<and> l = prefix_match_len then
       rbind (rfold (merge_child_step rec) (cm_list och) (ch, m, 0))
       (\<lambda>(ch', m', metadata_delta). Inr (TrieNode ch' p l False m' h, metadata_delta))
     else if l = prefix_match_len then
       if ol < l then throw ''cannot happen!''
       else rbind (get_branch_bits P op l) (\<lambda>branch_bits.
         case cm_find ch branch_bits of
           None \<Rightarrow>
             rbind (cm_emplace ch branch_bits (TrieNode och op ol ohv om oh)) (\<lambda>ch'.
               Inr (TrieNode ch' p l False (m + om) h, om))
         | Some merge_child \<Rightarrow>
             rbind (rec merge_child (TrieNode och op ol ohv om oh)) (\<lambda>(merge_child', delta).
               Inr (TrieNode (cm_set ch branch_bits merge_child') p l False (m + delta) h, delta)))
     else if ol = prefix_match_len then
       let original_child_branch = TrieNode ch p l False m uninit_hash
       in rbind (get_branch_bits P p ol) (\<lambda>original_child_branch_bits.
         case cm_find och original_child_branch_bits of
           None \<Rightarrow>
             rbind (cm_emplace och original_child_branch_bits original_child_branch) (\<lambda>ch'.
               Inr (TrieNode ch' op ol False (om + m) h, om))
         | Some _ \<Rightarrow>
             rbind (cm_extract och original_child_branch_bits) (\<lambda>(matching_subtree_of_other, ch1).
             rbind (cm_emplace ch1 original_child_branch_bits original_child_branch) (\<lambda>ch2.
             let metadata_reduction = tn_metadata matching_subtree_of_other - m
             in rbind (rec original_child_branch matching_subtree_of_other) (\<lambda>(child', delta).
               let meta_delta = delta - metadata_reduction;
                   m' = om + meta_delta
               in Inr (TrieNode (cm_set ch2 original_child_branch_bits child') op ol False m' h, m' - m)))))
     else
       let original_child_branch = TrieNode ch p l False m uninit_hash
       in rbind (get_branch_bits P p prefix_match_len) (\<lambda>original_branch_bits.
          rbind (get_branch_bits P op prefix_match_len) (\<lambda>other_branch_bits.
          rbind (cm_emplace (Children []) original_branch_bits original_child_branch) (\<lambda>ch1.
          rbind (cm_emplace ch1 other_branch_bits (TrieNode och op ol ohv om oh)) (\<lambda>ch2.
          if prefix_match_len div 8 \<ge> MAX_KEY_LEN_BITS P div 8 then throw ''invalid prefix_len''
          else rbind (prefix_truncate P p prefix_match_len) (\<lambda>p'.
            Inr (TrieNode ch2 p' prefix_match_len False (m + om) h, om)))))))"

primrec merge_node ::
    "'p TriePrefix \<Rightarrow> ('v, 'm::ab_group_add) MergeFn \<Rightarrow> nat \<Rightarrow> ('p, 'v, 'm) TrieNode \<Rightarrow> ('p, 'v, 'm) TrieNode \<Rightarrow>
     (('p, 'v, 'm) TrieNode \<times> 'm) res" where
  "merge_node P M 0 = (\<lambda>this other. throw ''fuel'')"
| "merge_node P M (Suc fuel) = merge_step P M (merge_node P M fuel)"

fun node_count :: "('p, 'v, 'm) TrieNode \<Rightarrow> nat" where
  "node_count (TrieNode ch p l hv m h) = Suc (sum_list (map (\<lambda>(bb, c). node_count c) (cm_list ch)))"

definition merge_in_node ::
    "'p TriePrefix \<Rightarrow> ('v, 'm::ab_group_add) MergeFn \<Rightarrow> ('p, 'v, 'm) TrieNode \<Rightarrow> ('p, 'v, 'm) TrieNode \<Rightarrow>
     (('p, 'v, 'm) TrieNode \<times> 'm) res" where
  "merge_in_node P M this other = merge_node P M (node_count this + node_count other) this other"

section \<open>What a merge computes\<close>

text \<open>The map of the merged trie, and the condition that no callback throws.\<close>

definition map_merge :: "('v \<Rightarrow> 'v \<Rightarrow> 'v res) \<Rightarrow> ('p \<rightharpoonup> 'v) \<Rightarrow> ('p \<rightharpoonup> 'v) \<Rightarrow> ('p \<rightharpoonup> 'v)" where
  "map_merge vm f g q =
     (case f q of
        None \<Rightarrow> g q
      | Some v \<Rightarrow> (case g q of
            None \<Rightarrow> Some v
          | Some w \<Rightarrow> (case vm v w of Inl e \<Rightarrow> None | Inr x \<Rightarrow> Some x)))"

definition mergeable :: "('v, 'm) MergeFn \<Rightarrow> ('p \<rightharpoonup> 'v) \<Rightarrow> ('p \<rightharpoonup> 'v) \<Rightarrow> bool" where
  "mergeable M f g \<longleftrightarrow>
     (\<forall>q v w. f q = Some v \<longrightarrow> g q = Some w \<longrightarrow>
        (\<exists>x. value_merge M v w = Inr x) \<and> (\<forall>m m'. \<exists>r. metadata_merge M m m' = Inr r))"

lemma map_merge_simps [simp]:
  "f q = None \<Longrightarrow> map_merge vm f g q = g q"
  "g q = None \<Longrightarrow> map_merge vm f g q = f q"
  "map_merge vm Map.empty g = g"
  "map_merge vm f Map.empty = f"
  by (auto simp: map_merge_def fun_eq_iff split: option.split)

lemma mergeableI_sub:
  assumes "mergeable M f g" "\<And>q v. f' q = Some v \<Longrightarrow> f q = Some v" "\<And>q v. g' q = Some v \<Longrightarrow> g q = Some v"
  shows "mergeable M f' g'"
  using assms unfolding mergeable_def by meson

lemma mergeable_overwrite: "mergeable OverwriteMergeFn f g"
  by (auto simp: mergeable_def OverwriteMergeFn_def)

lemma map_merge_overwrite: "map_merge (value_merge OverwriteMergeFn) f g = f ++ g"
  by (auto simp: map_merge_def OverwriteMergeFn_def map_add_def fun_eq_iff split: option.split)

lemma mergeable_no_duplicates: "mergeable (NoDuplicateKeysMergeFn :: ('v, 'm::ab_group_add) MergeFn) f g \<longleftrightarrow> dom f \<inter> dom g = {}"
  by (auto simp: mergeable_def NoDuplicateKeysMergeFn_def)

lemma map_merge_disjoint: "dom f \<inter> dom g = {} \<Longrightarrow> map_merge vm f g = f ++ g"
  by (auto simp: map_merge_def map_add_def fun_eq_iff split: option.split)

text \<open>Where the merged node sits: its length is the length of the common prefix of both nodes.\<close>

definition merged_at :: "('p \<Rightarrow> nat list) \<Rightarrow> ('p, 'v, 'm) TrieNode \<Rightarrow> ('p, 'v, 'm) TrieNode \<Rightarrow> ('p, 'v, 'm) TrieNode \<Rightarrow> bool" where
  "merged_at nib t u t' \<longleftrightarrow>
     tn_prefix_len t' = 4 * min (lcp (nib (tn_prefix t)) (nib (tn_prefix u))) (min (tn_prefix_len t div 4) (tn_prefix_len u div 4)) \<and>
     take (tn_prefix_len t' div 4) (nib (tn_prefix t')) = take (tn_prefix_len t' div 4) (nib (tn_prefix t))"

definition merge_post ::
    "'p TriePrefix \<Rightarrow> ('p \<Rightarrow> bool) \<Rightarrow> ('p \<Rightarrow> nat list) \<Rightarrow> nat \<Rightarrow> ('v, 'm::ab_group_add) MergeFn \<Rightarrow>
     ('p, 'v, 'm) TrieNode \<Rightarrow> ('p, 'v, 'm) TrieNode \<Rightarrow> ('p, 'v, 'm) TrieNode \<Rightarrow> 'm \<Rightarrow> bool" where
  "merge_post P pvalid nib k M t u t' delta \<longleftrightarrow>
    wf_node P pvalid nib k t' \<and> merged_at nib t u t' \<and>
    trie_map P t' = map_merge (value_merge M) (trie_map P t) (trie_map P u) \<and>
    tn_metadata t' = tn_metadata t + delta \<and>
    (metadata_sum_ok t \<longrightarrow> metadata_sum_ok u \<longrightarrow> metadata_sum_ok t') \<and>
    \<not> tn_hash_valid t' \<and> hashed_nodes t' \<subseteq> hashed_nodes t \<union> hashed_nodes u"

text \<open>The map a children map stands for.\<close>

definition branch_map :: "'p TriePrefix \<Rightarrow> ('p \<Rightarrow> nat list) \<Rightarrow> nat \<Rightarrow> (nat \<times> ('p, 'v, 'm) TrieNode) list \<Rightarrow> 'p \<rightharpoonup> 'v" where
  "branch_map P nib d cs q = (case map_of cs (nib q ! d) of None \<Rightarrow> None | Some c \<Rightarrow> trie_map P c q)"

definition children_post ::
    "'p TriePrefix \<Rightarrow> ('p \<Rightarrow> bool) \<Rightarrow> ('p \<Rightarrow> nat list) \<Rightarrow> nat \<Rightarrow> ('v, 'm::ab_group_add) MergeFn \<Rightarrow> nat list \<Rightarrow>
     (nat \<times> ('p, 'v, 'm) TrieNode) list \<Rightarrow> (nat \<times> ('p, 'v, 'm) TrieNode) list \<Rightarrow>
     (nat \<times> ('p, 'v, 'm) TrieNode) list \<Rightarrow> 'm \<Rightarrow> bool" where
  "children_post P pvalid nib k M pi cs xs cs' D \<longleftrightarrow>
    branch_ok P pvalid nib k pi cs' \<and> length cs \<le> length cs' \<and>
    branch_map P nib (length pi) cs' = map_merge (value_merge M) (branch_map P nib (length pi) cs) (branch_map P nib (length pi) xs) \<and>
    sum_list (map (\<lambda>(bb, c). tn_metadata c) cs') = sum_list (map (\<lambda>(bb, c). tn_metadata c) cs) + D \<and>
    ((\<forall>(bb, c) \<in> set cs. metadata_sum_ok c) \<longrightarrow> (\<forall>(bb, c) \<in> set xs. metadata_sum_ok c) \<longrightarrow>
      (\<forall>(bb, c) \<in> set cs'. metadata_sum_ok c)) \<and>
    (\<Union>x \<in> set cs'. hashed_nodes (snd x)) \<subseteq>
      (\<Union>x \<in> set cs. hashed_nodes (snd x)) \<union> (\<Union>x \<in> set xs. hashed_nodes (snd x))"

lemma children_postD:
  assumes "children_post P pvalid nib k M pi cs xs cs' D"
  shows "branch_ok P pvalid nib k pi cs'" "length cs \<le> length cs'"
    "branch_map P nib (length pi) cs' = map_merge (value_merge M) (branch_map P nib (length pi) cs) (branch_map P nib (length pi) xs)"
    "sum_list (map (\<lambda>(bb, c). tn_metadata c) cs') = sum_list (map (\<lambda>(bb, c). tn_metadata c) cs) + D"
    "(\<forall>(bb, c) \<in> set cs. metadata_sum_ok c) \<Longrightarrow> (\<forall>(bb, c) \<in> set xs. metadata_sum_ok c) \<Longrightarrow>
      (\<forall>(bb, c) \<in> set cs'. metadata_sum_ok c)"
    "(\<Union>x \<in> set cs'. hashed_nodes (snd x)) \<subseteq>
      (\<Union>x \<in> set cs. hashed_nodes (snd x)) \<union> (\<Union>x \<in> set xs. hashed_nodes (snd x))"
  using assms unfolding children_post_def by blast+

lemma node_count_child: "(bb, c) \<in> set cs \<Longrightarrow> node_count c < node_count (TrieNode (Children cs) p l hv m h)"
  by (induction cs) auto

section \<open>Correctness of the merge\<close>

lemma metadata_sum_ok_put:
  assumes "sorted_keys cs" "metadata_sum_ok (TrieNode (Children cs) p l hv m h)" "metadata_sum_ok c'"
    and "tn_metadata c' = (case map_of cs bb of None \<Rightarrow> 0 | Some c \<Rightarrow> tn_metadata c) + delta"
  shows "metadata_sum_ok (TrieNode (Children (al_put bb c' cs)) p' l' hv' (m + delta) h')"
proof -
  have "tn_metadata c' - (case map_of cs bb of None \<Rightarrow> 0 | Some c \<Rightarrow> tn_metadata c) = delta"
    using assms(4) by simp
  then show ?thesis using assms(1-3) by (auto simp: set_al_put sum_al_put)
qed

lemma hashed_nodes_put:
  assumes "sorted_keys cs"
  shows "hashed_nodes (TrieNode (Children (al_put bb c' cs)) p' l' False m' h') \<subseteq>
    hashed_nodes (TrieNode (Children cs) p l hv m h) \<union> hashed_nodes c'"
  using assms by (auto simp: set_al_put)

lemma al_put_put: "sorted_keys cs \<Longrightarrow> al_put bb c (al_put bb c' cs) = al_put bb c cs"
  by (rule sorted_keys_map_of_inject) (auto simp: sorted_al_put map_of_al_put)

lemma al_put_del: "sorted_keys cs \<Longrightarrow> al_put bb c (al_del bb cs) = al_put bb c cs"
  by (rule sorted_keys_map_of_inject) (auto simp: sorted_al_put sorted_al_del map_of_al_put map_of_al_del)

context trie_prefix
begin

lemma covers_nth: "covers nib t q \<Longrightarrow> i < tn_prefix_len t div 4 \<Longrightarrow> nib q ! i = nib (tn_prefix t) ! i"
  unfolding covers_def by (metis nth_take)

lemma trie_map_nth: "wf k t \<Longrightarrow> trie_map P t q = Some v \<Longrightarrow> i < tn_prefix_len t div 4 \<Longrightarrow> nib q ! i = nib (tn_prefix t) ! i"
  using trie_map_covers [of k t q v] covers_nth [of t q i] by simp

lemma match2:
  assumes "wf k t" "wf j u"
  shows "get_prefix_match_len P (tn_prefix t) (tn_prefix_len t) (tn_prefix u) (tn_prefix_len u) =
    4 * min (lcp (nib (tn_prefix t)) (nib (tn_prefix u))) (min (tn_prefix_len t div 4) (tn_prefix_len u div 4))"
proof -
  have "get_prefix_match_len P (tn_prefix t) (4 * (tn_prefix_len t div 4)) (tn_prefix u) (4 * (tn_prefix_len u div 4)) =
    4 * min (lcp (nib (tn_prefix t)) (nib (tn_prefix u))) (min (tn_prefix_len t div 4) (tn_prefix_len u div 4))"
    using wf_len [OF assms(1)] wf_len [OF assms(2)] by (intro match_len wf_prefix [OF assms(1)] wf_prefix [OF assms(2)]) auto
  then show ?thesis using wf_len [OF assms(1)] wf_len [OF assms(2)] by simp
qed

lemma merged_branch:
  assumes "merged_at nib t u t'" "wf k t" "wf k u"
    and t: "4 * length pi < tn_prefix_len t" "take (Suc (length pi)) (nib (tn_prefix t)) = pi @ [bb]"
    and u: "4 * length pi < tn_prefix_len u" "take (Suc (length pi)) (nib (tn_prefix u)) = pi @ [bb]"
  shows "4 * length pi < tn_prefix_len t'" "take (Suc (length pi)) (nib (tn_prefix t')) = pi @ [bb]"
proof -
  have len: "length (nib (tn_prefix t)) = length (nib (tn_prefix u))" using assms(2,3) wf_prefix nib_length by metis
  have "Suc (length pi) \<le> lcp (nib (tn_prefix t)) (nib (tn_prefix u))"
    using t(2) u(2) len branch_nth(1) [OF t(2)] by (subst le_lcp_iff) auto
  moreover have "Suc (length pi) \<le> tn_prefix_len t div 4" "Suc (length pi) \<le> tn_prefix_len u div 4"
    using t(1) u(1) wf_len [OF assms(2)] wf_len [OF assms(3)] by linarith+
  ultimately have d: "Suc (length pi) \<le> tn_prefix_len t' div 4" using assms(1) by (simp add: merged_at_def)
  then show "4 * length pi < tn_prefix_len t'" by linarith
  have "take (Suc (length pi)) (nib (tn_prefix t')) = take (Suc (length pi)) (nib (tn_prefix t))"
    using arg_cong [OF conjunct2 [OF assms(1) [unfolded merged_at_def]], of "take (Suc (length pi))"] d
    by (simp add: min_absorb1)
  with t(2) show "take (Suc (length pi)) (nib (tn_prefix t')) = pi @ [bb]" by simp
qed

lemma branch_bound: "wf k (TrieNode (Children cs) p l hv m h) \<Longrightarrow> (bb, c) \<in> set cs \<Longrightarrow> bb \<le> MAX_BRANCH_VALUE"
proof (elim wf_ChildrenE)
  fix d assume d: "branch k (take d (nib p)) cs" and c: "(bb, c) \<in> set cs"
  then have "wf k c" and tk: "take (Suc (length (take d (nib p)))) (nib (tn_prefix c)) = take d (nib p) @ [bb]"
    by (auto simp: branch_ok_def)
  have "bb \<in> set (nib (tn_prefix c))" using arg_cong [OF tk, of set] by (auto dest: in_set_takeD)
  then show ?thesis using nib_bound [OF wf_prefix [OF \<open>wf k c\<close>], of bb] by (simp add: MAX_BRANCH_VALUE_def)
qed

lemma branch_guard: "wf k (TrieNode ch p l hv m h) \<Longrightarrow> \<not> list_ex (\<lambda>(bb, c). bb > MAX_BRANCH_VALUE) (cm_list ch)"
proof (cases ch)
  case (Children cs)
  assume "wf k (TrieNode ch p l hv m h)"
  then show ?thesis using branch_bound [of k cs p l hv m h] Children by (auto simp: list_ex_iff not_less [symmetric])
qed simp

lemma trie_map_invalid: "wf k t \<Longrightarrow> \<not> pvalid q \<Longrightarrow> trie_map P t q = None"
  using trie_map_covers [of k t q] by (cases "trie_map P t q") auto

text \<open>Case 2 and case 3: one node goes below the other.\<close>

lemma merge_below:
  fixes c' u :: "('p, 'v, 'm::ab_group_add) TrieNode"
  assumes t: "wf k (TrieNode (Children cs) p (4 * d) hv m h)"
    and u: "wf k u" "4 * d < tn_prefix_len u" "bb = nib (tn_prefix u) ! d"
    and c': "wf k c'" "4 * d < tn_prefix_len c'" "take (Suc d) (nib (tn_prefix c')) = take d (nib p) @ [bb]"
    and map_c': "trie_map P c' = F (case map_of cs bb of None \<Rightarrow> Map.empty | Some c \<Rightarrow> trie_map P c) (trie_map P u)"
    and F: "\<And>f g q. g q = None \<Longrightarrow> F f g q = f q" "\<And>f g f' q. f q = f' q \<Longrightarrow> F f g q = F f' g q"
  shows "trie_map P (TrieNode (Children (al_put bb c' cs)) p (4 * d) hv' m' h') =
    F (trie_map P (TrieNode (Children cs) p (4 * d) hv m h)) (trie_map P u)"
proof (rule trie_map_eqI [OF put_child(1) [OF t c']])
  fix q assume "\<not> pvalid q"
  then show "F (trie_map P (TrieNode (Children cs) p (4 * d) hv m h)) (trie_map P u) q = None"
    using trie_map_invalid [OF t] trie_map_invalid [OF u(1)] F(1) by metis
next
  fix q assume q: "pvalid q"
  have "trie_map P u q = None" if "nib q ! d \<noteq> bb"
  proof (rule ccontr)
    assume "trie_map P u q \<noteq> None"
    then have "nib q ! d = nib (tn_prefix u) ! d"
      using trie_map_nth [OF u(1), of q _ d] u(2) wf_len [OF u(1)] by auto
    then show False using that u(3) by simp
  qed
  then show "trie_map P (TrieNode (Children (al_put bb c' cs)) p (4 * d) hv' m' h') q =
      F (trie_map P (TrieNode (Children cs) p (4 * d) hv m h)) (trie_map P u) q"
    using put_child(2) [OF t c' q] map_c' trie_map_Children [OF t q]
    by (auto simp: F(1) intro!: F(2) split: option.split)
qed

lemma merge_leaf:
  fixes t u :: "('p, 'v, 'm::ab_group_add) TrieNode"
  assumes M: "merge_fn M" and t: "wf k t" and u: "wf k u"
    and same: "tn_prefix_len t = prefix_bits P" "tn_prefix_len u = prefix_bits P" "tn_prefix t = tn_prefix u"
    and ok: "mergeable M (trie_map P t) (trie_map P u)"
  shows "\<exists>t' delta. merge_step P M rec t u = Inr (t', delta) \<and> merge_post P pvalid nib k M t u t' delta"
proof -
  obtain v p hv m h where te: "t = TrieNode (Value v) p (prefix_bits P) hv m h"
    using t same by (cases t; cases "tn_children t") auto
  obtain w ohv om oh where ue: "u = TrieNode (Value w) p (prefix_bits P) ohv om oh"
    using u same te by (cases u; cases "tn_children u") auto
  have lcp: "lcp (nib p) (nib p) = prefix_bits P div 4"
    using lcp_full_iff [of "nib p" "nib p"] nib_length [OF wf_prefix [OF t]] te by simp
  have ml: "get_prefix_match_len P p (prefix_bits P) p (prefix_bits P) = prefix_bits P"
    using match2 [OF t u] te ue lcp bits_eq by simp
  from ok have "(\<exists>x. value_merge M v w = Inr x) \<and> (\<forall>m m'. \<exists>r. metadata_merge M m m' = Inr r)"
    unfolding mergeable_def te ue trie_map_Value by (auto split: if_splits)
  then obtain x m' delta where cb: "value_merge M v w = Inr x" "metadata_merge M m om = Inr (m', delta)" by fast
  have m': "m' = m + delta" using merge_fn.metadata_merge_delta [OF M cb(2)] .
  have "merge_step P M rec t u = Inr (TrieNode (Value x) p (prefix_bits P) False m' h, delta)"
    using ml cb te ue bits_pos by (simp add: merge_step_def)
  moreover have "merge_post P pvalid nib k M t u (TrieNode (Value x) p (prefix_bits P) False m' h) delta"
    using t te ue m' cb lcp bits_eq
    by (auto simp: merge_post_def merged_at_def trie_map_Value map_merge_def fun_eq_iff)
  ultimately show ?thesis by blast
qed

lemma merge_join:
  fixes t u :: "('p, 'v, 'm::ab_group_add) TrieNode"
  assumes t: "wf k t" and u: "wf k u" and k: "k \<le> 2"
    and n: "n = lcp (nib (tn_prefix t)) (nib (tn_prefix u))"
    and lt: "n < tn_prefix_len t div 4" "n < tn_prefix_len u div 4"
  shows "\<exists>t' delta. merge_step P M rec t u = Inr (t', delta) \<and> merge_post P pvalid nib k M t u t' delta"
proof -
  obtain ch p l hv m h where te: "t = TrieNode ch p l hv m h" by (cases t)
  obtain och op ol ohv om oh where ue: "u = TrieNode och op ol ohv om oh" by (cases u)
  define orig where "orig = TrieNode ch p l False m uninit_hash"
  have orig: "wf k orig" "tn_prefix orig = p" "tn_prefix_len orig = l" "trie_map P orig = trie_map P t"
    using t te by (simp_all add: orig_def trie_map_def)
  have lt': "n < l div 4" "n < ol div 4" using lt te ue by simp_all
  have ml: "get_prefix_match_len P p l op ol = 4 * n"
    using match2 [OF t u] te ue lt n by simp
  obtain p' where j:
    "prefix_truncate P p (4 * n) = Inr p'"
    "get_branch_bits P p (4 * n) = Inr (nib p ! n)" "get_branch_bits P op (4 * n) = Inr (nib op ! n)"
    "nib p ! n \<noteq> nib op ! n" "4 * n < prefix_bits P"
    and post: "\<And>cs hv m h. set cs = {(nib p ! n, orig), (nib op ! n, u)} \<Longrightarrow>
       sorted_keys cs \<Longrightarrow> length cs = 2 \<Longrightarrow>
       wf k (TrieNode (Children cs) p' (4 * n) hv m h) \<and>
       trie_map P (TrieNode (Children cs) p' (4 * n) hv m h) = trie_map P orig ++ trie_map P u \<and>
       take n (nib p') = take n (nib p)"
    by (rule join_two [OF orig(1) u k, of n]) (use orig(2,3) ue n te lt' in simp_all)
  define cs where "cs = al_put (nib op ! n) u (al_put (nib p ! n) orig [])"
  have cs: "set cs = {(nib p ! n, orig), (nib op ! n, u)}" "sorted_keys cs" "length cs = 2"
    using j(4) by (auto simp: cs_def)
  let ?t' = "TrieNode (Children cs) p' (4 * n) False (m + om) h"
  have "\<not> (cm_size ch = 0 \<and> l = 0)" "l \<noteq> 4 * n" "ol \<noteq> 4 * n" using lt' by auto
  then have "merge_step P M rec t u = Inr (?t', om)"
    using ml j te ue bits_bytes [OF j(5)] branch_guard [OF t [unfolded te]]
    by (auto simp: merge_step_def Let_def orig_def [symmetric] cs_def)
  moreover have "merge_post P pvalid nib k M t u ?t' om"
  proof -
    note pt = post [OF cs, of False "m + om" h]
    have "dom (trie_map P t) \<inter> dom (trie_map P u) = {}"
      using trie_map_nth [OF t _ lt(1)] trie_map_nth [OF u _ lt(2)] j(4) te ue by fastforce
    then have "map_merge (value_merge M) (trie_map P t) (trie_map P u) = trie_map P t ++ trie_map P u"
      by (rule map_merge_disjoint)
    moreover have "metadata_sum_ok ?t'" if "metadata_sum_ok t" "metadata_sum_ok u"
      using that te ue j(4) by (auto simp: cs_def orig_def add.commute)
    moreover have "hashed_nodes ?t' \<subseteq> hashed_nodes t \<union> hashed_nodes u"
      using te cs(1) by (auto simp: orig_def)
    moreover have "merged_at nib t u ?t'" using pt lt n te by (simp add: merged_at_def)
    ultimately show ?thesis
      using pt orig(4) te
      by (simp add: merge_post_def del: wf_node.simps metadata_sum_ok.simps hashed_nodes.simps)
  qed
  ultimately show ?thesis by blast
qed

lemma path_child:
  assumes "wf k u" "4 * d < tn_prefix_len u" "take d (nib (tn_prefix u)) = pi"
  shows "take (Suc d) (nib (tn_prefix u)) = pi @ [nib (tn_prefix u) ! d]"
proof -
  have "d < length (nib (tn_prefix u))" using assms(2) wf_nib_len [OF assms(1)] wf_len [OF assms(1)] by linarith
  then show ?thesis using assms(3) by (simp add: take_Suc_conv_app_nth)
qed

lemma merge_child_below:
  fixes t u :: "('p, 'v, 'm::ab_group_add) TrieNode"
  assumes t: "wf k t" and te: "t = TrieNode (Children cs) p (4 * d) hv m h" and u: "wf k u"
    and ne: "\<not> is_empty_node t"
    and lt: "4 * d < tn_prefix_len u" and pre: "take d (nib (tn_prefix u)) = take d (nib p)"
    and rec: "\<And>c. map_of cs (nib (tn_prefix u) ! d) = Some c \<Longrightarrow>
      \<exists>c' delta. rec c u = Inr (c', delta) \<and> merge_post P pvalid nib k M c u c' delta"
  shows "\<exists>t' delta. merge_step P M rec t u = Inr (t', delta) \<and> merge_post P pvalid nib k M t u t' delta"
proof -
  obtain och op ol ohv om oh where ue: "u = TrieNode och op ol ohv om oh" by (cases u)
  from t [unfolded te] obtain d' where d': "4 * d = 4 * d'" "4 * d' < prefix_bits P" "branch k (take d' (nib p)) cs"
      "length (take d' (nib p)) = d'"
    by (rule wf_ChildrenE)
  then have d: "4 * d < prefix_bits P" "branch k (take d (nib p)) cs" "length (take d (nib p)) = d" by simp_all
  let ?bb = "nib op ! d"
  have len: "length (nib p) = length (nib op)"
    using nib_length wf_prefix [OF t] wf_prefix [OF u] te ue by simp
  have dn: "d \<le> lcp (nib p) (nib op)"
    using pre ue te d(3) len by (subst le_lcp_iff) auto
  have ml: "get_prefix_match_len P p (4 * d) op ol = 4 * d"
    using match2 [OF t u] te ue dn lt wf_len [OF u] by simp
  have bb: "get_branch_bits P op (4 * d) = Inr ?bb"
    using branch_bits_at [OF wf_prefix [OF u] d(1)] ue by simp
  have sorted: "sorted_keys cs" using d(2) by (simp add: branch_ok_def)
  have at: "take (Suc d) (nib (tn_prefix u)) = take d (nib p) @ [?bb]"
    using path_child [OF u lt pre] ue by simp
  have guard: "\<not> (cm_size (Children cs) = 0 \<and> 4 * d = 0)" "ol \<noteq> 4 * d" "\<not> ol < 4 * d"
    using ne te lt ue by (auto simp: is_empty_node_def)
  note bg = branch_guard [OF t [unfolded te]]
  have goal: "merge_post P pvalid nib k M t u (TrieNode (Children (al_put ?bb c' cs)) p (4 * d) False (m + delta) h) delta"
    if c': "wf k c'" "4 * d < tn_prefix_len c'" "take (Suc d) (nib (tn_prefix c')) = take d (nib p) @ [?bb]"
      and mc: "trie_map P c' = map_merge (value_merge M) (case map_of cs ?bb of None \<Rightarrow> Map.empty | Some c \<Rightarrow> trie_map P c) (trie_map P u)"
      and md: "tn_metadata c' = (case map_of cs ?bb of None \<Rightarrow> 0 | Some c \<Rightarrow> tn_metadata c) + delta"
      and ms: "metadata_sum_ok t \<Longrightarrow> metadata_sum_ok u \<Longrightarrow> metadata_sum_ok c'"
      and hn: "hashed_nodes c' \<subseteq> hashed_nodes t \<union> hashed_nodes u"
    for c' delta
  proof -
    let ?t' = "TrieNode (Children (al_put ?bb c' cs)) p (4 * d) False (m + delta) h"
    have "trie_map P ?t' = map_merge (value_merge M) (trie_map P t) (trie_map P u)"
      unfolding te
      by (rule merge_below [where F = "map_merge (value_merge M)", OF t [unfolded te] u lt _ c' mc])
        (auto simp: ue map_merge_def split: option.split)
    moreover have "hashed_nodes ?t' \<subseteq> hashed_nodes t \<union> hashed_nodes u"
      using hashed_nodes_put [OF sorted, of ?bb c'] hn te by blast
    moreover have "merged_at nib t u ?t'" using te ue dn lt wf_len [OF u] by (auto simp: merged_at_def)
    ultimately show ?thesis
      using put_child(1) [OF t [unfolded te] c'] metadata_sum_ok_put [OF sorted _ ms md] te
      by (simp add: merge_post_def del: wf_node.simps metadata_sum_ok.simps hashed_nodes.simps)
  qed
  show ?thesis
  proof (cases "map_of cs ?bb")
    case None
    then have "merge_step P M rec t u = Inr (TrieNode (Children (al_put ?bb u cs)) p (4 * d) False (m + om) h, om)"
      using ml bb te ue guard bg d(1) by (auto simp: merge_step_def Let_def)
    moreover have "merge_post P pvalid nib k M t u (TrieNode (Children (al_put ?bb u cs)) p (4 * d) False (m + om) h) om"
      by (rule goal [OF u lt at]) (auto simp: None ue)
    ultimately show ?thesis by blast
  next
    case (Some c)
    note c = branch_child [OF d(2) Some]
    obtain c' delta where r: "rec c u = Inr (c', delta)" and post: "merge_post P pvalid nib k M c u c' delta"
      using rec Some ue by auto
    note pp = post [unfolded merge_post_def]
    have "merge_step P M rec t u = Inr (TrieNode (Children (al_put ?bb c' cs)) p (4 * d) False (m + delta) h, delta)"
      using ml bb te ue guard bg d(1) Some r by (auto simp: merge_step_def Let_def)
    moreover have "merge_post P pvalid nib k M t u (TrieNode (Children (al_put ?bb c' cs)) p (4 * d) False (m + delta) h) delta"
    proof (rule goal)
      show "4 * d < tn_prefix_len c'" "take (Suc d) (nib (tn_prefix c')) = take d (nib p) @ [?bb]"
        using merged_branch [OF _ c(1) u c(2,3), of c'] pp d(3) lt at by simp_all
      show "metadata_sum_ok c'" if "metadata_sum_ok t" "metadata_sum_ok u"
        using pp metadata_sum_ok_child [OF that(1) [unfolded te] Some] that(2) by blast
      show "hashed_nodes c' \<subseteq> hashed_nodes t \<union> hashed_nodes u"
        using pp hashed_nodes_child [OF Some] te by blast
    qed (use pp Some in auto)
    ultimately show ?thesis by blast
  qed
qed

lemma merge_child_above:
  fixes t u :: "('p, 'v, 'm::ab_group_add) TrieNode"
  assumes t: "wf k t" and te: "t = TrieNode ch p l hv m h" and u: "wf k u" and ue: "u = TrieNode (Children ds) op (4 * d) ohv om oh"
    and lt: "4 * d < l" and pre: "take d (nib p) = take d (nib op)"
    and rec: "\<And>c. map_of ds (nib p ! d) = Some c \<Longrightarrow>
      \<exists>c' delta. rec (TrieNode ch p l False m uninit_hash) c = Inr (c', delta) \<and>
        merge_post P pvalid nib k M (TrieNode ch p l False m uninit_hash) c c' delta"
  shows "\<exists>t' delta. merge_step P M rec t u = Inr (t', delta) \<and> merge_post P pvalid nib k M t u t' delta"
proof -
  define orig where "orig = TrieNode ch p l False m uninit_hash"
  have orig: "wf k orig" "tn_prefix orig = p" "tn_prefix_len orig = l" "trie_map P orig = trie_map P t" "tn_metadata orig = m"
      "hashed_nodes orig \<subseteq> hashed_nodes t" "metadata_sum_ok orig = metadata_sum_ok t"
    using t te by (auto simp: orig_def trie_map_def)
  from u [unfolded ue] obtain d' where d': "4 * d = 4 * d'" "4 * d' < prefix_bits P" "branch k (take d' (nib op)) ds"
      "length (take d' (nib op)) = d'"
    by (rule wf_ChildrenE)
  then have d: "4 * d < prefix_bits P" "branch k (take d (nib op)) ds" "length (take d (nib op)) = d" by simp_all
  let ?bb = "nib p ! d"
  have len: "length (nib p) = length (nib op)"
    using nib_length wf_prefix [OF t] wf_prefix [OF u] te ue by simp
  have dn: "d \<le> lcp (nib p) (nib op)"
    using pre d(3) len by (subst le_lcp_iff) auto
  have dl: "d < l div 4" using lt wf_len [OF t] te by simp
  have ml: "get_prefix_match_len P p l op (4 * d) = 4 * d"
    using match2 [OF t u] te ue dn dl by simp
  have bb: "get_branch_bits P p (4 * d) = Inr ?bb"
    using branch_bits_at [OF wf_prefix [OF t] d(1)] te by simp
  have sorted: "sorted_keys ds" using d(2) by (simp add: branch_ok_def)
  have at: "take (Suc d) (nib (tn_prefix orig)) = take d (nib op) @ [?bb]"
    using path_child [OF orig(1), of d "take d (nib op)"] lt pre orig(2,3) by simp
  have guard: "\<not> (cm_size ch = 0 \<and> l = 0)" "l \<noteq> 4 * d" using lt by auto
  note bg = branch_guard [OF t [unfolded te]]
  have goal: "merge_post P pvalid nib k M t u (TrieNode (Children (al_put ?bb c' ds)) op (4 * d) False (om + delta) h) (om + delta - m)"
    if c': "wf k c'" "4 * d < tn_prefix_len c'" "take (Suc d) (nib (tn_prefix c')) = take d (nib op) @ [?bb]"
      and mc: "trie_map P c' = map_merge (value_merge M) (trie_map P orig) (case map_of ds ?bb of None \<Rightarrow> Map.empty | Some c \<Rightarrow> trie_map P c)"
      and md: "tn_metadata c' = (case map_of ds ?bb of None \<Rightarrow> 0 | Some c \<Rightarrow> tn_metadata c) + delta"
      and ms: "metadata_sum_ok t \<Longrightarrow> metadata_sum_ok u \<Longrightarrow> metadata_sum_ok c'"
      and hn: "hashed_nodes c' \<subseteq> hashed_nodes t \<union> hashed_nodes u"
    for c' delta
  proof -
    let ?t' = "TrieNode (Children (al_put ?bb c' ds)) op (4 * d) False (om + delta) h"
    have "trie_map P ?t' = map_merge (value_merge M) (trie_map P orig) (trie_map P u)"
      unfolding ue
      by (rule merge_below [where F = "\<lambda>f g. map_merge (value_merge M) g f", OF u [unfolded ue] orig(1) _ _ c' mc])
        (auto simp: orig(2,3) lt map_merge_def split: option.split)
    moreover have "hashed_nodes ?t' \<subseteq> hashed_nodes t \<union> hashed_nodes u"
      using hashed_nodes_put [OF sorted, of ?bb c'] hn ue by blast
    moreover have "merged_at nib t u ?t'" using te ue dn dl pre by (auto simp: merged_at_def)
    ultimately show ?thesis
      using put_child(1) [OF u [unfolded ue] c'] metadata_sum_ok_put [OF sorted _ ms md] te ue orig(4)
      by (simp add: merge_post_def del: wf_node.simps metadata_sum_ok.simps hashed_nodes.simps)
  qed
  show ?thesis
  proof (cases "map_of ds ?bb")
    case None
    then have "merge_step P M rec t u = Inr (TrieNode (Children (al_put ?bb orig ds)) op (4 * d) False (om + m) h, om)"
      using ml bb te ue guard bg d(1) by (auto simp: merge_step_def Let_def orig_def)
    moreover have "merge_post P pvalid nib k M t u (TrieNode (Children (al_put ?bb orig ds)) op (4 * d) False (om + m) h) (om + m - m)"
      by (rule goal) (use at orig lt None in auto)
    ultimately show ?thesis by auto
  next
    case (Some c)
    note c = branch_child [OF d(2) Some]
    obtain c' delta where r: "rec orig c = Inr (c', delta)" and post: "merge_post P pvalid nib k M orig c c' delta"
      using rec [OF Some] by (auto simp: orig_def)
    note pp = post [unfolded merge_post_def]
    let ?delta = "delta - (tn_metadata c - m)"
    have "merge_step P M rec t u = Inr (TrieNode (Children (al_put ?bb c' ds)) op (4 * d) False (om + ?delta) h, om + ?delta - m)"
      using ml bb te ue guard bg d(1) Some r sorted
      by (auto simp: merge_step_def Let_def orig_def [symmetric] al_put_put al_put_del sorted_al_del)
    moreover have "merge_post P pvalid nib k M t u (TrieNode (Children (al_put ?bb c' ds)) op (4 * d) False (om + ?delta) h) (om + ?delta - m)"
    proof (rule goal)
      show "4 * d < tn_prefix_len c'" "take (Suc d) (nib (tn_prefix c')) = take d (nib op) @ [?bb]"
        using merged_branch [OF _ orig(1) c(1), of c' "take d (nib op)" ?bb] pp c(2,3) d(3) lt at orig(3) by simp_all
      show "metadata_sum_ok c'" if "metadata_sum_ok t" "metadata_sum_ok u"
        using pp metadata_sum_ok_child [OF that(2) [unfolded ue] Some] that(1) orig(7) by blast
      show "hashed_nodes c' \<subseteq> hashed_nodes t \<union> hashed_nodes u"
        using pp hashed_nodes_child [OF Some] ue orig(6) by blast
    qed (use pp Some orig(5) in auto)
    ultimately show ?thesis by blast
  qed
qed

lemma trie_map_branch_map:
  assumes t: "wf k (TrieNode (Children cs) p (4 * d) hv m h)"
  shows "trie_map P (TrieNode (Children cs) p (4 * d) hv m h) = branch_map P nib d cs"
proof (rule trie_map_eqI [OF t])
  fix q assume q: "\<not> pvalid q"
  from t obtain d' where "branch k (take d' (nib p)) cs" by (rule wf_ChildrenE)
  then show "branch_map P nib d cs q = None"
    using trie_map_invalid [OF branch_child(1) q] by (auto simp: branch_map_def split: option.split)
qed (simp add: branch_map_def trie_map_Children [OF t])

lemma merge_children:
  fixes cs xs :: "(nat \<times> ('p, 'v, 'm::ab_group_add) TrieNode) list"
  assumes "branch k pi cs" "branch k pi xs" "\<forall>(bb, oc) \<in> set xs. bb \<le> MAX_BRANCH_VALUE"
    and rec: "\<forall>bb c oc. (bb, oc) \<in> set xs \<longrightarrow> map_of cs bb = Some c \<longrightarrow>
      (\<exists>c' delta. rec c oc = Inr (c', delta) \<and> merge_post P pvalid nib k M c oc c' delta)"
  shows "\<exists>cs' D. rfold (merge_child_step rec) xs (Children cs, m, delta) = Inr (Children cs', m + D, delta + D) \<and>
    children_post P pvalid nib k M pi cs xs cs' D"
  using assms
proof (induction xs arbitrary: cs m delta)
  case Nil
  then show ?case by (auto simp: children_post_def branch_map_def map_merge_def fun_eq_iff split: option.split)
next
  case (Cons x xs)
  obtain bb oc where x: "x = (bb, oc)" by (cases x)
  have oc: "wf k oc" "4 * length pi < tn_prefix_len oc" "take (Suc (length pi)) (nib (tn_prefix oc)) = pi @ [bb]"
    using Cons.prems(2) x by (auto simp: branch_ok_def)
  have bx: "branch k pi xs" "bb \<notin> fst ` set xs" using Cons.prems(2) x by (auto simp: branch_ok_def)
  have sorted: "sorted_keys cs" using Cons.prems(1) by (simp add: branch_ok_def)
  let ?old = "case map_of cs bb of None \<Rightarrow> 0 | Some c \<Rightarrow> tn_metadata c"
  have "\<exists>c' dl. merge_child_step rec x (Children cs, m, delta) = Inr (Children (al_put bb c' cs), m + dl, delta + dl) \<and>
      wf k c' \<and> 4 * length pi < tn_prefix_len c' \<and> take (Suc (length pi)) (nib (tn_prefix c')) = pi @ [bb] \<and>
      trie_map P c' = map_merge (value_merge M) (case map_of cs bb of None \<Rightarrow> Map.empty | Some c \<Rightarrow> trie_map P c) (trie_map P oc) \<and>
      tn_metadata c' = ?old + dl \<and>
      ((\<forall>(bb, c) \<in> set cs. metadata_sum_ok c) \<longrightarrow> metadata_sum_ok oc \<longrightarrow> metadata_sum_ok c') \<and>
      hashed_nodes c' \<subseteq> (\<Union>x \<in> set cs. hashed_nodes (snd x)) \<union> hashed_nodes oc"
  proof (cases "map_of cs bb")
    case None
    then show ?thesis using Cons.prems(3) x oc by (auto simp: merge_child_step_def Let_def)
  next
    case (Some c)
    note c = branch_child [OF Cons.prems(1) Some]
    obtain c' dl where r: "rec c oc = Inr (c', dl)" and post: "merge_post P pvalid nib k M c oc c' dl"
      using Cons.prems(4) Some x by (meson list.set_intros(1))
    note pp = post [unfolded merge_post_def]
    have "(bb, c) \<in> set cs" using Some by (rule map_of_SomeD)
    then show ?thesis
      using Some r pp merged_branch [OF _ c(1) oc(1) c(2,3) oc(2,3), of c'] Cons.prems(3) x
      by (fastforce simp: merge_child_step_def)
  qed
  then obtain c' dl where step: "merge_child_step rec x (Children cs, m, delta) = Inr (Children (al_put bb c' cs), m + dl, delta + dl)"
    and c': "wf k c'" "4 * length pi < tn_prefix_len c'" "take (Suc (length pi)) (nib (tn_prefix c')) = pi @ [bb]"
    and mp: "trie_map P c' = map_merge (value_merge M) (case map_of cs bb of None \<Rightarrow> Map.empty | Some c \<Rightarrow> trie_map P c) (trie_map P oc)"
    and md: "tn_metadata c' = ?old + dl"
    and ms: "(\<forall>(bb, c) \<in> set cs. metadata_sum_ok c) \<longrightarrow> metadata_sum_ok oc \<longrightarrow> metadata_sum_ok c'"
    and hn: "hashed_nodes c' \<subseteq> (\<Union>x \<in> set cs. hashed_nodes (snd x)) \<union> hashed_nodes oc"
    by blast
  let ?cs = "al_put bb c' cs"
  have rec: "\<forall>b c oc. (b, oc) \<in> set xs \<longrightarrow> map_of ?cs b = Some c \<longrightarrow>
      (\<exists>c' delta. rec c oc = Inr (c', delta) \<and> merge_post P pvalid nib k M c oc c' delta)"
    using Cons.prems(4) bx(2) by (auto simp: map_of_al_put image_iff)
  from Cons.IH [OF branch_put [OF Cons.prems(1) c'] bx(1) _ rec, of "m + dl" "delta + dl"] Cons.prems(3)
  obtain cs' D where step_fold: "rfold (merge_child_step rec) xs (Children ?cs, m + dl, delta + dl) = Inr (Children cs', m + dl + D, delta + dl + D)"
    and post: "children_post P pvalid nib k M pi ?cs xs cs' D"
    by (auto simp: x)
  note ih = step_fold children_postD [OF post]
  have "rfold (merge_child_step rec) (x # xs) (Children cs, m, delta) = Inr (Children cs', m + (dl + D), delta + (dl + D))"
    using step ih(1) by (simp add: add.assoc)
  moreover have "length cs \<le> length cs'" using ih(3) length_al_put [OF sorted, of bb c'] by (auto split: if_splits)
  moreover have "branch_map P nib (length pi) cs' = map_merge (value_merge M) (branch_map P nib (length pi) cs) (branch_map P nib (length pi) (x # xs))"
  proof
    fix q
    have n: "map_of xs bb = None" using bx(2) by (simp add: map_of_eq_None_iff)
    show "branch_map P nib (length pi) cs' q = map_merge (value_merge M) (branch_map P nib (length pi) cs) (branch_map P nib (length pi) (x # xs)) q"
      using n mp unfolding ih(4) by (auto simp: branch_map_def map_merge_def map_of_al_put x split: option.splits)
  qed
  moreover have "sum_list (map (\<lambda>(bb, c). tn_metadata c) cs') = sum_list (map (\<lambda>(bb, c). tn_metadata c) cs) + (dl + D)"
    using ih(5) sum_al_put [OF sorted, of "\<lambda>(bb, c). tn_metadata c" bb c'] md by (simp add: algebra_simps split: option.splits)
  moreover have "(\<forall>(bb, c) \<in> set cs. metadata_sum_ok c) \<longrightarrow> (\<forall>(bb, c) \<in> set (x # xs). metadata_sum_ok c) \<longrightarrow>
      (\<forall>(bb, c) \<in> set cs'. metadata_sum_ok c)"
    using ih(6) ms x by (auto simp: set_al_put [OF sorted])
  moreover have "(\<Union>x \<in> set cs'. hashed_nodes (snd x)) \<subseteq>
      (\<Union>x \<in> set cs. hashed_nodes (snd x)) \<union> (\<Union>x \<in> set (x # xs). hashed_nodes (snd x))"
    using ih(7) hn x by (fastforce simp: set_al_put [OF sorted])
  ultimately show ?case using ih(2) unfolding children_post_def by blast
qed

lemma merge_same:
  fixes t u :: "('p, 'v, 'm::ab_group_add) TrieNode"
  assumes t: "wf k t" and te: "t = TrieNode (Children cs) p (4 * d) hv m h"
    and u: "wf k u" and ue: "u = TrieNode (Children ds) op (4 * d) ohv om oh"
    and ne: "\<not> is_empty_node t"
    and pre: "take d (nib p) = take d (nib op)"
    and rec: "\<And>bb c oc. (bb, oc) \<in> set ds \<Longrightarrow> map_of cs bb = Some c \<Longrightarrow>
      \<exists>c' delta. rec c oc = Inr (c', delta) \<and> merge_post P pvalid nib k M c oc c' delta"
  shows "\<exists>t' delta. merge_step P M rec t u = Inr (t', delta) \<and> merge_post P pvalid nib k M t u t' delta"
proof -
  from t [unfolded te] obtain a where "4 * d = 4 * a" "4 * a < prefix_bits P" "branch k (take a (nib p)) cs"
      "length (take a (nib p)) = a" "pvalid p" "drop a (nib p) = replicate (prefix_bits P div 4 - a) 0" "k \<le> length cs"
    by (rule wf_ChildrenE)
  then have d: "4 * d < prefix_bits P" "branch k (take d (nib p)) cs" "length (take d (nib p)) = d" "pvalid p"
      "drop d (nib p) = replicate (prefix_bits P div 4 - d) 0" "k \<le> length cs" by simp_all
  have "branch k (take d (nib op)) ds" using u [unfolded ue] unfolding wf_Children by blast
  then have ds: "branch k (take d (nib p)) ds" using pre by simp
  have len: "length (nib p) = length (nib op)"
    using nib_length wf_prefix [OF t] wf_prefix [OF u] te ue by simp
  have dn: "d \<le> lcp (nib p) (nib op)"
    using pre d(3) len by (subst le_lcp_iff) auto
  have ml: "get_prefix_match_len P p (4 * d) op (4 * d) = 4 * d"
    using match2 [OF t u] te ue dn by simp
  have bound: "\<forall>(bb, oc) \<in> set ds. bb \<le> MAX_BRANCH_VALUE"
    using branch_bound [OF u [unfolded ue]] by blast
  have "\<forall>bb c oc. (bb, oc) \<in> set ds \<longrightarrow> map_of cs bb = Some c \<longrightarrow>
      (\<exists>c' delta. rec c oc = Inr (c', delta) \<and> merge_post P pvalid nib k M c oc c' delta)"
    using rec by blast
  from merge_children [OF d(2) ds bound this, of m 0] obtain cs' D where
    fold: "rfold (merge_child_step rec) ds (Children cs, m, 0) = Inr (Children cs', m + D, D)"
    and post: "children_post P pvalid nib k M (take d (nib p)) cs ds cs' D"
    by auto
  note cs' = children_postD(1,2) [OF post] and mp = children_postD(3) [OF post, unfolded d(3)]
    and md = children_postD(4) [OF post] and ms = children_postD(5) [OF post] and hn = children_postD(6) [OF post]
  let ?t' = "TrieNode (Children cs') p (4 * d) False (m + D) h"
  have w: "wf k ?t'" unfolding wf_Children using d cs' by auto
  have guard: "\<not> (cm_size (Children cs) = 0 \<and> 4 * d = 0)" using ne te by (auto simp: is_empty_node_def)
  then have "merge_step P M rec t u = Inr (?t', D)"
    using ml te ue branch_guard [OF t [unfolded te]] d(1) fold by (auto simp: merge_step_def Let_def)
  moreover have "merge_post P pvalid nib k M t u ?t' D"
  proof -
    have "trie_map P ?t' = map_merge (value_merge M) (trie_map P t) (trie_map P u)"
      using mp trie_map_branch_map [OF w] trie_map_branch_map [OF t [unfolded te]] trie_map_branch_map [OF u [unfolded ue]] te ue
      by simp
    moreover have "merged_at nib t u ?t'" using te ue dn by (simp add: merged_at_def)
    moreover have "hashed_nodes ?t' \<subseteq> hashed_nodes t \<union> hashed_nodes u"
      using hn te ue by (fastforce simp: case_prod_beta)
    moreover have "metadata_sum_ok ?t'" if "metadata_sum_ok t" "metadata_sum_ok u"
      using ms md that te ue by simp
    ultimately show ?thesis
      using w te by (simp add: merge_post_def del: wf_node.simps metadata_sum_ok.simps hashed_nodes.simps)
  qed
  ultimately show ?thesis by blast
qed

text \<open>The whole merge: with fuel for both node counts it returns, and the result is the merged map.\<close>

theorem merge_node_correct:
  fixes t u :: "('p, 'v, 'm::ab_group_add) TrieNode"
  assumes M: "merge_fn M" and k: "k \<le> 2"
  shows "wf k t \<Longrightarrow> wf k u \<Longrightarrow> \<not> is_empty_node t \<Longrightarrow> mergeable M (trie_map P t) (trie_map P u) \<Longrightarrow>
    node_count t + node_count u \<le> fuel \<Longrightarrow>
    \<exists>t' delta. merge_node P M fuel t u = Inr (t', delta) \<and> merge_post P pvalid nib k M t u t' delta"
proof (induction fuel arbitrary: t u)
  case 0
  then show ?case by (cases t; cases u) simp
next
  case (Suc fuel)
  note t = Suc.prems(1) and u = Suc.prems(2)
  obtain ch p l hv m h where te: "t = TrieNode ch p l hv m h" by (cases t)
  obtain och op ol ohv om oh where ue: "u = TrieNode och op ol ohv om oh" by (cases u)
  define n where "n = lcp (nib p) (nib op)"
  have lens: "4 * (l div 4) = l" "4 * (ol div 4) = ol" "l \<le> prefix_bits P" "ol \<le> prefix_bits P"
    using wf_len [OF t] wf_len [OF u] te ue by auto
  have len: "length (nib p) = prefix_bits P div 4" "length (nib op) = prefix_bits P div 4"
    using nib_length wf_prefix [OF t] wf_prefix [OF u] te ue by simp_all
  have pre: "take i (nib p) = take i (nib op)" if "i \<le> n" for i
    using that le_lcp_iff [of "nib p" "nib op" i] lcp_le(1) [of "nib p" "nib op"] len by (simp add: n_def)
  have inner: "\<exists>cs. ch = Children cs" if "l < prefix_bits P" using t te that by (cases ch) auto
  have oinner: "\<exists>ds. och = Children ds" if "ol < prefix_bits P" using u ue that by (cases och) auto
  have rec: "\<exists>c' delta. merge_node P M fuel c oc = Inr (c', delta) \<and> merge_post P pvalid nib k M c oc c' delta"
    if "wf k c" "wf k oc" "0 < tn_prefix_len c" "\<And>q v. trie_map P c q = Some v \<Longrightarrow> trie_map P t q = Some v"
      "\<And>q v. trie_map P oc q = Some v \<Longrightarrow> trie_map P u q = Some v"
      "node_count c + node_count oc < node_count t + node_count u"
    for c oc
    using that Suc.prems(5) by (intro Suc.IH mergeableI_sub [OF Suc.prems(4)]) (auto simp: is_empty_node_def)
  have sub_t: "wf k c" "4 * (l div 4) < tn_prefix_len c" "\<And>q v. trie_map P c q = Some v \<Longrightarrow> trie_map P t q = Some v" "node_count c < node_count t"
    if "ch = Children cs" "map_of cs bb = Some c" for cs bb c
    using t te that node_count_child [OF map_of_SomeD [OF that(2)]] child_map [of k cs p "l div 4" hv m h bb c] lens(1)
    by (auto dest: map_of_SomeD split: if_splits)
  have sub_u: "wf k c" "4 * (ol div 4) < tn_prefix_len c" "\<And>q v. trie_map P c q = Some v \<Longrightarrow> trie_map P u q = Some v" "node_count c < node_count u"
    if "och = Children cs" "map_of cs bb = Some c" for cs bb c
    using u ue that node_count_child [OF map_of_SomeD [OF that(2)]] child_map [of k cs op "ol div 4" ohv om oh bb c] lens(2)
    by (auto dest: map_of_SomeD split: if_splits)
  consider (join) "n < l div 4" "n < ol div 4" | (leaf) "l = ol" "l = prefix_bits P" "l div 4 \<le> n"
    | (same) "l = ol" "l < prefix_bits P" "l div 4 \<le> n"
    | (below) "l < ol" "l div 4 \<le> n" | (above) "ol < l" "ol div 4 \<le> n"
    using lens by linarith
  then have "\<exists>t' delta. merge_step P M (merge_node P M fuel) t u = Inr (t', delta) \<and> merge_post P pvalid nib k M t u t' delta"
  proof cases
    case join
    then show ?thesis by (intro merge_join [OF t u k, of n]) (auto simp: te ue n_def)
  next
    case leaf
    have "nib p = nib op" using pre [OF leaf(3)] len leaf(2) by simp
    then have "p = op" using nib_inject wf_prefix [OF t] wf_prefix [OF u] te ue by simp
    then show ?thesis using leaf te ue by (intro merge_leaf [OF M t u _ _ _ Suc.prems(4)]) auto
  next
    case same
    then obtain cs ds where cs: "ch = Children cs" "och = Children ds" using inner oinner by auto
    show ?thesis
    proof (rule merge_same [OF t _ u _ Suc.prems(3) pre [OF same(3)]])
      show "t = TrieNode (Children cs) p (4 * (l div 4)) hv m h" "u = TrieNode (Children ds) op (4 * (l div 4)) ohv om oh"
        using te ue cs lens same by auto
      fix bb c oc assume "(bb, oc) \<in> set ds" and c: "map_of cs bb = Some c"
      then have oc: "map_of ds bb = Some oc" using u ue cs map_of_sorted_iff [of ds bb oc] by auto
      show "\<exists>c' delta. merge_node P M fuel c oc = Inr (c', delta) \<and> merge_post P pvalid nib k M c oc c' delta"
        using sub_t [OF cs(1) c] sub_u [OF cs(2) oc] by (intro rec) auto
    qed
  next
    case below
    then obtain cs where cs: "ch = Children cs" using inner lens by auto
    show ?thesis
    proof (rule merge_child_below [OF t _ u Suc.prems(3)])
      show "t = TrieNode (Children cs) p (4 * (l div 4)) hv m h" using te cs lens by simp
      fix c assume c: "map_of cs (nib (tn_prefix u) ! (l div 4)) = Some c"
      show "\<exists>c' delta. merge_node P M fuel c u = Inr (c', delta) \<and> merge_post P pvalid nib k M c u c' delta"
        using sub_t [OF cs c] u by (intro rec) auto
    qed (use below pre lens ue in auto)
  next
    case above
    then obtain ds where ds: "och = Children ds" using oinner lens by auto
    show ?thesis
    proof (rule merge_child_above [OF t te u])
      show "u = TrieNode (Children ds) op (4 * (ol div 4)) ohv om oh" using ue ds lens by simp
      fix c assume c: "map_of ds (nib p ! (ol div 4)) = Some c"
      show "\<exists>c' delta. merge_node P M fuel (TrieNode ch p l False m uninit_hash) c = Inr (c', delta) \<and>
          merge_post P pvalid nib k M (TrieNode ch p l False m uninit_hash) c c' delta"
        using sub_u [OF ds c] t te above by (intro rec) (auto simp: trie_map_def)
    qed (use above pre lens in auto)
  qed
  then show ?case by simp
qed

lemma wf_not_empty: "wf 2 t \<Longrightarrow> \<not> is_empty_node t"
  using bits_pos by (cases t; cases "tn_children t") (auto simp: is_empty_node_def)

lemma merge_in_node_correct:
  fixes t u :: "('p, 'v, 'm::ab_group_add) TrieNode"
  assumes "merge_fn M" "wf 2 t" "wf 2 u" "mergeable M (trie_map P t) (trie_map P u)"
  shows "\<exists>t' delta. merge_in_node P M t u = Inr (t', delta) \<and> merge_post P pvalid nib 2 M t u t' delta"
  unfolding merge_in_node_def
  using merge_node_correct [OF assms(1) _ assms(2,3) wf_not_empty [OF assms(2)] assms(4)] by simp

end

end
