(* ===== verification/TrieDelete.thy ===== *)
theory TrieDelete
  imports TrieMerge
begin

text \<open>
  Deletion: of one key (\<^verbatim>\<open>perform_deletion\<close>), by marks (\<^verbatim>\<open>mark_for_deletion\<close>,
  \<^verbatim>\<open>unmark_for_deletion\<close>, \<^verbatim>\<open>perform_marked_deletions\<close>, \<^verbatim>\<open>clear_marked_deletions\<close>) and of the keys inserted
  since the last commit (\<^verbatim>\<open>do_rollback\<close>, \<^verbatim>\<open>clear_rollback\<close>).  What the source returns beside
  the updated node is the rest of the tuple: the flag that tells the parent to drop
  the child, the deleted value, the change of metadata.
\<close>

section \<open>Operations\<close>

fun perform_deletion_node ::
    "'p TriePrefix \<Rightarrow> 'p \<Rightarrow> ('p, 'v, 'm::ab_group_add) TrieNode \<Rightarrow>
     (bool \<times> 'v option \<times> 'm \<times> ('p, 'v, 'm) TrieNode) res" where
  "perform_deletion_node P key (TrieNode ch p l hv m h) =
     (let prefix_match_len = get_prefix_match_len P p l key (MAX_KEY_LEN_BITS P) in
      if prefix_match_len < l then Inr (False, None, 0, TrieNode ch p l hv m h)
      else if prefix_match_len = MAX_KEY_LEN_BITS P then
        rbind (cm_value ch) (\<lambda>v. Inr (True, Some v, - m, TrieNode ch p l hv m h))
      else rbind (get_branch_bits P key l) (\<lambda>branch_bits.
        case cm_find ch branch_bits of
          None \<Rightarrow> Inr (False, None, 0, TrieNode ch p l hv m h)
        | Some child \<Rightarrow>
            rbind (perform_deletion_node P key child) (\<lambda>(delete_child, deleted_obj, metadata_delta, child').
            let hv' = (if deleted_obj \<noteq> None then False else hv);
                ch' = cm_set ch branch_bits child'
            in rbind
                (if delete_child then cm_erase ch' branch_bits
                 else if cm_size (tn_children child') = 1
                 then rbind (get_single_child child') (cm_emplace ch' branch_bits)
                 else Inr ch')
              (\<lambda>ch''. Inr (False, deleted_obj, metadata_delta, TrieNode ch'' p l hv' (m + metadata_delta) h)))))"

declare perform_deletion_node.simps [simp del]

text \<open>Marks are the field \<^verbatim>\<open>num_deleted_subnodes\<close>: 0 or 1 on a leaf, a sum on an inner node.\<close>

fun mark_for_deletion ::
    "'p TriePrefix \<Rightarrow> 'p \<Rightarrow> ('p, 'v, 'x::ab_group_add CombinedMetadata) TrieNode \<Rightarrow>
     ('x CombinedMetadata \<times> 'v option \<times> ('p, 'v, 'x CombinedMetadata) TrieNode) res" where
  "mark_for_deletion P key (TrieNode ch p l hv m h) =
     (let prefix_match_len = get_prefix_match_len P p l key (MAX_KEY_LEN_BITS P) in
      if prefix_match_len < l then Inr (0, None, TrieNode ch p l hv m h)
      else if prefix_match_len = MAX_KEY_LEN_BITS P then
        let (res, m') = compare_exchange m 0 1;
            meta_out = set_num_deleted (if res then 1 else 0) 0
        in if \<not> res then Inr (meta_out, None, TrieNode ch p l hv m' h)
           else rbind (cm_value ch) (\<lambda>v. Inr (meta_out, Some v, TrieNode ch p l False m' h))
      else rbind (get_branch_bits P key l) (\<lambda>branch_bits.
        case cm_find ch branch_bits of
          None \<Rightarrow> Inr (0, None, TrieNode ch p l hv m h)
        | Some child \<Rightarrow>
            rbind (mark_for_deletion P key child) (\<lambda>(metadata_change, deleted_obj, child').
              Inr (metadata_change, deleted_obj,
                   TrieNode (cm_set ch branch_bits child') p l False (m + metadata_change) h))))"

fun mark_for_deletion_nolocks ::
    "'p TriePrefix \<Rightarrow> 'p \<Rightarrow> ('p, 'v, 'x::ab_group_add CombinedMetadata) TrieNode \<Rightarrow>
     ('x CombinedMetadata option \<times> ('p, 'v, 'x CombinedMetadata) TrieNode) res" where
  "mark_for_deletion_nolocks P key (TrieNode ch p l hv m h) =
     (let prefix_match_len = get_prefix_match_len P p l key (MAX_KEY_LEN_BITS P) in
      if prefix_match_len < l then Inr (None, TrieNode ch p l hv m h)
      else if prefix_match_len = MAX_KEY_LEN_BITS P then
        let (res, m') = compare_exchange m 0 1;
            meta_out = set_num_deleted (if res then 1 else 0) 0
        in Inr (Some meta_out, TrieNode ch p l (if res then False else hv) m' h)
      else rbind (get_branch_bits P key l) (\<lambda>branch_bits.
        case cm_find ch branch_bits of
          None \<Rightarrow> Inr (None, TrieNode ch p l hv m h)
        | Some child \<Rightarrow>
            rbind (mark_for_deletion_nolocks P key child) (\<lambda>(res, child').
              Inr (res, TrieNode (cm_set ch branch_bits child') p l False
                (case res of None \<Rightarrow> m | Some d \<Rightarrow> m + d) h))))"

fun unmark_for_deletion ::
    "'p TriePrefix \<Rightarrow> 'p \<Rightarrow> ('p, 'v, 'x::ab_group_add CombinedMetadata) TrieNode \<Rightarrow>
     ('x CombinedMetadata \<times> 'v option \<times> ('p, 'v, 'x CombinedMetadata) TrieNode) res" where
  "unmark_for_deletion P key (TrieNode ch p l hv m h) =
     (let prefix_match_len = get_prefix_match_len P p l key (MAX_KEY_LEN_BITS P) in
      if prefix_match_len < l then Inr (0, None, TrieNode ch p l hv m h)
      else if l = MAX_KEY_LEN_BITS P then
        let (res, m') = compare_exchange m 1 0;
            meta_out = set_num_deleted (if res then - 1 else 0) 0
        in if \<not> res then Inr (meta_out, None, TrieNode ch p l hv m' h)
           else rbind (cm_value ch) (\<lambda>v. Inr (meta_out, Some v, TrieNode ch p l False m' h))
      else rbind (get_branch_bits P key l) (\<lambda>branch_bits.
        case cm_find ch branch_bits of
          None \<Rightarrow> Inr (0, None, TrieNode ch p l hv m h)
        | Some child \<Rightarrow>
            rbind (unmark_for_deletion P key child) (\<lambda>(metadata_change, deleted_obj, child').
              Inr (metadata_change, deleted_obj,
                   TrieNode (cm_set ch branch_bits child') p l (if deleted_obj \<noteq> None then False else hv)
                     (m + metadata_change) h))))"

declare mark_for_deletion.simps [simp del] mark_for_deletion_nolocks.simps [simp del] unmark_for_deletion.simps [simp del]

text \<open>
  \<^verbatim>\<open>perform_marked_deletions\<close> and \<^verbatim>\<open>do_rollback\<close> are the same traversal over two different counters.
  \<open>count\<close> reads the counter, \<open>bad\<close> is the check on a leaf that throws \<open>msg\<close>, and \<open>leaf_action\<close> is what
  is done with a leaf that goes.  The loop over the branch bits \<open>0 \<dots> 15\<close> looks up, replaces
  or erases the child at the current bits only, so it meets the children that were there at
  its start, in order.
\<close>

fun prune_node ::
    "'p TriePrefix \<Rightarrow> ('m::ab_group_add \<Rightarrow> 32 word) \<Rightarrow> (32 word \<Rightarrow> bool) \<Rightarrow> string \<Rightarrow>
     ('p \<Rightarrow> (('p, 'v, 'm) TrieNode, 'v) children_map \<Rightarrow> 's \<Rightarrow> 's res) \<Rightarrow>
     ('p, 'v, 'm) TrieNode \<Rightarrow> 's \<Rightarrow> (bool \<times> 'm \<times> ('p, 'v, 'm) TrieNode \<times> 's) res" where
  "prune_node P count bad msg leaf_action (TrieNode ch p l hv m h) s =
     (if count m = 0 then Inr (False, 0, TrieNode ch p l hv m h, s)
      else if l = MAX_KEY_LEN_BITS P \<and> count m = 1 then
        rbind (leaf_action p ch s) (\<lambda>s'. Inr (True, - m, TrieNode ch p l False m h, s'))
      else if l = MAX_KEY_LEN_BITS P \<and> bad (count m) then throw msg
      else
        rbind (rfold (\<lambda>(branch_bits, child) (ch, m, metadata_delta, s).
            rbind (prune_node P count bad msg leaf_action child s) (\<lambda>(del, delta, child', s').
            let ch' = cm_set ch branch_bits child'
            in rbind
                (if del then cm_erase ch' branch_bits
                 else if single_child child'
                 then rbind (get_single_child child') (cm_emplace ch' branch_bits)
                 else Inr ch')
              (\<lambda>ch''. Inr (ch'', m + delta, metadata_delta + delta, s'))))
          (cm_list ch) (ch, m, 0, s))
        (\<lambda>(ch', m', metadata_delta, s').
          Inr (cm_size ch' = 0, metadata_delta, TrieNode ch' p l False m' h, s')))"

declare prune_node.simps [simp del]

text \<open>One round of that loop; \<open>rec\<close> is the recursive call.\<close>

definition prune_step ::
    "(('p, 'v, 'm::ab_group_add) TrieNode \<Rightarrow> 's \<Rightarrow> (bool \<times> 'm \<times> ('p, 'v, 'm) TrieNode \<times> 's) res) \<Rightarrow>
     nat \<times> ('p, 'v, 'm) TrieNode \<Rightarrow> (('p, 'v, 'm) TrieNode, 'v) children_map \<times> 'm \<times> 'm \<times> 's \<Rightarrow>
     ((('p, 'v, 'm) TrieNode, 'v) children_map \<times> 'm \<times> 'm \<times> 's) res" where
  "prune_step rec = (\<lambda>(branch_bits, child) (ch, m, metadata_delta, s).
     rbind (rec child s) (\<lambda>(del, delta, child', s').
     let ch' = cm_set ch branch_bits child'
     in rbind
         (if del then cm_erase ch' branch_bits
          else if single_child child'
          then rbind (get_single_child child') (cm_emplace ch' branch_bits)
          else Inr ch')
       (\<lambda>ch''. Inr (ch'', m + delta, metadata_delta + delta, s'))))"

lemma prune_node_step:
  "prune_node P count bad msg leaf_action (TrieNode ch p l hv m h) s =
     (if count m = 0 then Inr (False, 0, TrieNode ch p l hv m h, s)
      else if l = MAX_KEY_LEN_BITS P \<and> count m = 1 then
        rbind (leaf_action p ch s) (\<lambda>s'. Inr (True, - m, TrieNode ch p l False m h, s'))
      else if l = MAX_KEY_LEN_BITS P \<and> bad (count m) then throw msg
      else
        rbind (rfold (prune_step (prune_node P count bad msg leaf_action)) (cm_list ch) (ch, m, 0, s))
        (\<lambda>(ch', m', metadata_delta, s').
          Inr (cm_size ch' = 0, metadata_delta, TrieNode ch' p l False m' h, s')))"
  by (simp add: prune_node.simps prune_step_def)

definition perform_marked_deletions ::
    "'p TriePrefix \<Rightarrow> ('p \<Rightarrow> 'v \<Rightarrow> 's \<Rightarrow> 's) \<Rightarrow> ('p, 'v, 'x::ab_group_add CombinedMetadata) TrieNode \<Rightarrow> 's \<Rightarrow>
     (bool \<times> 'x CombinedMetadata \<times> ('p, 'v, 'x CombinedMetadata) TrieNode \<times> 's) res" where
  "perform_marked_deletions P side_effect_handler =
     prune_node P num_deleted_subnodes (\<lambda>n. n \<noteq> 0) ''can't have num deleted subnodes not 0 or 1 at leaf''
       (\<lambda>prefix ch s. rbind (cm_value ch) (\<lambda>v. Inr (side_effect_handler prefix v s)))"

definition do_rollback ::
    "'p TriePrefix \<Rightarrow> ('p, 'v, 'x::ab_group_add CombinedMetadata) TrieNode \<Rightarrow>
     (bool \<times> 'x CombinedMetadata \<times> ('p, 'v, 'x CombinedMetadata) TrieNode) res" where
  "do_rollback P t =
     rbind (prune_node P num_rollback_subnodes (\<lambda>n. 1 <s n) ''can't have num rollback subnodes > 1 at leaf''
       (\<lambda>prefix ch s. Inr s) t ()) (\<lambda>(del, delta, t', s). Inr (del, delta, t'))"

fun clear_marked_deletions ::
    "('p, 'v, 'x CombinedMetadata) TrieNode \<Rightarrow> ('p, 'v, 'x CombinedMetadata) TrieNode" where
  "clear_marked_deletions (TrieNode ch p l hv m h) =
     (if num_deleted_subnodes m = 0 then TrieNode ch p l hv m h
      else TrieNode (case ch of Value v \<Rightarrow> Value v
          | Children cs \<Rightarrow> Children (map (\<lambda>(bb, c). (bb, clear_marked_deletions c)) cs))
        p l hv (set_num_deleted 0 m) h)"

fun clear_rollback ::
    "('p, 'v, 'x CombinedMetadata) TrieNode \<Rightarrow> ('p, 'v, 'x CombinedMetadata) TrieNode" where
  "clear_rollback (TrieNode ch p l hv m h) =
     (if num_rollback_subnodes m = 0 then TrieNode ch p l hv m h
      else TrieNode (case ch of Value v \<Rightarrow> Value v
          | Children cs \<Rightarrow> Children (map (\<lambda>(bb, c). (bb, clear_rollback c)) cs))
        p l hv (set_num_rollback 0 m) h)"

section \<open>Nodes with a missing child\<close>

text \<open>
  While a key is taken out, a node may be left with one child; its parent then puts that child
  in its place.  \<open>wf_open n\<close> is well-formedness with at least \<open>n\<close> children at the top only.
\<close>

definition wf_open :: "'p TriePrefix \<Rightarrow> ('p \<Rightarrow> bool) \<Rightarrow> ('p \<Rightarrow> nat list) \<Rightarrow> nat \<Rightarrow> ('p, 'v, 'm) TrieNode \<Rightarrow> bool" where
  "wf_open P pvalid nib n t \<longleftrightarrow>
     pvalid (tn_prefix t) \<and>
     (case tn_children t of
        Value v \<Rightarrow> tn_prefix_len t = MAX_KEY_LEN_BITS P
      | Children cs \<Rightarrow>
          tn_prefix_len t < MAX_KEY_LEN_BITS P \<and> 4 dvd tn_prefix_len t \<and> n \<le> length cs \<and>
          drop (tn_prefix_len t div 4) (nib (tn_prefix t)) =
            replicate (MAX_KEY_LEN_BITS P div 4 - tn_prefix_len t div 4) 0 \<and>
          branch_ok P pvalid nib 2 (take (tn_prefix_len t div 4) (nib (tn_prefix t))) cs)"

definition contract :: "('p, 'v, 'm) TrieNode \<Rightarrow> ('p, 'v, 'm) TrieNode" where
  "contract t = (case cm_list (tn_children t) of [(b, c)] \<Rightarrow> c | _ \<Rightarrow> t)"

lemma contract_single:
  "single_child t \<Longrightarrow> get_single_child t = Inr (contract t)"
  "\<not> single_child t \<Longrightarrow> contract t = t"
  by (cases "cm_list (tn_children t)" rule: remdups_adj.cases;
      auto simp: single_child_def get_single_child_def contract_def cm_size_def split: prod.split)+

text \<open>The keep-or-drop step both deletions share, on the children map.\<close>

lemma al_put_mid:
  "sorted_keys (xs @ (b, c) # ys) \<Longrightarrow> al_put b c' (xs @ (b, c) # ys) = xs @ (b, c') # ys"
  by (induction xs) auto

lemma al_del_mid:
  assumes "sorted_keys (xs @ (b, c) # ys)"
  shows "al_del b (xs @ (b, c) # ys) = xs @ ys"
proof -
  have "\<forall>x \<in> set xs. fst x \<noteq> b" "\<forall>y \<in> set ys. fst y \<noteq> b" using assms by (fastforce simp: sorted_wrt_append)+
  then show ?thesis by (simp add: al_del_def filter_id_conv)
qed

definition replaced :: "bool \<Rightarrow> nat \<Rightarrow> ('p, 'v, 'm) TrieNode \<Rightarrow> (nat \<times> ('p, 'v, 'm) TrieNode) list" where
  "replaced del bb c' = (if del then [] else [(bb, contract c')])"

lemma child_update:
  fixes c c' :: "('p, 'v, 'm) TrieNode"
  assumes "sorted_keys (xs @ (b, c) # ys)"
  shows "(if del then cm_erase (cm_set (Children (xs @ (b, c) # ys)) b c') b
      else if single_child c' then rbind (get_single_child c') (cm_emplace (cm_set (Children (xs @ (b, c) # ys)) b c') b)
      else Inr (cm_set (Children (xs @ (b, c) # ys)) b c')) =
      (Inr (Children (xs @ replaced del b c' @ ys)) :: (('p, 'v, 'm) TrieNode, 'v) children_map res)"
proof -
  have s': "sorted_keys (xs @ (b, c') # ys)" using assms by simp
  have "map_of (xs @ (b, c') # ys) b = Some c'" using map_of_sorted_iff [OF s', of b c'] by simp
  then show ?thesis
    using al_put_mid [OF assms] al_put_mid [OF s'] al_del_mid [OF s']
    by (simp add: cm_erase_def replaced_def contract_single)
qed

text \<open>
  What is left of a node when the leaves that fail \<open>keep\<close> are taken out: either the parent is
  told to drop it, or it has the same place, may have a single child, and carries the
  remaining leaves and their metadata.
\<close>

definition cut_post ::
    "'p TriePrefix \<Rightarrow> ('p \<Rightarrow> bool) \<Rightarrow> ('p \<Rightarrow> nat list) \<Rightarrow> ('p \<times> 'v \<times> 'm \<Rightarrow> bool) \<Rightarrow>
     ('p, 'v, 'm::ab_group_add) TrieNode \<Rightarrow> bool \<Rightarrow> 'm \<Rightarrow> ('p, 'v, 'm) TrieNode \<Rightarrow> bool" where
  "cut_post P pvalid nib keep t del delta t' \<longleftrightarrow>
     (if del then filter keep (leaves P t) = [] \<and> delta = - tn_metadata t
      else wf_open P pvalid nib 1 t' \<and> tn_prefix t' = tn_prefix t \<and> tn_prefix_len t' = tn_prefix_len t \<and>
        leaves P t' = filter keep (leaves P t) \<and> tn_metadata t' = tn_metadata t + delta \<and>
        metadata_sum_ok t' \<and> hashed_nodes t' \<subseteq> hashed_nodes t)"

abbreviation child_leaves :: "'p TriePrefix \<Rightarrow> (nat \<times> ('p, 'v, 'm) TrieNode) list \<Rightarrow> ('p \<times> 'v \<times> 'm) list" where
  "child_leaves P cs \<equiv> concat (map (\<lambda>(bb, c). leaves P c) cs)"

abbreviation child_metadata :: "(nat \<times> ('p, 'v, 'm::ab_group_add) TrieNode) list \<Rightarrow> 'm" where
  "child_metadata cs \<equiv> sum_list (map (\<lambda>(bb, c). tn_metadata c) cs)"

abbreviation child_hashed :: "(nat \<times> ('p, 'v, 'm) TrieNode) list \<Rightarrow> ('p, 'v, 'm) TrieNode set" where
  "child_hashed cs \<equiv> (\<Union>x \<in> set cs. case x of (bb, c) \<Rightarrow> hashed_nodes c)"

definition delete_post ::
    "'p TriePrefix \<Rightarrow> ('p \<Rightarrow> bool) \<Rightarrow> ('p \<Rightarrow> nat list) \<Rightarrow> 'p \<Rightarrow> ('p, 'v, 'm::ab_group_add) TrieNode \<Rightarrow> bool \<Rightarrow> 'v option \<Rightarrow> 'm \<Rightarrow> ('p, 'v, 'm) TrieNode \<Rightarrow> bool" where
  "delete_post P pvalid nib key t del obj delta t' \<longleftrightarrow>
     obj = trie_map P t key \<and>
     (if obj = None then \<not> del \<and> delta = 0 \<and> t' = t
      else cut_post P pvalid nib (\<lambda>x. fst x \<noteq> key) t del delta t' \<and>
        (if del then t = TrieNode (Value (the obj)) key (prefix_bits P) (tn_hash_valid t) (tn_metadata t) (tn_hash t)
         else \<not> tn_hash_valid t'))"

text \<open>
  Marking changes the metadata of one leaf by \<open>g\<close> and the sums on the path to it.
\<close>

definition leaf_upd :: "'p \<Rightarrow> ('m \<Rightarrow> 'm) \<Rightarrow> 'p \<times> 'v \<times> 'm \<Rightarrow> 'p \<times> 'v \<times> 'm" where
  "leaf_upd key g = (\<lambda>(k, v, m). (k, v, if k = key then g m else m))"

definition update_post ::
    "'p TriePrefix \<Rightarrow> ('p \<Rightarrow> bool) \<Rightarrow> ('p \<Rightarrow> nat list) \<Rightarrow> nat \<Rightarrow> 'p \<Rightarrow> ('m \<Rightarrow> 'm) \<Rightarrow>
     ('p, 'v, 'm::ab_group_add) TrieNode \<Rightarrow> 'm \<Rightarrow> ('p, 'v, 'm) TrieNode \<Rightarrow> bool" where
  "update_post P pvalid nib k key g t delta t' \<longleftrightarrow>
     wf_node P pvalid nib k t' \<and> tn_prefix t' = tn_prefix t \<and> tn_prefix_len t' = tn_prefix_len t \<and>
     leaves P t' = map (leaf_upd key g) (leaves P t) \<and> tn_metadata t' = tn_metadata t + delta \<and>
     (metadata_sum_ok t \<longrightarrow> metadata_sum_ok t') \<and> hashed_nodes t' \<subseteq> hashed_nodes t"

definition set_mark :: "'x CombinedMetadata \<Rightarrow> 'x CombinedMetadata" where
  "set_mark m = (if num_deleted_subnodes m = 0 then set_num_deleted 1 m else m)"

definition clear_mark :: "'x CombinedMetadata \<Rightarrow> 'x CombinedMetadata" where
  "clear_mark m = (if num_deleted_subnodes m = 1 then set_num_deleted 0 m else m)"

lemma leaf_upd_other: "key \<notin> fst ` set xs \<Longrightarrow> map (leaf_upd key g) xs = xs"
  by (induction xs) (auto simp: leaf_upd_def)

context trie_prefix
begin

abbreviation wfo :: "nat \<Rightarrow> ('p, 'v, 'm) TrieNode \<Rightarrow> bool" where
  "wfo \<equiv> wf_open P pvalid nib"

lemma wfo_iff_wf: "wfo 2 t \<longleftrightarrow> wf 2 t"
proof (cases t; cases "tn_children t")
  fix ch p l hv m h cs
  assume t: "t = TrieNode ch p l hv m h" and ch: "tn_children t = Children cs"
  show ?thesis
  proof (cases "4 dvd l")
    case True
    then obtain d where "l = 4 * d" by (auto elim: dvdE)
    then show ?thesis using t ch wf_Children [of 2 cs p d hv m h] by (auto simp: wf_open_def)
  next
    case False
    then show ?thesis using t ch by (simp add: wf_open_def)
  qed
qed (simp add: wf_open_def)

lemma wfo_weaken: "wfo n t \<Longrightarrow> k \<le> n \<Longrightarrow> wfo k t"
  by (auto simp: wf_open_def split: children_map.splits)

lemma wfo_wf: "wf 2 t \<Longrightarrow> n \<le> 2 \<Longrightarrow> wfo n t"
  using wfo_iff_wf wfo_weaken by blast

lemma wfo_Children:
  "wfo n (TrieNode (Children cs) p (4 * d) hv m h) \<longleftrightarrow>
     pvalid p \<and> 4 * d < prefix_bits P \<and> n \<le> length cs \<and>
     drop d (nib p) = replicate (prefix_bits P div 4 - d) 0 \<and> branch 2 (take d (nib p)) cs"
  by (auto simp: wf_open_def)

lemma leaves_Children:
  "l < prefix_bits P \<Longrightarrow> leaves P (TrieNode (Children cs) p l hv m h) = concat (map (\<lambda>(bb, c). leaves P c) cs)"
  by simp

lemma entries_leaves: "entries P t = map (\<lambda>(k, v, m). (k, v)) (leaves P t)"
proof (induction t rule: node_induct)
  case (Children cs p l hv m h)
  then show ?case
    by (auto simp: map_concat comp_def split_beta' intro!: arg_cong [where f = concat] map_cong)
qed simp

lemma metadata_leaves:
  fixes t :: "('p, 'v, 'm::ab_group_add) TrieNode"
  shows "wf k t \<Longrightarrow> metadata_sum_ok t \<Longrightarrow> tn_metadata t = sum_list (map (\<lambda>(k, v, m). m) (leaves P t))"
proof (induction t rule: node_induct)
  case (Children cs p l hv m h)
  have eq: "map (\<lambda>(bb, c). tn_metadata c) cs = map (\<lambda>(bb, c). sum_list (map (\<lambda>(k, v, m). m) (leaves P c))) cs"
  proof (rule map_cong [OF refl], clarsimp)
    fix bb c assume c: "(bb, c) \<in> set cs"
    show "tn_metadata c = sum_list (map (\<lambda>(k, v, m). m) (leaves P c))"
      by (rule Children.IH [OF c]) (use c Children.prems in auto)
  qed
  have sum: "sum_list (map (\<lambda>(bb, c). sum_list (map f (leaves P c))) cs) = sum_list (map f (concat (map (\<lambda>(bb, c). leaves P c) cs)))"
    for f :: "'p \<times> 'v \<times> 'm \<Rightarrow> 'm" by (induction cs) auto
  have "child_metadata cs = sum_list (map (\<lambda>(k, v, m). m) (child_leaves P cs))"
    unfolding eq by (rule sum)
  then show ?case using Children.prems by auto
qed simp

lemma contract_aux:
  assumes t: "wfo 1 t"
  shows "wf 2 (contract t) \<and> leaves P (contract t) = leaves P t \<and>
    (metadata_sum_ok t \<longrightarrow> metadata_sum_ok (contract t) \<and> tn_metadata (contract t) = tn_metadata t) \<and>
    hashed_nodes (contract t) \<subseteq> hashed_nodes t \<and> tn_prefix_len t \<le> tn_prefix_len (contract t) \<and>
    take (tn_prefix_len t div 4) (nib (tn_prefix (contract t))) = take (tn_prefix_len t div 4) (nib (tn_prefix t))"
proof (cases "single_child t")
  case True
  then obtain bb c p l hv m h where te: "t = TrieNode (Children [(bb, c)]) p l hv m h"
    by (cases t; cases "tn_children t") (auto simp: single_child_def length_Suc_conv)
  obtain d where d: "l = 4 * d" using t te by (auto simp: wf_open_def elim: dvdE)
  have w: "pvalid p" "4 * d < prefix_bits P" "branch 2 (take d (nib p)) [(bb, c)]"
    using t unfolding te d wfo_Children by blast+
  then have "length (take d (nib p)) = d" using nib_length bits_eq by simp
  then have c: "wf 2 c" "4 * d < tn_prefix_len c" "take (Suc d) (nib (tn_prefix c)) = take d (nib p) @ [bb]"
    using w(3) by (auto simp: branch_ok_def)
  have "take d (nib (tn_prefix c)) = take d (nib p)"
    using branch_nth(3) [of "take d (nib p)" "nib (tn_prefix c)" bb] c(3) \<open>length (take d (nib p)) = d\<close> by simp
  then show ?thesis using te d c w by (auto simp: contract_def)
next
  case False
  then have "wfo 2 t"
    using t by (cases t; cases "tn_children t") (auto simp: wf_open_def single_child_def)
  then show ?thesis using False by (simp add: contract_single wfo_iff_wf)
qed

lemma contract_wf:
  assumes "wfo 1 t"
  shows "wf 2 (contract t)" "leaves P (contract t) = leaves P t"
    "metadata_sum_ok t \<Longrightarrow> metadata_sum_ok (contract t)"
    "metadata_sum_ok t \<Longrightarrow> tn_metadata (contract t) = tn_metadata t"
    "hashed_nodes (contract t) \<subseteq> hashed_nodes t"
    "tn_prefix_len t \<le> tn_prefix_len (contract t)"
    "take (tn_prefix_len t div 4) (nib (tn_prefix (contract t))) = take (tn_prefix_len t div 4) (nib (tn_prefix t))"
  using contract_aux [OF assms] by blast+

lemma cut_child:
  fixes c :: "('p, 'v, 'm::ab_group_add) TrieNode"
  assumes br: "branch 2 pi (xs @ (b, c) # ys)" and post: "cut_post P pvalid nib keep c del delta c'"
  shows "branch 2 pi (xs @ replaced del b c' @ ys)"
    "child_leaves P (replaced del b c') = filter keep (leaves P c)"
    "child_metadata (replaced del b c') = tn_metadata c + delta"
    "\<forall>(bb, x) \<in> set (replaced del b c'). metadata_sum_ok x"
    "child_hashed (replaced del b c') \<subseteq> hashed_nodes c"
proof -
  have c: "wf 2 c" "4 * length pi < tn_prefix_len c" "take (Suc (length pi)) (nib (tn_prefix c)) = pi @ [b]"
    using br by (auto simp: branch_ok_def)
  have rest: "branch 2 pi (xs @ ys)"
    using br by (auto simp: branch_ok_def sorted_wrt_append)
  have *: "branch 2 pi (xs @ replaced del b c' @ ys) \<and>
    child_leaves P (replaced del b c') = filter keep (leaves P c) \<and>
    child_metadata (replaced del b c') = tn_metadata c + delta \<and>
    (\<forall>(bb, x) \<in> set (replaced del b c'). metadata_sum_ok x) \<and>
    child_hashed (replaced del b c') \<subseteq> hashed_nodes c"
  proof (cases del)
    case True
    then show ?thesis using rest post by (simp add: replaced_def cut_post_def)
  next
    case False
    then have p: "wfo 1 c'" "tn_prefix c' = tn_prefix c" "tn_prefix_len c' = tn_prefix_len c"
        "leaves P c' = filter keep (leaves P c)" "tn_metadata c' = tn_metadata c + delta"
        "metadata_sum_ok c'" "hashed_nodes c' \<subseteq> hashed_nodes c"
      using post by (simp_all add: cut_post_def)
    note k = contract_wf [OF p(1)]
    have "Suc (length pi) \<le> tn_prefix_len c div 4" using c(2) wf_len [OF c(1)] by linarith
    then have "take (Suc (length pi)) (nib (tn_prefix (contract c'))) = pi @ [b]"
      using arg_cong [OF k(7), of "take (Suc (length pi))"] c(3) p(2,3) by (simp add: min_absorb1)
    moreover have "4 * length pi < tn_prefix_len (contract c')" using k(6) c(2) p(3) by simp
    ultimately have "branch 2 pi (xs @ (b, contract c') # ys)"
      using br k(1) by (auto simp: branch_ok_def)
    then show ?thesis using False p k by (auto simp: replaced_def)
  qed
  show "branch 2 pi (xs @ replaced del b c' @ ys)"
    "child_leaves P (replaced del b c') = filter keep (leaves P c)"
    "child_metadata (replaced del b c') = tn_metadata c + delta"
    "\<forall>(bb, x) \<in> set (replaced del b c'). metadata_sum_ok x"
    "child_hashed (replaced del b c') \<subseteq> hashed_nodes c"
    using * by blast+
qed

lemma leaves_covers: "wf k t \<Longrightarrow> (q, v, m) \<in> set (leaves P t) \<Longrightarrow> pvalid q \<and> covers nib t q"
  using entries_covers [of k t q v] by (force simp: entries_leaves)

lemma map_of_leaves: "trie_map P t = map_of (map (\<lambda>(k, v, m). (k, v)) (leaves P t))"
  by (simp add: trie_map_def entries_leaves)

lemma trie_map_None_leaves: "trie_map P t key = None \<longleftrightarrow> key \<notin> fst ` set (leaves P t)"
  by (force simp: map_of_leaves map_of_eq_None_iff)

lemma trie_map_filter:
  assumes "leaves P t' = filter (\<lambda>x. fst x \<noteq> key) (leaves P t)"
  shows "trie_map P t' = (trie_map P t)(key := None)"
proof -
  have "map_of (map (\<lambda>(k, v, m). (k, v)) (filter (\<lambda>x. fst x \<noteq> key) xs)) = (map_of (map (\<lambda>(k, v, m). (k, v)) xs))(key := None)"
    for xs :: "('p \<times> 'a \<times> 'b) list"
    by (induction xs) (auto simp: fun_eq_iff)
  then show ?thesis unfolding map_of_leaves assms .
qed

section \<open>Deleting one key\<close>

lemma leaves_other_key:
  assumes br: "branch k pi cs" and key: "pvalid key" and c: "(b, c) \<in> set cs" and ne: "b \<noteq> nib key ! length pi"
  shows "key \<notin> fst ` set (leaves P c)"
proof
  have "wf k c" using br c by (auto simp: branch_ok_def)
  assume "key \<in> fst ` set (leaves P c)"
  then have "covers nib c key" using leaves_covers [OF \<open>wf k c\<close>] by auto
  then have "take (Suc (length pi)) (nib key) = pi @ [b]" using branch_covers [OF br c _ key] by simp
  then show False using branch_nth(2) [of pi "nib key" b] ne by simp
qed

lemma leaves_other:
  assumes "branch k pi cs" "pvalid key" "(b, c) \<in> set cs" "b \<noteq> nib key ! length pi"
  shows "filter (\<lambda>x. fst x \<noteq> key) (leaves P c) = leaves P c"
  using leaves_other_key [OF assms] by (auto simp: filter_id_conv)

lemma perform_deletion_node_correct:
  fixes t :: "('p, 'v, 'm::ab_group_add) TrieNode"
  assumes key: "pvalid key"
  shows "wf 2 t \<Longrightarrow> metadata_sum_ok t \<Longrightarrow>
    \<exists>del obj delta t'. perform_deletion_node P key t = Inr (del, obj, delta, t') \<and> delete_post P pvalid nib key t del obj delta t'"
proof (induction t rule: node_induct)
  case (Value v p l hv m h)
  let ?t = "TrieNode (Value v) p l hv m h"
  have l: "l = prefix_bits P" using Value.prems by simp
  note match = match_less_iff [OF Value.prems(1) key] match_eq_iff [OF Value.prems(1) key]
    covers_full [OF Value.prems(1) _ key]
  show ?case
  proof (cases "key = p")
    case True
    then show ?thesis using match l
      by (auto simp: perform_deletion_node.simps Let_def delete_post_def cut_post_def trie_map_Value)
  next
    case False
    then show ?thesis using match l
      by (auto simp: perform_deletion_node.simps Let_def delete_post_def trie_map_Value)
  qed
next
  case (Children cs p l hv m h)
  let ?t = "TrieNode (Children cs) p l hv m h"
  note match = match_less_iff [OF Children.prems(1) key] match_eq_iff [OF Children.prems(1) key]
  from Children.prems(1) obtain d where d: "l = 4 * d" "4 * d < prefix_bits P" "pvalid p" "2 \<le> length cs"
      "drop d (nib p) = replicate (prefix_bits P div 4 - d) 0"
      "branch 2 (take d (nib p)) cs" "length (take d (nib p)) = d"
    by (rule wf_ChildrenE)
  note tm = trie_map_Children [OF Children.prems(1) key]
  let ?bb = "nib key ! d"
  show ?case
  proof (cases "covers nib ?t key \<and> map_of cs ?bb \<noteq> None")
    case False
    then have "perform_deletion_node P key ?t = Inr (False, None, 0, ?t)" "trie_map P ?t key = None"
      using match d tm branch_bits_at [OF key d(2)] trie_map_not_covers [OF Children.prems(1), of key]
      by (auto simp: perform_deletion_node.simps Let_def)
    then show ?thesis by (auto simp: delete_post_def)
  next
    case True
    then obtain c where c: "map_of cs ?bb = Some c" by blast
    then obtain xs ys where cs: "cs = xs @ (?bb, c) # ys" using split_list map_of_SomeD by metis
    have sorted: "sorted_keys cs" using d(6) by (simp add: branch_ok_def)
    have ne: "\<forall>x \<in> set xs \<union> set ys. fst x \<noteq> ?bb" using sorted cs by (fastforce simp: sorted_wrt_append)
    have wc: "wf 2 c" "metadata_sum_ok c" using branch_child(1) [OF d(6) c] metadata_sum_ok_child [OF Children.prems(2) c] by auto
    obtain del obj delta c' where rec: "perform_deletion_node P key c = Inr (del, obj, delta, c')"
        and post: "delete_post P pvalid nib key c del obj delta c'"
      using Children.IH [OF map_of_SomeD [OF c] wc] by blast
    let ?t' = "TrieNode (Children (xs @ replaced del ?bb c' @ ys)) p l (if obj \<noteq> None then False else hv) (m + delta) h"
    have run: "perform_deletion_node P key ?t = Inr (False, obj, delta, ?t')"
      using match d True c rec branch_bits_at [OF key d(2)]
        child_update [OF sorted [unfolded cs], of del c', folded cs, unfolded single_child_def]
      by (simp add: perform_deletion_node.simps Let_def del: cm_simps(3) One_nat_def split del: if_split)
    have obj: "obj = trie_map P ?t key" using post tm c d(1) by (simp add: delete_post_def)
    show ?thesis
    proof (cases obj)
      case None
      then have "\<not> del" "delta = 0" "c' = c" using post by (auto simp: delete_post_def)
      moreover have "contract c = c"
        using wc(1) by (cases c; cases "tn_children c") (auto simp: single_child_def intro: contract_single(2))
      ultimately have "?t' = ?t" using None cs by (simp add: replaced_def)
      then show ?thesis using run None obj \<open>delta = 0\<close> by (auto simp: delete_post_def)
    next
      case (Some v)
      then have "cut_post P pvalid nib (\<lambda>x. fst x \<noteq> key) c del delta c'" using post by (simp add: delete_post_def)
      note cut = cut_child [OF d(6) [unfolded cs] this]
      have other: "filter (\<lambda>x. fst x \<noteq> key) (leaves P x) = leaves P x" if "(b, x) \<in> set xs \<union> set ys" for b x
      proof (rule leaves_other [OF d(6) key])
        show "(b, x) \<in> set cs" using that cs by auto
        show "b \<noteq> nib key ! length (take d (nib p))" using bspec [OF ne that] d(7) by simp
      qed
      have fc: "filter (\<lambda>x. fst x \<noteq> key) (child_leaves P zs) = child_leaves P zs" if "set zs \<subseteq> set xs \<union> set ys" for zs
        using that other by (induction zs) auto
      have "1 \<le> length (xs @ replaced del ?bb c' @ ys)" using d(4) cs by simp
      then have "wfo 1 ?t'" unfolding d(1) wfo_Children using d cut(1) by blast
      moreover have "leaves P ?t' = filter (\<lambda>x. fst x \<noteq> key) (leaves P ?t)"
        using cs d(1,2) cut(2) fc by simp
      moreover have "metadata_sum_ok ?t'"
        using Children.prems(2) cs cut(3,4) by (auto simp: algebra_simps)
      moreover have "hashed_nodes ?t' \<subseteq> hashed_nodes ?t"
        using cut(5) cs Some by auto
      ultimately have "delete_post P pvalid nib key ?t False obj delta ?t'"
        unfolding delete_post_def cut_post_def if_False obj [symmetric] using Some
        by (simp del: hashed_nodes.simps metadata_sum_ok.simps leaves.simps)
      then show ?thesis using run by blast
    qed
  qed
qed

section \<open>Marking\<close>

lemma update_none: "wf k t \<Longrightarrow> trie_map P t key = None \<Longrightarrow> update_post P pvalid nib k key g t 0 t"
  by (simp add: update_post_def trie_map_None_leaves leaf_upd_other)

lemma child_leaves_split:
  assumes t: "wf k (TrieNode (Children cs) p (4 * d) hv m h)" and key: "pvalid key" and c: "map_of cs (nib key ! d) = Some c"
  obtains xs ys where "cs = xs @ (nib key ! d, c) # ys"
    "key \<notin> fst ` set (child_leaves P xs)" "key \<notin> fst ` set (child_leaves P ys)"
proof -
  from t obtain d' where d: "4 * d = 4 * d'" "branch k (take d' (nib p)) cs" "length (take d' (nib p)) = d'"
    by (rule wf_ChildrenE)
  obtain xs ys where cs: "cs = xs @ (nib key ! d, c) # ys" using split_list map_of_SomeD [OF c] by metis
  have "sorted_keys cs" using d(2) by (simp add: branch_ok_def)
  then have ne: "\<forall>x \<in> set xs \<union> set ys. fst x \<noteq> nib key ! d" using cs by (fastforce simp: sorted_wrt_append)
  have "key \<notin> fst ` set (child_leaves P zs)" if zs: "set zs \<subseteq> set xs \<union> set ys" for zs
  proof -
    have "key \<notin> fst ` set (leaves P x)" if "(b, x) \<in> set zs" for b x
    proof (rule leaves_other_key [OF d(2) key])
      show "(b, x) \<in> set cs" using that zs cs by auto
      have "(b, x) \<in> set xs \<union> set ys" using that zs by blast
      then show "b \<noteq> nib key ! length (take d' (nib p))" using bspec [OF ne, of "(b, x)"] d by simp
    qed
    then have "\<forall>x \<in> set zs. key \<notin> fst ` set (leaves P (snd x))" by (metis prod.collapse)
    then show ?thesis by (auto simp: case_prod_beta)
  qed
  then show ?thesis using that [OF cs] by simp
qed

lemma leaf_map_child:
  assumes t: "wf k (TrieNode (Children cs) p (4 * d) hv m h)" and key: "pvalid key" and c: "map_of cs (nib key ! d) = Some c"
  shows "map_of (leaves P (TrieNode (Children cs) p (4 * d) hv m h)) key = map_of (leaves P c) key"
proof -
  obtain xs ys where cs: "cs = xs @ (nib key ! d, c) # ys"
      "key \<notin> fst ` set (child_leaves P xs)" "key \<notin> fst ` set (child_leaves P ys)"
    by (rule child_leaves_split [OF t key c])
  have "4 * d < prefix_bits P" using t by (elim wf_ChildrenE) simp
  then show ?thesis
    using cs by (simp add: map_add_def map_of_eq_None_iff [THEN iffD2] split: option.split)
qed

lemma update_child:
  fixes c :: "('p, 'v, 'm::ab_group_add) TrieNode"
  assumes t: "wf k (TrieNode (Children cs) p (4 * d) hv m h)" and key: "pvalid key"
    and c: "map_of cs (nib key ! d) = Some c" and post: "update_post P pvalid nib k key g c delta c'"
    and hv': "hv' \<Longrightarrow> hv \<and> c' = c \<and> delta = 0"
  shows "update_post P pvalid nib k key g (TrieNode (Children cs) p (4 * d) hv m h) delta
    (TrieNode (Children (al_put (nib key ! d) c' cs)) p (4 * d) hv' (m + delta) h)"
proof -
  let ?t = "TrieNode (Children cs) p (4 * d) hv m h"
  obtain xs ys where cs: "cs = xs @ (nib key ! d, c) # ys"
      "key \<notin> fst ` set (child_leaves P xs)" "key \<notin> fst ` set (child_leaves P ys)"
    by (rule child_leaves_split [OF t key c])
  from t have d: "4 * d < prefix_bits P" "branch k (take d (nib p)) cs" unfolding wf_Children by blast+
  have p: "wf k c'" "tn_prefix c' = tn_prefix c" "tn_prefix_len c' = tn_prefix_len c"
      "leaves P c' = map (leaf_upd key g) (leaves P c)" "tn_metadata c' = tn_metadata c + delta"
      "metadata_sum_ok c \<longrightarrow> metadata_sum_ok c'" "hashed_nodes c' \<subseteq> hashed_nodes c"
    using post by (auto simp: update_post_def)
  have sorted: "sorted_keys cs" using d(2) by (simp add: branch_ok_def)
  have put: "al_put (nib key ! d) c' cs = xs @ (nib key ! d, c') # ys"
    using al_put_mid sorted cs(1) by simp
  have "branch k (take d (nib p)) (xs @ (nib key ! d, c') # ys)"
    using d(2) p(1-3) unfolding cs(1) by (auto simp: branch_ok_def)
  then have w: "wf k (TrieNode (Children (xs @ (nib key ! d, c') # ys)) p (4 * d) hv' (m + delta) h)"
    using t unfolding wf_Children cs(1) by simp
  moreover have "hashed_nodes (TrieNode (Children (xs @ (nib key ! d, c') # ys)) p (4 * d) hv' (m + delta) h) \<subseteq> hashed_nodes ?t"
    using p(7) hv' cs(1) by auto
  moreover have "metadata_sum_ok ?t \<longrightarrow> metadata_sum_ok (TrieNode (Children (xs @ (nib key ! d, c') # ys)) p (4 * d) hv' (m + delta) h)"
    using p(5,6) cs(1) by (auto simp: algebra_simps)
  moreover have "leaves P (TrieNode (Children (xs @ (nib key ! d, c') # ys)) p (4 * d) hv' (m + delta) h) = map (leaf_upd key g) (leaves P ?t)"
    using d(1) cs p(4) by (simp add: leaf_upd_other)
  ultimately show ?thesis
    unfolding put update_post_def by (simp del: wf_node.simps hashed_nodes.simps metadata_sum_ok.simps leaves.simps)
qed

lemma no_leaf: "trie_map P t key = None \<Longrightarrow> map_of (leaves P t) key = None"
  by (simp add: trie_map_None_leaves map_of_eq_None_iff)

text \<open>The three marking operations walk down in the same way; only the leaf differs.\<close>

lemma key_walk [consumes 2, case_names Absent Leaf Inner]:
  assumes t: "wf k t" and key: "pvalid key"
    and absent: "trie_map P t key = None \<Longrightarrow> get_prefix_match_len P (tn_prefix t) (tn_prefix_len t) key (prefix_bits P) < tn_prefix_len t \<or>
      (\<exists>cs p d hv m h. t = TrieNode (Children cs) p (4 * d) hv m h \<and> 4 * d < prefix_bits P \<and>
        get_prefix_match_len P p (4 * d) key (prefix_bits P) = 4 * d \<and>
        get_branch_bits P key (4 * d) = Inr (nib key ! d) \<and> map_of cs (nib key ! d) = None) \<Longrightarrow> thesis"
    and leaf: "\<And>v hv m h. t = TrieNode (Value v) key (prefix_bits P) hv m h \<Longrightarrow>
      get_prefix_match_len P key (prefix_bits P) key (prefix_bits P) = prefix_bits P \<Longrightarrow> thesis"
    and inner: "\<And>cs p d hv m h c. t = TrieNode (Children cs) p (4 * d) hv m h \<Longrightarrow> 4 * d < prefix_bits P \<Longrightarrow>
      get_prefix_match_len P p (4 * d) key (prefix_bits P) = 4 * d \<Longrightarrow>
      get_branch_bits P key (4 * d) = Inr (nib key ! d) \<Longrightarrow> map_of cs (nib key ! d) = Some c \<Longrightarrow> wf k c \<Longrightarrow> thesis"
  shows thesis
proof (cases "covers nib t key")
  case False
  then show ?thesis using absent trie_map_not_covers [OF t False] match_less_iff [OF t key] by blast
next
  case cov: True
  obtain ch p l hv m h where te: "t = TrieNode ch p l hv m h" by (cases t)
  show ?thesis
  proof (cases ch)
    case (Value v)
    then have "l = prefix_bits P" "key = p" using t te covers_full [OF t _ key] cov by auto
    then show ?thesis using leaf te Value match_eq_iff [OF t key] cov by simp
  next
    case (Children cs)
    from t [unfolded te Children] obtain d where d: "l = 4 * d" "4 * d < prefix_bits P" "branch k (take d (nib p)) cs"
      by (rule wf_ChildrenE)
    have ml: "get_prefix_match_len P p (4 * d) key (prefix_bits P) = 4 * d"
      using match_eq_iff [OF t key] cov te d(1) by simp
    note bb = branch_bits_at [OF key d(2)]
    show ?thesis
    proof (cases "map_of cs (nib key ! d)")
      case None
      then have "trie_map P t key = None" using trie_map_Children [OF t [unfolded te Children] key] te Children d(1) by simp
      then show ?thesis using absent te Children d ml bb None by blast
    next
      case (Some c)
      then show ?thesis using inner te Children d ml bb branch_child(1) [OF d(3) Some] by blast
    qed
  qed
qed

lemma mark_result: "set_num_deleted 0 (0 :: 'x::ab_group_add CombinedMetadata) = 0"
  by (simp add: set_num_deleted_def zero_CombinedMetadata_def)

lemma set_mark_delta: "num_deleted_subnodes m = 0 \<Longrightarrow> set_num_deleted 1 m = m + set_num_deleted 1 (0 :: 'x::ab_group_add CombinedMetadata)"
  by (cases m) (simp add: set_num_deleted_def zero_CombinedMetadata_def plus_CombinedMetadata_def)

lemma clear_mark_delta: "num_deleted_subnodes m = 1 \<Longrightarrow> set_num_deleted 0 m = m + set_num_deleted (- 1) (0 :: 'x::ab_group_add CombinedMetadata)"
  by (cases m) (simp add: set_num_deleted_def zero_CombinedMetadata_def plus_CombinedMetadata_def)

lemma mark_for_deletion_correct:
  fixes t :: "('p, 'v, 'x::ab_group_add CombinedMetadata) TrieNode"
  assumes key: "pvalid key"
  shows "wf k t \<Longrightarrow> \<exists>delta t'.
    mark_for_deletion P key t = Inr (delta,
      (case map_of (leaves P t) key of Some (v, m) \<Rightarrow> if num_deleted_subnodes m = 0 then Some v else None | None \<Rightarrow> None), t') \<and>
    update_post P pvalid nib k key set_mark t delta t'"
proof (induction t rule: measure_induct_rule [of size])
  case (less t)
  from less.prems key show ?case
  proof (cases rule: key_walk)
    case Absent
    then have "mark_for_deletion P key t = Inr (0, None, t)"
      by (cases t) (auto simp: mark_for_deletion.simps Let_def)
    then show ?thesis using update_none [OF less.prems Absent(1)] no_leaf [OF Absent(1)] by auto
  next
    case (Leaf v hv m h)
    then show ?thesis using key
      by (auto simp: mark_for_deletion.simps Let_def compare_exchange_def update_post_def leaf_upd_def
        set_mark_def mark_result set_mark_delta [symmetric] set_num_deleted_def [symmetric])
  next
    case (Inner cs p d hv m h c)
    have "size c < size t" using Inner(1) map_of_size_less [OF Inner(5), of size] by simp
    then obtain delta c' where rec: "mark_for_deletion P key c = Inr (delta,
        (case map_of (leaves P c) key of Some (v, m) \<Rightarrow> if num_deleted_subnodes m = 0 then Some v else None | None \<Rightarrow> None), c')"
      and post: "update_post P pvalid nib k key set_mark c delta c'"
      using less.IH [OF _ Inner(6)] by blast
    note w = less.prems [unfolded Inner(1)]
    show ?thesis
      using Inner rec leaf_map_child [OF w key Inner(5)] update_child [OF w key Inner(5) post, of False]
      by (auto simp: mark_for_deletion.simps Let_def)
  qed
qed

lemma unmark_for_deletion_correct:
  fixes t :: "('p, 'v, 'x::ab_group_add CombinedMetadata) TrieNode"
  assumes key: "pvalid key"
  shows "wf k t \<Longrightarrow> \<exists>delta t'.
    unmark_for_deletion P key t = Inr (delta,
      (case map_of (leaves P t) key of Some (v, m) \<Rightarrow> if num_deleted_subnodes m = 1 then Some v else None | None \<Rightarrow> None), t') \<and>
    update_post P pvalid nib k key clear_mark t delta t' \<and>
    ((case map_of (leaves P t) key of Some (v, m) \<Rightarrow> num_deleted_subnodes m \<noteq> 1 | None \<Rightarrow> True) \<longrightarrow> t' = t \<and> delta = 0)"
proof (induction t rule: measure_induct_rule [of size])
  case (less t)
  from less.prems key show ?case
  proof (cases rule: key_walk)
    case Absent
    then have "unmark_for_deletion P key t = Inr (0, None, t)"
      by (cases t) (auto simp: unmark_for_deletion.simps Let_def)
    then show ?thesis using update_none [OF less.prems Absent(1)] no_leaf [OF Absent(1)] by auto
  next
    case (Leaf v hv m h)
    then show ?thesis using key
      by (auto simp: unmark_for_deletion.simps Let_def compare_exchange_def update_post_def leaf_upd_def
        clear_mark_def mark_result clear_mark_delta [symmetric] set_num_deleted_def [symmetric])
  next
    case (Inner cs p d hv m h c)
    have "size c < size t" using Inner(1) map_of_size_less [OF Inner(5), of size] by simp
    then obtain delta c' where rec: "unmark_for_deletion P key c = Inr (delta,
        (case map_of (leaves P c) key of Some (v, m) \<Rightarrow> if num_deleted_subnodes m = 1 then Some v else None | None \<Rightarrow> None), c')"
      and post: "update_post P pvalid nib k key clear_mark c delta c'"
      and same: "(case map_of (leaves P c) key of Some (v, m) \<Rightarrow> num_deleted_subnodes m \<noteq> 1 | None \<Rightarrow> True) \<longrightarrow> c' = c \<and> delta = 0"
      using less.IH [OF _ Inner(6)] by blast
    note w = less.prems [unfolded Inner(1)]
    let ?obj = "case map_of (leaves P c) key of Some (v, m) \<Rightarrow> if num_deleted_subnodes m = 1 then Some v else None | None \<Rightarrow> None"
    let ?hv = "if ?obj \<noteq> None then False else hv"
    have sorted: "sorted_keys cs" using w by (simp add: wf_Children branch_ok_def)
    have put: "al_put (nib key ! d) c cs = cs"
      by (rule sorted_keys_map_of_inject) (use sorted Inner(5) in \<open>auto simp: sorted_al_put map_of_al_put fun_eq_iff\<close>)
    have "unmark_for_deletion P key t =
        Inr (delta, ?obj, TrieNode (Children (al_put (nib key ! d) c' cs)) p (4 * d) ?hv (m + delta) h)"
      using Inner rec by (simp add: unmark_for_deletion.simps Let_def)
    moreover have "update_post P pvalid nib k key clear_mark t delta
        (TrieNode (Children (al_put (nib key ! d) c' cs)) p (4 * d) ?hv (m + delta) h)"
      unfolding Inner(1) by (rule update_child [OF w key Inner(5) post]) (use same in \<open>auto split: if_splits option.splits\<close>)
    moreover have "(case map_of (leaves P c) key of Some (v, m) \<Rightarrow> num_deleted_subnodes m \<noteq> 1 | None \<Rightarrow> True) \<longrightarrow>
        TrieNode (Children (al_put (nib key ! d) c' cs)) p (4 * d) ?hv (m + delta) h = t \<and> delta = 0"
      using same Inner(1) put by (auto split: option.splits)
    ultimately show ?thesis using leaf_map_child [OF w key Inner(5)] Inner(1) by metis
  qed
qed

lemma mark_for_deletion_nolocks_correct:
  fixes t :: "('p, 'v, 'x::ab_group_add CombinedMetadata) TrieNode"
  assumes key: "pvalid key"
  shows "wf k t \<Longrightarrow> \<exists>res t'. mark_for_deletion_nolocks P key t = Inr (res, t') \<and>
    res = (case map_of (leaves P t) key of None \<Rightarrow> None
      | Some (v, m) \<Rightarrow> Some (set_num_deleted (if num_deleted_subnodes m = 0 then 1 else 0) 0)) \<and>
    update_post P pvalid nib k key set_mark t (case res of None \<Rightarrow> 0 | Some d \<Rightarrow> d) t'"
proof (induction t rule: measure_induct_rule [of size])
  case (less t)
  from less.prems key show ?case
  proof (cases rule: key_walk)
    case Absent
    then have "mark_for_deletion_nolocks P key t = Inr (None, t)"
      by (cases t) (auto simp: mark_for_deletion_nolocks.simps Let_def)
    then show ?thesis using update_none [OF less.prems Absent(1)] no_leaf [OF Absent(1)] by auto
  next
    case (Leaf v hv m h)
    then show ?thesis using key
      by (auto simp: mark_for_deletion_nolocks.simps Let_def compare_exchange_def update_post_def leaf_upd_def
        set_mark_def mark_result set_mark_delta [symmetric] set_num_deleted_def [symmetric])
  next
    case (Inner cs p d hv m h c)
    have "size c < size t" using Inner(1) map_of_size_less [OF Inner(5), of size] by simp
    then obtain res c' where rec: "mark_for_deletion_nolocks P key c = Inr (res, c')"
      and res: "res = (case map_of (leaves P c) key of None \<Rightarrow> None
        | Some (v, m) \<Rightarrow> Some (set_num_deleted (if num_deleted_subnodes m = 0 then 1 else 0) 0))"
      and post: "update_post P pvalid nib k key set_mark c (case res of None \<Rightarrow> 0 | Some d \<Rightarrow> d) c'"
      using less.IH [OF _ Inner(6)] by blast
    note w = less.prems [unfolded Inner(1)]
    have "mark_for_deletion_nolocks P key t = Inr (res, TrieNode (Children (al_put (nib key ! d) c' cs)) p (4 * d) False
        (m + (case res of None \<Rightarrow> 0 | Some d \<Rightarrow> d)) h)"
      using Inner rec by (auto simp: mark_for_deletion_nolocks.simps Let_def split: option.split)
    then show ?thesis
      using leaf_map_child [OF w key Inner(5)] update_child [OF w key Inner(5) post, of False] res Inner(1) by auto
  qed
qed

end

section \<open>Deleting the marked keys\<close>

text \<open>A counter that is additive, such as the two fields of the metadata.\<close>

locale counter =
  fixes count :: "'m::ab_group_add \<Rightarrow> 32 word"
  assumes count_add: "count (a + b) = count a + count b"
begin

lemma count_zero: "count 0 = 0"
  using count_add [of 0 0] by simp

lemma count_sum_list: "count (sum_list xs) = sum_list (map count xs)"
  by (induction xs) (simp_all add: count_zero count_add)

lemma count_marked:
  assumes "\<forall>(k, v, m) \<in> set xs. count m = 0 \<or> count m = 1"
  shows "count (sum_list (map (\<lambda>(k, v, m). m) xs)) = of_nat (length (filter (\<lambda>(k, v, m). count m \<noteq> 0) xs))"
  using assms unfolding count_sum_list by (induction xs) (auto simp: ac_simps)

lemma count_zero_iff:
  assumes "\<forall>(k, v, m) \<in> set xs. count m = 0 \<or> count m = 1" "length xs < 2 ^ 32"
  shows "count (sum_list (map (\<lambda>(k, v, m). m) xs)) = 0 \<longleftrightarrow> filter (\<lambda>(k, v, m). count m \<noteq> 0) xs = []"
proof -
  let ?n = "length (filter (\<lambda>(k, v, m). count m \<noteq> 0) xs)"
  have "?n < 2 ^ 32" using assms(2) length_filter_le [of _ xs] by (meson le_less_trans)
  then have "(of_nat ?n :: 32 word) = 0 \<longleftrightarrow> ?n = 0"
    using of_nat_inverse [where a = "0 :: 32 word"] by fastforce
  then show ?thesis unfolding count_marked [OF assms(1)] by simp
qed

end

interpretation deleted_counter: counter num_deleted_subnodes
  by unfold_locales (simp add: plus_CombinedMetadata_def)

interpretation rollback_counter: counter num_rollback_subnodes
  by unfold_locales (simp add: plus_CombinedMetadata_def)

definition prune_post ::
    "'p TriePrefix \<Rightarrow> ('p \<Rightarrow> bool) \<Rightarrow> ('p \<Rightarrow> nat list) \<Rightarrow> ('m::ab_group_add \<Rightarrow> 32 word) \<Rightarrow> ('p \<Rightarrow> 'v \<Rightarrow> 's \<Rightarrow> 's) \<Rightarrow>
     ('p, 'v, 'm) TrieNode \<Rightarrow> 's \<Rightarrow> bool \<Rightarrow> 'm \<Rightarrow> ('p, 'v, 'm) TrieNode \<Rightarrow> 's \<Rightarrow> bool" where
  "prune_post P pvalid nib count act t s del delta t' s' \<longleftrightarrow>
     cut_post P pvalid nib (\<lambda>(k, v, m). count m = 0) t del delta t' \<and>
     s' = fold (\<lambda>(k, v, m). act k v) (filter (\<lambda>(k, v, m). count m \<noteq> 0) (leaves P t)) s"

context trie_prefix
begin

lemma prune_loop:
  fixes ys :: "(nat \<times> ('p, 'v, 'm::ab_group_add) TrieNode) list"
  assumes "branch 2 pi (xs @ ys)"
    and "\<forall>b c. (b, c) \<in> set ys \<longrightarrow> (\<forall>s. \<exists>del delta c' s'. rec c s = Inr (del, delta, c', s') \<and>
      prune_post P pvalid nib count act c s del delta c' s')"
  shows "\<exists>zs D s'. rfold (prune_step rec) ys (Children (xs @ ys), m, delta, s) = Inr (Children (xs @ zs), m + D, delta + D, s') \<and>
    branch 2 pi (xs @ zs) \<and> child_leaves P zs = filter (\<lambda>(k, v, m). count m = 0) (child_leaves P ys) \<and>
    child_metadata zs = child_metadata ys + D \<and> (\<forall>(b, c) \<in> set zs. metadata_sum_ok c) \<and>
    child_hashed zs \<subseteq> child_hashed ys \<and>
    s' = fold (\<lambda>(k, v, m). act k v) (filter (\<lambda>(k, v, m). count m \<noteq> 0) (child_leaves P ys)) s"
  using assms
proof (induction ys arbitrary: xs m delta s)
  case (Cons y ys)
  obtain b c where y: "y = (b, c)" by (cases y)
  obtain del dl c' s1 where rec: "rec c s = Inr (del, dl, c', s1)"
      and post: "prune_post P pvalid nib count act c s del dl c' s1"
    using Cons.prems(2) y by (meson list.set_intros(1))
  note br = Cons.prems(1) [unfolded y]
  have "cut_post P pvalid nib (\<lambda>(k, v, m). count m = 0) c del dl c'" using post by (simp add: prune_post_def)
  note cut = cut_child [OF br this]
  have sorted: "sorted_keys (xs @ (b, c) # ys)" using br by (simp add: branch_ok_def)
  have step: "prune_step rec y (Children (xs @ y # ys), m, delta, s) =
      Inr (Children ((xs @ replaced del b c') @ ys), m + dl, delta + dl, s1)"
    using rec child_update [OF sorted, of del c'] y
    by (simp add: prune_step_def Let_def del: cm_simps(3) split del: if_split)
  have rest: "\<forall>b c. (b, c) \<in> set ys \<longrightarrow> (\<forall>s. \<exists>del delta c' s'. rec c s = Inr (del, delta, c', s') \<and>
      prune_post P pvalid nib count act c s del delta c' s')"
    using Cons.prems(2) by simp
  have br': "branch 2 pi ((xs @ replaced del b c') @ ys)" using cut(1) by simp
  from Cons.IH [OF br' rest, of "m + dl" "delta + dl" s1] obtain zs D s' where
    ih: "rfold (prune_step rec) ys (Children ((xs @ replaced del b c') @ ys), m + dl, delta + dl, s1) =
        Inr (Children ((xs @ replaced del b c') @ zs), m + dl + D, delta + dl + D, s')"
      "branch 2 pi ((xs @ replaced del b c') @ zs)"
      "child_leaves P zs = filter (\<lambda>(k, v, m). count m = 0) (child_leaves P ys)"
      "child_metadata zs = child_metadata ys + D" "\<forall>(b, c) \<in> set zs. metadata_sum_ok c"
      "child_hashed zs \<subseteq> child_hashed ys"
      "s' = fold (\<lambda>(k, v, m). act k v) (filter (\<lambda>(k, v, m). count m \<noteq> 0) (child_leaves P ys)) s1"
    by (elim exE conjE) (rule that)
  let ?zs = "replaced del b c' @ zs"
  show ?case
  proof (rule exI [of _ ?zs], rule exI [of _ "dl + D"], rule exI [of _ s'], intro conjI)
    show "rfold (prune_step rec) (y # ys) (Children (xs @ y # ys), m, delta, s) = Inr (Children (xs @ ?zs), m + (dl + D), delta + (dl + D), s')"
      using step ih(1) by (simp add: add.assoc)
    show "branch 2 pi (xs @ ?zs)" using ih(2) by simp
    show "child_leaves P ?zs = filter (\<lambda>(k, v, m). count m = 0) (child_leaves P (y # ys))"
      using cut(2) ih(3) y by simp
    show "child_metadata ?zs = child_metadata (y # ys) + (dl + D)"
      using cut(3) ih(4) y by (simp add: algebra_simps)
    show "\<forall>(b, c) \<in> set ?zs. metadata_sum_ok c" using cut(4) ih(5) by auto
    show "child_hashed ?zs \<subseteq> child_hashed (y # ys)" using cut(5) ih(6) y by auto
    show "s' = fold (\<lambda>(k, v, m). act k v) (filter (\<lambda>(k, v, m). count m \<noteq> 0) (child_leaves P (y # ys))) s"
      using post ih(7) y by (simp add: prune_post_def)
  qed
qed auto

lemma filter_marked_none:
  "filter (\<lambda>(k, v, m). (count m :: 32 word) \<noteq> 0) xs = [] \<Longrightarrow> filter (\<lambda>(k, v, m). count m = 0) xs = xs"
  by (induction xs) (auto split: if_splits)

lemma prune_node_correct:
  fixes t :: "('p, 'v, 'm::ab_group_add) TrieNode"
  assumes cnt: "counter count" and act: "\<And>p v s. leaf_action p (Value v) s = Inr (act p v s)"
  shows "wf 2 t \<Longrightarrow> metadata_sum_ok t \<Longrightarrow> \<forall>(k, v, m) \<in> set (leaves P t). count m = 0 \<or> count m = 1 \<Longrightarrow>
    length (leaves P t) < 2 ^ 32 \<Longrightarrow>
    \<exists>del delta t' s'. prune_node P count bad msg leaf_action t s = Inr (del, delta, t', s') \<and>
      prune_post P pvalid nib count act t s del delta t' s' \<and> (del \<or> t' = t \<or> \<not> tn_hash_valid t')"
proof (induction t arbitrary: s rule: node_induct)
  case (Value v p l hv m h)
  then have "count m = 0 \<or> count m = 1" "l = prefix_bits P" by auto
  then show ?case
    using wfo_wf [OF Value.prems(1), of 1] act
    by (auto simp: prune_node_step prune_post_def cut_post_def)
next
  case (Children cs p l hv m h)
  let ?t = "TrieNode (Children cs) p l hv m h"
  have m: "m = sum_list (map (\<lambda>(k, v, m). m) (leaves P ?t))"
    using metadata_leaves [OF Children.prems(1,2)] by simp
  note zero = counter.count_zero_iff [OF cnt Children.prems(3,4), folded m]
  from Children.prems(1) obtain d where d: "l = 4 * d" "4 * d < prefix_bits P" "pvalid p" "2 \<le> length cs"
      "drop d (nib p) = replicate (prefix_bits P div 4 - d) 0"
      "branch 2 (take d (nib p)) cs" "length (take d (nib p)) = d"
    by (rule wf_ChildrenE)
  show ?case
  proof (cases "count m = 0")
    case True
    then have "prune_node P count bad msg leaf_action ?t s = Inr (False, 0, ?t, s)" by (simp add: prune_node_step)
    moreover have "prune_post P pvalid nib count act ?t s False 0 ?t s"
      using True zero filter_marked_none [of count "leaves P ?t"] Children.prems(2) wfo_wf [OF Children.prems(1), of 1]
      by (simp add: prune_post_def cut_post_def del: leaves.simps)
    ultimately show ?thesis by blast
  next
    case False
    have ls: "leaves P ?t = child_leaves P cs" using d by simp
    have "\<forall>b c. (b, c) \<in> set cs \<longrightarrow> (\<forall>s. \<exists>del delta c' s'.
        prune_node P count bad msg leaf_action c s = Inr (del, delta, c', s') \<and>
        prune_post P pvalid nib count act c s del delta c' s')"
    proof (intro allI impI)
      fix b c s assume c: "(b, c) \<in> set cs"
      then obtain as bs where "cs = as @ (b, c) # bs" by (meson split_list)
      then have "length (leaves P c) < 2 ^ 32" using Children.prems(4) ls by simp
      then show "\<exists>del delta c' s'. prune_node P count bad msg leaf_action c s = Inr (del, delta, c', s') \<and>
          prune_post P pvalid nib count act c s del delta c' s'"
        using Children.IH [OF c, of s] Children.prems(1-3) c ls by fastforce
    qed
    from prune_loop [of "take d (nib p)" "[]", simplified, OF d(6) this, of m 0 s] obtain zs D s' where
      run: "rfold (prune_step (prune_node P count bad msg leaf_action)) cs (Children cs, m, 0, s) = Inr (Children zs, m + D, D, s')"
      and zs: "branch 2 (take d (nib p)) zs" "child_leaves P zs = filter (\<lambda>(k, v, m). count m = 0) (child_leaves P cs)"
        "child_metadata zs = child_metadata cs + D" "\<forall>(b, c) \<in> set zs. metadata_sum_ok c" "child_hashed zs \<subseteq> child_hashed cs"
      and s': "s' = fold (\<lambda>(k, v, m). act k v) (filter (\<lambda>(k, v, m). count m \<noteq> 0) (child_leaves P cs)) s"
      by auto
    let ?t' = "TrieNode (Children zs) p l False (m + D) h"
    have "prune_node P count bad msg leaf_action ?t s = Inr (zs = [], D, ?t', s')"
      using False d run by (simp add: prune_node_step)
    moreover have "prune_post P pvalid nib count act ?t s (zs = []) D ?t' s'"
    proof (cases "zs = []")
      case True
      then have "D = - child_metadata cs" using zs(3) by (simp add: eq_neg_iff_add_eq_0 add.commute)
      then show ?thesis using True zs(2) s' ls Children.prems(2) by (simp add: prune_post_def cut_post_def del: leaves.simps)
    next
      case False
      then have "1 \<le> length zs" by (simp add: Suc_le_eq)
      then have "wfo 1 ?t'" unfolding d(1) wfo_Children using d zs(1) by blast
      moreover have "leaves P ?t' = child_leaves P zs" using d by simp
      moreover have "metadata_sum_ok ?t'" using zs(3,4) Children.prems(2) by simp
      moreover have "hashed_nodes ?t' \<subseteq> hashed_nodes ?t" using zs(5) by auto
      ultimately show ?thesis
        unfolding prune_post_def cut_post_def using False zs(2) s' ls
        by (simp del: leaves.simps metadata_sum_ok.simps hashed_nodes.simps)
    qed
    ultimately show ?thesis by auto
  qed
qed

end

section \<open>Clearing marks\<close>

text \<open>Both clearing operations are this traversal.\<close>

fun reset_node :: "('m \<Rightarrow> 32 word) \<Rightarrow> ('m \<Rightarrow> 'm) \<Rightarrow> ('p, 'v, 'm) TrieNode \<Rightarrow> ('p, 'v, 'm) TrieNode" where
  "reset_node count clr (TrieNode ch p l hv m h) =
     (if count m = 0 then TrieNode ch p l hv m h
      else TrieNode (case ch of Value v \<Rightarrow> Value v | Children cs \<Rightarrow> Children (map (\<lambda>(bb, c). (bb, reset_node count clr c)) cs))
        p l hv (clr m) h)"

lemma clear_marked_deletions_reset: "clear_marked_deletions t = reset_node num_deleted_subnodes (set_num_deleted 0) t"
  by (induction t rule: node_induct) auto

lemma clear_rollback_reset: "clear_rollback t = reset_node num_rollback_subnodes (set_num_rollback 0) t"
  by (induction t rule: node_induct) auto

locale clearing = counter count
  for count :: "'m::ab_group_add \<Rightarrow> 32 word" +
  fixes clr :: "'m \<Rightarrow> 'm"
  assumes clr_add: "clr (a + b) = clr a + clr b"
    and clr_zero_count: "count m = 0 \<Longrightarrow> clr m = m"
    and count_clr: "count (clr m) = 0"
begin

lemma clr_sum_list: "clr (sum_list xs) = sum_list (map clr xs)"
  by (induction xs) (simp_all add: clr_zero_count count_zero clr_add)

end

interpretation clear_deleted: clearing num_deleted_subnodes "set_num_deleted 0"
  by unfold_locales (auto simp: set_num_deleted_def plus_CombinedMetadata_def intro: CombinedMetadata.expand)

interpretation clear_rolled: clearing num_rollback_subnodes "set_num_rollback 0"
  by unfold_locales (auto simp: set_num_rollback_def plus_CombinedMetadata_def intro: CombinedMetadata.expand)

context trie_prefix
begin

lemma reset_node_correct:
  fixes t :: "('p, 'v, 'm::ab_group_add) TrieNode"
  assumes clr: "clearing count clr"
  shows "wf k t \<Longrightarrow> metadata_sum_ok t \<Longrightarrow> \<forall>(k, v, m) \<in> set (leaves P t). count m = 0 \<or> count m = 1 \<Longrightarrow>
    length (leaves P t) < 2 ^ 32 \<Longrightarrow>
    wf k (reset_node count clr t) \<and> tn_prefix (reset_node count clr t) = tn_prefix t \<and>
    tn_prefix_len (reset_node count clr t) = tn_prefix_len t \<and>
    leaves P (reset_node count clr t) = map (\<lambda>(k, v, m). (k, v, clr m)) (leaves P t) \<and>
    tn_metadata (reset_node count clr t) = clr (tn_metadata t) \<and> metadata_sum_ok (reset_node count clr t)"
proof (induction t rule: node_induct)
  case (Value v p l hv m h)
  then show ?case using clearing.clr_zero_count [OF clr, of m] by auto
next
  case (Children cs p l hv m h)
  let ?t = "TrieNode (Children cs) p l hv m h" and ?r = "reset_node count clr"
  note cnt = clearing.axioms(1) [OF clr]
  have m: "m = sum_list (map (\<lambda>(k, v, m). m) (leaves P ?t))"
    using metadata_leaves [OF Children.prems(1,2)] by simp
  note zero = counter.count_zero_iff [OF cnt Children.prems(3,4), folded m]
  from Children.prems(1) obtain d where d: "l = 4 * d" "4 * d < prefix_bits P" "branch k (take d (nib p)) cs"
    by (rule wf_ChildrenE)
  have ls: "leaves P ?t = child_leaves P cs" using d by simp
  show ?case
  proof (cases "count m = 0")
    case True
    have "map (\<lambda>(k, v, m). (k, v, clr m)) xs = xs" if "filter (\<lambda>(k, v, m). count m \<noteq> 0) xs = []" for xs :: "('p \<times> 'v \<times> 'm) list"
      using that clearing.clr_zero_count [OF clr] by (induction xs) (auto split: if_splits)
    then show ?thesis using True zero Children.prems clearing.clr_zero_count [OF clr True]
      by (simp del: leaves.simps metadata_sum_ok.simps wf_node.simps)
  next
    case False
    have ih: "wf k (?r c) \<and> tn_prefix (?r c) = tn_prefix c \<and> tn_prefix_len (?r c) = tn_prefix_len c \<and>
        leaves P (?r c) = map (\<lambda>(k, v, m). (k, v, clr m)) (leaves P c) \<and>
        tn_metadata (?r c) = clr (tn_metadata c) \<and> metadata_sum_ok (?r c)"
      if c: "(b, c) \<in> set cs" for b c
    proof (rule Children.IH [OF c])
      obtain as bs where "cs = as @ (b, c) # bs" using c by (meson split_list)
      then show "length (leaves P c) < 2 ^ 32" "\<forall>(k, v, m) \<in> set (leaves P c). count m = 0 \<or> count m = 1"
        using Children.prems(3,4) ls by simp_all
      show "wf k c" "metadata_sum_ok c" using c Children.prems(1,2) by auto
    qed
    let ?cs = "map (\<lambda>(bb, c). (bb, ?r c)) cs"
    have "map fst ?cs = map fst cs" by auto
    then have "sorted_keys ?cs" using d(3) by (simp only: branch_ok_def)
    then have "branch k (take d (nib p)) ?cs" using d(3) ih by (auto simp: branch_ok_def)
    then have w: "wf k (TrieNode (Children ?cs) p (4 * d) hv (clr m) h)"
      using Children.prems(1) unfolding d(1) wf_Children by simp
    have "child_leaves P ?cs = map (\<lambda>(k, v, m). (k, v, clr m)) (child_leaves P cs)"
      using ih by (auto simp: map_concat comp_def split_beta' intro!: arg_cong [where f = concat] map_cong)
    moreover have "child_metadata ?cs = clr (child_metadata cs)"
      unfolding clearing.clr_sum_list [OF clr] using ih by (auto simp: comp_def split_beta' intro!: arg_cong [where f = sum_list] map_cong)
    ultimately show ?thesis using False w ih d ls Children.prems(2) by (auto simp del: wf_node.simps)
  qed
qed

end

end
