(* ===== verification/TrieHash.thy ===== *)
theory TrieHash
  imports TrieDelete
begin

text \<open>
  Hashing: \<^verbatim>\<open>write_node_header\<close>, \<^verbatim>\<open>detail::compute_hash_value_node\<close>, both overloads of
  \<^verbatim>\<open>detail::compute_hash_branch_node\<close> and \<^verbatim>\<open>TrieNode::compute_hash\<close>, which fills the
  per-node hash caches.  \<open>HashEnv\<close> collects what the source takes from elsewhere: libsodium's hash,
  the big-endian writer, the serialisation of bit vectors and of values, and the
  template parameter \<^verbatim>\<open>ApplyToValueBeforeHashFn\<close>.
\<close>

section \<open>Operations\<close>

record ('p, 'v, 'b) HashEnv =
  generichash :: "byte list \<Rightarrow> Hash option"
  append_be16 :: "nat \<Rightarrow> byte list \<Rightarrow> byte list"
  prefix_write :: "'p \<Rightarrow> byte list \<Rightarrow> PrefixLenBits \<Rightarrow> byte list"
  bv_write :: "'b \<Rightarrow> byte list \<Rightarrow> byte list"
  copy_data :: "'v \<Rightarrow> byte list \<Rightarrow> byte list"
  apply_to_value :: "'v \<Rightarrow> 'v"

definition write_node_header :: "('p, 'v, 'b) HashEnv \<Rightarrow> byte list \<Rightarrow> 'p \<Rightarrow> PrefixLenBits \<Rightarrow> byte list" where
  "write_node_header E buf prefix prefix_len_bits =
     prefix_write E prefix (append_be16 E prefix_len_bits buf) prefix_len_bits"

definition crypto_generichash :: "('p, 'v, 'b) HashEnv \<Rightarrow> byte list \<Rightarrow> Hash res" where
  "crypto_generichash E digest_bytes =
     (case generichash E digest_bytes of None \<Rightarrow> throw ''error in crypto_generichash'' | Some h \<Rightarrow> Inr h)"

definition compute_hash_value_node :: "('p, 'v, 'b) HashEnv \<Rightarrow> 'p \<Rightarrow> PrefixLenBits \<Rightarrow> 'v \<Rightarrow> Hash res" where
  "compute_hash_value_node E prefix prefix_len v =
     crypto_generichash E (copy_data E v (write_node_header E [] prefix prefix_len))"

text \<open>\<open>pop\<close> the bits of \<open>bv\<close> one by one and append the hash of the child at each.\<close>

fun append_child_hashes ::
    "'b BitVector_ops \<Rightarrow> nat \<Rightarrow> 'b \<Rightarrow> (nat \<times> ('p, 'v, 'm) TrieNode) list \<Rightarrow> byte list \<Rightarrow> byte list res" where
  "append_child_hashes B 0 bits cs digest_bytes = Inr digest_bytes"
| "append_child_hashes B (Suc n) bits cs digest_bytes =
     (let (bb, bits') = bv_pop B bits in
      case map_of cs bb of
        None \<Rightarrow> throw ''bv gave invalid answer!''
      | Some c \<Rightarrow> append_child_hashes B n bits' cs (digest_bytes @ tn_hash c))"

text \<open>Whether the metadata have a \<^verbatim>\<open>DeletableMixin\<close>, and then how to read the size (\<^verbatim>\<open>int64_t\<close>)
  and the number of marked subnodes (\<^verbatim>\<open>int32_t\<close>).\<close>

datatype 'm metadata_kind = Plain | Deletable (mk_size: "'m \<Rightarrow> 64 word") (mk_deleted: "'m \<Rightarrow> 32 word")

abbreviation is_plain :: "'m metadata_kind \<Rightarrow> bool" where
  "is_plain k \<equiv> (case k of Plain \<Rightarrow> True | Deletable _ _ \<Rightarrow> False)"

lemma is_plain_iff [simp]: "is_plain k \<longleftrightarrow> k = Plain"
  by (cases k) simp_all

fun live_child :: "'m metadata_kind \<Rightarrow> 'm \<Rightarrow> bool res" where
  "live_child Plain child_meta = Inr True"
| "live_child (Deletable sz nd) child_meta =
     (if sint (sz child_meta) < sint (nd child_meta) then throw ''invalid num deleted subnodes > size''
      else Inr (sint (sz child_meta) > sint (nd child_meta)))"

definition collect_bv ::
    "'b BitVector_ops \<Rightarrow> 'm metadata_kind \<Rightarrow> (nat \<times> ('p, 'v, 'm) TrieNode) list \<Rightarrow> 'b" where
  "collect_bv B k cs =
     fold (\<lambda>(bb, c) bits. if live_child k (tn_metadata c) = Inr True then bv_add B bits bb else bits) cs (bv_clear B)"

text \<open>The rest of \<^verbatim>\<open>compute_hash_branch_node\<close> once the hashes of the children are there.\<close>

definition compute_hash_branch_node ::
    "'b BitVector_ops \<Rightarrow> ('p, 'v, 'b) HashEnv \<Rightarrow> 'm metadata_kind \<Rightarrow> 'p \<Rightarrow> PrefixLenBits \<Rightarrow>
     (nat \<times> ('p, 'v, 'm) TrieNode) list \<Rightarrow> Hash res" where
  "compute_hash_branch_node B E k prefix prefix_len cs =
     (let bits = collect_bv B k cs;
          num_children = (if is_plain k then length cs else bv_size B bits)
      in if \<not> is_plain k \<and> num_children = 1 then
           (case map_of cs (fst (bv_pop B bits)) of
              None \<Rightarrow> throw ''tried to look for nonexistent child node! (bv err)''
            | Some c \<Rightarrow> Inr (tn_hash c))
         else
           rbind (append_child_hashes B num_children bits cs
                   (bv_write E bits (write_node_header E [] prefix prefix_len)))
             (crypto_generichash E))"

fun compute_hash ::
    "'p TriePrefix \<Rightarrow> 'b BitVector_ops \<Rightarrow> ('p, 'v, 'b) HashEnv \<Rightarrow> 'm metadata_kind \<Rightarrow>
     ('p, 'v, 'm) TrieNode \<Rightarrow> ('p, 'v, 'm) TrieNode res" where
  "compute_hash P B E k (TrieNode ch p l hv m h) =
     (if hv then Inr (TrieNode ch p l hv m h)
      else if l = 0 \<and> cm_size ch = 0 then Inr (TrieNode ch p l hv m h)
      else if l = MAX_KEY_LEN_BITS P then
        rbind (cm_value ch) (\<lambda>v.
          let v' = apply_to_value E v
          in rbind (compute_hash_value_node E p l v') (\<lambda>h'. Inr (TrieNode (Value v') p l True m h')))
      else
        rbind (rmap (\<lambda>(bb, c).
            rbind (live_child k (tn_metadata c)) (\<lambda>live.
              if live then rbind (compute_hash P B E k c) (\<lambda>c'. Inr (bb, c')) else Inr (bb, c)))
          (cm_list ch))
        (\<lambda>cs'. rbind (compute_hash_branch_node B E k p l cs') (\<lambda>h'.
          Inr (TrieNode (case ch of Value v \<Rightarrow> Value v | Children _ \<Rightarrow> Children cs') p l True m h'))))"

declare compute_hash.simps [simp del]

section \<open>The hash of a trie, from scratch\<close>

text \<open>
  \<open>node_hash\<close> is the documented hash: of a leaf, its header and its serialised value; of an inner
  node, its header, the set of branch bits and the hashes of the children in order.
  \<open>H\<close> is the hash function.  \<open>live_hash\<close> is the variant for metadata with deletion marks: it skips the
  children that fail \<open>live\<close>, and a node with one live child has the hash of that child.
\<close>

definition bv_of_keys :: "'b BitVector_ops \<Rightarrow> nat list \<Rightarrow> 'b" where
  "bv_of_keys B bbs = fold (\<lambda>bb bits. bv_add B bits bb) bbs (bv_clear B)"

lemma map_fst_map: "map fst (map (\<lambda>(b, c). (b, f c)) cs) = map fst cs"
  by auto

lemma map_snd_map: "map snd (map (\<lambda>(b, c). (b, f c)) cs) = map (\<lambda>(b, c). f c) cs"
  by auto

fun node_hash ::
    "'b BitVector_ops \<Rightarrow> ('p, 'v, 'b) HashEnv \<Rightarrow> (byte list \<Rightarrow> Hash) \<Rightarrow> ('p, 'v, 'm) TrieNode \<Rightarrow> Hash" where
  "node_hash B E H (TrieNode ch p l hv m h) =
     (case ch of
        Value v \<Rightarrow> H (copy_data E (apply_to_value E v) (write_node_header E [] p l))
      | Children cs \<Rightarrow>
          H (bv_write E (bv_of_keys B (map fst cs)) (write_node_header E [] p l) @
             concat (map (\<lambda>(bb, c). node_hash B E H c) cs)))"

definition join_hashes ::
    "'b BitVector_ops \<Rightarrow> ('p, 'v, 'b) HashEnv \<Rightarrow> (byte list \<Rightarrow> Hash) \<Rightarrow> 'p \<Rightarrow> PrefixLenBits \<Rightarrow> (nat \<times> Hash) list \<Rightarrow> Hash" where
  "join_hashes B E H p l hs =
     H (bv_write E (bv_of_keys B (map fst hs)) (write_node_header E [] p l) @ concat (map snd hs))"

fun live_hash ::
    "'b BitVector_ops \<Rightarrow> ('p, 'v, 'b) HashEnv \<Rightarrow> (byte list \<Rightarrow> Hash) \<Rightarrow> bool \<Rightarrow> ('m \<Rightarrow> bool) \<Rightarrow> ('p, 'v, 'm) TrieNode \<Rightarrow> Hash" where
  "live_hash B E H collapse live (TrieNode ch p l hv m h) =
     (case ch of
        Value v \<Rightarrow> H (copy_data E (apply_to_value E v) (write_node_header E [] p l))
      | Children cs \<Rightarrow>
          let hs = concat (map (\<lambda>(bb, c). if live (tn_metadata c) then [(bb, live_hash B E H collapse live c)] else []) cs)
          in if collapse \<and> length hs = 1 then snd (hd hs) else join_hashes B E H p l hs)"

lemma concat_singletons: "concat (map (\<lambda>(b, c). [(b, f c)]) cs) = map (\<lambda>(b, c). (b, f c)) cs"
  by (induction cs) auto

lemma node_hash_live: "node_hash B E H t = live_hash B E H False (\<lambda>_. True) t"
proof (induction t rule: node_induct)
  case (Children cs p l hv m h)
  have eq: "map (\<lambda>(bb, c). node_hash B E H c) cs = map (\<lambda>(bb, c). live_hash B E H False (\<lambda>_. True) c) cs"
    using Children.IH by auto
  show ?case
    by (simp only: node_hash.simps live_hash.simps children_map.case join_hashes_def map_fst_map map_snd_map eq concat_singletons
      Let_def if_True simp_thms if_False)
qed simp

text \<open>A cached hash marked valid is the hash of its node.\<close>

definition cache_ok :: "(('p, 'v, 'm) TrieNode \<Rightarrow> Hash) \<Rightarrow> ('p, 'v, 'm) TrieNode \<Rightarrow> bool" where
  "cache_ok f t \<longleftrightarrow> (\<forall>n \<in> hashed_nodes t. tn_hash n = f n)"

lemma cache_ok_subset: "hashed_nodes t' \<subseteq> hashed_nodes t \<Longrightarrow> cache_ok f t \<Longrightarrow> cache_ok f t'"
  by (auto simp: cache_ok_def)

lemma node_hash_strip: "node_hash B E H t = node_hash B E H (strip t)"
proof (induction t rule: node_induct)
  case (Children cs p l hv m h)
  have eq: "map (\<lambda>(bb, c). node_hash B E H c) cs = map (\<lambda>(bb, c). node_hash B E H c) (map (\<lambda>(bb, c). (bb, strip c)) cs)"
    using Children.IH by auto
  show ?case by (simp only: node_hash.simps strip.simps children_map.case map_fst_map eq)
qed simp

section \<open>The hash caches\<close>

text \<open>The hash environment: libsodium's hash does not fail, and applying the callback to a value twice is applying it once.\<close>

locale hash_env = bit_vector B bvset
  for B :: "'b BitVector_ops" and bvset :: "'b \<Rightarrow> nat set" +
  fixes E :: "('p, 'v, 'b) HashEnv" and H :: "byte list \<Rightarrow> Hash"
  assumes generichash_ok: "generichash E d = Some (H d)"
    and apply_idem: "apply_to_value E (apply_to_value E v) = apply_to_value E v"
begin

lemma crypto_generichash_ok [simp]: "crypto_generichash E d = Inr (H d)"
  by (simp add: crypto_generichash_def generichash_ok)

lemma bv_of_keys_set:
  assumes "\<forall>bb \<in> set bbs. bb < 16"
  shows "bvset (bv_of_keys B bbs) = set bbs"
proof -
  have "bvset (fold (\<lambda>bb bits. bv_add B bits bb) bbs s) = bvset s \<union> set bbs" for s
    using assms by (induction bbs arbitrary: s) (auto simp: bv_add)
  then show ?thesis by (simp add: bv_of_keys_def bv_clear)
qed

lemma append_child_hashes_eq:
  assumes "sorted_keys ls" "\<forall>(bb, c) \<in> set ls. bb < 16 \<and> map_of cs bb = Some c" "bvset bits = fst ` set ls"
  shows "append_child_hashes B (length ls) bits cs d = Inr (d @ concat (map (\<lambda>(bb, c). tn_hash c) ls))"
  using assms
proof (induction ls arbitrary: bits d)
  case (Cons x ls)
  obtain bb c where x: "x = (bb, c)" by (cases x)
  have least: "\<forall>y \<in> fst ` set ls. bb < y" using Cons.prems(1) x by auto
  have "Min (insert bb (fst ` set ls)) = bb"
    by (rule Min_eqI) (use least in auto)
  then have pop: "bv_pop B bits = (bb, bv_erase B bits bb)" using bv_pop [of bits] Cons.prems(3) x by simp
  have "bvset (bv_erase B bits bb) = fst ` set ls"
    using bv_erase [of bb bits] Cons.prems(2,3) x least by auto
  then have "append_child_hashes B (length ls) (bv_erase B bits bb) cs (d @ tn_hash c) =
      Inr ((d @ tn_hash c) @ concat (map (\<lambda>(bb, c). tn_hash c) ls))"
    using Cons.prems(1,2) by (intro Cons.IH) auto
  then show ?case using pop Cons.prems(2) x by simp
qed simp

end

abbreviation is_live :: "'m metadata_kind \<Rightarrow> 'm \<Rightarrow> bool" where
  "is_live k m \<equiv> live_child k m = Inr True"

text \<open>No child has more marked subnodes than subnodes.\<close>

fun live_ok :: "'m metadata_kind \<Rightarrow> ('p, 'v, 'm) TrieNode \<Rightarrow> bool" where
  "live_ok k (TrieNode ch p l hv m h) =
     (\<forall>(bb, c) \<in> set (cm_list ch). (\<exists>b. live_child k (tn_metadata c) = Inr b) \<and> live_ok k c)"

text \<open>A node after hashing: \<open>f\<close> is the hash from scratch.\<close>

definition same_node ::
    "'p TriePrefix \<Rightarrow> ('p \<Rightarrow> bool) \<Rightarrow> ('p \<Rightarrow> nat list) \<Rightarrow> ('p, 'v, 'b) HashEnv \<Rightarrow> 'm metadata_kind \<Rightarrow>
     (('p, 'v, 'm::ab_group_add) TrieNode \<Rightarrow> Hash) \<Rightarrow> ('p, 'v, 'm) TrieNode \<Rightarrow> ('p, 'v, 'm) TrieNode \<Rightarrow> bool" where
  "same_node P pvalid nib E k f t t' \<longleftrightarrow>
     f t' = f t \<and> cache_ok f t' \<and>
     tn_prefix t' = tn_prefix t \<and> tn_prefix_len t' = tn_prefix_len t \<and> tn_metadata t' = tn_metadata t \<and>
     wf_node P pvalid nib 2 t' \<and> (metadata_sum_ok t \<longrightarrow> metadata_sum_ok t') \<and> live_ok k t' \<and>
     (apply_to_value E = id \<longrightarrow> leaves P t' = leaves P t)"

definition hash_post ::
    "'p TriePrefix \<Rightarrow> ('p \<Rightarrow> bool) \<Rightarrow> ('p \<Rightarrow> nat list) \<Rightarrow> ('p, 'v, 'b) HashEnv \<Rightarrow> 'm metadata_kind \<Rightarrow>
     (('p, 'v, 'm::ab_group_add) TrieNode \<Rightarrow> Hash) \<Rightarrow> ('p, 'v, 'm) TrieNode \<Rightarrow> ('p, 'v, 'm) TrieNode \<Rightarrow> bool" where
  "hash_post P pvalid nib E k f t t' \<longleftrightarrow>
     tn_hash_valid t' \<and> tn_hash t' = f t \<and> same_node P pvalid nib E k f t t'"

text \<open>How the children of a hashed node relate to the children before.\<close>

definition hashed_child ::
    "'p TriePrefix \<Rightarrow> ('p \<Rightarrow> bool) \<Rightarrow> ('p \<Rightarrow> nat list) \<Rightarrow> ('p, 'v, 'b) HashEnv \<Rightarrow> 'm metadata_kind \<Rightarrow>
     (('p, 'v, 'm::ab_group_add) TrieNode \<Rightarrow> Hash) \<Rightarrow> nat \<times> ('p, 'v, 'm) TrieNode \<Rightarrow> nat \<times> ('p, 'v, 'm) TrieNode \<Rightarrow> bool" where
  "hashed_child P pvalid nib E k f x y \<longleftrightarrow>
     fst y = fst x \<and> same_node P pvalid nib E k f (snd x) (snd y) \<and>
     (is_live k (tn_metadata (snd x)) \<longrightarrow> tn_hash (snd y) = f (snd x)) \<and>
     (\<exists>b. live_child k (tn_metadata (snd x)) = Inr b)"

locale trie_hash = trie_prefix P pvalid nib + hash_env B bvset E H
  for P :: "'p TriePrefix" and pvalid and nib and B :: "'b BitVector_ops" and bvset
    and E :: "('p, 'v, 'b) HashEnv" and H
begin

abbreviation spec :: "'m metadata_kind \<Rightarrow> ('p, 'v, 'm) TrieNode \<Rightarrow> Hash" where
  "spec k \<equiv> live_hash B E H (k \<noteq> Plain) (is_live k)"

lemma collect_bv_eq: "collect_bv B k cs = bv_of_keys B (map fst (filter (\<lambda>(bb, c). is_live k (tn_metadata c)) cs))"
proof -
  have "fold (\<lambda>(bb, c) bits. if is_live k (tn_metadata c) then bv_add B bits bb else bits) cs s =
      fold (\<lambda>bb bits. bv_add B bits bb) (map fst (filter (\<lambda>(bb, c). is_live k (tn_metadata c)) cs)) s" for s
    by (induction cs arbitrary: s) auto
  then show ?thesis by (simp add: collect_bv_def bv_of_keys_def)
qed

lemma compute_hash_branch_node_eq:
  assumes "sorted_keys cs" "\<forall>(bb, c) \<in> set cs. bb < 16"
  shows "compute_hash_branch_node B E k p l cs =
    (let hs = map (\<lambda>(bb, c). (bb, tn_hash c)) (filter (\<lambda>(bb, c). is_live k (tn_metadata c)) cs)
     in Inr (if k \<noteq> Plain \<and> length hs = 1 then snd (hd hs) else join_hashes B E H p l hs))"
proof -
  let ?ls = "filter (\<lambda>(bb, c). is_live k (tn_metadata c)) cs"
  let ?bits = "bv_of_keys B (map fst ?ls)"
  have sorted: "sorted_keys ?ls" using assms(1) by (simp add: sorted_wrt_map sorted_wrt_filter)
  have ls: "\<forall>(bb, c) \<in> set ?ls. bb < 16 \<and> map_of cs bb = Some c"
    using assms map_of_sorted_iff [OF assms(1)] by auto
  have bs: "bvset ?bits = fst ` set ?ls" using bv_of_keys_set [of "map fst ?ls"] ls by auto
  have num: "(if k = Plain then length cs else bv_size B ?bits) = length ?ls"
  proof (cases "k = Plain")
    case True
    then have "?ls = cs" by (simp add: filter_id_conv case_prod_beta)
    then show ?thesis using True by simp
  next
    case False
    have "card (fst ` set ?ls) = length ?ls"
      using distinct_card [OF sorted_keys_distinct [OF sorted]] by simp
    then show ?thesis using False bs by (simp add: bv_size)
  qed
  have app: "append_child_hashes B (length ?ls) ?bits cs d = Inr (d @ concat (map (\<lambda>(bb, c). tn_hash c) ?ls))" for d
    by (rule append_child_hashes_eq [OF sorted ls bs])
  have single: "map_of cs (fst (bv_pop B ?bits)) = Some (snd (hd ?ls))" if one: "length ?ls = 1"
  proof -
    obtain bb c where e: "?ls = [(bb, c)]" using one by (cases ?ls) auto
    then have "bv_pop B ?bits = (bb, bv_erase B ?bits bb)" using bv_pop [of ?bits] bs by simp
    then show ?thesis using e ls by auto
  qed
  have hd: "snd (hd (map (\<lambda>(bb, c). (bb, tn_hash c)) ?ls)) = tn_hash (snd (hd ?ls))" if "length ?ls = 1"
    using that by (cases ?ls) auto
  show ?thesis
    unfolding compute_hash_branch_node_def collect_bv_eq Let_def is_plain_iff num length_map
    using single hd app by (auto simp: join_hashes_def map_fst_map map_snd_map simp del: map_map split: if_splits)
qed

lemma cache_ok_child: "cache_ok f (TrieNode (Children cs) p l hv m h) \<Longrightarrow> (bb, c) \<in> set cs \<Longrightarrow> cache_ok f c"
  by (force simp: cache_ok_def)

lemma hashed_children:
  fixes cs :: "(nat \<times> ('p, 'v, 'm::ab_group_add) TrieNode) list"
  assumes "list_all2 (hashed_child P pvalid nib E k (spec k)) cs cs'"
  shows "map fst cs' = map fst cs"
    "map (\<lambda>(bb, c). (bb, tn_hash c)) (filter (\<lambda>(bb, c). is_live k (tn_metadata c)) cs') =
      concat (map (\<lambda>(bb, c). if is_live k (tn_metadata c) then [(bb, spec k c)] else []) cs)"
    "concat (map (\<lambda>(bb, c). if is_live k (tn_metadata c) then [(bb, spec k c)] else []) cs') =
      concat (map (\<lambda>(bb, c). if is_live k (tn_metadata c) then [(bb, spec k c)] else []) cs)"
    "child_metadata cs' = child_metadata cs"
    "apply_to_value E = id \<Longrightarrow> child_leaves P cs' = child_leaves P cs"
  using assms by (induction rule: list_all2_induct) (auto simp: hashed_child_def same_node_def)

lemma hashed_children_set:
  assumes "list_all2 (hashed_child P pvalid nib E k (spec k)) cs cs'" "(bb, c') \<in> set cs'"
  obtains c where "(bb, c) \<in> set cs" "hashed_child P pvalid nib E k (spec k) (bb, c) (bb, c')"
proof -
  obtain i where i: "i < length cs'" "cs' ! i = (bb, c')" using assms(2) by (meson in_set_conv_nth)
  then have "hashed_child P pvalid nib E k (spec k) (cs ! i) (bb, c')" "cs ! i \<in> set cs"
    using assms(1) by (auto simp: list_all2_conv_all_nth)
  moreover from this(1) have "fst (cs ! i) = bb" by (simp add: hashed_child_def)
  ultimately show ?thesis using that [of "snd (cs ! i)"] by (metis prod.collapse)
qed

lemma hash_children_exists:
  fixes cs :: "(nat \<times> ('p, 'v, 'm::ab_group_add) TrieNode) list"
  assumes ok: "\<forall>(bb, c) \<in> set cs. (\<exists>b. live_child k (tn_metadata c) = Inr b) \<and> wf 2 c \<and> cache_ok (spec k) c \<and> live_ok k c"
    and ih: "\<forall>(bb, c) \<in> set cs. \<exists>c'. compute_hash P B E k c = Inr c' \<and> hash_post P pvalid nib E k (spec k) c c'"
  shows "\<exists>cs'. rmap (\<lambda>(bb, c). rbind (live_child k (tn_metadata c)) (\<lambda>live.
      if live then rbind (compute_hash P B E k c) (\<lambda>c'. Inr (bb, c')) else Inr (bb, c))) cs = Inr cs' \<and>
    list_all2 (hashed_child P pvalid nib E k (spec k)) cs cs'"
proof (rule rmap_choice, rule ballI)
  fix x assume x: "x \<in> set cs"
  obtain bb c where xc: "x = (bb, c)" by (cases x)
  have c: "(\<exists>b. live_child k (tn_metadata c) = Inr b) \<and> wf 2 c \<and> cache_ok (spec k) c \<and> live_ok k c"
    "\<exists>c'. compute_hash P B E k c = Inr c' \<and> hash_post P pvalid nib E k (spec k) c c'"
    using ok ih x xc by auto
  then show "\<exists>y. (case x of (bb, c) \<Rightarrow> rbind (live_child k (tn_metadata c)) (\<lambda>live.
      if live then rbind (compute_hash P B E k c) (\<lambda>c'. Inr (bb, c')) else Inr (bb, c))) = Inr y \<and>
    hashed_child P pvalid nib E k (spec k) x y"
    using xc by (auto simp: hashed_child_def hash_post_def same_node_def)
qed

theorem compute_hash_correct:
  fixes t :: "('p, 'v, 'm::ab_group_add) TrieNode"
  shows "wf 2 t \<Longrightarrow> cache_ok (spec k) t \<Longrightarrow> live_ok k t \<Longrightarrow>
    \<exists>t'. compute_hash P B E k t = Inr t' \<and> hash_post P pvalid nib E k (spec k) t t'"
proof (induction t rule: node_induct)
  case (Value v p l hv m h)
  have l: "l = prefix_bits P" "l \<noteq> 0" using Value.prems bits_pos by auto
  then show ?case
    using Value.prems apply_idem
    by (auto simp: compute_hash.simps hash_post_def same_node_def compute_hash_value_node_def cache_ok_def Let_def)
next
  case (Children cs p l hv m h)
  let ?t = "TrieNode (Children cs) p l hv m h"
  show ?case
  proof (cases hv)
    case True
    then show ?thesis
      using Children.prems by (auto simp: compute_hash.simps hash_post_def same_node_def cache_ok_def)
  next
    case False
    from Children.prems(1) obtain d where d: "l = 4 * d" "4 * d < prefix_bits P" "2 \<le> length cs" "branch 2 (take d (nib p)) cs"
      by (rule wf_ChildrenE)
    have sub: "\<forall>(bb, c) \<in> set cs. (\<exists>b. live_child k (tn_metadata c) = Inr b) \<and> wf 2 c \<and> cache_ok (spec k) c \<and> live_ok k c"
      using Children.prems cache_ok_child [OF Children.prems(2)] by auto
    then have "\<forall>(bb, c) \<in> set cs. \<exists>c'. compute_hash P B E k c = Inr c' \<and> hash_post P pvalid nib E k (spec k) c c'"
      using Children.IH by blast
    from hash_children_exists [OF sub this] obtain cs' where
      run: "rmap (\<lambda>(bb, c). rbind (live_child k (tn_metadata c)) (\<lambda>live.
        if live then rbind (compute_hash P B E k c) (\<lambda>c'. Inr (bb, c')) else Inr (bb, c))) cs = Inr cs'"
      and rel: "list_all2 (hashed_child P pvalid nib E k (spec k)) cs cs'"
      by blast
    note hc = hashed_children [OF rel] and hs = hashed_children_set [OF rel]
    have fc: "same_node P pvalid nib E k (spec k) c c' \<and> (\<exists>b. live_child k (tn_metadata c') = Inr b)"
      if "hashed_child P pvalid nib E k (spec k) (bb, c) (bb, c')" for bb c c'
      using that by (auto simp: hashed_child_def same_node_def)
    have sub': "\<exists>c. (bb, c) \<in> set cs \<and> same_node P pvalid nib E k (spec k) c c' \<and> (\<exists>b. live_child k (tn_metadata c') = Inr b)"
      if mem: "(bb, c') \<in> set cs'" for bb c'
    proof -
      obtain c where "(bb, c) \<in> set cs" "hashed_child P pvalid nib E k (spec k) (bb, c) (bb, c')" by (rule hs [OF mem])
      then show ?thesis using fc by blast
    qed
    have sorted: "sorted_keys cs'" using d(4) hc(1) by (simp add: branch_ok_def)
    have br: "branch 2 (take d (nib p)) cs'"
      unfolding branch_ok_def
    proof (intro conjI sorted, clarify)
      fix bb c' assume "(bb, c') \<in> set cs'"
      then obtain c where "(bb, c) \<in> set cs" "same_node P pvalid nib E k (spec k) c c'" using sub' by blast
      then show "wf 2 c' \<and> 4 * length (take d (nib p)) < tn_prefix_len c' \<and>
          take (Suc (length (take d (nib p)))) (nib (tn_prefix c')) = take d (nib p) @ [bb]"
        using d(4) by (auto simp: branch_ok_def same_node_def)
    qed
    let ?h = "spec k ?t" and ?t' = "TrieNode (Children cs') p l True m (spec k ?t)"
    have w: "wf 2 (TrieNode (Children cs') p (4 * d) True m (spec k ?t))"
      using Children.prems(1) br arg_cong [OF hc(1), of length] unfolding d(1) wf_Children by simp
    have bound: "\<forall>(bb, c) \<in> set cs'. bb < 16"
      using branch_bound [OF w] by (fastforce simp: MAX_BRANCH_VALUE_def)
    have same: "spec k ?t' = spec k ?t" using hc(3) by simp
    have "compute_hash_branch_node B E k p l cs' = Inr (spec k ?t)"
      using compute_hash_branch_node_eq [OF sorted bound, of k p l] hc(2) by (simp add: Let_def split del: if_split)
    then have "compute_hash P B E k ?t = Inr ?t'"
      using False d run by (auto simp: compute_hash.simps)
    moreover have "same_node P pvalid nib E k (spec k) ?t ?t'"
    proof -
      have c': "cache_ok (spec k) c'" "live_ok k c'" "\<exists>b. live_child k (tn_metadata c') = Inr b"
          "metadata_sum_ok ?t \<Longrightarrow> metadata_sum_ok c'" if "(bb, c') \<in> set cs'" for bb c'
        using sub' [OF that] by (auto simp: same_node_def)
      have "cache_ok (spec k) ?t'"
        using c'(1) same by (force simp: cache_ok_def simp del: live_hash.simps)
      moreover have "live_ok k ?t'" using c'(2,3) by auto
      moreover have "metadata_sum_ok ?t'" if ms: "metadata_sum_ok ?t"
        using c'(4) [OF _ ms] hc(4) ms by auto
      moreover have "apply_to_value E = id \<longrightarrow> leaves P ?t' = leaves P ?t"
        using hc(5) by simp
      ultimately show ?thesis
        using w same d(1)
        by (simp add: same_node_def del: wf_node.simps live_ok.simps metadata_sum_ok.simps leaves.simps live_hash.simps)
    qed
    ultimately show ?thesis by (auto simp: hash_post_def simp del: live_hash.simps)
  qed
qed

end

section \<open>Marked subnodes are hashed as if they were gone\<close>

text \<open>The trie without its dead leaves, built bottom-up.\<close>

fun live_tree :: "('m \<Rightarrow> bool) \<Rightarrow> ('p, 'v, 'm) TrieNode \<Rightarrow> ('p, 'v, 'm) TrieNode option" where
  "live_tree live (TrieNode ch p l hv m h) =
     (case ch of
        Value v \<Rightarrow> if live m then Some (TrieNode ch p l hv m h) else None
      | Children cs \<Rightarrow>
          (case concat (map (\<lambda>(bb, c). case live_tree live c of None \<Rightarrow> [] | Some c' \<Rightarrow> [(bb, c')]) cs) of
             [] \<Rightarrow> None
           | [(bb, c)] \<Rightarrow> Some c
           | cs' \<Rightarrow> Some (TrieNode (Children cs') p l False m h)))"

text \<open>A child is live iff one of its leaves is.\<close>

fun live_sound :: "'p TriePrefix \<Rightarrow> ('m \<Rightarrow> bool) \<Rightarrow> ('p, 'v, 'm) TrieNode \<Rightarrow> bool" where
  "live_sound P live (TrieNode ch p l hv m h) =
     (\<forall>(bb, c) \<in> set (cm_list ch).
        (live (tn_metadata c) \<longleftrightarrow> (\<exists>(k, v, m) \<in> set (leaves P c). live m)) \<and> live_sound P live c)"

definition live_post ::
    "'p TriePrefix \<Rightarrow> ('p \<Rightarrow> bool) \<Rightarrow> ('p \<Rightarrow> nat list) \<Rightarrow> 'b BitVector_ops \<Rightarrow> ('p, 'v, 'b) HashEnv \<Rightarrow> (byte list \<Rightarrow> Hash) \<Rightarrow>
     ('m \<Rightarrow> bool) \<Rightarrow> ('p, 'v, 'm) TrieNode \<Rightarrow> ('p, 'v, 'm) TrieNode \<Rightarrow> bool" where
  "live_post P pvalid nib B E H live t u \<longleftrightarrow>
     wf_node P pvalid nib 2 u \<and> leaves P u = filter (\<lambda>(k, v, m). live m) (leaves P t) \<and>
     tn_prefix_len t \<le> tn_prefix_len u \<and>
     take (tn_prefix_len t div 4) (nib (tn_prefix u)) = take (tn_prefix_len t div 4) (nib (tn_prefix t)) \<and>
     node_hash B E H u = live_hash B E H True live t"

context trie_prefix
begin

lemma live_children:
  fixes cs :: "(nat \<times> ('p, 'v, 'm) TrieNode) list"
  assumes br: "branch 2 pi cs"
    and sound: "\<forall>(bb, c) \<in> set cs. live (tn_metadata c) \<longleftrightarrow> (\<exists>(k, v, m) \<in> set (leaves P c). live m)"
    and ih: "\<forall>(bb, c) \<in> set cs. case live_tree live c of None \<Rightarrow> filter (\<lambda>(k, v, m). live m) (leaves P c) = []
      | Some u \<Rightarrow> live_post P pvalid nib B E H live c u"
    and cs': "cs' = concat (map (\<lambda>(bb, c). case live_tree live c of None \<Rightarrow> [] | Some c' \<Rightarrow> [(bb, c')]) cs)"
  shows "branch 2 pi cs' \<and> fst ` set cs' \<subseteq> fst ` set cs \<and>
    child_leaves P cs' = filter (\<lambda>(k, v, m). live m) (child_leaves P cs) \<and>
    concat (map (\<lambda>(bb, c). if live (tn_metadata c) then [(bb, live_hash B E H True live c)] else []) cs) =
      map (\<lambda>(bb, u). (bb, node_hash B E H u)) cs'"
  using assms
proof (induction cs arbitrary: cs')
  case (Cons x cs)
  obtain bb c where x: "x = (bb, c)" by (cases x)
  have c: "wf 2 c" "4 * length pi < tn_prefix_len c" "take (Suc (length pi)) (nib (tn_prefix c)) = pi @ [bb]"
    and bb: "\<forall>y \<in> fst ` set cs. bb < y" and br: "branch 2 pi cs"
    using Cons.prems(1) x by (auto simp: branch_ok_def)
  define ds where "ds = concat (map (\<lambda>(bb, c). case live_tree live c of None \<Rightarrow> [] | Some c' \<Rightarrow> [(bb, c')]) cs)"
  have ih: "branch 2 pi ds" "fst ` set ds \<subseteq> fst ` set cs"
      "child_leaves P ds = filter (\<lambda>(k, v, m). live m) (child_leaves P cs)"
      "concat (map (\<lambda>(bb, c). if live (tn_metadata c) then [(bb, live_hash B E H True live c)] else []) cs) =
        map (\<lambda>(bb, u). (bb, node_hash B E H u)) ds"
    using Cons.IH [OF br _ _ ds_def] Cons.prems(2,3) by auto
  have lv: "live (tn_metadata c) \<longleftrightarrow> filter (\<lambda>(k, v, m). live m) (leaves P c) \<noteq> []"
    using Cons.prems(2) x by (auto simp: filter_empty_conv)
  show ?case
  proof (cases "live_tree live c")
    case None
    then have "filter (\<lambda>(k, v, m). live m) (leaves P c) = []" using Cons.prems(3) x by auto
    then show ?thesis using None ih lv Cons.prems(4) x by (auto simp: ds_def [symmetric])
  next
    case (Some u)
    then have post: "live_post P pvalid nib B E H live c u" using Cons.prems(3) x by auto
    then have u: "wf 2 u" "tn_prefix_len c \<le> tn_prefix_len u"
        "take (tn_prefix_len c div 4) (nib (tn_prefix u)) = take (tn_prefix_len c div 4) (nib (tn_prefix c))"
        "leaves P u = filter (\<lambda>(k, v, m). live m) (leaves P c)" "node_hash B E H u = live_hash B E H True live c"
      by (auto simp: live_post_def)
    have "trie_map P u \<noteq> Map.empty" using trie_nonempty [OF u(1)] by auto
    then have "leaves P u \<noteq> []" by (auto simp: map_of_leaves)
    then have live: "live (tn_metadata c)" using lv u(4) by simp
    have "Suc (length pi) \<le> tn_prefix_len c div 4" using c(2) wf_len [OF c(1)] by linarith
    then have "take (Suc (length pi)) (nib (tn_prefix u)) = pi @ [bb]"
      using arg_cong [OF u(3), of "take (Suc (length pi))"] c(3) by (simp add: min_absorb1)
    then have "branch 2 pi ((bb, u) # ds)"
      using ih(1,2) u(1,2) c(2) bb by (fastforce simp: branch_ok_def)
    then show ?thesis using Some ih u(4,5) live Cons.prems(4) x by (auto simp: ds_def [symmetric])
  qed
qed (simp add: branch_ok_def)

lemma live_tree_correct:
  fixes t :: "('p, 'v, 'm) TrieNode"
  shows "wf 2 t \<Longrightarrow> live_sound P live t \<Longrightarrow>
    (case live_tree live t of None \<Rightarrow> filter (\<lambda>(k, v, m). live m) (leaves P t) = []
     | Some u \<Rightarrow> live_post P pvalid nib B E H live t u)"
proof (induction t rule: node_induct)
  case (Value v p l hv m h)
  then show ?case by (auto simp: live_post_def)
next
  case (Children cs p l hv m h)
  let ?t = "TrieNode (Children cs) p l hv m h"
  from Children.prems(1) obtain d where d: "l = 4 * d" "pvalid p" "4 * d < prefix_bits P"
      "drop d (nib p) = replicate (prefix_bits P div 4 - d) 0" "branch 2 (take d (nib p)) cs" "length (take d (nib p)) = d"
    by (rule wf_ChildrenE)
  define cs' where "cs' = concat (map (\<lambda>(bb, c). case live_tree live c of None \<Rightarrow> [] | Some c' \<Rightarrow> [(bb, c')]) cs)"
  have sound: "\<forall>(bb, c) \<in> set cs. live (tn_metadata c) \<longleftrightarrow> (\<exists>(k, v, m) \<in> set (leaves P c). live m)"
    using Children.prems(2) by (simp add: case_prod_beta)
  have ih: "\<forall>(bb, c) \<in> set cs. case live_tree live c of None \<Rightarrow> filter (\<lambda>(k, v, m). live m) (leaves P c) = []
      | Some u \<Rightarrow> live_post P pvalid nib B E H live c u"
    using Children.IH Children.prems by fastforce
  from live_children [OF d(5) sound ih cs'_def]
  have lc: "branch 2 (take d (nib p)) cs'" "child_leaves P cs' = filter (\<lambda>(k, v, m). live m) (child_leaves P cs)"
      "concat (map (\<lambda>(bb, c). if live (tn_metadata c) then [(bb, live_hash B E H True live c)] else []) cs) =
        map (\<lambda>(bb, u). (bb, node_hash B E H u)) cs'"
    by blast+
  have ls: "leaves P ?t = child_leaves P cs" using d by simp
  consider "cs' = []" | bb u where "cs' = [(bb, u)]" | x y zs where "cs' = x # y # zs"
    by (cases cs' rule: remdups_adj.cases) auto
  then show ?case
  proof cases
    case 1
    then show ?thesis using lc(2) ls by (simp add: cs'_def [symmetric] del: leaves.simps)
  next
    case (2 bb u)
    have u: "wf 2 u" "4 * d < tn_prefix_len u" "take (Suc d) (nib (tn_prefix u)) = take d (nib p) @ [bb]"
      using lc(1) 2 d(6) by (auto simp: branch_ok_def)
    then have "take d (nib (tn_prefix u)) = take d (nib p)"
      using branch_nth(3) [of "take d (nib p)" "nib (tn_prefix u)" bb] d(6) by simp
    then have "live_post P pvalid nib B E H live ?t u"
      using u lc(2,3) 2 d(1) ls by (simp add: live_post_def Let_def)
    then show ?thesis using 2 by (simp add: cs'_def [symmetric])
  next
    case (3 x y zs)
    let ?u = "TrieNode (Children cs') p l False m h"
    have "wf 2 ?u" unfolding d(1) wf_Children using d lc(1) 3 by simp
    moreover have "leaves P ?u = filter (\<lambda>(k, v, m). live m) (leaves P ?t)" using lc(2) d by simp
    moreover have "node_hash B E H ?u = live_hash B E H True live ?t"
      using lc(3) 3 by (cases x; cases y) (simp add: Let_def join_hashes_def map_fst_map map_snd_map del: map_map)
    ultimately have "live_post P pvalid nib B E H live ?t ?u" by (simp add: live_post_def del: wf_node.simps leaves.simps node_hash.simps live_hash.simps)
    moreover have "live_tree live ?t = Some ?u" using 3 by (simp add: cs'_def [symmetric] split: prod.split)
    ultimately show ?thesis by (simp del: live_tree.simps)
  qed
qed

lemma node_hash_map:
  "wf 2 t \<Longrightarrow> wf 2 u \<Longrightarrow> trie_map P t = trie_map P u \<Longrightarrow> node_hash B E H t = node_hash B E H u"
  using canonical [of t u] node_hash_strip [of B E H t] node_hash_strip [of B E H u] by simp

end

text \<open>Metadata that count the leaves and their marks, kept within \<^verbatim>\<open>int32_t\<close>.\<close>

definition counts_ok :: "'p TriePrefix \<Rightarrow> ('p, 'v, 'x::ab_group_add CombinedMetadata) TrieNode \<Rightarrow> bool" where
  "counts_ok P t \<longleftrightarrow>
     metadata_sum_ok t \<and> length (leaves P t) < 2 ^ 31 \<and>
     (\<forall>(k, v, m) \<in> set (leaves P t). md_size m = 1 \<and> (num_deleted_subnodes m = 0 \<or> num_deleted_subnodes m = 1))"

abbreviation combined_kind :: "'x CombinedMetadata metadata_kind" where
  "combined_kind \<equiv> Deletable md_size num_deleted_subnodes"

lemma sint_of_nat32: "n < 2 ^ 31 \<Longrightarrow> sint (word_of_nat n :: 32 word) = int n"
  by (simp add: sint_sbintrunc' signed_of_nat signed_take_bit_int_eq_self)

lemma sint_of_nat64: "n < 2 ^ 31 \<Longrightarrow> sint (word_of_nat n :: 64 word) = int n"
  by (simp add: sint_sbintrunc' signed_of_nat signed_take_bit_int_eq_self)

lemma filter_less_iff: "length (filter Q xs) < length xs \<longleftrightarrow> (\<exists>x \<in> set xs. \<not> Q x)"
proof -
  have "length (filter Q xs) = length xs \<longleftrightarrow> (\<forall>x \<in> set xs. Q x)"
    using length_filter_less [of _ xs Q] by (metis filter_True less_irrefl)
  then show ?thesis using length_filter_le [of Q xs] by (auto simp: le_less)
qed

lemma sint_0_1 [simp]: "sint (0 :: 32 word) = 0" "sint (1 :: 32 word) = 1" "sint (1 :: 64 word) = 1"
  by simp_all

lemma md_size_sum: "md_size (sum_list xs) = sum_list (map md_size xs)"
  by (induction xs) (simp_all add: zero_CombinedMetadata_def plus_CombinedMetadata_def)

context trie_prefix
begin

lemma counts_ok_child:
  assumes "counts_ok P (TrieNode (Children cs) p l hv m h)" "l < prefix_bits P" "(bb, c) \<in> set cs"
  shows "counts_ok P c"
proof -
  obtain as bs where "cs = as @ (bb, c) # bs" using assms(3) by (meson split_list)
  then show ?thesis using assms(1,2) by (auto simp: counts_ok_def)
qed

lemma counts_ok_metadata:
  fixes t :: "('p, 'v, 'x::ab_group_add CombinedMetadata) TrieNode"
  assumes t: "wf k t" and ok: "counts_ok P t"
  shows "sint (md_size (tn_metadata t)) = int (length (leaves P t))"
    "sint (num_deleted_subnodes (tn_metadata t)) = int (length (filter (\<lambda>(k, v, m). num_deleted_subnodes m \<noteq> 0) (leaves P t)))"
proof -
  have m: "tn_metadata t = sum_list (map (\<lambda>(k, v, m). m) (leaves P t))"
    using metadata_leaves [OF t] ok by (simp add: counts_ok_def)
  have one: "\<forall>(k, v, m) \<in> set (leaves P t). md_size m = 1"
    and mark: "\<forall>(k, v, m) \<in> set (leaves P t). num_deleted_subnodes m = 0 \<or> num_deleted_subnodes m = 1"
    and len: "length (leaves P t) < 2 ^ 31"
    using ok by (auto simp: counts_ok_def)
  have "sum_list (map md_size (map (\<lambda>(k, v, m). m) xs)) = word_of_nat (length xs)"
    if "\<forall>(k, v, m) \<in> set xs. md_size m = 1" for xs :: "('p \<times> 'v \<times> 'x CombinedMetadata) list"
    using that by (induction xs) auto
  then show "sint (md_size (tn_metadata t)) = int (length (leaves P t))"
    using m one len by (simp add: md_size_sum sint_of_nat64)
  have "length (filter Q (leaves P t)) < 2 ^ 31" for Q
    using len length_filter_le [of Q "leaves P t"] by linarith
  then show "sint (num_deleted_subnodes (tn_metadata t)) = int (length (filter (\<lambda>(k, v, m). num_deleted_subnodes m \<noteq> 0) (leaves P t)))"
    unfolding m deleted_counter.count_marked [OF mark] by (rule sint_of_nat32)
qed

lemma counts_ok_live:
  fixes t :: "('p, 'v, 'x::ab_group_add CombinedMetadata) TrieNode"
  assumes "wf k t" "counts_ok P t"
  shows "live_child combined_kind (tn_metadata t) = Inr (\<exists>(k, v, m) \<in> set (leaves P t). num_deleted_subnodes m = 0)"
proof -
  note md = counts_ok_metadata [OF assms]
  let ?Q = "\<lambda>(k, v, m). num_deleted_subnodes m \<noteq> 0"
  have "length (filter ?Q (leaves P t)) < length (leaves P t) \<longleftrightarrow> (\<exists>x \<in> set (leaves P t). \<not> ?Q x)"
    by (rule filter_less_iff)
  also have "\<dots> \<longleftrightarrow> (\<exists>(k, v, m) \<in> set (leaves P t). num_deleted_subnodes m = 0)" by (rule bex_cong) auto
  finally show ?thesis
    using leD [OF length_filter_le [of ?Q "leaves P t"]] by (simp only: live_child.simps md of_nat_less_iff) simp
qed

text \<open>On leaves, \<open>is_live\<close> is "not marked".\<close>

lemma leaf_live:
  assumes "counts_ok P t" "(k, v, m) \<in> set (leaves P t)"
  shows "is_live combined_kind m \<longleftrightarrow> num_deleted_subnodes m = 0"
  using assms by (auto simp: counts_ok_def)

lemma counts_ok_sound:
  fixes t :: "('p, 'v, 'x::ab_group_add CombinedMetadata) TrieNode"
  shows "wf k t \<Longrightarrow> counts_ok P t \<Longrightarrow> live_ok combined_kind t \<and> live_sound P (is_live combined_kind) t"
proof (induction t rule: node_induct)
  case (Children cs p l hv m h)
  have l: "l < prefix_bits P" using Children.prems(1) by simp
  have "(\<exists>b. live_child combined_kind (tn_metadata c) = Inr b) \<and> live_ok combined_kind c \<and>
      (is_live combined_kind (tn_metadata c) \<longleftrightarrow> (\<exists>(k, v, m) \<in> set (leaves P c). is_live combined_kind m)) \<and>
      live_sound P (is_live combined_kind) c"
    if c: "(bb, c) \<in> set cs" for bb c
  proof -
    have w: "wf k c" "counts_ok P c" using Children.prems(1) c counts_ok_child [OF Children.prems(2) l c] by auto
    have "(\<exists>(k, v, m) \<in> set (leaves P c). is_live combined_kind m) \<longleftrightarrow> (\<exists>(k, v, m) \<in> set (leaves P c). num_deleted_subnodes m = 0)"
      using leaf_live [OF w(2)] by fast
    then show ?thesis using Children.IH [OF c w] counts_ok_live [OF w] by (simp del: live_child.simps)
  qed
  then show ?case by (fastforce simp del: live_child.simps)
qed auto

theorem marked_hash:
  fixes t :: "('p, 'v, 'x::ab_group_add CombinedMetadata) TrieNode" and u :: "('p, 'v, 'n) TrieNode"
  assumes t: "wf 2 t" "counts_ok P t" and u: "wf 2 u"
    and eq: "trie_map P u = map_of (map (\<lambda>(k, v, m). (k, v)) (filter (\<lambda>(k, v, m). num_deleted_subnodes m = 0) (leaves P t)))"
  shows "live_hash B E H True (is_live combined_kind) t = node_hash B E H u"
proof -
  let ?live = "is_live combined_kind :: 'x CombinedMetadata \<Rightarrow> bool"
  have fl: "filter (\<lambda>(k, v, m). ?live m) (leaves P t) = filter (\<lambda>(k, v, m). num_deleted_subnodes m = 0) (leaves P t)"
    by (rule filter_cong [OF refl]) (use leaf_live [OF t(2)] in \<open>auto simp del: live_child.simps\<close>)
  note lt = live_tree_correct [where B = B and E = E and H = H, OF t(1) conjunct2 [OF counts_ok_sound [OF t]]]
  obtain q v where "trie_map P u q = Some v" using trie_nonempty [OF u] by blast
  then have "filter (\<lambda>(k, v, m). num_deleted_subnodes m = 0) (leaves P t) \<noteq> []" using eq by auto
  then obtain w where w: "live_tree ?live t = Some w" using lt fl by (cases "live_tree ?live t") auto
  then have "live_post P pvalid nib B E H ?live t w" using lt by simp
  then have "wf 2 w" "trie_map P w = trie_map P u" "node_hash B E H w = live_hash B E H True ?live t"
    using eq fl by (auto simp: live_post_def map_of_leaves)
  then show ?thesis using node_hash_map [OF _ u] by metis
qed

end

section \<open>The environment of 64-bit prefixes\<close>

text \<open>\<^verbatim>\<open>UInt64Prefix::write_bytes_to\<close>: append all eight bytes, erase those the length does not
  need and mask the last byte of the buffer.  \<open>append_be64\<close> is the library's big-endian writer.\<close>

definition UInt64_write_bytes_to ::
    "(64 word \<Rightarrow> byte list \<Rightarrow> byte list) \<Rightarrow> UInt64Prefix \<Rightarrow> byte list \<Rightarrow> PrefixLenBits \<Rightarrow> byte list" where
  "UInt64_write_bytes_to append_be64 prefix out prefix_len =
     (let out = append_be64 prefix out;
          extra_bytes = 8 - num_prefix_bytes prefix_len
      in mask_back (take (length out - extra_bytes) out) (get_truncate_mask prefix_len))"

text \<open>\<open>H\<close> is the library's hash, \<open>be16\<close>, \<open>be64\<close> and \<open>bvw\<close> its writers, \<open>copy\<close> the serialisation of the values.\<close>

definition UInt64_hash_env ::
    "(byte list \<Rightarrow> Hash) \<Rightarrow> (nat \<Rightarrow> byte list \<Rightarrow> byte list) \<Rightarrow> (64 word \<Rightarrow> byte list \<Rightarrow> byte list) \<Rightarrow>
     (16 word \<Rightarrow> byte list \<Rightarrow> byte list) \<Rightarrow> ('v \<Rightarrow> byte list \<Rightarrow> byte list) \<Rightarrow> (UInt64Prefix, 'v, 16 word) HashEnv" where
  "UInt64_hash_env H be16 be64 bvw copy =
     \<lparr> generichash = (\<lambda>d. Some (H d)), append_be16 = be16, prefix_write = UInt64_write_bytes_to be64,
       bv_write = bvw, copy_data = copy, apply_to_value = id \<rparr>"

interpretation u64_hash: trie_hash UInt64Prefix_ops "\<lambda>_. True" UInt64_nib word16_ops "\<lambda>w. set (word16_bits w)"
    "UInt64_hash_env H be16 be64 bvw copy" H
  for H be16 be64 bvw copy
  by unfold_locales (simp_all add: UInt64_hash_env_def)

end
