(* ===== verification/TrieLeaves.thy ===== *)
theory TrieLeaves
  imports TrieHash
begin

text \<open>
  What insertion and merge do to the metadata of the single leaves.  \<open>tag_node\<close> writes the metadata of every
  leaf next to its value.  Insertion and merge commute with it when their callbacks are tagged
  the same way (\<open>insert_tag\<close>, \<open>merge_tag\<close>), so what is known about the values of a
  trie carries over to its leaves with their metadata.
\<close>

section \<open>Tagging\<close>

abbreviation tag_children :: "(('p, 'v, 'm) TrieNode \<Rightarrow> ('p, 'v \<times> 'm option, 'm) TrieNode) \<Rightarrow> 'm \<Rightarrow>
   (('p, 'v, 'm) TrieNode, 'v) children_map \<Rightarrow> (('p, 'v \<times> 'm option, 'm) TrieNode, 'v \<times> 'm option) children_map" where
  "tag_children f m ch \<equiv> (case ch of Value v \<Rightarrow> Value (v, Some m) | Children cs \<Rightarrow> Children (map (\<lambda>(bb, c). (bb, f c)) cs))"

fun tag_node :: "('p, 'v, 'm) TrieNode \<Rightarrow> ('p, 'v \<times> 'm option, 'm) TrieNode" where
  "tag_node (TrieNode ch p l hv m h) = TrieNode (tag_children tag_node m ch) p l hv m h"

definition tag_insert :: "('p, 'v, 'i, 'm) InsertFn \<Rightarrow> ('p, 'v \<times> 'm option, 'i, 'm) InsertFn" where
  "tag_insert I =
     \<lparr> new_value = (\<lambda>key. (new_value I key, None)),
       value_insert = (\<lambda>(v, md) i. let v' = value_insert I v i
         in (v', Some (case md of None \<Rightarrow> new_metadata I v' | Some m \<Rightarrow> fst (metadata_insert I m v')))),
       new_metadata = (\<lambda>(v, md). new_metadata I v),
       metadata_insert = (\<lambda>m (v, md). metadata_insert I m v) \<rparr>"

lemma tag_sel [simp]: "tn_prefix (tag_node t) = tn_prefix t" "tn_prefix_len (tag_node t) = tn_prefix_len t"
  "tn_metadata (tag_node t) = tn_metadata t" "tn_hash_valid (tag_node t) = tn_hash_valid t"
  by (cases t; simp)+

lemma map_of_tag [simp]: "map_of (map (\<lambda>(bb, c). (bb, f c)) cs) bb = map_option f (map_of cs bb)"
  by (simp add: map_of_map)

lemma al_put_tag [simp]: "al_put bb (f c) (map (\<lambda>(bb, c). (bb, f c)) cs) = map (\<lambda>(bb, c). (bb, f c)) (al_put bb c cs)"
  by (induction cs) auto

lemma al_del_tag [simp]: "al_del bb (map (\<lambda>(bb, c). (bb, f c)) cs) = map (\<lambda>(bb, c). (bb, f c)) (al_del bb cs)"
  by (induction cs) (auto simp: al_del_def)

lemma rbind_InrE: "rbind r f = Inr y \<Longrightarrow> (\<And>x. r = Inr x \<Longrightarrow> f x = Inr y \<Longrightarrow> thesis) \<Longrightarrow> thesis"
  by (cases r) auto

lemma insert_tag:
  "insert_node P I mk key i t = Inr (t', d) \<Longrightarrow>
   insert_node P (tag_insert I) (\<lambda>key i. tag_node (mk key i)) key i (tag_node t) = Inr (tag_node t', d)"
proof (induction t arbitrary: t' d rule: node_induct)
  case (Value v p l hv m h)
  then show ?case
    by (auto simp: insert_node.simps tag_insert_def Let_def split: if_splits prod.splits elim!: rbind_InrE)
next
  case (Children cs p l hv m h)
  have step: "insert_node P (tag_insert I) (\<lambda>key i. tag_node (mk key i)) key i (tag_node c) = Inr (tag_node c', d)"
    if "map_of cs bb = Some c" "insert_node P I mk key i c = Inr (c', d)" for bb c c' d
    using Children.IH map_of_SomeD [OF that(1)] that(2) by blast
  have sel: "value_insert (tag_insert I) (new_value (tag_insert I) key) i = (value_insert I (new_value I key) i,
     Some (new_metadata I (value_insert I (new_value I key) i)))" "new_metadata (tag_insert I) (w, x) = new_metadata I w" for w x
    by (auto simp: tag_insert_def Let_def)
  from Children.prems show ?case
    by (auto simp: insert_node.simps Let_def sel step split: if_splits prod.splits option.splits elim!: rbind_InrE)
qed

definition tag_merge :: "('v, 'm) MergeFn \<Rightarrow> ('v \<times> 'm option, 'm) MergeFn" where
  "tag_merge M =
     \<lparr> value_merge = (\<lambda>(v, a) (w, b). rbind (value_merge M v w) (\<lambda>x.
         rbind (metadata_merge M (the a) (the b)) (\<lambda>(y, d). Inr (x, Some y)))),
       metadata_merge = metadata_merge M \<rparr>"


lemma cm_tag [simp]:
  "cm_size (tag_children f m ch) = cm_size ch"
  "cm_find (tag_children f m ch) bb = map_option f (cm_find ch bb)"
  "cm_list (tag_children f m ch) = map (\<lambda>(bb, c). (bb, f c)) (cm_list ch)"
  by (cases ch; simp)+

lemma cm_emplace_tag:
  "cm_emplace ch bb c = Inr ch' \<Longrightarrow> cm_emplace (tag_children f m ch) bb (f c) = Inr (tag_children f m' ch')"
  by (cases ch) auto

lemma cm_set_tag: "cm_set (tag_children f m ch) bb (f c) = tag_children f m' (cm_set ch bb c)"
  by (cases ch) (auto simp: cm_set_def)

lemma al_put_tag_node [simp]:
  "al_put bb (TrieNode (tag_children tag_node m ch) p l hv m h) (map (\<lambda>(bb, c). (bb, tag_node c)) cs) =
    map (\<lambda>(bb, c). (bb, tag_node c)) (al_put bb (TrieNode ch p l hv m h) cs)"
  using al_put_tag [of bb tag_node "TrieNode ch p l hv m h" cs] by simp

lemma cm_emplaceE:
  assumes "cm_emplace ch bb c = Inr ch'"
  obtains cs where "ch = Children cs" "ch' = Children (al_put bb c cs)"
  using assms by (cases ch) auto

lemma cm_extractE:
  assumes "cm_extract ch bb = Inr (c, ch')"
  obtains cs where "ch = Children cs" "ch' = Children (al_del bb cs)" "map_of cs bb = Some c"
  using assms by (cases ch) (auto split: option.splits)

lemma merge_child_tag:
  assumes rec: "\<And>t u t' d. rec t u = Inr (t', d) \<Longrightarrow> rec' (tag_node t) (tag_node u) = Inr (tag_node t', d)"
  shows "rfold (merge_child_step rec) ocs (ch, m, d) = Inr (ch', m', d') \<Longrightarrow>
    rfold (merge_child_step rec') (map (\<lambda>(bb, c). (bb, tag_node c)) ocs) (tag_children tag_node m ch, m, d) =
      Inr (tag_children tag_node m' ch', m', d')"
proof (induction ocs arbitrary: ch m d)
  case (Cons x ocs)
  obtain bb oc where x: "x = (bb, oc)" by (cases x)
  obtain ch1 m1 d1 where step: "merge_child_step rec x (ch, m, d) = Inr (ch1, m1, d1)"
      and rest: "rfold (merge_child_step rec) ocs (ch1, m1, d1) = Inr (ch', m', d')"
    using Cons.prems by (auto elim!: rbind_InrE)
  have "merge_child_step rec' (bb, tag_node oc) (tag_children tag_node m ch, m, d) = Inr (tag_children tag_node m1 ch1, m1, d1)"
    using step x
    by (auto simp: merge_child_step_def Let_def cm_emplace_tag [where m' = m1] cm_set_tag [where m' = m1] rec
        split: if_splits option.splits elim!: rbind_InrE)
  then show ?case using Cons.IH [OF rest] x by simp
qed simp

lemma merge_tag:
  "merge_node P M fuel t u = Inr (t', delta) \<Longrightarrow>
   merge_node P (tag_merge M) fuel (tag_node t) (tag_node u) = Inr (tag_node t', delta)"
proof (induction fuel arbitrary: t u t' delta)
  case (Suc fuel)
  obtain ch p l hv m h where t: "t = TrieNode ch p l hv m h" by (cases t)
  obtain och op ol ohv om oh where u: "u = TrieNode och op ol ohv om oh" by (cases u)
  let ?n = "get_prefix_match_len P p l op ol" and ?o = "TrieNode ch p l False m uninit_hash"
  have eq: "merge_step P M (merge_node P M fuel) t u = Inr (t', delta)" using Suc.prems by simp
  have guard: "\<not> (cm_size ch = 0 \<and> l = 0)" "\<not> list_ex (\<lambda>(bb, c). bb > MAX_BRANCH_VALUE) (cm_list ch)" "\<not> ?n > MAX_KEY_LEN_BITS P"
    using eq unfolding t u merge_step_def by (auto simp: Let_def simp del: cm_simps split: if_splits)
  have ex: "list_ex (\<lambda>(bb, c). MAX_BRANCH_VALUE < bb) (map (\<lambda>(bb, c). (bb, tag_node c)) xs) = list_ex (\<lambda>(bb, c). MAX_BRANCH_VALUE < bb) xs" for xs :: "(nat \<times> ('a, 'b, 'c) TrieNode) list"
    by (induction xs) auto
  note body = eq [unfolded t u merge_step_def, simplified guard if_False prod.case TrieNode.case Let_def]
  note loop = merge_child_tag [of "merge_node P M fuel" "merge_node P (tag_merge M) fuel", OF Suc.IH]
  have ih_u: "merge_node P (tag_merge M) fuel (tag_node c) (TrieNode (tag_children tag_node om och) op ol ohv om oh) = Inr (tag_node c', d)"
    if "merge_node P M fuel c (TrieNode och op ol ohv om oh) = Inr (c', d)" for c c' d
    using Suc.IH [OF that] by simp
  have ih_o: "merge_node P (tag_merge M) fuel (TrieNode (tag_children tag_node m ch) p l False m uninit_hash) (tag_node c) = Inr (tag_node c', d)"
    if "merge_node P M fuel ?o c = Inr (c', d)" for c c' d
    using Suc.IH [OF that] by simp
  note dels = cm_simps cm_emplace.simps cm_extract.simps
  consider "?n = MAX_KEY_LEN_BITS P" | "?n \<noteq> MAX_KEY_LEN_BITS P" "l = ol \<and> l = ?n"
    | "?n \<noteq> MAX_KEY_LEN_BITS P" "\<not> (l = ol \<and> l = ?n)" "l = ?n"
    | "?n \<noteq> MAX_KEY_LEN_BITS P" "\<not> (l = ol \<and> l = ?n)" "l \<noteq> ?n" "ol = ?n"
    | "?n \<noteq> MAX_KEY_LEN_BITS P" "\<not> (l = ol \<and> l = ?n)" "l \<noteq> ?n" "ol \<noteq> ?n" by blast
  then have "merge_step P (tag_merge M) (merge_node P (tag_merge M) fuel)
        (TrieNode (tag_children tag_node m ch) p l hv m h) (TrieNode (tag_children tag_node om och) op ol ohv om oh) = Inr (tag_node t', delta)"
  proof cases
    case 1
    then show ?thesis using body guard
      by (cases ch; cases och) (auto simp: merge_step_def ex Let_def tag_merge_def elim!: rbind_InrE split: prod.splits)
  next
    case 2
    then show ?thesis using body guard
      by (auto simp: merge_step_def ex Let_def loop simp del: dels elim!: rbind_InrE)
  next
    case 3
    then show ?thesis using body guard
      by (auto simp: merge_step_def ex Let_def cm_set_def ih_u elim!: rbind_InrE cm_emplaceE split: option.splits if_splits)
  next
    case 4
    then show ?thesis using body guard
      by (auto simp: merge_step_def ex Let_def cm_set_def ih_o elim!: rbind_InrE cm_emplaceE cm_extractE split: option.splits if_splits)
  next
    case 5
    then show ?thesis using body guard
      by (auto simp: merge_step_def ex Let_def elim!: rbind_InrE split: if_splits)
  qed
  then show ?case unfolding t u by simp
qed simp

section \<open>The leaves of the result\<close>

text \<open>The leaf stored for a key after an insertion, and for a common key after a merge.\<close>

definition inserted_leaf :: "('p, 'v, 'i, 'm) InsertFn \<Rightarrow> 'p \<Rightarrow> 'i \<Rightarrow> ('v \<times> 'm) option \<Rightarrow> 'v \<times> 'm" where
  "inserted_leaf I key i old =
     (case old of
        None \<Rightarrow> let v' = value_insert I (new_value I key) i in (v', new_metadata I v')
      | Some (v, m) \<Rightarrow> let v' = value_insert I v i in (v', fst (metadata_insert I m v')))"

definition leaf_merge :: "('v, 'm) MergeFn \<Rightarrow> 'v \<times> 'm \<Rightarrow> 'v \<times> 'm \<Rightarrow> ('v \<times> 'm) res" where
  "leaf_merge M = (\<lambda>(v, m) (w, n). rbind (value_merge M v w) (\<lambda>x. rbind (metadata_merge M m n) (\<lambda>(y, d). Inr (x, y))))"

definition tag_leaf :: "'v \<times> 'm \<Rightarrow> 'v \<times> 'm option" where
  "tag_leaf x = (fst x, Some (snd x))"

lemma tag_leaf_inject:
  fixes f g :: "'k \<Rightarrow> ('a \<times> 'b) option"
  shows "map_option tag_leaf \<circ> f = map_option tag_leaf \<circ> g \<longleftrightarrow> f = g"
proof -
  have "inj (tag_leaf :: 'a \<times> 'b \<Rightarrow> _)" by (auto simp: inj_on_def tag_leaf_def)
  then have "map_option tag_leaf x = map_option tag_leaf y \<longleftrightarrow> x = y" for x y :: "('a \<times> 'b) option"
    by (rule inj_eq [OF option.inj_map])
  then show ?thesis by (simp add: fun_eq_iff)
qed

lemma entries_tag: "entries P (tag_node t) = map (\<lambda>(k, x). (k, tag_leaf x)) (leaves P t)"
proof (induction t rule: node_induct)
  case (Children cs p l hv m h)
  have "map (\<lambda>(bb, c). entries P c) (map (\<lambda>(bb, c). (bb, tag_node c)) cs) =
      map (map (\<lambda>(k, x). (k, tag_leaf x))) (map (\<lambda>(bb, c). leaves P c) cs)"
    using Children.IH by auto
  then show ?case by (simp add: map_concat del: map_map)
qed (simp add: tag_leaf_def)

lemma node_count_tag [simp]: "node_count (tag_node t) = node_count t"
proof (induction t rule: node_induct)
  case (Children cs p l hv m h)
  then have "map (\<lambda>(bb, c). node_count c) (map (\<lambda>(bb, c). (bb, tag_node c)) cs) = map (\<lambda>(bb, c). node_count c) cs" by auto
  then show ?case by (simp del: map_map)
qed simp

lemma trie_map_tag: "trie_map P (tag_node t) = map_option tag_leaf \<circ> map_of (leaves P t)"
  by (simp add: trie_map_def entries_tag fun_eq_iff map_of_map)

lemma is_empty_node_tag [simp]: "is_empty_node (tag_node t) = is_empty_node t"
  by (cases t) (simp add: is_empty_node_def)

context trie_prefix
begin

lemma wf_tag [simp]: "wf k (tag_node t) = wf k t"
proof (induction t rule: node_induct)
  case (Children cs p l hv m h)
  have "map fst (map (\<lambda>(bb, c). (bb, tag_node c)) cs) = map fst cs" by auto
  then show ?case using Children.IH by (auto simp del: map_map)
qed simp

lemma wf_trie_tag [simp]: "wf_trie P pvalid nib (tag_node t) = wf_trie P pvalid nib t"
  by (simp add: wf_trie_def)

lemma tag_leaf_maker:
  assumes "leaf_maker P I lv mk" "\<forall>key i. tn_metadata (mk key i) = new_metadata I (lv key i)"
  shows "leaf_maker P (tag_insert I) (\<lambda>key i. (lv key i, Some (new_metadata I (lv key i)))) (\<lambda>key i. tag_node (mk key i))"
proof -
  have "\<exists>h. mk key i = TrieNode (Value (lv key i)) key (prefix_bits P) False (new_metadata I (lv key i)) h" for key i
    using assms unfolding leaf_maker_def by (metis TrieNode.sel(5))
  then have "\<exists>h. tag_node (mk key i) =
      TrieNode (Value (lv key i, Some (new_metadata I (lv key i)))) key (prefix_bits P) False (new_metadata I (lv key i)) h" for key i
    by (metis tag_node.simps children_map.case(1))
  moreover have "lv key i = value_insert I (new_value I key) i" for key i using assms(1) by (simp add: leaf_maker_def)
  ultimately show ?thesis unfolding leaf_maker_def by (simp add: tag_insert_def Let_def) blast
qed

lemma insert_leaves:
  fixes t :: "('p, 'v, 'm::ab_group_add) TrieNode"
  assumes I: "insert_fn I" "leaf_maker P I lv mk" "\<forall>key i. tn_metadata (mk key i) = new_metadata I (lv key i)"
    and t: "pvalid key" "wf_trie P pvalid nib t" "insert_node P I mk key i t = Inr (t', d)"
  shows "map_of (leaves P t') = (map_of (leaves P t))(key \<mapsto> inserted_leaf I key i (map_of (leaves P t) key))"
proof -
  have tag: "insert_fn (tag_insert I)"
    using I(1) by (auto simp: insert_fn_def tag_insert_def)
  from insert_trie [OF tag tag_leaf_maker [OF I(2,3)] t(1), of "tag_node t" i] insert_tag [OF t(3)] t(2)
  have "trie_map P (tag_node t') =
      (trie_map P (tag_node t))(key \<mapsto> inserted_value (tag_insert I) key i (trie_map P (tag_node t) key))"
    by auto
  moreover have "inserted_value (tag_insert I) key i (map_option tag_leaf x) = tag_leaf (inserted_leaf I key i x)" for x
    by (cases x) (auto simp: inserted_value_def inserted_leaf_def tag_insert_def tag_leaf_def Let_def)
  ultimately have "map_option tag_leaf \<circ> map_of (leaves P t') =
      map_option tag_leaf \<circ> (map_of (leaves P t))(key \<mapsto> inserted_leaf I key i (map_of (leaves P t) key))"
    by (auto simp: trie_map_tag fun_eq_iff)
  then show ?thesis by (simp only: tag_leaf_inject)
qed

lemma trie_map_leaves:
  fixes t :: "('p, 'v, 'm) TrieNode"
  shows "trie_map P t = map_option fst \<circ> map_of (leaves P t)"
proof -
  have "map_of (map (\<lambda>(k, v, m). (k, v)) xs) q = map_option fst (map_of xs q)" for xs :: "('p \<times> 'v \<times> 'm) list" and q
    by (induction xs) auto
  then show ?thesis by (simp add: map_of_leaves fun_eq_iff)
qed

lemma merge_leaves:
  fixes t u :: "('p, 'v, 'm::ab_group_add) TrieNode"
  assumes M: "merge_fn M" and t: "wf 2 t" "wf 2 u" "merge_in_node P M t u = Inr (t', d)"
    and ok: "mergeable M (trie_map P t) (trie_map P u)"
  shows "map_of (leaves P t') = map_merge (leaf_merge M) (map_of (leaves P t)) (map_of (leaves P u))"
proof -
  have tag: "merge_fn (tag_merge M)" using M by (auto simp: merge_fn_def tag_merge_def)
  have "mergeable (tag_merge M) (trie_map P (tag_node t)) (trie_map P (tag_node u))"
    unfolding mergeable_def
  proof (intro allI impI)
    fix q x y
    assume "trie_map P (tag_node t) q = Some x" "trie_map P (tag_node u) q = Some y"
    then obtain v m w n where "trie_map P t q = Some v" "trie_map P u q = Some w" "x = (v, Some m)" "y = (w, Some n)"
      by (auto simp: trie_map_tag trie_map_leaves tag_leaf_def)
    then have "\<exists>z. value_merge M v w = Inr z" "\<forall>m m'. \<exists>r. metadata_merge M m m' = Inr r" "x = (v, Some m)" "y = (w, Some n)"
      using ok unfolding mergeable_def by blast+
    then show "(\<exists>z. value_merge (tag_merge M) x y = Inr z) \<and> (\<forall>m m'. \<exists>r. metadata_merge (tag_merge M) m m' = Inr r)"
      by (auto simp: tag_merge_def) (metis rbind_simps(2) surj_pair case_prod_conv)
  qed
  from merge_in_node_correct [OF tag _ _ this] t(1,2) merge_tag [OF t(3) [unfolded merge_in_node_def]]
  have "trie_map P (tag_node t') = map_merge (value_merge (tag_merge M)) (trie_map P (tag_node t)) (trie_map P (tag_node u))"
    by (auto simp: merge_in_node_def merge_post_def)
  moreover have "map_merge (value_merge (tag_merge M)) (map_option tag_leaf \<circ> f) (map_option tag_leaf \<circ> g) =
      map_option tag_leaf \<circ> map_merge (leaf_merge M) f g" for f g :: "'p \<rightharpoonup> 'v \<times> 'm"
    by (auto simp: fun_eq_iff map_merge_def tag_merge_def leaf_merge_def tag_leaf_def rbind_def split: option.splits sum.splits prod.splits)
  ultimately show ?thesis by (simp only: trie_map_tag tag_leaf_inject)
qed

end

end
