(* ===== verification/MerkleTrie.thy ===== *)
theory MerkleTrie
  imports TrieLeaves
begin

text \<open>
  The class \<^verbatim>\<open>MerkleTrie\<close> of \<^verbatim>\<open>trie/merkle_trie.h\<close>: a root node, the hash of the whole trie and a
  flag that says whether that hash is up to date.  Every operation wraps one of the node, keeps the root canonical
  and invalidates the hash.  The mutex \<^verbatim>\<open>hash_modify_mtx\<close> serialises the callers and does not occur
  in the sequential model.
\<close>

section \<open>State\<close>

record ('p, 'v, 'm) MerkleTrie =
  mt_root :: "('p, 'v, 'm) TrieNode"
  mt_hash_valid :: bool
  mt_root_hash :: Hash

text \<open>\<open>hs\<close> says whether the metadata have a \<^verbatim>\<open>SizeMixin\<close> (\<^verbatim>\<open>HAS_SIZE\<close>) and how to read it; a node without it
  counts its leaves.  A negative stored size throws; the result is \<^verbatim>\<open>uint32_t\<close>.\<close>

definition node_size :: "'p TriePrefix \<Rightarrow> ('m \<Rightarrow> 64 word) option \<Rightarrow> ('p, 'v, 'm) TrieNode \<Rightarrow> 32 word res" where
  "node_size P hs t =
     (case hs of
        None \<Rightarrow> Inr (uncached_size P t)
      | Some f \<Rightarrow> let sz = f (tn_metadata t) in if sz <s 0 then throw ''invalid size!'' else Inr (ucast sz))"

text \<open>\<^verbatim>\<open>num_deleted_subnodes\<close>: an \<^verbatim>\<open>int32_t\<close> widened to \<^verbatim>\<open>int64_t\<close>, returned as \<^verbatim>\<open>size_t\<close>.\<close>

fun node_num_deleted :: "'m metadata_kind \<Rightarrow> ('p, 'v, 'm) TrieNode \<Rightarrow> 64 word res" where
  "node_num_deleted Plain t = Inr 0"
| "node_num_deleted (Deletable sz nd) t =
     (let out = (scast (nd (tn_metadata t)) :: 64 word)
      in if out <s 0 then throw ''invalid number of deleted subnodes'' else Inr out)"

abbreviation invalidate_hash :: "('p, 'v, 'm) MerkleTrie \<Rightarrow> ('p, 'v, 'm) MerkleTrie" where
  "invalidate_hash t \<equiv> t\<lparr>mt_hash_valid := False\<rparr>"

section \<open>Operations\<close>

text \<open>Constructors: of the empty trie and from a root; \<open>h\<close> is the uninitialised hash buffer.\<close>

definition MerkleTrie_of_root :: "('p, 'v, 'm) TrieNode \<Rightarrow> Hash \<Rightarrow> ('p, 'v, 'm) MerkleTrie" where
  "MerkleTrie_of_root root h = \<lparr> mt_root = root, mt_hash_valid = False, mt_root_hash = h \<rparr>"

definition MerkleTrie_empty :: "'p TriePrefix \<Rightarrow> 'v \<Rightarrow> Hash \<Rightarrow> ('p, 'v, 'm::zero) MerkleTrie" where
  "MerkleTrie_empty P dflt h = MerkleTrie_of_root (make_empty_node P dflt) h"

text \<open>\<^verbatim>\<open>extract_root\<close> leaves the empty trie behind; move assignment takes the root of the other trie.\<close>

definition extract_root ::
    "'p TriePrefix \<Rightarrow> 'v \<Rightarrow> ('p, 'v, 'm::zero) MerkleTrie \<Rightarrow> ('p, 'v, 'm) TrieNode \<times> ('p, 'v, 'm) MerkleTrie" where
  "extract_root P dflt t = (mt_root t, invalidate_hash (t\<lparr>mt_root := make_empty_node P dflt\<rparr>))"

definition MerkleTrie_assign ::
    "'p TriePrefix \<Rightarrow> 'v \<Rightarrow> ('p, 'v, 'm::zero) MerkleTrie \<Rightarrow> ('p, 'v, 'm) MerkleTrie \<Rightarrow>
     ('p, 'v, 'm) MerkleTrie \<times> ('p, 'v, 'm) MerkleTrie" where
  "MerkleTrie_assign P dflt t other =
     (let (r, other') = extract_root P dflt other in ((invalidate_hash t)\<lparr>mt_root := r\<rparr>, other'))"

definition MerkleTrie_clear :: "'p TriePrefix \<Rightarrow> 'v \<Rightarrow> ('p, 'v, 'm::zero) MerkleTrie \<Rightarrow> ('p, 'v, 'm) MerkleTrie" where
  "MerkleTrie_clear P dflt t = invalidate_hash (t\<lparr>mt_root := make_empty_node P dflt\<rparr>)"

definition MerkleTrie_size :: "'p TriePrefix \<Rightarrow> ('m \<Rightarrow> 64 word) option \<Rightarrow> ('p, 'v, 'm) MerkleTrie \<Rightarrow> 32 word res" where
  "MerkleTrie_size P hs t = node_size P hs (mt_root t)"

definition MerkleTrie_get_value :: "'p TriePrefix \<Rightarrow> 'p \<Rightarrow> ('p, 'v, 'm) MerkleTrie \<Rightarrow> 'v option res" where
  "MerkleTrie_get_value P query_key t = get_value P query_key (mt_root t)"

definition MerkleTrie_contains_key :: "'p TriePrefix \<Rightarrow> 'p \<Rightarrow> ('p, 'v, 'm) MerkleTrie \<Rightarrow> bool res" where
  "MerkleTrie_contains_key P key t = contains_key P key (mt_root t)"

definition MerkleTrie_get_lowest_key :: "'p TriePrefix \<Rightarrow> ('p, 'v, 'm) MerkleTrie \<Rightarrow> 'p option" where
  "MerkleTrie_get_lowest_key P t = get_lowest_key P (mt_root t)"

definition MerkleTrie_accumulate_values :: "'p TriePrefix \<Rightarrow> ('p, 'v, 'm) MerkleTrie \<Rightarrow> 'v list res" where
  "MerkleTrie_accumulate_values P t = accumulate_values P (mt_root t) []"

definition MerkleTrie_insert ::
    "'p TriePrefix \<Rightarrow> ('p, 'v, 'i, 'm::ab_group_add) InsertFn \<Rightarrow> ('p \<Rightarrow> 'i \<Rightarrow> ('p, 'v, 'm) TrieNode) \<Rightarrow>
     'p \<Rightarrow> 'i \<Rightarrow> ('p, 'v, 'm) MerkleTrie \<Rightarrow> ('p, 'v, 'm) MerkleTrie res" where
  "MerkleTrie_insert P I mk data leaf_value t =
     rbind (insert_node P I mk data leaf_value (mt_root t)) (\<lambda>(root', _).
       Inr ((invalidate_hash t)\<lparr>mt_root := root'\<rparr>))"

text \<open>\<^verbatim>\<open>TrieNode::merge_in\<close> and \<^verbatim>\<open>MerkleTrie::merge_in\<close>; the other trie is moved from.\<close>

definition merge_in_checked ::
    "'p TriePrefix \<Rightarrow> ('m::ab_group_add \<Rightarrow> 64 word) option \<Rightarrow> ('v, 'm) MergeFn \<Rightarrow> ('p, 'v, 'm) TrieNode \<Rightarrow> ('p, 'v, 'm) TrieNode \<Rightarrow>
     ('p, 'v, 'm) TrieNode res" where
  "merge_in_checked P hs M this other =
     rbind (node_size P hs this) (\<lambda>sz.
       if sz = 0 then throw ''can't merge into empty trie!''
       else rbind (merge_in_node P M this other) (\<lambda>(this', _). Inr this'))"

definition MerkleTrie_merge_in ::
    "'p TriePrefix \<Rightarrow> ('m::ab_group_add \<Rightarrow> 64 word) option \<Rightarrow> ('v, 'm) MergeFn \<Rightarrow> ('p, 'v, 'm) MerkleTrie \<Rightarrow> ('p, 'v, 'm) MerkleTrie \<Rightarrow>
     ('p, 'v, 'm) MerkleTrie res" where
  "MerkleTrie_merge_in P hs M t other =
     rbind (node_size P hs (mt_root t)) (\<lambda>sz.
       if sz = 0 then Inr ((invalidate_hash t)\<lparr>mt_root := mt_root other\<rparr>)
       else rbind (MerkleTrie_size P hs other) (\<lambda>osz.
         if osz = 0 then Inr (invalidate_hash t)
         else rbind (merge_in_checked P hs M (mt_root t) (mt_root other)) (\<lambda>root'.
           Inr ((invalidate_hash t)\<lparr>mt_root := root'\<rparr>))))"

text \<open>The root takes the place of its parent when one child is left.\<close>

definition contract_root :: "('p, 'v, 'm) TrieNode \<Rightarrow> ('p, 'v, 'm) TrieNode res" where
  "contract_root root = (if single_child root then get_single_child root else Inr root)"

definition MerkleTrie_perform_deletion ::
    "'p TriePrefix \<Rightarrow> ('m::ab_group_add \<Rightarrow> 64 word) option \<Rightarrow> 'v \<Rightarrow> 'p \<Rightarrow> ('p, 'v, 'm) MerkleTrie \<Rightarrow>
     ('v option \<times> ('p, 'v, 'm) MerkleTrie) res" where
  "MerkleTrie_perform_deletion P hs dflt key t =
     rbind (perform_deletion_node P key (mt_root t)) (\<lambda>(delete_child, anything_deleted, _, root1).
     let hv = (if anything_deleted \<noteq> None then False else mt_hash_valid t);
         root2 = (if delete_child then make_empty_node P dflt else root1)
     in rbind (contract_root root2) (\<lambda>root3.
        rbind (node_size P hs root3) (\<lambda>sz.
          Inr (anything_deleted,
               t\<lparr>mt_root := (if sz = 0 then make_empty_node P dflt else root3), mt_hash_valid := hv\<rparr>))))"

definition MerkleTrie_mark_for_deletion ::
    "'p TriePrefix \<Rightarrow> 'p \<Rightarrow> ('p, 'v, 'x::ab_group_add CombinedMetadata) MerkleTrie \<Rightarrow>
     ('v option \<times> ('p, 'v, 'x CombinedMetadata) MerkleTrie) res" where
  "MerkleTrie_mark_for_deletion P key t =
     rbind (mark_for_deletion P key (mt_root t)) (\<lambda>(_, value_out, root').
       Inr (value_out, t\<lparr>mt_root := root', mt_hash_valid := (if value_out \<noteq> None then False else mt_hash_valid t)\<rparr>))"

definition MerkleTrie_mark_for_deletion_nolocks ::
    "'p TriePrefix \<Rightarrow> 'p \<Rightarrow> ('p, 'v, 'x::ab_group_add CombinedMetadata) MerkleTrie \<Rightarrow>
     (bool \<times> ('p, 'v, 'x CombinedMetadata) MerkleTrie) res" where
  "MerkleTrie_mark_for_deletion_nolocks P key t =
     rbind (mark_for_deletion_nolocks P key (mt_root t)) (\<lambda>(res, root').
       Inr (res \<noteq> None, t\<lparr>mt_root := root', mt_hash_valid := (if res \<noteq> None then False else mt_hash_valid t)\<rparr>))"

definition MerkleTrie_unmark_for_deletion ::
    "'p TriePrefix \<Rightarrow> 'p \<Rightarrow> ('p, 'v, 'x::ab_group_add CombinedMetadata) MerkleTrie \<Rightarrow>
     ('v option \<times> ('p, 'v, 'x CombinedMetadata) MerkleTrie) res" where
  "MerkleTrie_unmark_for_deletion P key t =
     rbind (unmark_for_deletion P key (mt_root t)) (\<lambda>(_, value_out, root').
       Inr (value_out, t\<lparr>mt_root := root', mt_hash_valid := (if value_out \<noteq> None then False else mt_hash_valid t)\<rparr>))"

definition MerkleTrie_perform_marked_deletions ::
    "'p TriePrefix \<Rightarrow> 'v \<Rightarrow> ('p \<Rightarrow> 'v \<Rightarrow> 's \<Rightarrow> 's) \<Rightarrow> ('p, 'v, 'x::ab_group_add CombinedMetadata) MerkleTrie \<Rightarrow> 's \<Rightarrow>
     (('p, 'v, 'x CombinedMetadata) MerkleTrie \<times> 's) res" where
  "MerkleTrie_perform_marked_deletions P dflt side_effect_handler t s =
     (if num_deleted_subnodes (tn_metadata (mt_root t)) = 0 then Inr (t, s)
      else rbind (perform_marked_deletions P side_effect_handler (mt_root t) s) (\<lambda>(del, _, root1, s').
        rbind (contract_root (if del then make_empty_node P dflt else root1)) (\<lambda>root2.
          Inr ((invalidate_hash t)\<lparr>mt_root := root2\<rparr>, s'))))"

definition MerkleTrie_clear_marked_deletions ::
    "('p, 'v, 'x CombinedMetadata) MerkleTrie \<Rightarrow> ('p, 'v, 'x CombinedMetadata) MerkleTrie" where
  "MerkleTrie_clear_marked_deletions t = t\<lparr>mt_root := clear_marked_deletions (mt_root t)\<rparr>"

text \<open>\<^verbatim>\<open>do_rollback\<close> drops what the root returns: neither the flag that everything is gone nor the hash is looked at.\<close>

definition MerkleTrie_do_rollback ::
    "'p TriePrefix \<Rightarrow> ('p, 'v, 'x::ab_group_add CombinedMetadata) MerkleTrie \<Rightarrow>
     ('p, 'v, 'x CombinedMetadata) MerkleTrie res" where
  "MerkleTrie_do_rollback P t =
     rbind (do_rollback P (mt_root t)) (\<lambda>(_, _, root1).
       rbind (contract_root root1) (\<lambda>root2. Inr (t\<lparr>mt_root := root2\<rparr>)))"

definition MerkleTrie_clear_rollback ::
    "('p, 'v, 'x CombinedMetadata) MerkleTrie \<Rightarrow> ('p, 'v, 'x CombinedMetadata) MerkleTrie" where
  "MerkleTrie_clear_rollback t = t\<lparr>mt_root := clear_rollback (mt_root t)\<rparr>"

section \<open>Hashing the whole trie\<close>

text \<open>
  \<open>be32\<close> is the big-endian writer of the size.  The result code of the top-level
  \<^verbatim>\<open>crypto_generichash\<close> is not looked at: when it fails, the buffer keeps what it held.
\<close>

definition get_root_hash ::
    "'p TriePrefix \<Rightarrow> ('m \<Rightarrow> 64 word) option \<Rightarrow> 'm metadata_kind \<Rightarrow> ('p, 'v, 'b) HashEnv \<Rightarrow> (32 word \<Rightarrow> byte list) \<Rightarrow>
     ('p, 'v, 'm) TrieNode \<Rightarrow> Hash \<Rightarrow> Hash res" where
  "get_root_hash P hs k E be32 root out =
     rbind (node_size P hs root) (\<lambda>sz.
     rbind (node_num_deleted k root) (\<lambda>nd.
     let num_children = (ucast (ucast sz - nd) :: 32 word) in
     if (ucast sz :: 64 word) < nd then throw ''invalid num_deleted_subnodes > size''
     else
       let buf = be32 num_children @ (if num_children > 0 then tn_hash root else replicate 32 0)
       in Inr (case generichash E buf of None \<Rightarrow> out | Some h \<Rightarrow> h)))"

text \<open>\<^verbatim>\<open>serial_hash\<close> ignores its template arguments \<^verbatim>\<open>ApplyFn\<close>.\<close>

definition serial_hash ::
    "'p TriePrefix \<Rightarrow> 'b BitVector_ops \<Rightarrow> ('m \<Rightarrow> 64 word) option \<Rightarrow> 'm metadata_kind \<Rightarrow> ('p, 'v, 'b) HashEnv \<Rightarrow> (32 word \<Rightarrow> byte list) \<Rightarrow>
     ('p, 'v, 'm) MerkleTrie \<Rightarrow> (Hash \<times> ('p, 'v, 'm) MerkleTrie) res" where
  "serial_hash P B hs k E be32 t =
     (if mt_hash_valid t then Inr (mt_root_hash t, t)
      else rbind (node_size P hs (mt_root t)) (\<lambda>sz.
        rbind (if sz > 0 then compute_hash P B (E\<lparr>apply_to_value := id\<rparr>) k (mt_root t) else Inr (mt_root t)) (\<lambda>root'.
        rbind (get_root_hash P hs k E be32 root' (mt_root_hash t)) (\<lambda>out.
          Inr (out, \<lparr> mt_root = root', mt_hash_valid = True, mt_root_hash = out \<rparr>)))))"

text \<open>
  \<^verbatim>\<open>hash\<close> first hashes subtrees in parallel.  \<open>hash_at\<close> hashes the subtree at a path of branch bits; the
  parallel phase is any sequence of such steps (the subtrees are disjoint, so the order of their
  effects on the tree does not matter), and the root is hashed last.
\<close>

primrec hash_at ::
    "'p TriePrefix \<Rightarrow> 'b BitVector_ops \<Rightarrow> ('p, 'v, 'b) HashEnv \<Rightarrow> 'm metadata_kind \<Rightarrow> nat list \<Rightarrow>
     ('p, 'v, 'm) TrieNode \<Rightarrow> ('p, 'v, 'm) TrieNode res" where
  "hash_at P B E k [] t = compute_hash P B E k t"
| "hash_at P B E k (bb # path) t =
     (case t of TrieNode ch p l hv m h \<Rightarrow>
       case cm_find ch bb of
         None \<Rightarrow> Inr t
       | Some c \<Rightarrow> rbind (hash_at P B E k path c) (\<lambda>c'. Inr (TrieNode (cm_set ch bb c') p l hv m h)))"

definition MerkleTrie_hash ::
    "'p TriePrefix \<Rightarrow> 'b BitVector_ops \<Rightarrow> ('m \<Rightarrow> 64 word) option \<Rightarrow> 'm metadata_kind \<Rightarrow> ('p, 'v, 'b) HashEnv \<Rightarrow> (32 word \<Rightarrow> byte list) \<Rightarrow>
     nat list list \<Rightarrow> ('p, 'v, 'm) MerkleTrie \<Rightarrow> (Hash \<times> ('p, 'v, 'm) MerkleTrie) res" where
  "MerkleTrie_hash P B hs k E be32 schedule t =
     (if mt_hash_valid t then Inr (mt_root_hash t, t)
      else rbind (node_size P hs (mt_root t)) (\<lambda>sz.
        rbind (if sz > 0
               then rbind (rfold (\<lambda>path root. hash_at P B E k path root) schedule (mt_root t)) (compute_hash P B E k)
               else Inr (mt_root t)) (\<lambda>root'.
        rbind (get_root_hash P hs k E be32 root' (mt_root_hash t)) (\<lambda>out.
          Inr (out, \<lparr> mt_root = root', mt_hash_valid = True, mt_root_hash = out \<rparr>)))))"

section \<open>What the trie stores\<close>

text \<open>
  The abstract state of a trie with deletion marks: its keys, each with its value and whether it is
  marked.  \<open>live_map\<close> is the map without the marked keys.
\<close>

definition store :: "'p TriePrefix \<Rightarrow> ('p, 'v, 'x CombinedMetadata) MerkleTrie \<Rightarrow> 'p \<rightharpoonup> 'v \<times> bool" where
  "store P t = map_option (\<lambda>(v, m). (v, num_deleted_subnodes m \<noteq> 0)) \<circ> map_of (leaves P (mt_root t))"

definition live_map :: "('p \<rightharpoonup> 'v \<times> bool) \<Rightarrow> 'p \<rightharpoonup> 'v" where
  "live_map s q = (case s q of Some (v, False) \<Rightarrow> Some v | _ \<Rightarrow> None)"

definition mark_store :: "'p \<Rightarrow> bool \<Rightarrow> ('p \<rightharpoonup> 'v \<times> bool) \<Rightarrow> 'p \<rightharpoonup> 'v \<times> bool" where
  "mark_store key b s = (case s key of None \<Rightarrow> s | Some (v, _) \<Rightarrow> s(key \<mapsto> (v, b)))"

definition live_leaves :: "'p TriePrefix \<Rightarrow> ('p, 'v, 'x CombinedMetadata) TrieNode \<Rightarrow> ('p \<times> 'v \<times> 'x CombinedMetadata) list" where
  "live_leaves P t = filter (\<lambda>(k, v, m). num_deleted_subnodes m = 0) (leaves P t)"

text \<open>Metadata of a leaf: one key, marked or not.\<close>

definition count_leaf :: "'x CombinedMetadata \<Rightarrow> bool" where
  "count_leaf m \<longleftrightarrow> md_size m = 1 \<and> (num_deleted_subnodes m = 0 \<or> num_deleted_subnodes m = 1)"

text \<open>The hash of the whole trie: the number of keys that are not marked, and the hash of the root.\<close>

definition trie_digest ::
    "(byte list \<Rightarrow> Hash) \<Rightarrow> (32 word \<Rightarrow> byte list) \<Rightarrow> (('p, 'v, 'x CombinedMetadata) TrieNode \<Rightarrow> Hash) \<Rightarrow>
     'p TriePrefix \<Rightarrow> ('p, 'v, 'x CombinedMetadata) TrieNode \<Rightarrow> Hash" where
  "trie_digest H be32 f P root =
     (let n = length (live_leaves P root)
      in H (be32 (word_of_nat n) @ (if n > 0 then f root else replicate 32 0)))"

text \<open>
  The invariant: the root is empty or a well-formed node with at most \<open>2 ^ 31 - 1\<close> keys, whose metadata count
  its keys and marks and whose hash caches are sound; a valid hash is the hash of the trie.
\<close>

definition root_ok ::
    "'p TriePrefix \<Rightarrow> ('p \<Rightarrow> bool) \<Rightarrow> ('p \<Rightarrow> nat list) \<Rightarrow> (('p, 'v, 'x::ab_group_add CombinedMetadata) TrieNode \<Rightarrow> Hash) \<Rightarrow>
     ('p, 'v, 'x CombinedMetadata) TrieNode \<Rightarrow> bool" where
  "root_ok P pvalid nib f root \<longleftrightarrow>
     wf_node P pvalid nib 2 root \<and> counts_ok P root \<and> cache_ok f root \<or>
     is_empty_node root \<and> pvalid (tn_prefix root) \<and> tn_metadata root = 0 \<and> \<not> tn_hash_valid root"

definition mt_ok ::
    "'p TriePrefix \<Rightarrow> ('p \<Rightarrow> bool) \<Rightarrow> ('p \<Rightarrow> nat list) \<Rightarrow> (byte list \<Rightarrow> Hash) \<Rightarrow> (32 word \<Rightarrow> byte list) \<Rightarrow>
     (('p, 'v, 'x::ab_group_add CombinedMetadata) TrieNode \<Rightarrow> Hash) \<Rightarrow> ('p, 'v, 'x CombinedMetadata) MerkleTrie \<Rightarrow> bool" where
  "mt_ok P pvalid nib H be32 f t \<longleftrightarrow>
     root_ok P pvalid nib f (mt_root t) \<and>
     (mt_hash_valid t \<longrightarrow> mt_root_hash t = trie_digest H be32 f P (mt_root t))"

declare live_child.simps [simp del]

section \<open>Facts about roots\<close>

text \<open>Counters of fewer than \<open>2 ^ 31\<close> keys, read at their widths.\<close>

lemma ucast_word_of_nat: "(ucast (word_of_nat n :: 64 word) :: 32 word) = word_of_nat n"
  by (rule bit_word_eqI) (auto simp: bit_simps)

lemma word_of_nat_0_iff: "n < 2 ^ 32 \<Longrightarrow> (word_of_nat n :: 32 word) = 0 \<longleftrightarrow> n = 0"
  by (auto simp: word_of_nat_eq_0_iff dest: nat_dvd_not_less)

lemma ucast_of_nat32: "n < 2 ^ 32 \<Longrightarrow> (ucast (word_of_nat n :: 32 word) :: 64 word) = word_of_nat n"
  by (simp add: unsigned_of_nat take_bit_nat_eq_self)

lemma count_diff:
  assumes "n \<le> m" "m < 2 ^ 31"
  shows "(ucast (ucast (word_of_nat m :: 32 word) - word_of_nat (m - n) :: 64 word) :: 32 word) = word_of_nat n"
    "\<not> (ucast (word_of_nat m :: 32 word) :: 64 word) < word_of_nat (m - n)"
  using assms by (simp add: ucast_of_nat32 of_nat_diff ucast_word_of_nat)
    (use assms in \<open>simp add: ucast_of_nat32 word_less_nat_alt unat_of_nat del: of_nat_diff\<close>)

context trie_prefix
begin

lemma leaves_empty: "is_empty_node t \<Longrightarrow> leaves P t = []"
  using bits_pos by (cases t) (auto simp: is_empty_node_def cm_size_def)

lemma leaves_keys_distinct: "wf k t \<Longrightarrow> distinct (map fst (leaves P t))"
  using entries_distinct [of k t] by (simp add: entries_leaves case_prod_beta comp_def)

lemma card_leaves:
  fixes t :: "('p, 'v, 'm) TrieNode"
  assumes "wf k t"
  shows "card (dom (map_of (leaves P t))) = length (leaves P t)"
  using leaves_keys_distinct [OF assms] distinct_card [of "map fst (leaves P t)"] by (simp add: dom_map_of_conv_image_fst)

lemma counts_okI:
  fixes t :: "('p, 'v, 'x::ab_group_add CombinedMetadata) TrieNode"
  assumes "wf k t" "metadata_sum_ok t" "card (dom (map_of (leaves P t))) < 2 ^ 31"
    and "\<And>key v m. map_of (leaves P t) key = Some (v, m) \<Longrightarrow> count_leaf m"
  shows "counts_ok P t"
proof -
  have "count_leaf m" if "(key, v, m) \<in> set (leaves P t)" for key v m
    using assms(4) that leaves_keys_distinct [OF assms(1)] by (metis map_of_is_SomeI)
  then show ?thesis using assms(2,3) card_leaves [OF assms(1)] by (auto simp: counts_ok_def count_leaf_def)
qed

lemma counts_okD:
  fixes t :: "('p, 'v, 'x::ab_group_add CombinedMetadata) TrieNode"
  assumes "counts_ok P t"
  shows "metadata_sum_ok t" "length (leaves P t) < 2 ^ 31" "map_of (leaves P t) key = Some (v, m) \<Longrightarrow> count_leaf m"
  using assms by (auto simp: counts_ok_def count_leaf_def dest!: map_of_SomeD)

lemma root_ok_wf_trie: "root_ok P pvalid nib f t \<Longrightarrow> wf_trie P pvalid nib t"
  by (auto simp: root_ok_def wf_trie_def)

lemma root_ok_sound:
  assumes "root_ok P pvalid nib f t"
  shows "metadata_sum_ok t" "cache_ok f t"
proof -
  have "metadata_sum_ok t" "cache_ok f t" if "is_empty_node t" "tn_metadata t = 0" "\<not> tn_hash_valid t"
    using that by (cases t; cases "tn_children t"; simp add: is_empty_node_def cache_ok_def)+
  then show "metadata_sum_ok t" "cache_ok f t" using assms by (auto simp: root_ok_def counts_ok_def)
qed

text \<open>A key is not found in the empty trie.\<close>

lemma empty_walk:
  assumes "is_empty_node (TrieNode ch p l hv m h)" "pvalid p" "pvalid key"
  obtains b where "l = 0" "get_prefix_match_len P p 0 key (prefix_bits P) = 0" "get_branch_bits P key 0 = Inr b"
    "cm_find ch b = None" "cm_size ch = 0"
proof -
  have "get_prefix_match_len P p (4 * 0) key (4 * (prefix_bits P div 4)) = 0"
    using assms bits_eq by (subst match_len) auto
  moreover obtain b where "get_branch_bits P key (4 * 0) = Inr b"
    using branch_bits [OF assms(3), of 0] bits_pos by auto
  ultimately show ?thesis
    using that [of b] assms(1) bits_eq by (auto simp: is_empty_node_def cm_find_list cm_size_def)
qed

lemma trie_leaves_pos: "wf 2 t \<Longrightarrow> leaves P t \<noteq> []"
  using trie_nonempty [of t] by (fastforce simp: map_of_leaves)

lemma not_single: "wf 2 t \<Longrightarrow> contract_root t = Inr t"
  using wf_children_size [of _ "tn_prefix t" "tn_prefix_len t" "tn_hash_valid t" "tn_metadata t" "tn_hash t"]
  by (cases t; cases "tn_children t") (auto simp: contract_root_def single_child_def)

lemma contract_root_contract: "contract_root t = Inr (contract t)"
  by (simp add: contract_root_def contract_single)

lemma counts_ok_size:
  fixes t :: "('p, 'v, 'x::ab_group_add CombinedMetadata) TrieNode"
  assumes "wf 2 t" "counts_ok P t"
  shows "node_size P (Some md_size) t = Inr (word_of_nat (length (leaves P t)))"
    "node_num_deleted combined_kind t = Inr (word_of_nat (length (leaves P t) - length (live_leaves P t)))"
    "(word_of_nat (length (leaves P t)) :: 32 word) \<noteq> 0"
proof -
  note md = counts_ok_metadata [OF assms] and lt = counts_okD(2) [OF assms(2)]
  have sz: "md_size (tn_metadata t) = word_of_nat (length (leaves P t))"
    using md(1) lt by (metis sint_of_nat64 signed_word_eqI)
  show "node_size P (Some md_size) t = Inr (word_of_nat (length (leaves P t)))"
    using md(1) by (simp add: node_size_def Let_def word_sless_alt) (simp add: sz ucast_word_of_nat)
  let ?n = "length (filter (\<lambda>(k, v, m). num_deleted_subnodes m \<noteq> 0) (leaves P t))"
  have "?n = length (leaves P t) - length (live_leaves P t)"
    using sum_length_filter_compl [of "\<lambda>(k, v, m). num_deleted_subnodes m \<noteq> 0" "leaves P t"]
    by (simp add: live_leaves_def case_prod_unfold)
  moreover have "(scast (num_deleted_subnodes (tn_metadata t)) :: 64 word) = word_of_nat ?n"
    using md(2) by (metis of_int_of_nat_eq scast_eq)
  moreover have "?n < 2 ^ 31" using lt length_filter_le le_less_trans by blast
  ultimately show "node_num_deleted combined_kind t = Inr (word_of_nat (length (leaves P t) - length (live_leaves P t)))"
    by (simp add: Let_def word_sless_alt sint_of_nat64)
  show "(word_of_nat (length (leaves P t)) :: 32 word) \<noteq> 0"
    using lt trie_leaves_pos [OF assms(1)] word_of_nat_0_iff [of "length (leaves P t)"] by simp
qed

abbreviation mok where
  "mok \<equiv> mt_ok P pvalid nib"

lemma dom_store: "dom (store P t) = dom (map_of (leaves P (mt_root t)))"
  by (auto simp: store_def)

section \<open>Updates keep the invariant\<close>

lemma MerkleTrie_insert_leaves:
  fixes t :: "('p, 'v, 'x::ab_group_add CombinedMetadata) MerkleTrie"
  assumes I: "insert_fn I" "leaf_maker P I lv mk" "\<forall>key i. tn_metadata (mk key i) = new_metadata I (lv key i)"
    and cnt: "\<And>v. count_leaf (new_metadata I v)" "\<And>m v. count_leaf m \<Longrightarrow> count_leaf (fst (metadata_insert I m v))"
    and key: "pvalid key" and t: "mok H be32 f t" and len: "card (dom (store P t)) + 1 < 2 ^ 31"
  shows "\<exists>t'. MerkleTrie_insert P I mk key i t = Inr t' \<and> mok H be32 f t' \<and> \<not> mt_hash_valid t' \<and>
    map_of (leaves P (mt_root t')) =
      (map_of (leaves P (mt_root t)))(key \<mapsto> inserted_leaf I key i (map_of (leaves P (mt_root t)) key))"
proof -
  let ?r = "mt_root t"
  have ok: "root_ok P pvalid nib f ?r" using t by (simp add: mt_ok_def)
  note w = root_ok_wf_trie [OF ok]
  obtain r' d where ins: "insert_node P I mk key i ?r = Inr (r', d)" and r': "wf 2 r'"
      "metadata_sum_ok ?r \<longrightarrow> metadata_sum_ok r'" "hashed_nodes r' \<subseteq> hashed_nodes ?r"
    using insert_trie [OF I(1,2) key w, of i] by blast
  note lv = insert_leaves [OF I key w ins]
  have cache: "metadata_sum_ok r'" "cache_ok f r'" using r'(2) cache_ok_subset [OF r'(3)] root_ok_sound [OF ok] by auto
  have leaf: "count_leaf m" if "map_of (leaves P ?r) q = Some (v, m)" for q v m
    using ok that counts_okD(3) leaves_empty by (fastforce simp: root_ok_def)
  have "counts_ok P r'"
  proof (rule counts_okI [OF r'(1) cache(1)])
    show "card (dom (map_of (leaves P r'))) < 2 ^ 31"
      using len card_insert_if [OF finite_dom_map_of, of key "leaves P ?r"] unfolding lv dom_store by simp
    show "count_leaf m" if "map_of (leaves P r') q = Some (v, m)" for q v m
      using that leaf cnt unfolding lv by (auto simp: inserted_leaf_def Let_def split: if_splits option.splits)
  qed
  then have "mok H be32 f ((invalidate_hash t)\<lparr>mt_root := r'\<rparr>)" using r'(1) cache by (simp add: mt_ok_def root_ok_def)
  then show ?thesis using ins lv by (simp add: MerkleTrie_insert_def)
qed

lemma root_ok_make_empty: "root_ok P pvalid nib f (make_empty_node P dflt)" "leaves P (make_empty_node P dflt) = []"
  "contract_root (make_empty_node P dflt) = Inr (make_empty_node P dflt)"
  "node_size P (Some md_size) (make_empty_node P dflt) = Inr 0"
  using bits_pos zero_valid
  by (simp_all add: root_ok_def make_empty_node_def is_empty_node_def contract_root_def single_child_def node_size_def
      zero_CombinedMetadata_def word_sless_alt)

lemma counts_ok_sub:
  fixes t t' :: "('p, 'v, 'x::ab_group_add CombinedMetadata) TrieNode"
  assumes "counts_ok P t" "metadata_sum_ok t'" "leaves P t' = filter keep (leaves P t)"
  shows "counts_ok P t'"
  using assms le_less_trans [OF length_filter_le, of "leaves P t" "2 ^ 31" keep] by (auto simp: counts_ok_def)

text \<open>The root after some keys are cut out of it.\<close>

lemma root_ok_cut:
  fixes t t' :: "('p, 'v, 'x::ab_group_add CombinedMetadata) TrieNode"
  assumes t: "counts_ok P t" "cache_ok f t" and post: "cut_post P pvalid nib keep t False delta t'"
  shows "wf 2 (contract t')" "counts_ok P (contract t')" "root_ok P pvalid nib f (contract t')"
    "leaves P (contract t') = filter keep (leaves P t)"
proof -
  have p: "wfo 1 t'" "leaves P t' = filter keep (leaves P t)" "metadata_sum_ok t'" "hashed_nodes t' \<subseteq> hashed_nodes t"
    using post by (auto simp: cut_post_def)
  note c = contract_wf [OF p(1)]
  show lv: "leaves P (contract t') = filter keep (leaves P t)" using c(2) p(2) by simp
  show w: "wf 2 (contract t')" by (rule c(1))
  show cnt: "counts_ok P (contract t')" by (rule counts_ok_sub [OF t(1) c(3) [OF p(3)] lv])
  have "cache_ok f (contract t')" using cache_ok_subset [OF _ t(2)] c(5) p(4) by blast
  then show "root_ok P pvalid nib f (contract t')" using w cnt by (simp add: root_ok_def)
qed

lemma empty_delete:
  assumes "is_empty_node t" "pvalid (tn_prefix t)" "pvalid key"
  shows "perform_deletion_node P key t = Inr (False, None, 0, t)"
proof -
  obtain ch p l hv m h where t: "t = TrieNode ch p l hv m h" by (cases t)
  from assms obtain b where "l = 0" "get_prefix_match_len P p 0 key (prefix_bits P) = 0"
      "get_branch_bits P key 0 = Inr b" "cm_find ch b = None"
    unfolding t by (auto intro: empty_walk [of ch p l hv m h key])
  then show ?thesis using t bits_pos by (simp add: perform_deletion_node.simps)
qed

lemma trie_digest_empty: "leaves P r = [] \<Longrightarrow> trie_digest H be32 f P r = H (be32 0 @ replicate 32 0)"
  by (simp add: trie_digest_def live_leaves_def)

lemma empty_root_facts:
  fixes r :: "('p, 'v, 'x::ab_group_add CombinedMetadata) TrieNode"
  assumes "is_empty_node r" "tn_metadata r = 0"
  shows "contract_root r = Inr r" "node_size P (Some md_size) r = Inr 0" "node_num_deleted combined_kind r = Inr 0"
  using assms
  by (simp_all add: is_empty_node_def contract_root_def single_child_def node_size_def word_sless_alt zero_CombinedMetadata_def)

lemma filter_key_map: "map_of (filter (\<lambda>x. fst x \<noteq> key) xs) = (map_of xs)(key := None)"
  by (induction xs) (auto simp: fun_eq_iff)

lemma MerkleTrie_delete_leaves:
  fixes t :: "('p, 'v, 'x::ab_group_add CombinedMetadata) MerkleTrie"
  assumes key: "pvalid key" and t: "mok H be32 f t"
  shows "\<exists>t'. MerkleTrie_perform_deletion P (Some md_size) dflt key t = Inr (trie_map P (mt_root t) key, t') \<and> mok H be32 f t' \<and>
    map_of (leaves P (mt_root t')) = (map_of (leaves P (mt_root t)))(key := None)"
proof -
  let ?r = "mt_root t"
  have ok: "root_ok P pvalid nib f ?r" using t by (simp add: mt_ok_def)
  show ?thesis
  proof (cases "is_empty_node ?r")
    case True
    then have "pvalid (tn_prefix ?r)" "tn_metadata ?r = 0" using ok wf_not_empty by (auto simp: root_ok_def)
    then show ?thesis
      using t empty_delete [OF True _ key] empty_root_facts [OF True] leaves_empty [OF True] trie_map_empty [OF True]
      by (simp add: MerkleTrie_perform_deletion_def mt_ok_def trie_digest_empty root_ok_make_empty)
  next
    case False
    then have r: "wf 2 ?r" "counts_ok P ?r" "cache_ok f ?r" using ok by (auto simp: root_ok_def)
    obtain del obj delta r' where run: "perform_deletion_node P key ?r = Inr (del, obj, delta, r')"
        and post: "delete_post P pvalid nib key ?r del obj delta r'"
      using perform_deletion_node_correct [OF key r(1) counts_okD(1) [OF r(2)]] by blast
    consider "obj = None" | "obj \<noteq> None" del | "obj \<noteq> None" "\<not> del" by blast
    then show ?thesis
    proof cases
      case 1
      then have "trie_map P ?r key = None" "r' = ?r" "\<not> del" using post by (auto simp: delete_post_def)
      then show ?thesis
        using 1 run t not_single [OF r(1)] counts_ok_size [OF r(1,2)] no_leaf [of ?r key]
        by (simp add: MerkleTrie_perform_deletion_def fun_upd_idem)
    next
      case 2
      then have obj: "obj = trie_map P ?r key" and leaf: "\<exists>v hv m h. ?r = TrieNode (Value v) key (prefix_bits P) hv m h"
        using post unfolding delete_post_def by (simp, metis)
      then have "map_of (leaves P ?r) q = None" if "q \<noteq> key" for q using that by auto
      with obj show ?thesis
        using 2 run by (simp add: MerkleTrie_perform_deletion_def mt_ok_def root_ok_make_empty fun_eq_iff)
    next
      case 3
      then have obj: "obj = trie_map P ?r key" and cut: "cut_post P pvalid nib (\<lambda>x. fst x \<noteq> key) ?r False delta r'"
        using post by (auto simp: delete_post_def)
      note k = root_ok_cut [OF r(2,3) cut]
      show ?thesis
        using 3 run obj k counts_ok_size [OF k(1,2)]
        by (simp add: MerkleTrie_perform_deletion_def contract_root_contract mt_ok_def filter_key_map)
    qed
  qed
qed

section \<open>The hash is a function of the unmarked keys and values\<close>

lemma live_leaves_map:
  fixes r :: "('p, 'v, 'x CombinedMetadata) TrieNode"
  assumes "distinct (map fst (leaves P r))" "mt_root t = r"
  shows "map_of (map (\<lambda>(k, v, m). (k, v)) (live_leaves P r)) = live_map (store P t)"
proof -
  have "map_of (map (\<lambda>(k, v, m). (k, v)) (filter (\<lambda>(k, v, m). num_deleted_subnodes m = 0) xs)) q =
      (case map_of xs q of Some (v, m) \<Rightarrow> if num_deleted_subnodes m = 0 then Some v else None | None \<Rightarrow> None)"
    if "distinct (map fst xs)" for xs :: "('p \<times> 'v \<times> 'x CombinedMetadata) list" and q
    using that
  proof (induction xs)
    case (Cons x xs)
    have "map_of (map (\<lambda>(k, v, m). (k, v)) (filter (\<lambda>(k, v, m). num_deleted_subnodes m = 0) xs)) (fst x) = None"
      using Cons.prems unfolding map_of_eq_None_iff by (auto simp: image_iff)
    then show ?case using Cons by (cases x) auto
  qed simp
  then show ?thesis
    using assms unfolding live_leaves_def live_map_def store_def
    by (auto simp: fun_eq_iff split: option.split prod.split)
qed

lemma live_count:
  fixes t :: "('p, 'v, 'x CombinedMetadata) MerkleTrie"
  assumes "distinct (map fst (leaves P (mt_root t)))"
  shows "card (dom (live_map (store P t))) = length (live_leaves P (mt_root t))"
proof -
  let ?ys = "map (\<lambda>(k, v, m). (k, v)) (live_leaves P (mt_root t))"
  have "distinct (map fst (live_leaves P (mt_root t)))"
    using assms by (simp add: live_leaves_def distinct_map_filter)
  then have "distinct (map fst ?ys)" by (simp add: comp_def case_prod_unfold)
  then have "card (set (map fst ?ys)) = length (live_leaves P (mt_root t))"
    by (simp only: distinct_card length_map)
  then show ?thesis unfolding live_leaves_map [OF assms refl, symmetric] by (simp only: dom_map_of_conv_image_fst set_map)
qed

lemma root_ok_distinct: "root_ok P pvalid nib f r \<Longrightarrow> distinct (map fst (leaves P r))"
  using leaves_keys_distinct [of 2 r] leaves_empty [of r] by (auto simp: root_ok_def)

lemma root_ok_live:
  assumes "root_ok P pvalid nib f r" "live_leaves P r \<noteq> []"
  shows "wf 2 r" "counts_ok P r"
  using assms leaves_empty [of r] unfolding root_ok_def live_leaves_def by auto

lemma live_tree_exists:
  fixes t :: "('p, 'v, 'x::ab_group_add CombinedMetadata) TrieNode"
  assumes t: "wf 2 t" "counts_ok P t" and ne: "live_leaves P t \<noteq> []"
  shows "\<exists>w :: ('p, 'v, 'x CombinedMetadata) TrieNode. wf 2 w \<and> trie_map P w = map_of (map (\<lambda>(k, v, m). (k, v)) (live_leaves P t))"
proof -
  let ?live = "is_live combined_kind :: 'x CombinedMetadata \<Rightarrow> bool"
  have fl: "filter (\<lambda>(k, v, m). ?live m) (leaves P t) = live_leaves P t"
    unfolding live_leaves_def by (rule filter_cong [OF refl]) (use leaf_live [OF t(2)] in \<open>auto simp del: live_child.simps\<close>)
  obtain w where "live_tree ?live t = Some w" "\<And>B E H. live_post P pvalid nib B E H ?live t w"
    using live_tree_correct [OF t(1) conjunct2 [OF counts_ok_sound [OF t]]] fl ne
    by (cases "live_tree ?live t") auto
  then show ?thesis using fl unfolding live_post_def map_of_leaves by metis
qed

end

context trie_hash
begin

lemma digest_live:
  fixes t u :: "('p, 'v, 'x::ab_group_add CombinedMetadata) MerkleTrie"
  assumes t: "root_ok P pvalid nib f (mt_root t)" and u: "root_ok P pvalid nib g (mt_root u)"
    and eq: "live_map (store P t) = live_map (store P u)"
  shows "trie_digest H be32 (spec combined_kind) P (mt_root t) = trie_digest H be32 (spec combined_kind) P (mt_root u)"
proof -
  note d = root_ok_distinct [OF t] root_ok_distinct [OF u]
  have n: "length (live_leaves P (mt_root t)) = length (live_leaves P (mt_root u))"
    using live_count [OF d(1)] live_count [OF d(2)] eq by simp
  show ?thesis
  proof (cases "live_leaves P (mt_root t) = []")
    case True
    then show ?thesis using n by (simp add: trie_digest_def)
  next
    case False
    then have ne: "live_leaves P (mt_root t) \<noteq> []" "live_leaves P (mt_root u) \<noteq> []" using n by auto
    note t' = root_ok_live [OF t ne(1)] and u' = root_ok_live [OF u ne(2)]
    obtain w :: "('p, 'v, 'x CombinedMetadata) TrieNode" where w: "wf 2 w"
        "trie_map P w = map_of (map (\<lambda>(k, v, m). (k, v)) (live_leaves P (mt_root t)))"
      using live_tree_exists [OF t' ne(1)] by blast
    then have w': "trie_map P w = map_of (map (\<lambda>(k, v, m). (k, v)) (live_leaves P (mt_root u)))"
      using live_leaves_map [OF d(1) refl] live_leaves_map [OF d(2) refl] eq by simp
    show ?thesis
      using n marked_hash [where B = B and E = E and H = H, OF t' w(1) w(2) [unfolded live_leaves_def]]
        marked_hash [where B = B and E = E and H = H, OF u' w(1) w' [unfolded live_leaves_def]]
      by (simp add: trie_digest_def)
  qed
qed


section \<open>Marks\<close>

text \<open>An operation that changes the metadata of the leaf at one key.\<close>

lemma root_ok_update:
  fixes r r' :: "('p, 'v, 'x::ab_group_add CombinedMetadata) TrieNode"
  assumes r: "wf 2 r" "counts_ok P r" "cache_ok f r" and post: "update_post P pvalid nib 2 key g r delta r'"
    and g: "\<And>m. count_leaf m \<Longrightarrow> count_leaf (g m)"
  shows "root_ok P pvalid nib f r'"
    "map_of (leaves P r') q = (if q = key then map_option (\<lambda>(v, m). (v, g m)) (map_of (leaves P r) q) else map_of (leaves P r) q)"
proof -
  have p: "wf 2 r'" "leaves P r' = map (leaf_upd key g) (leaves P r)" "metadata_sum_ok r'" "hashed_nodes r' \<subseteq> hashed_nodes r"
    using post counts_okD(1) [OF r(2)] by (auto simp: update_post_def)
  have upd: "map_of (map (leaf_upd key g) xs) q =
      (if q = key then map_option (\<lambda>(v, m). (v, g m)) (map_of xs q) else map_of xs q)" for xs :: "('p \<times> 'v \<times> 'x CombinedMetadata) list" and q
    by (induction xs) (auto simp: leaf_upd_def)
  show "map_of (leaves P r') q = (if q = key then map_option (\<lambda>(v, m). (v, g m)) (map_of (leaves P r) q) else map_of (leaves P r) q)"
    unfolding p(2) by (rule upd)
  have "counts_ok P r'"
    using r(2) p(3) g unfolding counts_ok_def p(2) by (fastforce simp: leaf_upd_def count_leaf_def)
  then show "root_ok P pvalid nib f r'" using p(1) cache_ok_subset [OF p(4) r(3)] by (simp add: root_ok_def)
qed

lemma count_leaf_marks: "count_leaf m \<Longrightarrow> count_leaf (set_mark m)" "count_leaf m \<Longrightarrow> count_leaf (clear_mark m)"
  by (auto simp: count_leaf_def set_mark_def clear_mark_def set_num_deleted_def)

text \<open>The three marking operations leave the empty trie as it is.\<close>

lemma empty_marks:
  fixes r :: "('p, 'v, 'x::ab_group_add CombinedMetadata) TrieNode"
  assumes "is_empty_node r" "pvalid (tn_prefix r)" "pvalid key"
  shows "mark_for_deletion P key r = Inr (0, None, r)" "mark_for_deletion_nolocks P key r = Inr (None, r)"
    "unmark_for_deletion P key r = Inr (0, None, r)"
proof -
  obtain ch p l hv m h where r: "r = TrieNode ch p l hv m h" by (cases r)
  from assms obtain b where "l = 0" "get_prefix_match_len P p 0 key (prefix_bits P) = 0"
      "get_branch_bits P key 0 = Inr b" "cm_find ch b = None"
    unfolding r by (auto intro: empty_walk [of ch p l hv m h key])
  then show "mark_for_deletion P key r = Inr (0, None, r)" "mark_for_deletion_nolocks P key r = Inr (None, r)"
    "unmark_for_deletion P key r = Inr (0, None, r)"
    using r bits_pos by (simp_all add: mark_for_deletion.simps mark_for_deletion_nolocks.simps unmark_for_deletion.simps)
qed

abbreviation mhok where
  "mhok be32 \<equiv> mt_ok P pvalid nib H be32 (spec combined_kind)"

lemma mark_step:
  fixes t :: "('p, 'v, 'x::ab_group_add CombinedMetadata) MerkleTrie"
  assumes t: "mhok be32 t" and r: "wf 2 (mt_root t)" "counts_ok P (mt_root t)" "cache_ok (spec combined_kind) (mt_root t)"
    and post: "update_post P pvalid nib 2 key g (mt_root t) delta r'" and g: "\<And>m. count_leaf m \<Longrightarrow> count_leaf (g m)"
    and b: "\<And>v m. map_of (leaves P (mt_root t)) key = Some (v, m) \<Longrightarrow> (num_deleted_subnodes (g m) \<noteq> 0) = b"
    and hv: "hv \<longrightarrow> mt_hash_valid t \<and> mark_store key b (store P t) = store P t"
  shows "mhok be32 (t\<lparr>mt_root := r', mt_hash_valid := hv\<rparr>) \<and> store P (t\<lparr>mt_root := r', mt_hash_valid := hv\<rparr>) = mark_store key b (store P t)"
proof -
  let ?t = "t\<lparr>mt_root := r', mt_hash_valid := hv\<rparr>"
  note u = root_ok_update [OF r post g]
  have st: "store P ?t = mark_store key b (store P t)"
  proof
    fix q show "store P ?t q = mark_store key b (store P t) q"
      using b by (cases "map_of (leaves P (mt_root t)) key") (auto simp: store_def mark_store_def u(2))
  qed
  have "mt_root_hash t = trie_digest H be32 (spec combined_kind) P r'" if hv
  proof -
    have "mt_root_hash t = trie_digest H be32 (spec combined_kind) P (mt_root t)" using t hv that by (simp add: mt_ok_def)
    also have "\<dots> = trie_digest H be32 (spec combined_kind) P (mt_root ?t)"
      using digest_live [of "spec combined_kind" t "spec combined_kind" ?t] t u(1) st hv that by (simp add: mt_ok_def)
    finally show ?thesis by simp
  qed
  then show ?thesis using u(1) st by (simp add: mt_ok_def)
qed

lemma mark_ok:
  fixes t :: "('p, 'v, 'x::ab_group_add CombinedMetadata) MerkleTrie"
  assumes t: "mhok be32 t" and key: "pvalid key"
  shows "\<exists>t'. MerkleTrie_mark_for_deletion P key t = Inr (live_map (store P t) key, t') \<and> mhok be32 t' \<and>
      store P t' = mark_store key True (store P t)"
proof (cases "is_empty_node (mt_root t)")
  case True
  then have "pvalid (tn_prefix (mt_root t))" using t wf_prefix [of 2 "mt_root t"] by (auto simp: mt_ok_def root_ok_def)
  then show ?thesis using t empty_marks(1) [OF True _ key] leaves_empty [OF True]
    by (simp add: MerkleTrie_mark_for_deletion_def store_def live_map_def mark_store_def)
next
  case False
  let ?r = "mt_root t"
  have r: "wf 2 ?r" "counts_ok P ?r" "cache_ok (spec combined_kind) ?r" using t False by (auto simp: mt_ok_def root_ok_def)
  obtain delta r' where run: "mark_for_deletion P key ?r = Inr (delta,
      (case map_of (leaves P ?r) key of Some (v, m) \<Rightarrow> if num_deleted_subnodes m = 0 then Some v else None | None \<Rightarrow> None), r')"
      and post: "update_post P pvalid nib 2 key set_mark ?r delta r'"
    using mark_for_deletion_correct [OF key r(1)] by blast
  have val: "(case map_of (leaves P ?r) key of Some (v, m) \<Rightarrow> if num_deleted_subnodes m = 0 then Some v else None | None \<Rightarrow> None) = live_map (store P t) key"
    by (auto simp: live_map_def store_def split: option.split prod.split)
  have b: "(num_deleted_subnodes (set_mark m) \<noteq> 0) = True" for m :: "'x CombinedMetadata"
    by (simp add: set_mark_def set_num_deleted_def)
  have "mark_store key True (store P t) = store P t" if "live_map (store P t) key = None"
    using that by (auto simp: live_map_def mark_store_def split: option.splits prod.splits bool.splits)
  then show ?thesis
    using run val mark_step [OF t r post count_leaf_marks(1) b, of "if live_map (store P t) key \<noteq> None then False else mt_hash_valid t"]
    by (simp add: MerkleTrie_mark_for_deletion_def)
qed

lemma mark_nolocks_ok:
  fixes t :: "('p, 'v, 'x::ab_group_add CombinedMetadata) MerkleTrie"
  assumes t: "mhok be32 t" and key: "pvalid key"
  shows "\<exists>t'. MerkleTrie_mark_for_deletion_nolocks P key t = Inr (store P t key \<noteq> None, t') \<and> mhok be32 t' \<and>
      store P t' = mark_store key True (store P t)"
proof (cases "is_empty_node (mt_root t)")
  case True
  then have "pvalid (tn_prefix (mt_root t))" using t wf_prefix [of 2 "mt_root t"] by (auto simp: mt_ok_def root_ok_def)
  then show ?thesis using t empty_marks(2) [OF True _ key] leaves_empty [OF True]
    by (simp add: MerkleTrie_mark_for_deletion_nolocks_def store_def mark_store_def)
next
  case False
  let ?r = "mt_root t"
  have r: "wf 2 ?r" "counts_ok P ?r" "cache_ok (spec combined_kind) ?r" using t False by (auto simp: mt_ok_def root_ok_def)
  obtain res r' where run: "mark_for_deletion_nolocks P key ?r = Inr (res, r')"
      and res: "res = (case map_of (leaves P ?r) key of None \<Rightarrow> None
        | Some (v, m) \<Rightarrow> Some (set_num_deleted (if num_deleted_subnodes m = 0 then 1 else 0) 0))"
      and post: "update_post P pvalid nib 2 key set_mark ?r (case res of None \<Rightarrow> 0 | Some d \<Rightarrow> d) r'"
    using mark_for_deletion_nolocks_correct [OF key r(1)] by blast
  have val: "(res \<noteq> None) = (store P t key \<noteq> None)"
    unfolding res by (auto simp: store_def split: option.split prod.split)
  have b: "(num_deleted_subnodes (set_mark m) \<noteq> 0) = True" for m :: "'x CombinedMetadata"
    by (simp add: set_mark_def set_num_deleted_def)
  have "mark_store key True (store P t) = store P t" if "store P t key = None"
    using that by (simp add: mark_store_def)
  then show ?thesis
    using run val mark_step [OF t r post count_leaf_marks(1) b, of "if store P t key \<noteq> None then False else mt_hash_valid t"]
    by (cases "store P t key") (auto simp: MerkleTrie_mark_for_deletion_nolocks_def)
qed

lemma unmark_ok:
  fixes t :: "('p, 'v, 'x::ab_group_add CombinedMetadata) MerkleTrie"
  assumes t: "mhok be32 t" and key: "pvalid key"
  shows "\<exists>t'. MerkleTrie_unmark_for_deletion P key t =
      Inr ((case store P t key of Some (v, True) \<Rightarrow> Some v | _ \<Rightarrow> None), t') \<and> mhok be32 t' \<and>
      store P t' = mark_store key False (store P t)"
proof (cases "is_empty_node (mt_root t)")
  case True
  then have "pvalid (tn_prefix (mt_root t))" using t wf_prefix [of 2 "mt_root t"] by (auto simp: mt_ok_def root_ok_def)
  then show ?thesis using t empty_marks(3) [OF True _ key] leaves_empty [OF True]
    by (simp add: MerkleTrie_unmark_for_deletion_def store_def mark_store_def)
next
  case False
  let ?r = "mt_root t" and ?v = "case store P t key of Some (v, True) \<Rightarrow> Some v | _ \<Rightarrow> None"
  have r: "wf 2 ?r" "counts_ok P ?r" "cache_ok (spec combined_kind) ?r" using t False by (auto simp: mt_ok_def root_ok_def)
  obtain delta r' where run: "unmark_for_deletion P key ?r = Inr (delta,
      (case map_of (leaves P ?r) key of Some (v, m) \<Rightarrow> if num_deleted_subnodes m = 1 then Some v else None | None \<Rightarrow> None), r')"
      and post: "update_post P pvalid nib 2 key clear_mark ?r delta r'"
    using unmark_for_deletion_correct [OF key r(1)] by blast
  have one: "num_deleted_subnodes m \<noteq> 0 \<longleftrightarrow> num_deleted_subnodes m = 1" if "map_of (leaves P ?r) key = Some (v, m)" for v m
    using counts_okD(3) [OF r(2) that] by (auto simp: count_leaf_def)
  then have val: "(case map_of (leaves P ?r) key of Some (v, m) \<Rightarrow> if num_deleted_subnodes m = 1 then Some v else None | None \<Rightarrow> None) = ?v"
    by (cases "map_of (leaves P ?r) key") (auto simp: store_def)
  have b: "(num_deleted_subnodes (clear_mark m) \<noteq> 0) = False" if "map_of (leaves P ?r) key = Some (v, m)" for v m
    using one [OF that] by (auto simp: clear_mark_def set_num_deleted_def)
  have "mark_store key False (store P t) = store P t" if "?v = None"
    using that by (auto simp: mark_store_def split: option.splits prod.splits bool.splits)
  then show ?thesis
    using run val mark_step [where hv = "if ?v \<noteq> None then False else mt_hash_valid t", OF t r post count_leaf_marks(2) b]
    by (simp add: MerkleTrie_unmark_for_deletion_def)
qed

section \<open>Removing the marked keys\<close>

lemma filter_map_of:
  "distinct (map fst xs) \<Longrightarrow> map_of (filter (\<lambda>(k, y). Q y) xs) q = (case map_of xs q of Some y \<Rightarrow> if Q y then Some y else None | None \<Rightarrow> None)"
  by (induction xs) (auto split: option.splits, force simp: map_of_eq_None_iff image_iff)

lemma perform_marked_ok:
  fixes t :: "('p, 'v, 'x::ab_group_add CombinedMetadata) MerkleTrie"
  assumes t: "mhok be32 t"
  shows "\<exists>t'. MerkleTrie_perform_marked_deletions P dflt act t s =
      Inr (t', fold (\<lambda>(k, v, m). act k v) (filter (\<lambda>(k, v, m). num_deleted_subnodes m \<noteq> 0) (leaves P (mt_root t))) s) \<and>
    mhok be32 t' \<and> store P t' = map_option (\<lambda>v. (v, False)) \<circ> live_map (store P t)"
proof (cases "is_empty_node (mt_root t)")
  case True
  then have "num_deleted_subnodes (tn_metadata (mt_root t)) = 0"
    using t wf_not_empty by (auto simp: mt_ok_def root_ok_def zero_CombinedMetadata_def)
  then show ?thesis using t leaves_empty [OF True]
    by (simp add: MerkleTrie_perform_marked_deletions_def store_def live_map_def fun_eq_iff)
next
  case False
  let ?r = "mt_root t" and ?keep = "\<lambda>(k, v, m). num_deleted_subnodes m = 0"
  have r: "wf 2 ?r" "counts_ok P ?r" "cache_ok (spec combined_kind) ?r" using t False by (auto simp: mt_ok_def root_ok_def)
  note d = leaves_keys_distinct [OF r(1)]
  have st: "store P u = map_option (\<lambda>v. (v, False)) \<circ> live_map (store P t)" if "leaves P (mt_root u) = filter ?keep (leaves P ?r)"
    for u :: "('p, 'v, 'x CombinedMetadata) MerkleTrie"
    using filter_map_of [OF d, of "\<lambda>(v, m). num_deleted_subnodes m = 0"]
    by (auto simp: store_def live_map_def fun_eq_iff that split: option.split prod.split)
  show ?thesis
  proof (cases "num_deleted_subnodes (tn_metadata ?r) = 0")
    case True
    then have "filter (\<lambda>(k, v, m). num_deleted_subnodes m \<noteq> 0) (leaves P ?r) = []"
      using counts_ok_metadata(2) [OF r(1,2)] by simp
    moreover from this have "filter ?keep (leaves P ?r) = leaves P ?r" by (auto simp: filter_empty_conv filter_id_conv)
    ultimately show ?thesis using t True st [of t] by (simp add: MerkleTrie_perform_marked_deletions_def)
  next
    case False
    have "\<forall>(k, v, m) \<in> set (leaves P ?r). num_deleted_subnodes m = 0 \<or> num_deleted_subnodes m = 1"
      "length (leaves P ?r) < 2 ^ 32" using r(2) by (auto simp: counts_ok_def)
    note cond = r(1) counts_okD(1) [OF r(2)] this
    have "\<exists>del delta r' s'. perform_marked_deletions P act ?r s = Inr (del, delta, r', s') \<and>
        prune_post P pvalid nib num_deleted_subnodes act ?r s del delta r' s' \<and> (del \<or> r' = ?r \<or> \<not> tn_hash_valid r')"
      unfolding perform_marked_deletions_def by (rule prune_node_correct [OF deleted_counter.counter_axioms _ cond]) simp
    then obtain del delta r' s' where run: "perform_marked_deletions P act ?r s = Inr (del, delta, r', s')"
        and post: "prune_post P pvalid nib num_deleted_subnodes act ?r s del delta r' s'" by blast
    show ?thesis
    proof (cases del)
      case True
      then have "filter ?keep (leaves P ?r) = []" using post by (simp add: prune_post_def cut_post_def)
      then show ?thesis
        using st [of "(invalidate_hash t)\<lparr>mt_root := make_empty_node P dflt\<rparr>"] run True False post
        by (simp add: MerkleTrie_perform_marked_deletions_def root_ok_make_empty mt_ok_def prune_post_def)
    next
      case nd: False
      note k = root_ok_cut [OF r(2,3), of ?keep delta r']
      show ?thesis
        using st [of "(invalidate_hash t)\<lparr>mt_root := contract r'\<rparr>"] run nd False post k
        by (simp add: MerkleTrie_perform_marked_deletions_def contract_root_contract mt_ok_def prune_post_def)
    qed
  qed
qed

section \<open>Hashing\<close>

text \<open>Hashing below a node changes caches only.\<close>

lemma same_node_child:
  fixes c c' :: "('p, 'v, 'm::ab_group_add) TrieNode"
  assumes t: "wf 2 (TrieNode (Children cs) p l hv m h)" "cache_ok (spec k) (TrieNode (Children cs) p l hv m h)"
      "live_ok k (TrieNode (Children cs) p l hv m h)"
    and c: "map_of cs bb = Some c" "same_node P pvalid nib E k (spec k) c c'"
  shows "same_node P pvalid nib E k (spec k) (TrieNode (Children cs) p l hv m h) (TrieNode (Children (al_put bb c' cs)) p l hv m h)"
proof -
  obtain xs ys where cs: "cs = xs @ (bb, c) # ys" using map_of_SomeD [OF c(1)] by (meson split_list)
  have "sorted_keys cs" using t(1) by simp
  then have put: "al_put bb c' cs = xs @ (bb, c') # ys" unfolding cs by (rule al_put_mid)
  let ?t = "TrieNode (Children cs) p l hv m h" and ?t' = "TrieNode (Children (al_put bb c' cs)) p l hv m h"
  have cc: "spec k c' = spec k c" "cache_ok (spec k) c'" "tn_prefix c' = tn_prefix c" "tn_prefix_len c' = tn_prefix_len c"
      "tn_metadata c' = tn_metadata c" "wf 2 c'" "metadata_sum_ok c \<longrightarrow> metadata_sum_ok c'" "live_ok k c'"
      "apply_to_value E = id \<longrightarrow> leaves P c' = leaves P c"
    using c(2) by (auto simp: same_node_def)
  have f: "spec k ?t' = spec k ?t" using cc(1,5) unfolding put unfolding cs by simp
  have "\<forall>n \<in> hashed_nodes ?t'. tn_hash n = spec k n"
    using t(2) cc(2) f unfolding put unfolding cs by (auto simp: cache_ok_def simp del: live_hash.simps)
  then have "cache_ok (spec k) ?t'" by (simp add: cache_ok_def)
  moreover have "wf 2 ?t'" using t(1) cc(3,4,6) unfolding put unfolding cs by auto
  moreover have "metadata_sum_ok ?t \<longrightarrow> metadata_sum_ok ?t'" using cc(5,7) unfolding put unfolding cs by auto
  moreover have "live_ok k ?t'" using t(3) cc(5,8) unfolding put unfolding cs by auto
  moreover have "apply_to_value E = id \<longrightarrow> leaves P ?t' = leaves P ?t" using cc(9) unfolding put unfolding cs by auto
  ultimately show ?thesis using f by (simp add: same_node_def del: live_hash.simps wf_node.simps leaves.simps live_ok.simps metadata_sum_ok.simps)
qed

lemma same_node_refl:
  "wf 2 t \<Longrightarrow> cache_ok (spec k) t \<Longrightarrow> live_ok k t \<Longrightarrow> same_node P pvalid nib E k (spec k) t t"
  by (simp add: same_node_def)

lemma same_node_trans:
  "same_node P pvalid nib E k (spec k) t u \<Longrightarrow> same_node P pvalid nib E k (spec k) u w \<Longrightarrow> same_node P pvalid nib E k (spec k) t w"
  by (simp add: same_node_def)

lemma hash_at_same:
  fixes t :: "('p, 'v, 'm::ab_group_add) TrieNode"
  shows "wf 2 t \<Longrightarrow> cache_ok (spec k) t \<Longrightarrow> live_ok k t \<Longrightarrow>
    \<exists>t'. hash_at P B E k path t = Inr t' \<and> same_node P pvalid nib E k (spec k) t t'"
proof (induction path arbitrary: t)
  case Nil
  then show ?case using compute_hash_correct [of t k] by (auto simp: hash_post_def)
next
  case (Cons bb path)
  obtain ch p l hv m h where t: "t = TrieNode ch p l hv m h" by (cases t)
  show ?case
  proof (cases "cm_find ch bb")
    case None
    then show ?thesis using t same_node_refl [OF Cons.prems] by simp
  next
    case (Some c)
    then obtain cs where ch: "ch = Children cs" "map_of cs bb = Some c" by (cases ch) auto
    have mem: "(bb, c) \<in> set cs" using ch(2) by (rule map_of_SomeD)
    have c: "wf 2 c" "cache_ok (spec k) c" "live_ok k c"
      using Cons.prems mem unfolding t ch by (auto simp: cache_ok_def)
    from Cons.IH [OF c] obtain c' where c': "hash_at P B E k path c = Inr c'" "same_node P pvalid nib E k (spec k) c c'" by blast
    show ?thesis
      using same_node_child [OF Cons.prems [unfolded t ch] ch(2) c'(2)] c'(1) Some unfolding t ch by simp
  qed
qed

lemma schedule_same:
  fixes t :: "('p, 'v, 'm::ab_group_add) TrieNode"
  shows "wf 2 t \<Longrightarrow> cache_ok (spec k) t \<Longrightarrow> live_ok k t \<Longrightarrow>
    \<exists>t'. rfold (\<lambda>path root. hash_at P B E k path root) schedule t = Inr t' \<and> same_node P pvalid nib E k (spec k) t t'"
proof (induction schedule arbitrary: t)
  case Nil
  then show ?case using same_node_refl [OF Nil] by simp
next
  case (Cons path schedule)
  obtain u where u: "hash_at P B E k path t = Inr u" "same_node P pvalid nib E k (spec k) t u"
    using hash_at_same [OF Cons.prems] by blast
  then have "wf 2 u" "cache_ok (spec k) u" "live_ok k u" by (auto simp: same_node_def)
  from Cons.IH [OF this] show ?case using u same_node_trans [OF u(2)] by auto
qed

lemma get_root_hash_ok:
  fixes r :: "('p, 'v, 'x::ab_group_add CombinedMetadata) TrieNode"
  assumes "wf 2 r" "counts_ok P r"
  shows "get_root_hash P (Some md_size) combined_kind E be32 r out =
    Inr (H (be32 (word_of_nat (length (live_leaves P r))) @ (if live_leaves P r \<noteq> [] then tn_hash r else replicate 32 0)))"
proof -
  note sz = counts_ok_size [OF assms]
  have le: "length (live_leaves P r) \<le> length (leaves P r)" by (simp add: live_leaves_def)
  note diff = count_diff [OF le counts_okD(2) [OF assms(2)]]
  have "(word_of_nat (length (live_leaves P r)) :: 32 word) = 0 \<longleftrightarrow> live_leaves P r = []"
    using word_of_nat_0_iff [of "length (live_leaves P r)"] le counts_okD(2) [OF assms(2)] by simp
  then have "(word_of_nat (length (live_leaves P r)) :: 32 word) > 0 \<longleftrightarrow> live_leaves P r \<noteq> []"
    using word_neq_0_conv by metis
  then show ?thesis
    unfolding get_root_hash_def sz rbind_simps Let_def diff using diff(2) generichash_ok by simp
qed

lemma hash_ok:
  fixes t :: "('p, 'v, 'x::ab_group_add CombinedMetadata) MerkleTrie"
  assumes t: "mhok be32 t" and ident: "apply_to_value E = id"
  shows "\<exists>t'. MerkleTrie_hash P B (Some md_size) combined_kind E be32 schedule t =
      Inr (trie_digest H be32 (spec combined_kind) P (mt_root t), t') \<and>
    mhok be32 t' \<and> mt_hash_valid t' \<and> store P t' = store P t"
proof (cases "mt_hash_valid t")
  case True
  then show ?thesis using t by (simp add: MerkleTrie_hash_def mt_ok_def)
next
  case hv: False
  let ?r = "mt_root t"
  show ?thesis
  proof (cases "is_empty_node ?r")
    case True
    then have "tn_metadata ?r = 0" using t wf_not_empty by (auto simp: mt_ok_def root_ok_def)
    note e = empty_root_facts [OF True this]
    have "get_root_hash P (Some md_size) combined_kind E be32 ?r (mt_root_hash t) = Inr (H (be32 0 @ replicate 32 0))"
      unfolding get_root_hash_def e by (simp add: generichash_ok)
    then show ?thesis
      using hv t e(2) leaves_empty [OF True] by (simp add: MerkleTrie_hash_def mt_ok_def trie_digest_empty store_def)
  next
    case False
    have r: "wf 2 ?r" "counts_ok P ?r" "cache_ok (spec combined_kind) ?r" using t False by (auto simp: mt_ok_def root_ok_def)
    have "live_ok combined_kind ?r" using counts_ok_sound [OF r(1,2)] by blast
    from schedule_same [OF r(1,3) this] obtain r1 where
      r1: "rfold (\<lambda>path root. hash_at P B E combined_kind path root) schedule ?r = Inr r1"
        "same_node P pvalid nib E combined_kind (spec combined_kind) ?r r1" by blast
    then have "wf 2 r1" "cache_ok (spec combined_kind) r1" "live_ok combined_kind r1" by (auto simp: same_node_def)
    from compute_hash_correct [OF this] obtain r2 where
      r2: "compute_hash P B E combined_kind r1 = Inr r2" "hash_post P pvalid nib E combined_kind (spec combined_kind) r1 r2" by blast
    have same: "same_node P pvalid nib E combined_kind (spec combined_kind) ?r r2" "tn_hash r2 = spec combined_kind ?r"
      using r1(2) r2(2) same_node_trans [OF r1(2)] by (auto simp: hash_post_def same_node_def)
    then have s: "wf 2 r2" "cache_ok (spec combined_kind) r2" "leaves P r2 = leaves P ?r" "metadata_sum_ok r2"
        "spec combined_kind r2 = spec combined_kind ?r"
      using ident counts_okD(1) [OF r(2)] by (auto simp: same_node_def)
    have cnt: "counts_ok P r2" using r(2) s(3,4) by (simp add: counts_ok_def)
    have live: "live_leaves P r2 = live_leaves P ?r" by (simp add: live_leaves_def s(3))
    have dig: "H (be32 (word_of_nat (length (live_leaves P r2))) @ (if live_leaves P r2 \<noteq> [] then tn_hash r2 else replicate 32 0)) =
        trie_digest H be32 (spec combined_kind) P ?r"
      unfolding live same(2) trie_digest_def Let_def by simp
    have "(word_of_nat (length (leaves P ?r)) :: 32 word) > 0" using counts_ok_size(3) [OF r(1,2)] word_neq_0_conv by blast
    then have "MerkleTrie_hash P B (Some md_size) combined_kind E be32 schedule t =
        Inr (trie_digest H be32 (spec combined_kind) P ?r,
          \<lparr> mt_root = r2, mt_hash_valid = True, mt_root_hash = trie_digest H be32 (spec combined_kind) P ?r \<rparr>)"
      using hv r1(1) r2(1) counts_ok_size(1) [OF r(1,2)] get_root_hash_ok [OF s(1) cnt] dig
      by (simp add: MerkleTrie_hash_def)
    moreover have "trie_digest H be32 (spec combined_kind) P r2 = trie_digest H be32 (spec combined_kind) P ?r"
      unfolding trie_digest_def live s(5) ..
    ultimately show ?thesis
      using s(1,2) cnt by (simp add: mt_ok_def root_ok_def store_def s(3))
  qed
qed

lemma serial_hash_eq:
  assumes "apply_to_value E = id"
  shows "serial_hash P B hs k E be32 t = MerkleTrie_hash P B hs k E be32 [] t"
proof -
  have "E\<lparr>apply_to_value := id\<rparr> = E" using assms by (cases E) simp
  then show ?thesis by (simp add: serial_hash_def MerkleTrie_hash_def cong: if_cong)
qed

end

context trie_prefix
begin

section \<open>Merging\<close>

lemma merge_in_leaves:
  fixes t u :: "('p, 'v, 'x::ab_group_add CombinedMetadata) MerkleTrie"
  assumes M: "merge_fn M" "mergeable M (trie_map P (mt_root t)) (trie_map P (mt_root u))"
    and cnt: "\<And>v m w n z. leaf_merge M (v, m) (w, n) = Inr z \<Longrightarrow> count_leaf m \<Longrightarrow> count_leaf n \<Longrightarrow> count_leaf (snd z)"
    and t: "mok H be32 f t" and u: "mok H be32' f u" and len: "card (dom (store P t) \<union> dom (store P u)) < 2 ^ 31"
  shows "\<exists>t'. MerkleTrie_merge_in P (Some md_size) M t u = Inr t' \<and> mok H be32 f t' \<and> \<not> mt_hash_valid t' \<and>
    map_of (leaves P (mt_root t')) = map_merge (leaf_merge M) (map_of (leaves P (mt_root t))) (map_of (leaves P (mt_root u)))"
proof -
  let ?r = "mt_root t" and ?o = "mt_root u"
  have ok: "root_ok P pvalid nib f ?r" "root_ok P pvalid nib f ?o" using t u by (auto simp: mt_ok_def)
  have emp: "node_size P (Some md_size) r = Inr 0 \<and> leaves P r = []" if "is_empty_node r" "root_ok P pvalid nib f r"
    for r :: "('p, 'v, 'x CombinedMetadata) TrieNode"
    using that empty_root_facts(2) [of r] leaves_empty [of r] wf_not_empty [of r] by (auto simp: root_ok_def)
  consider "is_empty_node ?r" | "\<not> is_empty_node ?r" "is_empty_node ?o" | "\<not> is_empty_node ?r" "\<not> is_empty_node ?o" by blast
  then show ?thesis
  proof cases
    case 1
    then show ?thesis using emp [of ?r] ok by (simp add: MerkleTrie_merge_in_def mt_ok_def fun_eq_iff)
  next
    case 2
    then have "wf 2 ?r" "counts_ok P ?r" using ok(1) by (auto simp: root_ok_def)
    from counts_ok_size [OF this] show ?thesis
      using 2 emp [of ?o] ok by (simp add: MerkleTrie_merge_in_def MerkleTrie_size_def mt_ok_def fun_eq_iff)
  next
    case 3
    then have r: "wf 2 ?r" "counts_ok P ?r" "cache_ok f ?r" and o: "wf 2 ?o" "counts_ok P ?o" "cache_ok f ?o"
      using ok by (auto simp: root_ok_def)
    obtain r' d where run: "merge_in_node P M ?r ?o = Inr (r', d)" and post: "merge_post P pvalid nib 2 M ?r ?o r' d"
      using merge_in_node_correct [OF M(1) r(1) o(1) M(2)] by blast
    note lv = merge_leaves [OF M(1) r(1) o(1) run M(2)]
    have p: "wf 2 r'" "metadata_sum_ok r'" "hashed_nodes r' \<subseteq> hashed_nodes ?r \<union> hashed_nodes ?o"
      using post counts_okD(1) [OF r(2)] counts_okD(1) [OF o(2)] by (auto simp: merge_post_def)
    have "counts_ok P r'"
    proof (rule counts_okI [OF p(1,2)])
      have "dom (map_of (leaves P r')) \<subseteq> dom (store P t) \<union> dom (store P u)"
        unfolding lv dom_store by (auto simp: map_merge_def split: option.splits)
      then show "card (dom (map_of (leaves P r'))) < 2 ^ 31"
        using len card_mono [of "dom (store P t) \<union> dom (store P u)" "dom (map_of (leaves P r'))"]
        by (simp add: dom_store finite_dom_map_of)
      show "count_leaf m" if "map_of (leaves P r') q = Some (v, m)" for q v m
        using that cnt counts_okD(3) [OF r(2)] counts_okD(3) [OF o(2)] unfolding lv
        by (fastforce simp: map_merge_def split: option.splits sum.splits)
    qed
    moreover have "cache_ok f r'" using p(3) r(3) o(3) by (auto simp: cache_ok_def)
    ultimately show ?thesis
      using run lv p(1) counts_ok_size [OF r(1,2)] counts_ok_size [OF o(1,2)]
      by (simp add: MerkleTrie_merge_in_def MerkleTrie_size_def merge_in_checked_def mt_ok_def root_ok_def)
  qed
qed

end

end
