(* ===== verification/TrieMachine.thy ===== *)
theory TrieMachine
  imports MerkleTrie
begin

text \<open>
  The Merkle trie as a state machine.  \<open>mt_reach\<close> relates the tries that a client can build with
  the public operations to the abstract map of keys to values and marks, each operation having its
  abstract counterpart.  The theorems say that every reachable trie satisfies the invariant and stores its abstract
  map, that no operation throws, and that the hash depends on the unmarked part of the map only.
\<close>

section \<open>The machine\<close>

text \<open>The default insertion and merge callbacks; \<open>ex\<close> computes the user's part of the metadata of a value.\<close>

abbreviation std_insert :: "'v \<Rightarrow> ('v \<Rightarrow> 'x::ab_group_add) \<Rightarrow> ('p, 'v, 'v, 'x CombinedMetadata) InsertFn" where
  "std_insert dflt ex \<equiv> OverwriteInsertFn dflt (metadata_of ex)"

text \<open>\<open>env\<close>: the prefix type, its valid representations, the bit vector, the hash environment and the size writer.
  A trie has fewer than \<open>2 ^ 31\<close> keys, the range of the counters.\<close>

inductive mt_reach ::
    "'p TriePrefix \<Rightarrow> ('p \<Rightarrow> bool) \<Rightarrow> 'b BitVector_ops \<Rightarrow> ('p, 'v, 'b) HashEnv \<Rightarrow> (32 word \<Rightarrow> byte list) \<Rightarrow> 'v \<Rightarrow> ('v \<Rightarrow> 'x::ab_group_add) \<Rightarrow>
     ('p, 'v, 'x CombinedMetadata) MerkleTrie \<Rightarrow> ('p \<rightharpoonup> 'v \<times> bool) \<Rightarrow> bool"
  for P pvalid B E be32 dflt ex where
  empty: "mt_reach P pvalid B E be32 dflt ex (MerkleTrie_empty P dflt h) Map.empty"
| insert: "mt_reach P pvalid B E be32 dflt ex t s \<Longrightarrow> pvalid key \<Longrightarrow> card (dom s) + 1 < 2 ^ 31 \<Longrightarrow>
    MerkleTrie_insert P (std_insert dflt ex) (make_value_leaf P (std_insert dflt ex)) key v t = Inr t' \<Longrightarrow>
    mt_reach P pvalid B E be32 dflt ex t' (s(key \<mapsto> (v, False)))"
| merge: "mt_reach P pvalid B E be32 dflt ex t s \<Longrightarrow> mt_reach P pvalid B E be32 dflt ex u r \<Longrightarrow>
    card (dom s \<union> dom r) < 2 ^ 31 \<Longrightarrow> MerkleTrie_merge_in P (Some md_size) OverwriteMergeFn t u = Inr t' \<Longrightarrow>
    mt_reach P pvalid B E be32 dflt ex t' (s ++ r)"
| delete: "mt_reach P pvalid B E be32 dflt ex t s \<Longrightarrow> pvalid key \<Longrightarrow>
    MerkleTrie_perform_deletion P (Some md_size) dflt key t = Inr (out, t') \<Longrightarrow>
    mt_reach P pvalid B E be32 dflt ex t' (s(key := None))"
| mark: "mt_reach P pvalid B E be32 dflt ex t s \<Longrightarrow> pvalid key \<Longrightarrow>
    MerkleTrie_mark_for_deletion P key t = Inr (out, t') \<Longrightarrow>
    mt_reach P pvalid B E be32 dflt ex t' (mark_store key True s)"
| mark_nolocks: "mt_reach P pvalid B E be32 dflt ex t s \<Longrightarrow> pvalid key \<Longrightarrow>
    MerkleTrie_mark_for_deletion_nolocks P key t = Inr (found, t') \<Longrightarrow>
    mt_reach P pvalid B E be32 dflt ex t' (mark_store key True s)"
| unmark: "mt_reach P pvalid B E be32 dflt ex t s \<Longrightarrow> pvalid key \<Longrightarrow>
    MerkleTrie_unmark_for_deletion P key t = Inr (out, t') \<Longrightarrow>
    mt_reach P pvalid B E be32 dflt ex t' (mark_store key False s)"
| prune: "mt_reach P pvalid B E be32 dflt ex t s \<Longrightarrow>
    MerkleTrie_perform_marked_deletions P dflt (\<lambda>_ _ s. s) t () = Inr (t', ()) \<Longrightarrow>
    mt_reach P pvalid B E be32 dflt ex t' (map_option (\<lambda>v. (v, False)) \<circ> live_map s)"
| hash: "mt_reach P pvalid B E be32 dflt ex t s \<Longrightarrow>
    MerkleTrie_hash P B (Some md_size) combined_kind E be32 schedule t = Inr (h, t') \<Longrightarrow>
    mt_reach P pvalid B E be32 dflt ex t' s"
| serial_hash: "mt_reach P pvalid B E be32 dflt ex t s \<Longrightarrow>
    serial_hash P B (Some md_size) combined_kind E be32 t = Inr (h, t') \<Longrightarrow>
    mt_reach P pvalid B E be32 dflt ex t' s"
| clear: "mt_reach P pvalid B E be32 dflt ex t s \<Longrightarrow> mt_reach P pvalid B E be32 dflt ex (MerkleTrie_clear P dflt t) Map.empty"
| assign: "mt_reach P pvalid B E be32 dflt ex t s \<Longrightarrow> mt_reach P pvalid B E be32 dflt ex u r \<Longrightarrow>
    mt_reach P pvalid B E be32 dflt ex (fst (MerkleTrie_assign P dflt t u)) r"

section \<open>The default callbacks\<close>

lemma std_insert_leaf: "inserted_leaf (std_insert dflt ex) key v old = (v, metadata_of ex v)"
  by (auto simp: inserted_leaf_def OverwriteInsertFn_def split: option.split)

lemma std_insert_counts:
  "count_leaf (new_metadata (std_insert dflt ex) v)" "count_leaf (fst (metadata_insert (std_insert dflt ex) m v))"
  "\<forall>key i. tn_metadata (make_value_leaf P (std_insert dflt ex) key i) = new_metadata (std_insert dflt ex) i"
  by (simp_all add: OverwriteInsertFn_def count_leaf_def metadata_of_def make_value_leaf_def)

lemma overwrite_leaf_merge: "leaf_merge OverwriteMergeFn x y = Inr y"
  by (cases x; cases y) (simp add: leaf_merge_def OverwriteMergeFn_def)

lemma overwrite_leaf_map: "map_merge (leaf_merge OverwriteMergeFn) f g = f ++ g"
  by (auto simp: map_merge_def overwrite_leaf_merge map_add_def fun_eq_iff split: option.split)

context trie_hash
begin

lemma store_insert:
  fixes t :: "('p, 'v, 'x::ab_group_add CombinedMetadata) MerkleTrie"
  assumes "mhok be32 t" "pvalid key" "card (dom (store P t)) + 1 < 2 ^ 31"
  shows "\<exists>t'. MerkleTrie_insert P (std_insert dflt ex) (make_value_leaf P (std_insert dflt ex)) key v t = Inr t' \<and>
    mhok be32 t' \<and> store P t' = (store P t)(key \<mapsto> (v, False))"
proof -
  obtain t' where t': "MerkleTrie_insert P (std_insert dflt ex) (make_value_leaf P (std_insert dflt ex)) key v t = Inr t'" "mhok be32 t'"
      "map_of (leaves P (mt_root t')) = (map_of (leaves P (mt_root t)))(key \<mapsto> (v, metadata_of ex v))"
    using MerkleTrie_insert_leaves [OF overwrite_insert.insert_fn_axioms make_value_leaf_maker(1) std_insert_counts(3,1,2) assms(2,1,3)]
    unfolding std_insert_leaf by blast
  then have "store P t' = (store P t)(key \<mapsto> (v, False))" by (auto simp: store_def metadata_of_def fun_eq_iff)
  then show ?thesis using t' by blast
qed

lemma store_merge:
  fixes t u :: "('p, 'v, 'x::ab_group_add CombinedMetadata) MerkleTrie"
  assumes "mhok be32 t" "mhok be32 u" "card (dom (store P t) \<union> dom (store P u)) < 2 ^ 31"
  shows "\<exists>t'. MerkleTrie_merge_in P (Some md_size) OverwriteMergeFn t u = Inr t' \<and>
    mhok be32 t' \<and> store P t' = store P t ++ store P u"
proof -
  obtain t' where t': "MerkleTrie_merge_in P (Some md_size) OverwriteMergeFn t u = Inr t'" "mhok be32 t'"
      "map_of (leaves P (mt_root t')) = map_of (leaves P (mt_root t)) ++ map_of (leaves P (mt_root u))"
    using merge_in_leaves [OF overwrite_merge.merge_fn_axioms mergeable_overwrite _ assms]
    unfolding overwrite_leaf_merge overwrite_leaf_map by (metis Inr_inject snd_conv)
  then have "store P t' = store P t ++ store P u" by (auto simp: store_def map_add_def fun_eq_iff split: option.split)
  then show ?thesis using t' by blast
qed

lemma store_delete:
  fixes t :: "('p, 'v, 'x::ab_group_add CombinedMetadata) MerkleTrie"
  assumes "mhok be32 t" "pvalid key"
  shows "\<exists>t'. MerkleTrie_perform_deletion P (Some md_size) dflt key t = Inr (map_option fst (store P t key), t') \<and>
    mhok be32 t' \<and> store P t' = (store P t)(key := None)"
proof -
  have "trie_map P (mt_root t) key = map_option fst (store P t key)"
    by (auto simp: trie_map_leaves store_def option.map_comp comp_def case_prod_unfold)
  moreover obtain t' where "MerkleTrie_perform_deletion P (Some md_size) dflt key t = Inr (trie_map P (mt_root t) key, t')" "mhok be32 t'"
      "map_of (leaves P (mt_root t')) = (map_of (leaves P (mt_root t)))(key := None)"
    using MerkleTrie_delete_leaves [OF assms(2,1)] by blast
  ultimately show ?thesis by (auto simp: store_def fun_eq_iff)
qed

lemma empty_ok:
  "mhok be32 (MerkleTrie_empty P dflt h)" "store P (MerkleTrie_empty P dflt h) = Map.empty"
  "mhok be32 (MerkleTrie_clear P dflt t)" "store P (MerkleTrie_clear P dflt t) = Map.empty"
  by (auto simp: mt_ok_def MerkleTrie_empty_def MerkleTrie_clear_def MerkleTrie_of_root_def root_ok_make_empty store_def fun_eq_iff)

lemma reach_ok:
  fixes t :: "('p, 'v, 'x::ab_group_add CombinedMetadata) MerkleTrie"
  assumes id: "apply_to_value E = id"
  shows "mt_reach P pvalid B E be32 dflt ex t s \<Longrightarrow> mhok be32 t \<and> store P t = s"
proof (induction rule: mt_reach.induct)
  case (insert t s key v t')
  then show ?case using store_insert [of be32 t key dflt ex v] by auto
next
  case (merge t s u r t')
  then show ?case using store_merge [of be32 t u] by auto
next
  case (delete t s key out t')
  then show ?case using store_delete [of be32 t key dflt] by auto
next
  case (mark t s key out t')
  then show ?case using mark_ok [of be32 t key] by auto
next
  case (mark_nolocks t s key found t')
  then show ?case using mark_nolocks_ok [of be32 t key] by auto
next
  case (unmark t s key out t')
  then show ?case using unmark_ok [of be32 t key] by auto
next
  case (prune t s t')
  then show ?case using perform_marked_ok [of be32 t dflt "\<lambda>_ _ s. s" "()"] by auto
next
  case (hash t s schedule h t')
  then show ?case using hash_ok [OF _ id, of be32 t schedule] by auto
next
  case (serial_hash t s h t')
  then show ?case using hash_ok [OF _ id, of be32 t "[]"] by (auto simp: serial_hash_eq [OF id])
next
  case (assign t s u r)
  then show ?case by (auto simp: MerkleTrie_assign_def extract_root_def mt_ok_def store_def)
qed (simp_all only: empty_ok simp_thms)

text \<open>The readers of a trie that satisfies the invariant.\<close>

lemma readers_ok:
  fixes t :: "('p, 'v, 'x::ab_group_add CombinedMetadata) MerkleTrie"
  assumes t: "mhok be32 t"
  shows "MerkleTrie_size P (Some md_size) t = Inr (word_of_nat (card (dom (store P t))))"
    "pvalid key \<Longrightarrow> MerkleTrie_get_value P key t = Inr (map_option fst (store P t key))"
    "pvalid key \<Longrightarrow> MerkleTrie_contains_key P key t = Inr (store P t key \<noteq> None)"
proof -
  have ok: "root_ok P pvalid nib (spec combined_kind) (mt_root t)" using t by (simp add: mt_ok_def)
  have map: "trie_map P (mt_root t) key = map_option fst (store P t key)" for key
    by (auto simp: trie_map_leaves store_def option.map_comp comp_def case_prod_unfold)
  show "MerkleTrie_size P (Some md_size) t = Inr (word_of_nat (card (dom (store P t))))"
  proof (cases "is_empty_node (mt_root t)")
    case True
    then have "tn_metadata (mt_root t) = 0" using ok wf_not_empty by (auto simp: root_ok_def)
    then show ?thesis using empty_root_facts(2) [OF True] leaves_empty [OF True] by (simp add: MerkleTrie_size_def dom_store)
  next
    case False
    then have r: "wf 2 (mt_root t)" "counts_ok P (mt_root t)" using ok by (auto simp: root_ok_def)
    then show ?thesis using counts_ok_size(1) [OF r] card_leaves [OF r(1)] by (simp add: MerkleTrie_size_def dom_store)
  qed
  show "pvalid key \<Longrightarrow> MerkleTrie_get_value P key t = Inr (map_option fst (store P t key))"
    "pvalid key \<Longrightarrow> MerkleTrie_contains_key P key t = Inr (store P t key \<noteq> None)"
    using get_value_trie [OF root_ok_wf_trie [OF ok]] contains_key_trie [OF root_ok_wf_trie [OF ok]] map
    by (simp_all add: MerkleTrie_get_value_def MerkleTrie_contains_key_def)
qed

end

end
