(* ===== verification/TrieQuery.thy ===== *)
theory TrieQuery
  imports MerkleTrie
begin

text \<open>
  Range queries and traversals of \<^verbatim>\<open>trie/merkle_trie.h\<close>: \<^verbatim>\<open>apply\<close>, \<^verbatim>\<open>apply_geq_key\<close>, \<^verbatim>\<open>apply_lt_key\<close>,
  \<^verbatim>\<open>endow_lt_key\<close>, \<^verbatim>\<open>metadata_traversal\<close>, \<^verbatim>\<open>get_subnode_ref_nolocks\<close>,
  \<^verbatim>\<open>metadata_integrity_check\<close> and the iterator.  A callback with effects threads a state.
\<close>

section \<open>Operations\<close>

text \<open>\<^verbatim>\<open>apply\<close> on a mutable node checks the size of every leaf first.\<close>

fun apply_node ::
    "'p TriePrefix \<Rightarrow> ('m \<Rightarrow> 64 word) option \<Rightarrow> ('v \<Rightarrow> 's \<Rightarrow> 's) \<Rightarrow> ('p, 'v, 'm) TrieNode \<Rightarrow> 's \<Rightarrow> 's res" where
  "apply_node P hs func (TrieNode ch p l hv m h) s =
     (if l = MAX_KEY_LEN_BITS P then
        if cm_size ch \<noteq> 0 then throw ''leaves have no children''
        else rbind (node_size P hs (TrieNode ch p l hv m h)) (\<lambda>sz.
          if sz \<noteq> 1 then throw ''invalid size in apply''
          else rbind (cm_value ch) (\<lambda>v. Inr (func v s)))
      else rfold (\<lambda>(bb, c) s. if bb > MAX_BRANCH_VALUE then throw ''invalid branch bits!'' else apply_node P hs func c s)
        (cm_list ch) s)"

text \<open>The \<^verbatim>\<open>const\<close> overload.\<close>

fun apply_const :: "'p TriePrefix \<Rightarrow> ('v \<Rightarrow> 's \<Rightarrow> 's) \<Rightarrow> ('p, 'v, 'm) TrieNode \<Rightarrow> 's \<Rightarrow> 's res" where
  "apply_const P func (TrieNode ch p l hv m h) s =
     (if l = MAX_KEY_LEN_BITS P then rbind (cm_value ch) (\<lambda>v. Inr (func v s))
      else rfold (\<lambda>(bb, c) s. apply_const P func c s) (cm_list ch) s)"

text \<open>
  \<^verbatim>\<open>apply_geq_key\<close> of a trie with locks: a leaf it reaches itself gets the callback of two arguments
  (\<open>func2\<close>), a subtree that is wholly in range is left to \<^verbatim>\<open>apply\<close>, which calls the one of one argument.
\<close>

fun apply_geq_key ::
    "'p TriePrefix \<Rightarrow> ('m \<Rightarrow> 64 word) option \<Rightarrow> ('p \<Rightarrow> 'v \<Rightarrow> 's \<Rightarrow> 's) \<Rightarrow> ('v \<Rightarrow> 's \<Rightarrow> 's) \<Rightarrow> 'p \<Rightarrow> ('p, 'v, 'm) TrieNode \<Rightarrow> 's \<Rightarrow> 's res" where
  "apply_geq_key P hs func2 func min_apply_key (TrieNode ch p l hv m h) s =
     (if l = MAX_KEY_LEN_BITS P then
        if \<not> prefix_less P p min_apply_key then
          rbind (cm_value ch) (\<lambda>v. if cm_size ch \<noteq> 0 then throw ''what the fuck'' else Inr (func2 p v s))
        else Inr s
      else rbind (prefix_truncate P min_apply_key l) (\<lambda>min_apply_key_truncated.
        if prefix_less P min_apply_key_truncated p then
          rfold (\<lambda>(bb, c) s. apply_node P hs func c s) (cm_list ch) s
        else if prefix_less P p min_apply_key_truncated then Inr s
        else rbind (get_branch_bits P min_apply_key l) (\<lambda>min_branch_bits.
          rfold (\<lambda>(bb, c) s.
              if bb = min_branch_bits then apply_geq_key P hs func2 func min_apply_key c s
              else if bb > min_branch_bits then apply_node P hs func c s
              else Inr s)
            (cm_list ch) s)))"

fun apply_lt_key ::
    "'p TriePrefix \<Rightarrow> ('m \<Rightarrow> 64 word) option \<Rightarrow> ('v \<Rightarrow> 's \<Rightarrow> 's) \<Rightarrow> 'p \<Rightarrow> ('p, 'v, 'm) TrieNode \<Rightarrow> 's \<Rightarrow> 's res" where
  "apply_lt_key P hs func threshold_key (TrieNode ch p l hv m h) s =
     (if l = MAX_KEY_LEN_BITS P then
        if prefix_less P p threshold_key then
          rbind (cm_value ch) (\<lambda>v. if cm_size ch \<noteq> 0 then throw ''what the fuck'' else Inr (func v s))
        else Inr s
      else rbind (prefix_truncate P threshold_key l) (\<lambda>threshold_key_truncated.
        if prefix_less P p threshold_key_truncated then
          rfold (\<lambda>(bb, c) s. apply_node P hs func c s) (cm_list ch) s
        else if prefix_less P threshold_key_truncated p then Inr s
        else rbind (get_branch_bits P threshold_key l) (\<lambda>min_branch_bits.
          rfold (\<lambda>(bb, c) s.
              if bb = min_branch_bits then apply_lt_key P hs func threshold_key c s
              else if bb < min_branch_bits then apply_node P hs func c s
              else Inr s)
            (cm_list ch) s)))"

text \<open>\<open>endow\<close> reads the field \<^verbatim>\<open>int64_t endow\<close> of the user's metadata.\<close>

fun endow_lt_key ::
    "'p TriePrefix \<Rightarrow> ('m \<Rightarrow> 64 word) \<Rightarrow> 'p \<Rightarrow> ('p, 'v, 'm) TrieNode \<Rightarrow> 64 word res" where
  "endow_lt_key P endow max_key (TrieNode ch p l hv m h) =
     (if l = MAX_KEY_LEN_BITS P then
        if prefix_less P p max_key then
          if cm_size ch \<noteq> 0 then throw ''what the fuck'' else Inr (endow m)
        else Inr 0
      else rbind (prefix_truncate P max_key l) (\<lambda>max_key_truncated.
        if prefix_less P p max_key_truncated then Inr (endow m)
        else if prefix_less P max_key_truncated p then Inr 0
        else rbind (get_branch_bits P max_key l) (\<lambda>max_branch_bits.
          rfold (\<lambda>(bb, c) valid_endow.
              if bb = max_branch_bits then rbind (endow_lt_key P endow max_key c) (\<lambda>e. Inr (valid_endow + e))
              else if bb < max_branch_bits then Inr (valid_endow + endow (tn_metadata c))
              else Inr valid_endow)
            (cm_list ch) 0)))"

declare apply_node.simps [simp del] apply_const.simps [simp del] apply_geq_key.simps [simp del] apply_lt_key.simps [simp del]
  endow_lt_key.simps [simp del]

section \<open>Order of the keys below a node\<close>

lemma lexless_append:
  "length xs = length ys \<Longrightarrow> lexless (xs @ as) (ys @ bs) \<longleftrightarrow> lexless xs ys \<or> xs = ys \<and> lexless as bs"
  by (induction xs ys rule: list_induct2) auto

lemma lexless_take:
  assumes "length xs = length ys" "lexless (take n xs) (take n ys)"
  shows "lexless xs ys"
  using lexless_append [of "take n xs" "take n ys" "drop n xs" "drop n ys"] assms by simp

text \<open>All keys below a node are smaller than a key, or none is.\<close>

definition one_side :: "'p TriePrefix \<Rightarrow> 'p \<Rightarrow> bool \<Rightarrow> ('p, 'v, 'm) TrieNode \<Rightarrow> bool" where
  "one_side P key b t \<longleftrightarrow> (\<forall>(q, v) \<in> set (entries P t). prefix_less P q key = b)"

abbreviation below :: "'p TriePrefix \<Rightarrow> 'p \<Rightarrow> ('p \<times> 'a) list \<Rightarrow> ('p \<times> 'a) list" where
  "below P key \<equiv> filter (\<lambda>(q, x). prefix_less P q key)"

abbreviation from_key :: "'p TriePrefix \<Rightarrow> 'p \<Rightarrow> ('p \<times> 'a) list \<Rightarrow> ('p \<times> 'a) list" where
  "from_key P key \<equiv> filter (\<lambda>(q, x). \<not> prefix_less P q key)"

lemma one_side_entries:
  "one_side P key True t \<Longrightarrow> below P key (entries P t) = entries P t"
  "one_side P key True t \<Longrightarrow> from_key P key (entries P t) = []"
  "one_side P key False t \<Longrightarrow> below P key (entries P t) = []"
  "one_side P key False t \<Longrightarrow> from_key P key (entries P t) = entries P t"
  by (auto simp: one_side_def filter_id_conv filter_empty_conv)

context trie_prefix
begin

text \<open>A key against an inner node: where the truncated key is smaller or larger than the prefix of the node, all keys below
  the node are on one side of the key; else the branch bits of the key split the children.\<close>

lemma key_order:
  assumes t: "wf k (TrieNode (Children cs) p (4 * d) hv m h)" and key: "pvalid key"
  obtains kt where "prefix_truncate P key (4 * d) = Inr kt" "get_branch_bits P key (4 * d) = Inr (nib key ! d)"
    "prefix_less P p kt \<longrightarrow> (\<forall>(bb, c) \<in> set cs. one_side P key True c)"
    "prefix_less P kt p \<longrightarrow> (\<forall>(bb, c) \<in> set cs. one_side P key False c)"
    "\<not> prefix_less P p kt \<longrightarrow> \<not> prefix_less P kt p \<longrightarrow>
      (\<forall>(bb, c) \<in> set cs. (bb < nib key ! d \<longrightarrow> one_side P key True c) \<and> (nib key ! d < bb \<longrightarrow> one_side P key False c))"
proof -
  have w: "pvalid p" "4 * d < prefix_bits P" "branch k (take d (nib p)) cs" "length (take d (nib p)) = d"
      "drop d (nib p) = replicate (prefix_bits P div 4 - d) 0"
  proof -
    from t obtain d' where "4 * d = 4 * d'" "pvalid p" "4 * d' < prefix_bits P" "branch k (take d' (nib p)) cs"
        "length (take d' (nib p)) = d'" "drop d' (nib p) = replicate (prefix_bits P div 4 - d') 0"
      by (rule wf_ChildrenE)
    then show "pvalid p" "4 * d < prefix_bits P" "branch k (take d (nib p)) cs" "length (take d (nib p)) = d"
        "drop d (nib p) = replicate (prefix_bits P div 4 - d) 0" by simp_all
  qed
  obtain kt where kt: "prefix_truncate P key (4 * d) = Inr kt" "pvalid kt"
      "nib kt = take d (nib key) @ replicate (prefix_bits P div 4 - d) 0"
    using truncate_ok [OF key w(2)] by blast
  have len: "length (nib key) = prefix_bits P div 4" "length (nib p) = prefix_bits P div 4" "d < prefix_bits P div 4"
    using nib_length key w bits_eq by auto
  have np: "nib p = take d (nib p) @ replicate (prefix_bits P div 4 - d) 0"
    using w(5) append_take_drop_id [of d "nib p"] by simp
  have lt: "prefix_less P p kt \<longleftrightarrow> lexless (take d (nib p)) (take d (nib key))"
    "prefix_less P kt p \<longleftrightarrow> lexless (take d (nib key)) (take d (nib p))"
    unfolding less_iff [OF w(1) kt(2)] less_iff [OF kt(2) w(1)]
    by (subst np, simp only: kt(3), subst lexless_append, use len in simp_all)+
  have below: "pvalid q \<and> take (Suc d) (nib q) = take d (nib p) @ [bb] \<and> length (nib q) = length (nib key)"
    if "(bb, c) \<in> set cs" "(q, v) \<in> set (entries P c)" for bb c q v
  proof -
    have "wf k c" using w(3) that(1) by (auto simp: branch_ok_def)
    then have "pvalid q" "covers nib c q" using entries_covers [OF _ that(2)] by blast+
    then show ?thesis using branch_covers [OF w(3) that(1)] w(4) nib_length key by auto
  qed
  have pre: "take d (nib q) = take d (nib p) \<and> nib q ! d = bb" if "(bb, c) \<in> set cs" "(q, v) \<in> set (entries P c)" for bb c q v
    using below [OF that] branch_nth [of "take d (nib p)" "nib q" bb] w(4) by simp
  have less: "prefix_less P q key" if "(bb, c) \<in> set cs" "(q, v) \<in> set (entries P c)"
      "lexless (take d (nib p)) (take d (nib key)) \<or> take d (nib p) = take d (nib key) \<and> bb < nib key ! d" for bb c q v
    using below [OF that(1,2)] pre [OF that(1,2)] that(3) lexless_take [of "nib q" "nib key" d]
      lexless_at_diff [of d "nib q" "nib key"] less_iff [OF _ key] len by auto
  have greater: "\<not> prefix_less P q key" if "(bb, c) \<in> set cs" "(q, v) \<in> set (entries P c)"
      "lexless (take d (nib key)) (take d (nib p)) \<or> take d (nib p) = take d (nib key) \<and> nib key ! d < bb" for bb c q v
    using below [OF that(1,2)] pre [OF that(1,2)] that(3) lexless_take [of "nib key" "nib q" d] lexless_trans [of "nib q" "nib key" "nib q"]
      lexless_at_diff [of d "nib key" "nib q"] less_iff [OF _ key] len by auto
  have "\<not> prefix_less P p kt \<longrightarrow> \<not> prefix_less P kt p \<longrightarrow> take d (nib p) = take d (nib key)"
    using lexless_linear unfolding lt by blast
  then show thesis
    using less greater that [OF kt(1) branch_bits [OF key w(2)]] unfolding one_side_def lt by fastforce
qed

end

section \<open>What the traversals visit\<close>

text \<open>Every leaf counts as one key.\<close>

definition leaf_sized :: "'p TriePrefix \<Rightarrow> ('m \<Rightarrow> 64 word) option \<Rightarrow> ('p, 'v, 'm) TrieNode \<Rightarrow> bool" where
  "leaf_sized P hs t \<longleftrightarrow> (\<forall>(k, v, m) \<in> set (leaves P t). case hs of None \<Rightarrow> True | Some f \<Rightarrow> f m = 1)"

lemma rfold_fold:
  assumes "\<And>b c s. (b, c) \<in> set cs \<Longrightarrow> f (b, c) s = Inr (fold g (h b c) s)"
  shows "rfold f cs s = Inr (fold g (concat (map (\<lambda>(b, c). h b c) cs)) s)"
  using assms
proof (induction cs arbitrary: s)
  case (Cons x cs)
  obtain b c where "x = (b, c)" by (cases x)
  then show ?case using Cons.prems [of b c s] Cons.IH [OF Cons.prems] by simp
qed simp

lemma map_snd_filter:
  "map f (filter Q (concat (map (\<lambda>(b, c). h c) cs))) = concat (map (\<lambda>(b, c). map f (filter Q (h c))) cs)"
  by (induction cs) auto

lemma sum_list_concat_map: "sum_list (concat (map (\<lambda>(b, c). h c) cs)) = sum_list (map (\<lambda>(b, c). sum_list (h c)) cs)"
  by (induction cs) auto

lemma endow_sum:
  fixes endow :: "'m::ab_group_add \<Rightarrow> 'w::ab_group_add"
  assumes "\<And>a b. endow (a + b) = endow a + endow b" "endow 0 = 0"
  shows "endow (sum_list xs) = sum_list (map endow xs)"
  by (induction xs) (simp_all add: assms)

lemma rfold_sum:
  fixes g :: "nat \<Rightarrow> 'n \<Rightarrow> 'w::comm_monoid_add"
  assumes "\<And>b c e. (b, c) \<in> set cs \<Longrightarrow> f (b, c) e = Inr (e + g b c)"
  shows "rfold f cs 0 = Inr (sum_list (map (\<lambda>(b, c). g b c) cs))"
proof -
  have "rfold f cs e = Inr (e + sum_list (map (\<lambda>(b, c). g b c) cs))" for e
    using assms
  proof (induction cs arbitrary: e)
    case (Cons x cs)
    obtain b c where "x = (b, c)" by (cases x)
    then show ?case using Cons.prems [of b c e] Cons.IH [OF Cons.prems] by (simp add: add.assoc)
  qed simp
  then show ?thesis by simp
qed

context trie_prefix
begin

lemma one_side_leaves:
  "one_side P key True t \<Longrightarrow> below P key (leaves P t) = leaves P t"
  "one_side P key False t \<Longrightarrow> below P key (leaves P t) = []"
  by (force simp: one_side_def entries_leaves filter_id_conv filter_empty_conv)+

lemma leaf_sized_child:
  "leaf_sized P hs (TrieNode (Children cs) p l hv m h) \<Longrightarrow> l < prefix_bits P \<Longrightarrow> (bb, c) \<in> set cs \<Longrightarrow> leaf_sized P hs c"
  by (force simp: leaf_sized_def)

lemma branch_le_max: "branch k pi cs \<Longrightarrow> (bb, c) \<in> set cs \<Longrightarrow> bb \<le> MAX_BRANCH_VALUE"
proof -
  assume "branch k pi cs" "(bb, c) \<in> set cs"
  then have "wf k c" "take (Suc (length pi)) (nib (tn_prefix c)) = pi @ [bb]" by (auto simp: branch_ok_def)
  then have "bb \<in> set (nib (tn_prefix c))" using in_set_takeD [of bb "Suc (length pi)" "nib (tn_prefix c)"] by simp
  then show ?thesis using nib_bound [OF wf_prefix [OF \<open>wf k c\<close>]] by (fastforce simp: MAX_BRANCH_VALUE_def)
qed

lemma apply_node_entries:
  "wf k t \<Longrightarrow> leaf_sized P hs t \<Longrightarrow> apply_node P hs func t s = Inr (fold func (map snd (entries P t)) s)"
proof (induction t arbitrary: s rule: node_induct)
  case (Value v p l hv m h)
  then show ?case by (auto simp: apply_node.simps leaf_sized_def node_size_def Let_def word_sless_alt split: option.splits)
next
  case (Children cs p l hv m h)
  from Children.prems(1) obtain d where d: "l = 4 * d" "4 * d < prefix_bits P" "branch k (take d (nib p)) cs" by (rule wf_ChildrenE)
  have "apply_node P hs func c s = Inr (fold func (map snd (entries P c)) s)" if "(bb, c) \<in> set cs" for bb c s
    using Children.IH [OF that] leaf_sized_child [OF Children.prems(2) _ that] d that by (auto simp: branch_ok_def)
  then have "rfold (\<lambda>(bb, c) s. if bb > MAX_BRANCH_VALUE then throw ''invalid branch bits!'' else apply_node P hs func c s) cs s =
      Inr (fold func (concat (map (\<lambda>(bb, c). map snd (entries P c)) cs)) s)"
    using branch_le_max [OF d(3)] by (intro rfold_fold) (auto simp: linorder_not_less)
  then show ?case
    using d by (simp add: apply_node.simps map_concat case_prod_unfold comp_def del: fold_map)
qed

lemma apply_const_entries: "wf k t \<Longrightarrow> apply_const P func t s = Inr (fold func (map snd (entries P t)) s)"
proof (induction t arbitrary: s rule: node_induct)
  case (Value v p l hv m h)
  then show ?case by (auto simp: apply_const.simps)
next
  case (Children cs p l hv m h)
  from Children.prems(1) obtain d where d: "l = 4 * d" "4 * d < prefix_bits P" "branch k (take d (nib p)) cs" by (rule wf_ChildrenE)
  have "apply_const P func c s = Inr (fold func (map snd (entries P c)) s)" if "(bb, c) \<in> set cs" for bb c s
    using Children.IH [OF that] d that by (auto simp: branch_ok_def)
  then have "rfold (\<lambda>(bb, c) s. apply_const P func c s) cs s =
      Inr (fold func (concat (map (\<lambda>(bb, c). map snd (entries P c)) cs)) s)"
    by (intro rfold_fold) auto
  then show ?case
    using d by (simp add: apply_const.simps map_concat case_prod_unfold comp_def del: fold_map)
qed

lemma apply_lt_key_entries:
  "wf k t \<Longrightarrow> leaf_sized P hs t \<Longrightarrow> pvalid key \<Longrightarrow>
    apply_lt_key P hs func key t s = Inr (fold func (map snd (below P key (entries P t))) s)"
proof (induction t arbitrary: s rule: node_induct)
  case (Value v p l hv m h)
  then show ?case by (auto simp: apply_lt_key.simps)
next
  case (Children cs p l hv m h)
  from Children.prems(1) obtain d where d: "l = 4 * d" "4 * d < prefix_bits P" "branch k (take d (nib p)) cs" by (rule wf_ChildrenE)
  have sub: "wf k c" "leaf_sized P hs c" if "(bb, c) \<in> set cs" for bb c
    using d that leaf_sized_child [OF Children.prems(2) _ that] by (auto simp: branch_ok_def)
  let ?h = "\<lambda>(bb, c). map snd (below P key (entries P c))"
  have flat: "map snd (below P key (entries P (TrieNode (Children cs) p l hv m h))) = concat (map ?h cs)"
    using d by (simp add: map_snd_filter)
  show ?case
  proof (rule key_order [OF Children.prems(1) [unfolded d(1)] Children.prems(3)])
    fix kt
    assume kt: "prefix_truncate P key (4 * d) = Inr kt" "get_branch_bits P key (4 * d) = Inr (nib key ! d)"
    and less: "prefix_less P p kt \<longrightarrow> (\<forall>(bb, c) \<in> set cs. one_side P key True c)"
    and greater: "prefix_less P kt p \<longrightarrow> (\<forall>(bb, c) \<in> set cs. one_side P key False c)"
    and mid: "\<not> prefix_less P p kt \<longrightarrow> \<not> prefix_less P kt p \<longrightarrow>
      (\<forall>(bb, c) \<in> set cs. (bb < nib key ! d \<longrightarrow> one_side P key True c) \<and> (nib key ! d < bb \<longrightarrow> one_side P key False c))"
    have "rfold (\<lambda>(bb, c) s. apply_node P hs func c s) cs s = Inr (fold func (concat (map ?h cs)) s)" if "prefix_less P p kt"
      using that less sub by (intro rfold_fold) (fastforce simp: apply_node_entries one_side_entries)
    moreover have "concat (map ?h cs) = []" if "prefix_less P kt p" using that greater by (fastforce simp: one_side_entries)
    moreover have "rfold (\<lambda>(bb, c) s. if bb = nib key ! d then apply_lt_key P hs func key c s
        else if bb < nib key ! d then apply_node P hs func c s else Inr s) cs s = Inr (fold func (concat (map ?h cs)) s)"
      if mid': "\<not> prefix_less P p kt" "\<not> prefix_less P kt p"
    proof (rule rfold_fold, unfold prod.case)
      fix bb c s assume c: "(bb, c) \<in> set cs"
      then have "bb < nib key ! d \<longrightarrow> one_side P key True c" "nib key ! d < bb \<longrightarrow> one_side P key False c" using mid mid' by auto
      then show "(if bb = nib key ! d then apply_lt_key P hs func key c s else if bb < nib key ! d then apply_node P hs func c s else Inr s) =
          Inr (fold func (map snd (below P key (entries P c))) s)"
        using Children.IH [OF c sub [OF c] Children.prems(3)] apply_node_entries [OF sub [OF c]]
        by (cases bb "nib key ! d" rule: linorder_cases) (simp_all add: one_side_entries)
    qed
    ultimately show ?case
      unfolding flat using d kt by (auto simp: apply_lt_key.simps simp del: concat_eq_Nil_conv)
  qed
qed

lemma apply_geq_key_entries:
  assumes "\<And>q v. func2 q v = func v"
  shows "wf k t \<Longrightarrow> leaf_sized P hs t \<Longrightarrow> pvalid key \<Longrightarrow>
    apply_geq_key P hs func2 func key t s = Inr (fold func (map snd (from_key P key (entries P t))) s)"
proof (induction t arbitrary: s rule: node_induct)
  case (Value v p l hv m h)
  then show ?case using assms by (auto simp: apply_geq_key.simps)
next
  case (Children cs p l hv m h)
  from Children.prems(1) obtain d where d: "l = 4 * d" "4 * d < prefix_bits P" "branch k (take d (nib p)) cs" by (rule wf_ChildrenE)
  have sub: "wf k c" "leaf_sized P hs c" if "(bb, c) \<in> set cs" for bb c
    using d that leaf_sized_child [OF Children.prems(2) _ that] by (auto simp: branch_ok_def)
  let ?h = "\<lambda>(bb, c). map snd (from_key P key (entries P c))"
  have flat: "map snd (from_key P key (entries P (TrieNode (Children cs) p l hv m h))) = concat (map ?h cs)"
    using d by (simp add: map_snd_filter)
  show ?case
  proof (rule key_order [OF Children.prems(1) [unfolded d(1)] Children.prems(3)])
    fix kt
    assume kt: "prefix_truncate P key (4 * d) = Inr kt" "get_branch_bits P key (4 * d) = Inr (nib key ! d)"
    and less: "prefix_less P p kt \<longrightarrow> (\<forall>(bb, c) \<in> set cs. one_side P key True c)"
    and greater: "prefix_less P kt p \<longrightarrow> (\<forall>(bb, c) \<in> set cs. one_side P key False c)"
    and mid: "\<not> prefix_less P p kt \<longrightarrow> \<not> prefix_less P kt p \<longrightarrow>
      (\<forall>(bb, c) \<in> set cs. (bb < nib key ! d \<longrightarrow> one_side P key True c) \<and> (nib key ! d < bb \<longrightarrow> one_side P key False c))"
    have "rfold (\<lambda>(bb, c) s. apply_node P hs func c s) cs s = Inr (fold func (concat (map ?h cs)) s)" if "prefix_less P kt p"
      using that greater sub by (intro rfold_fold) (fastforce simp: apply_node_entries one_side_entries)
    moreover have "concat (map ?h cs) = []" if "prefix_less P p kt" using that less by (fastforce simp: one_side_entries)
    moreover have "rfold (\<lambda>(bb, c) s. if bb = nib key ! d then apply_geq_key P hs func2 func key c s
        else if bb > nib key ! d then apply_node P hs func c s else Inr s) cs s = Inr (fold func (concat (map ?h cs)) s)"
      if mid': "\<not> prefix_less P p kt" "\<not> prefix_less P kt p"
    proof (rule rfold_fold, unfold prod.case)
      fix bb c s assume c: "(bb, c) \<in> set cs"
      then have "bb < nib key ! d \<longrightarrow> one_side P key True c" "nib key ! d < bb \<longrightarrow> one_side P key False c" using mid mid' by auto
      then show "(if bb = nib key ! d then apply_geq_key P hs func2 func key c s else if bb > nib key ! d then apply_node P hs func c s else Inr s) =
          Inr (fold func (map snd (from_key P key (entries P c))) s)"
        using Children.IH [OF c sub [OF c] Children.prems(3)] apply_node_entries [OF sub [OF c]]
        by (cases bb "nib key ! d" rule: linorder_cases) (simp_all add: one_side_entries)
    qed
    ultimately show ?case
      unfolding flat using d kt by (auto simp: apply_geq_key.simps simp del: concat_eq_Nil_conv)
  qed
qed


lemma endow_lt_key_leaves:
  fixes t :: "('p, 'v, 'm::ab_group_add) TrieNode"
  assumes add: "\<And>a b. endow (a + b) = endow a + endow b" "endow 0 = 0"
  shows "wf k t \<Longrightarrow> metadata_sum_ok t \<Longrightarrow> pvalid key \<Longrightarrow>
    endow_lt_key P endow key t = Inr (sum_list (map (\<lambda>(q, v, m). endow m) (below P key (leaves P t))))"
proof (induction t rule: node_induct)
  case (Value v p l hv m h)
  then show ?case by (auto simp: endow_lt_key.simps)
next
  case (Children cs p l hv m h)
  from Children.prems(1) obtain d where d: "l = 4 * d" "4 * d < prefix_bits P" "branch k (take d (nib p)) cs" by (rule wf_ChildrenE)
  let ?s = "\<lambda>c. sum_list (map (\<lambda>(q, v, m). endow m) (below P key (leaves P c)))"
  have sub: "wf k c" "metadata_sum_ok c" if "(bb, c) \<in> set cs" for bb c
    using d that Children.prems(2) by (auto simp: branch_ok_def)
  have flat: "?s (TrieNode (Children cs) p l hv m h) = sum_list (map (\<lambda>(bb, c). ?s c) cs)"
    using d by (simp add: map_snd_filter sum_list_concat_map)
  have whole: "endow (tn_metadata c) = ?s c" if "wf k c" "metadata_sum_ok c" "one_side P key True c" for c :: "('p, 'v, 'm) TrieNode"
    using metadata_leaves [OF that(1,2)] one_side_leaves(1) [OF that(3)] by (simp add: endow_sum [OF add] comp_def case_prod_unfold)
  show ?case
  proof (rule key_order [OF Children.prems(1) [unfolded d(1)] Children.prems(3)])
    fix kt
    assume kt: "prefix_truncate P key (4 * d) = Inr kt" "get_branch_bits P key (4 * d) = Inr (nib key ! d)"
    and less: "prefix_less P p kt \<longrightarrow> (\<forall>(bb, c) \<in> set cs. one_side P key True c)"
    and greater: "prefix_less P kt p \<longrightarrow> (\<forall>(bb, c) \<in> set cs. one_side P key False c)"
    and mid: "\<not> prefix_less P p kt \<longrightarrow> \<not> prefix_less P kt p \<longrightarrow>
      (\<forall>(bb, c) \<in> set cs. (bb < nib key ! d \<longrightarrow> one_side P key True c) \<and> (nib key ! d < bb \<longrightarrow> one_side P key False c))"
    have "endow m = sum_list (map (\<lambda>(bb, c). ?s c) cs)" if "prefix_less P p kt"
    proof -
      have "m = sum_list (map (\<lambda>(bb, c). tn_metadata c) cs)" using Children.prems(2) by simp
      then have "endow m = sum_list (map (\<lambda>(bb, c). endow (tn_metadata c)) cs)" by (simp add: endow_sum [OF add] comp_def case_prod_unfold)
      also have "map (\<lambda>(bb, c). endow (tn_metadata c)) cs = map (\<lambda>(bb, c). ?s c) cs"
        using less that sub whole by fastforce
      finally show ?thesis .
    qed
    moreover have "sum_list (map (\<lambda>(bb, c). ?s c) cs) = 0" if "prefix_less P kt p"
    proof -
      have "map (\<lambda>(bb, c). ?s c) cs = map (\<lambda>_. 0) cs"
        by (intro map_cong refl) (use greater that in \<open>auto simp: one_side_leaves\<close>)
      then show ?thesis by (simp only: sum_list_0)
    qed
    moreover have "rfold (\<lambda>(bb, c) valid_endow.
              if bb = nib key ! d then rbind (endow_lt_key P endow key c) (\<lambda>e. Inr (valid_endow + e))
              else if bb < nib key ! d then Inr (valid_endow + endow (tn_metadata c))
              else Inr valid_endow) cs 0 = Inr (sum_list (map (\<lambda>(bb, c). ?s c) cs))"
      if mid': "\<not> prefix_less P p kt" "\<not> prefix_less P kt p"
    proof (rule rfold_sum, unfold prod.case)
      fix bb c e assume c: "(bb, c) \<in> set cs"
      then have "bb < nib key ! d \<longrightarrow> one_side P key True c" "nib key ! d < bb \<longrightarrow> one_side P key False c" using mid mid' by auto
      then show "(if bb = nib key ! d then rbind (endow_lt_key P endow key c) (\<lambda>e'. Inr (e + e'))
          else if bb < nib key ! d then Inr (e + endow (tn_metadata c)) else Inr e) = Inr (e + ?s c)"
        using Children.IH [OF c sub [OF c] Children.prems(3)] whole [OF sub [OF c]]
        by (cases bb "nib key ! d" rule: linorder_cases) (simp_all add: one_side_leaves(2))
    qed
    ultimately show ?case unfolding flat using d kt by (auto simp: endow_lt_key.simps)
  qed
qed

end

end
