(* ===== verification/TrieIterator.thy ===== *)
theory TrieIterator
  imports TrieQuery
begin

text \<open>
  The iterator of \<^verbatim>\<open>TrieNode\<close> (and of \<^verbatim>\<open>MerkleTrie\<close>, which wraps it), \<^verbatim>\<open>get_subnode_ref_nolocks\<close>,
  \<^verbatim>\<open>metadata_traversal\<close> and \<^verbatim>\<open>metadata_integrity_check\<close>.
\<close>

section \<open>Operations\<close>

text \<open>An iterator: its node, the children it has still to visit (\<^verbatim>\<open>local_iter\<close> and what follows) and the iterator
  over the first of them.\<close>

datatype ('p, 'v, 'm) trie_iterator = TrieIter
  (main_node: "('p, 'v, 'm) TrieNode")
  (local_iter: "(nat \<times> ('p, 'v, 'm) TrieNode) list")
  (child_iter: "('p, 'v, 'm) trie_iterator option")

fun make_iterator :: "'p TriePrefix \<Rightarrow> ('p, 'v, 'm) TrieNode \<Rightarrow> ('p, 'v, 'm) trie_iterator" where
  "make_iterator P (TrieNode ch p l hv m h) =
     TrieIter (TrieNode ch p l hv m h) (cm_list ch)
       (if l = MAX_KEY_LEN_BITS P \<or> l = 0 \<and> cm_size ch = 0 then None
        else (case cm_list ch of [] \<Rightarrow> None | (bb, c) # cs \<Rightarrow> Some (make_iterator P c)))"

fun iter_deref :: "'p TriePrefix \<Rightarrow> ('p, 'v, 'm) trie_iterator \<Rightarrow> ('p \<times> 'v) res" where
  "iter_deref P (TrieIter n ls child) =
     (if tn_prefix_len n = MAX_KEY_LEN_BITS P then rbind (cm_value (tn_children n)) (\<lambda>v. Inr (tn_prefix n, v))
      else if ls = [] then throw ''deref iter end''
      else (case child of None \<Rightarrow> throw ''null child_iter'' | Some c \<Rightarrow> iter_deref P c))"

fun iter_next :: "'p TriePrefix \<Rightarrow> ('p, 'v, 'm) trie_iterator \<Rightarrow> (bool \<times> ('p, 'v, 'm) trie_iterator) res" where
  "iter_next P (TrieIter n ls child) =
     (if ls = [] then Inr (True, TrieIter n ls child)
      else (case child of
          None \<Rightarrow> throw ''how on earth is child_iter null''
        | Some c \<Rightarrow> rbind (iter_next P c) (\<lambda>(inc_local, c').
            if inc_local then
              (case tl ls of
                 [] \<Rightarrow> Inr (True, TrieIter n [] None)
               | (bb, x) # rest \<Rightarrow> Inr (False, TrieIter n ((bb, x) # rest) (Some (make_iterator P x))))
            else Inr (False, TrieIter n ls (Some c')))))"

definition iter_at_end :: "('p, 'v, 'm) trie_iterator \<Rightarrow> bool" where
  "iter_at_end it \<longleftrightarrow> local_iter it = []"

text \<open>The loop of a client: read, advance, until the end; the fuel bounds the number of rounds.\<close>

fun iter_collect :: "'p TriePrefix \<Rightarrow> nat \<Rightarrow> ('p, 'v, 'm) trie_iterator \<Rightarrow> ('p \<times> 'v) list res" where
  "iter_collect P 0 it = throw ''fuel''"
| "iter_collect P (Suc n) it =
     (if iter_at_end it then Inr []
      else rbind (iter_deref P it) (\<lambda>x. rbind (iter_next P it) (\<lambda>(_, it').
        rbind (iter_collect P n it') (\<lambda>xs. Inr (x # xs)))))"

fun get_subnode_ref ::
    "'p TriePrefix \<Rightarrow> 'p \<Rightarrow> PrefixLenBits \<Rightarrow> ('p, 'v, 'm) TrieNode \<Rightarrow> ('p, 'v, 'm) TrieNode option res" where
  "get_subnode_ref P query_prefix query_len (TrieNode ch p l hv m h) =
     (let prefix_match_len = get_prefix_match_len P p l query_prefix query_len in
      if prefix_match_len < l then Inr None
      else if prefix_match_len = query_len then Inr (Some (TrieNode ch p l hv m h))
      else if prefix_match_len = l then
        rbind (get_branch_bits P query_prefix l) (\<lambda>bb.
          case cm_find ch bb of
            None \<Rightarrow> Inr (Some (TrieNode ch p l hv m h))
          | Some c \<Rightarrow> rbind (get_subnode_ref P query_prefix query_len c) (\<lambda>child_candidate.
              Inr (Some (case child_candidate of None \<Rightarrow> TrieNode ch p l hv m h | Some r \<Rightarrow> r))))
      else throw ''invalid recursion'')"

text \<open>\<^verbatim>\<open>MerkleTrie::get_subnode_ref_nolocks\<close> falls back to the root.\<close>

definition MerkleTrie_get_subnode_ref ::
    "'p TriePrefix \<Rightarrow> 'p \<Rightarrow> PrefixLenBits \<Rightarrow> ('p, 'v, 'm) MerkleTrie \<Rightarrow> ('p, 'v, 'm) TrieNode res" where
  "MerkleTrie_get_subnode_ref P query_prefix query_len t =
     rbind (get_subnode_ref P query_prefix query_len (mt_root t)) (\<lambda>res.
       Inr (case res of None \<Rightarrow> mt_root t | Some r \<Rightarrow> r))"

text \<open>\<open>meta\<close> is the constructor of the metadata from a value.\<close>

fun metadata_integrity_check ::
    "'p TriePrefix \<Rightarrow> ('v \<Rightarrow> 'm::ab_group_add) \<Rightarrow> ('p, 'v, 'm) TrieNode \<Rightarrow> bool res" where
  "metadata_integrity_check P meta (TrieNode ch p l hv m h) =
     (if l = MAX_KEY_LEN_BITS P then rbind (cm_value ch) (\<lambda>v. Inr (m = meta v))
      else rbind (rfold (\<lambda>(bb, c) (ok, sum).
            if ok then rbind (metadata_integrity_check P meta c) (\<lambda>b. Inr (b, sum + tn_metadata c))
            else Inr (False, sum))
          (cm_list ch) (True, 0))
        (\<lambda>(ok, sum). Inr (ok \<and> sum = m)))"

text \<open>\<open>key_maker\<close> interprets a prefix, \<open>out_of\<close> makes the output metadata of a node.\<close>

fun metadata_traversal ::
    "('p \<Rightarrow> 'k) \<Rightarrow> ('k \<Rightarrow> 'm \<Rightarrow> 'o::monoid_add) \<Rightarrow> PrefixLenBits \<Rightarrow> ('p, 'v, 'm) TrieNode \<Rightarrow>
     ('k \<times> 'o) list \<times> 'o \<Rightarrow> ('k \<times> 'o) list \<times> 'o" where
  "metadata_traversal key_maker out_of query_len (TrieNode ch p l hv m h) (vec, acc_metadata) =
     (if l \<ge> query_len then
        let interpreted_key = key_maker p; acc_metadata = acc_metadata + out_of interpreted_key m
        in (vec @ [(interpreted_key, acc_metadata)], acc_metadata)
      else fold (\<lambda>(bb, c). metadata_traversal key_maker out_of query_len c) (cm_list ch) (vec, acc_metadata))"

definition MerkleTrie_metadata_traversal ::
    "'p TriePrefix \<Rightarrow> ('p \<Rightarrow> 'k) \<Rightarrow> ('k \<Rightarrow> 'm \<Rightarrow> 'o::monoid_add) \<Rightarrow> PrefixLenBits \<Rightarrow> ('p, 'v, 'm) MerkleTrie \<Rightarrow> ('k \<times> 'o) list res" where
  "MerkleTrie_metadata_traversal P key_maker out_of query_len t =
     (if query_len > MAX_KEY_LEN_BITS P then throw ''query too long''
      else Inr (fst (metadata_traversal key_maker out_of query_len (mt_root t) ([(key_maker (prefix_zero P), 0)], 0))))"

declare iter_deref.simps [simp del] iter_next.simps [simp del] metadata_integrity_check.simps [simp del]
  metadata_traversal.simps [simp del] get_subnode_ref.simps [simp del]

section \<open>The iterator visits all entries in order\<close>

fun iter_ok :: "'p TriePrefix \<Rightarrow> ('p \<Rightarrow> bool) \<Rightarrow> ('p \<Rightarrow> nat list) \<Rightarrow> ('p, 'v, 'm) trie_iterator \<Rightarrow> bool" where
  "iter_ok P pvalid nib (TrieIter n ls child) \<longleftrightarrow>
     wf_node P pvalid nib 2 n \<and>
     (if tn_prefix_len n = MAX_KEY_LEN_BITS P then ls = [] \<and> child = None
      else ls \<noteq> [] \<and> (\<forall>(bb, c) \<in> set ls. wf_node P pvalid nib 2 c) \<and>
        (case child of None \<Rightarrow> False | Some ci \<Rightarrow> iter_ok P pvalid nib ci))"

fun iter_rest :: "'p TriePrefix \<Rightarrow> ('p, 'v, 'm) trie_iterator \<Rightarrow> ('p \<times> 'v) list" where
  "iter_rest P (TrieIter n ls child) =
     (if tn_prefix_len n = MAX_KEY_LEN_BITS P then entries P n
      else (case child of None \<Rightarrow> [] | Some ci \<Rightarrow> iter_rest P ci @ concat (map (\<lambda>(bb, c). entries P c) (tl ls))))"

context trie_prefix
begin

lemma make_iterator_ok:
  "wf 2 t \<Longrightarrow> iter_ok P pvalid nib (make_iterator P t) \<and> iter_rest P (make_iterator P t) = entries P t"
proof (induction t rule: node_induct)
  case (Children cs p l hv m h)
  from Children.prems obtain d where d: "l = 4 * d" "4 * d < prefix_bits P" "2 \<le> length cs" "branch 2 (take d (nib p)) cs"
    by (rule wf_ChildrenE)
  then obtain bb c rest where cs: "cs = (bb, c) # rest" by (cases cs) auto
  then have "wf 2 c" using d(4) by (auto simp: branch_ok_def)
  then show ?case using Children.IH [of bb c] Children.prems d cs by (auto simp: branch_ok_def)
qed simp

lemma iter_next_ok:
  "iter_ok P pvalid nib it \<Longrightarrow> iter_rest P it \<noteq> [] \<and> iter_deref P it = Inr (hd (iter_rest P it)) \<and>
    (\<exists>b it'. iter_next P it = Inr (b, it') \<and> (b \<longleftrightarrow> tl (iter_rest P it) = []) \<and> main_node it' = main_node it \<and>
      (if b then iter_at_end it' else iter_ok P pvalid nib it' \<and> iter_rest P it' = tl (iter_rest P it)))"
proof (induction it)
  case (TrieIter n ls child)
  show ?case
  proof (cases "tn_prefix_len n = MAX_KEY_LEN_BITS P")
    case True
    then obtain v p hv m h where "n = TrieNode (Value v) p (prefix_bits P) hv m h"
      using TrieIter.prems by (cases n; cases "tn_children n") auto
    then show ?thesis using TrieIter.prems True by (auto simp: iter_deref.simps iter_next.simps iter_at_end_def)
  next
    case False
    then obtain bb c cs ci where it: "ls = (bb, c) # cs" "child = Some ci" "iter_ok P pvalid nib ci" "\<forall>(bb, c) \<in> set ls. wf 2 c" "wf 2 n"
      using TrieIter.prems by (cases ls) (auto split: option.splits)
    from TrieIter.IH [of ci] it(2,3) obtain b ci' where ih: "iter_rest P ci \<noteq> []" "iter_deref P ci = Inr (hd (iter_rest P ci))"
        "iter_next P ci = Inr (b, ci')" "b \<longleftrightarrow> tl (iter_rest P ci) = []"
        "if b then iter_at_end ci' else iter_ok P pvalid nib ci' \<and> iter_rest P ci' = tl (iter_rest P ci)"
      by auto
    have nonempty: "entries P x \<noteq> []" if "wf 2 x" for x :: "('p, 'a, 'b) TrieNode" using get_lowest_key_entries [OF that] by blast
    show ?thesis
    proof (cases cs)
      case Nil
      then show ?thesis using it ih False by (auto simp: iter_deref.simps iter_next.simps iter_at_end_def tl_append split: list.splits)
    next
      case (Cons y rest)
      then obtain b2 x where y: "cs = (b2, x) # rest" by (cases y) auto
      then have x: "wf 2 x" using it(1,4) by auto
      show ?thesis
        using it ih False y make_iterator_ok [OF x] nonempty [OF x]
        by (auto simp: iter_deref.simps iter_next.simps tl_append split: list.splits)
    qed
  qed
qed

text \<open>The loop over a trie with more than one key returns its entries; one round per entry suffices.\<close>

lemma iter_collect_rest:
  "iter_ok P pvalid nib it \<Longrightarrow> \<not> iter_at_end it \<Longrightarrow> length (iter_rest P it) < n \<Longrightarrow> iter_collect P n it = Inr (iter_rest P it)"
proof (induction n arbitrary: it)
  case (Suc n)
  from iter_next_ok [OF Suc.prems(1)] obtain b it' where nx: "iter_rest P it \<noteq> []" "iter_deref P it = Inr (hd (iter_rest P it))"
      "iter_next P it = Inr (b, it')" "b \<longleftrightarrow> tl (iter_rest P it) = []" "main_node it' = main_node it"
      "if b then iter_at_end it' else iter_ok P pvalid nib it' \<and> iter_rest P it' = tl (iter_rest P it)"
    by auto
  have "0 < n" using Suc.prems(3) nx(1) by (cases "iter_rest P it") auto
  have "iter_collect P n it' = Inr (tl (iter_rest P it))"
  proof (cases b)
    case True
    then show ?thesis using nx \<open>0 < n\<close> by (cases n) auto
  next
    case False
    then have ok: "iter_ok P pvalid nib it'" "iter_rest P it' = tl (iter_rest P it)" using nx(6) by auto
    have "\<not> iter_at_end it'"
      using ok(1) Suc.prems(1,2) nx(5) by (cases it; cases it') (auto simp: iter_at_end_def split: if_splits)
    moreover have "length (tl (iter_rest P it)) < n" using Suc.prems(3) nx(1) by (cases "iter_rest P it") auto
    ultimately show ?thesis using Suc.IH [OF ok(1)] ok(2) by simp
  qed
  then show ?case using Suc.prems(2) nx by simp
qed simp

theorem iter_collect_entries:
  assumes "wf 2 t" "tn_prefix_len t \<noteq> prefix_bits P"
  shows "iter_collect P (Suc (length (entries P t))) (make_iterator P t) = Inr (entries P t)"
proof -
  have "\<not> iter_at_end (make_iterator P t)"
    using assms by (cases t; cases "tn_children t") (auto simp: iter_at_end_def)
  then show ?thesis
    using iter_collect_rest [of "make_iterator P t" "Suc (length (entries P t))"] make_iterator_ok [OF assms(1)]
    by (simp del: iter_collect.simps)
qed

lemma iter_single_leaf:
  "wf 2 t \<Longrightarrow> tn_prefix_len t = prefix_bits P \<Longrightarrow> iter_at_end (make_iterator P t) \<and> length (entries P t) = 1"
  by (cases t; cases "tn_children t") (auto simp: iter_at_end_def)

section \<open>Metadata checks and subtree lookup\<close>

lemma rfold_check:
  assumes "\<forall>(b, c) \<in> set cs. check c = Inr (good c)"
  shows "\<exists>ok sum. rfold (\<lambda>(bb, c) (ok, sum). if ok then rbind (check c) (\<lambda>b. Inr (b, sum + tn_metadata c)) else Inr (False, sum)) cs (True, s) = Inr (ok, sum) \<and>
    (ok \<longleftrightarrow> (\<forall>(b, c) \<in> set cs. good c)) \<and> (ok \<longrightarrow> sum = s + sum_list (map (\<lambda>(b, c). tn_metadata c) cs))"
proof -
  let ?f = "\<lambda>(bb, c) (ok, sum). if ok then rbind (check c) (\<lambda>b. Inr (b, sum + tn_metadata c)) else Inr (False, sum)"
  have stop: "rfold ?f cs (False, s) = Inr (False, s)" for cs s by (induction cs) auto
  show ?thesis
    using assms
  proof (induction cs arbitrary: s)
    case (Cons x cs)
    obtain b c where x: "x = (b, c)" by (cases x)
    then have c: "check c = Inr (good c)" using Cons.prems by simp
    show ?case
    proof (cases "good c")
      case True
      then show ?thesis using Cons.IH [of "s + tn_metadata c"] Cons.prems c x by (simp add: add.assoc)
    qed (use c x in \<open>auto simp: stop\<close>)
  qed auto
qed

lemma metadata_integrity_check_ok:
  fixes t :: "('p, 'v, 'm::ab_group_add) TrieNode"
  shows "wf k t \<Longrightarrow> metadata_integrity_check P meta t =
    Inr (metadata_sum_ok t \<and> (\<forall>(q, v, m) \<in> set (leaves P t). m = meta v))"
proof (induction t rule: node_induct)
  case (Value v p l hv m h)
  then show ?case by (auto simp: metadata_integrity_check.simps)
next
  case (Children cs p l hv m h)
  from Children.prems obtain d where d: "l = 4 * d" "4 * d < prefix_bits P" "branch k (take d (nib p)) cs" by (rule wf_ChildrenE)
  let ?good = "\<lambda>c. metadata_sum_ok c \<and> (\<forall>(q, v, m) \<in> set (leaves P c). m = meta v)"
  have "\<forall>(b, c) \<in> set cs. metadata_integrity_check P meta c = Inr (?good c)"
    using Children.IH d(3) by (fastforce simp: branch_ok_def)
  from rfold_check [where s = 0, OF this] obtain ok sum where
    run: "rfold (\<lambda>(bb, c) (ok, sum). if ok then rbind (metadata_integrity_check P meta c) (\<lambda>b. Inr (b, sum + tn_metadata c)) else Inr (False, sum)) cs (True, 0) = Inr (ok, sum)"
    and ok: "ok \<longleftrightarrow> (\<forall>(b, c) \<in> set cs. ?good c)" "ok \<longrightarrow> sum = 0 + sum_list (map (\<lambda>(b, c). tn_metadata c) cs)"
    by blast
  have "(ok \<and> sum = m) \<longleftrightarrow> metadata_sum_ok (TrieNode (Children cs) p l hv m h) \<and> (\<forall>(q, v, m) \<in> set (leaves P (TrieNode (Children cs) p l hv m h)). m = meta v)"
    using d ok by (cases ok) fastforce+
  then show ?case using d run by (simp add: metadata_integrity_check.simps)
qed

lemma match_query:
  assumes "wf k t" "pvalid q" "4 * j \<le> prefix_bits P"
  shows "get_prefix_match_len P (tn_prefix t) (tn_prefix_len t) q (4 * j) =
    4 * min (lcp (nib (tn_prefix t)) (nib q)) (min (tn_prefix_len t div 4) j)"
  using match_len [OF wf_prefix [OF assms(1)] assms(2), of "tn_prefix_len t div 4" j] wf_len [OF assms(1)] assms(3) by simp

text \<open>\<^verbatim>\<open>get_subnode_ref_nolocks\<close> returns a node no longer than the query that holds every key that extends the query.\<close>

lemma get_subnode_ref_ok:
  assumes q: "pvalid q" and j: "4 * j \<le> prefix_bits P"
  shows "wf k t \<Longrightarrow> \<exists>r. get_subnode_ref P q (4 * j) t = Inr r \<and>
    (case r of None \<Rightarrow> \<not> (tn_prefix_len t \<le> 4 * j \<and> covers nib t q)
     | Some c \<Rightarrow> wf k c \<and> tn_prefix_len c \<le> 4 * j \<and> covers nib c q \<and> set (entries P c) \<subseteq> set (entries P t) \<and>
        (\<forall>(key, v) \<in> set (entries P t). take j (nib key) = take j (nib q) \<longrightarrow> (key, v) \<in> set (entries P c)))"
proof (induction t rule: measure_induct_rule [of size])
  case (less t)
  obtain ch p l hv m h where t: "t = TrieNode ch p l hv m h" by (cases t)
  define n where "n = get_prefix_match_len P p l q (4 * j)"
  note nq = n_def [symmetric]
  have n: "n = 4 * min (lcp (nib p) (nib q)) (min (l div 4) j)"
    using match_query [OF less.prems q j] t by (simp add: n_def)
  have l: "4 * (l div 4) = l" "covers nib t q \<longleftrightarrow> l div 4 \<le> lcp (nib p) (nib q)"
    using wf_len [OF less.prems] covers_lcp [OF less.prems q] t by auto
  have short: "n < l \<longleftrightarrow> \<not> (l \<le> 4 * j \<and> covers nib t q)" using n l by (auto simp: min_def)
  show ?case
  proof (cases "n < l")
    case True
    then show ?thesis using short t by (simp add: get_subnode_ref.simps n_def [symmetric])
  next
    case False
    then have cov: "l \<le> 4 * j" "covers nib t q" using short by auto
    have self: "wf k t \<and> tn_prefix_len t \<le> 4 * j \<and> covers nib t q \<and> set (entries P t) \<subseteq> set (entries P t) \<and>
        (\<forall>(key, v) \<in> set (entries P t). take j (nib key) = take j (nib q) \<longrightarrow> (key, v) \<in> set (entries P t))"
      using less.prems cov t by auto
    have eq: "n = l" using n l False by linarith
    show ?thesis
    proof (cases "n = 4 * j")
      case True
      then have "get_subnode_ref P q (4 * j) t = Inr (Some t)" using False t by (simp add: get_subnode_ref.simps n_def [symmetric])
      then show ?thesis using self by simp
    next
      case ne: False
      then have lt: "l < 4 * j" using eq cov(1) by simp
      then obtain cs where ch: "ch = Children cs" using less.prems t j by (cases ch) auto
      obtain d where d: "l = 4 * d" "4 * d < prefix_bits P" "branch k (take d (nib p)) cs" "length (take d (nib p)) = d"
        using less.prems unfolding t ch by (elim wf_ChildrenE) blast
      note bb = branch_bits [OF q d(2)]
      show ?thesis
      proof (cases "map_of cs (nib q ! d)")
        case None
        then have "get_subnode_ref P q (4 * j) t = Inr (Some t)"
          using nq ne eq t ch d bb by (simp add: get_subnode_ref.simps)
        then show ?thesis using self by simp
      next
        case (Some c)
        have mem: "(nib q ! d, c) \<in> set cs" using Some by (rule map_of_SomeD)
        then have c: "wf k c" using d(3) by (auto simp: branch_ok_def)
        have "size c < size t" using cm_list_size_less [of "nib q ! d" c ch size] mem t ch by simp
        from less.IH [OF this c] obtain r where r: "get_subnode_ref P q (4 * j) c = Inr r"
          "case r of None \<Rightarrow> \<not> (tn_prefix_len c \<le> 4 * j \<and> covers nib c q)
           | Some c' \<Rightarrow> wf k c' \<and> tn_prefix_len c' \<le> 4 * j \<and> covers nib c' q \<and> set (entries P c') \<subseteq> set (entries P c) \<and>
            (\<forall>(key, v) \<in> set (entries P c). take j (nib key) = take j (nib q) \<longrightarrow> (key, v) \<in> set (entries P c'))" by blast
        have run: "get_subnode_ref P q (4 * j) t = Inr (Some (case r of None \<Rightarrow> t | Some c' \<Rightarrow> c'))"
          using nq ne eq t ch d bb Some r(1) by (simp add: get_subnode_ref.simps split: option.split)
        have sub: "set (entries P c) \<subseteq> set (entries P t)" using mem t ch d by (auto intro!: bexI [of _ "(nib q ! d, c)"])
        have down: "(key, v) \<in> set (entries P c)" if kv: "(key, v) \<in> set (entries P t)" "take j (nib key) = take j (nib q)" for key v
        proof -
          obtain bb' c' where c': "(bb', c') \<in> set cs" "(key, v) \<in> set (entries P c')" using kv(1) t ch d by auto
          then have "wf k c'" using d(3) by (auto simp: branch_ok_def)
          from entries_covers [OF this c'(2)] have "take (Suc d) (nib key) = take d (nib p) @ [bb']"
            using branch_covers [OF d(3) c'(1)] d(4) by auto
          then have "nib key ! d = bb'" using branch_nth(2) [of "take d (nib p)" "nib key" bb'] d(4) by simp
          moreover have "nib key ! d = nib q ! d" using kv(2) lt d(1) by (metis mult_less_cancel1 nth_take)
          ultimately have "map_of cs (nib q ! d) = Some c'"
            using c'(1) d(3) map_of_sorted_iff [of cs "nib q ! d" c'] by (auto simp: branch_ok_def)
          then show ?thesis using Some c'(2) by simp
        qed
        show ?thesis
        proof (cases r)
          case None
          then show ?thesis using run self by simp
        next
          case (Some c')
          then show ?thesis using run r(2) sub down by fastforce
        qed
      qed
    qed
  qed
qed

text \<open>The accumulated metadata of a traversal is the total of the trie.\<close>

lemma metadata_traversal_total:
  fixes t :: "('p, 'v, 'm::ab_group_add) TrieNode" and g :: "'m \<Rightarrow> 'o::ab_group_add"
  assumes g: "\<And>a b. g (a + b) = g a + g b" "g 0 = 0" and q: "query_len \<le> prefix_bits P"
  shows "wf k t \<Longrightarrow> metadata_sum_ok t \<Longrightarrow> snd (metadata_traversal key_maker (\<lambda>_. g) query_len t (vec, acc)) = acc + g (tn_metadata t)"
proof (induction t arbitrary: vec acc rule: node_induct)
  case (Value v p l hv m h)
  then show ?case using q by (simp add: metadata_traversal.simps Let_def)
next
  case (Children cs p l hv m h)
  show ?case
  proof (cases "query_len \<le> l")
    case False
    from Children.prems(1) obtain d where d: "branch k (take d (nib p)) cs" by (rule wf_ChildrenE)
    have m: "m = sum_list (map (\<lambda>(bb, c). tn_metadata c) cs)" using Children.prems(2) by simp
    have step: "snd (metadata_traversal key_maker (\<lambda>_. g) query_len c (vec, acc)) = acc + g (tn_metadata c)" if "(bb, c) \<in> set cs" for bb c vec acc
    proof -
      have "wf k c" "metadata_sum_ok c" using d that Children.prems(2) by (auto simp: branch_ok_def)
      then show ?thesis by (rule Children.IH [OF that])
    qed
    have "set xs \<subseteq> set cs \<Longrightarrow> snd (fold (\<lambda>(bb, c). metadata_traversal key_maker (\<lambda>_. g) query_len c) xs s) =
        snd s + sum_list (map (\<lambda>(bb, c). g (tn_metadata c)) xs)" for xs s
    proof (induction xs arbitrary: s)
      case (Cons x xs)
      obtain bb c where "x = (bb, c)" by (cases x)
      then show ?case using Cons step [of bb c "fst s" "snd s"] by (simp add: add.assoc)
    qed simp
    then show ?thesis
      using False by (simp add: metadata_traversal.simps m endow_sum [OF g] comp_def case_prod_unfold)
  qed (simp add: metadata_traversal.simps Let_def)
qed

text \<open>The accumulator is the metadata of the entry that was pushed last.\<close>

lemma metadata_traversal_last:
  "fst s \<noteq> [] \<and> snd (last (fst s)) = snd s \<Longrightarrow>
    fst (metadata_traversal key_maker out_of query_len t s) \<noteq> [] \<and>
    snd (last (fst (metadata_traversal key_maker out_of query_len t s))) = snd (metadata_traversal key_maker out_of query_len t s)"
proof (induction t arbitrary: s rule: node_induct)
  case (Value v p l hv m h)
  then show ?case by (cases s) (auto simp: metadata_traversal.simps Let_def)
next
  case (Children cs p l hv m h)
  have "set xs \<subseteq> set cs \<Longrightarrow> fst s \<noteq> [] \<and> snd (last (fst s)) = snd s \<Longrightarrow>
      fst (fold (\<lambda>(bb, c). metadata_traversal key_maker out_of query_len c) xs s) \<noteq> [] \<and>
      snd (last (fst (fold (\<lambda>(bb, c). metadata_traversal key_maker out_of query_len c) xs s))) =
      snd (fold (\<lambda>(bb, c). metadata_traversal key_maker out_of query_len c) xs s)" for xs
  proof (induction xs arbitrary: s)
    case (Cons x xs)
    then show ?case using Children.IH [of "fst x" "snd x" s] by (cases x) simp
  qed simp
  from this [of cs] Children.prems show ?case by (cases s) (auto simp: metadata_traversal.simps Let_def)
qed

lemma metadata_traversal_result:
  fixes t :: "('p, 'v, 'm::ab_group_add) MerkleTrie" and g :: "'m \<Rightarrow> 'o::ab_group_add"
  assumes g: "\<And>a b. g (a + b) = g a + g b" "g 0 = 0" and q: "query_len \<le> prefix_bits P"
    and t: "wf k (mt_root t)" "metadata_sum_ok (mt_root t)"
  shows "\<exists>vec. MerkleTrie_metadata_traversal P key_maker (\<lambda>_. g) query_len t = Inr vec \<and> vec \<noteq> [] \<and>
    snd (last vec) = g (tn_metadata (mt_root t))"
  using metadata_traversal_last [of "([(key_maker (prefix_zero P), 0)], 0)" key_maker "\<lambda>_. g" query_len "mt_root t"] q
  by (simp add: MerkleTrie_metadata_traversal_def metadata_traversal_total [OF g q t])

end

end
