(* ===== verification/TrieRanges.thy ===== *)
theory TrieRanges
  imports TrieIterator "HOL-Library.Multiset"
begin

text \<open>
  The ranges of \<^verbatim>\<open>trie/ranges.h\<close> that TBB splits to run over a trie in parallel, and the parallel
  operations that use them.  A range is a list of disjoint subtrees with their total
  size; splitting moves subtrees from the front of one range to a new one, descending where only one is left.
  How TBB splits is left open: a \<open>strategy\<close> is any binary tree of splits.
\<close>

section \<open>Operations\<close>

record ('p, 'v, 'm) AccumulateValuesRange =
  work_list :: "('p, 'v, 'm) TrieNode list"
  work_size :: "64 word"
  vector_offset :: "64 word"

abbreviation children_list :: "('p, 'v, 'm) TrieNode \<Rightarrow> ('p, 'v, 'm) TrieNode list" where
  "children_list t \<equiv> map snd (cm_list (tn_children t))"

abbreviation nodes_count :: "('p, 'v, 'm) TrieNode list \<Rightarrow> nat" where
  "nodes_count ts \<equiv> sum_list (map node_count ts)"

lemma node_count_children_list: "node_count t = Suc (nodes_count (children_list t))"
  by (cases t) (simp add: case_prod_unfold comp_def)

lemma node_count_pos [simp]: "0 < node_count t"
  by (simp add: node_count_children_list)

definition AccumulateValuesRange_init ::
    "'p TriePrefix \<Rightarrow> ('m \<Rightarrow> 64 word) option \<Rightarrow> ('p, 'v, 'm) TrieNode \<Rightarrow> ('p, 'v, 'm) AccumulateValuesRange res" where
  "AccumulateValuesRange_init P hs work_root =
     rbind (node_size P hs work_root) (\<lambda>sz.
       Inr \<lparr> work_list = [work_root], work_size = ucast sz, vector_offset = 0 \<rparr>)"

definition acc_is_divisible :: "('p, 'v, 'm) AccumulateValuesRange \<Rightarrow> bool" where
  "acc_is_divisible r \<longleftrightarrow> work_size r > 1000"

text \<open>The loop of the splitting constructor; \<open>new\<close> is the new range and \<open>other\<close> the one that is split.\<close>

function acc_split_loop ::
    "'p TriePrefix \<Rightarrow> ('m \<Rightarrow> 64 word) option \<Rightarrow> 64 word \<Rightarrow> ('p, 'v, 'm) AccumulateValuesRange \<Rightarrow> ('p, 'v, 'm) AccumulateValuesRange \<Rightarrow>
     (('p, 'v, 'm) AccumulateValuesRange \<times> ('p, 'v, 'm) AccumulateValuesRange) res" where
  "acc_split_loop P hs original_sz new other =
     (if \<not> work_size new < original_sz div 2 then Inr (new, other)
      else
        let ol = (case work_list other of [n] \<Rightarrow> children_list n | _ \<Rightarrow> work_list other) in
        if length ol = 1 then throw ''should not still have other.work_list.size() == 1''
        else case ol of
          [] \<Rightarrow> throw ''shouldn't get to other.work_list.size() == 0''
        | n # ns \<Rightarrow> rbind (node_size P hs n) (\<lambda>sz.
            acc_split_loop P hs original_sz
              (new\<lparr>work_list := work_list new @ [n], work_size := work_size new + ucast sz\<rparr>)
              (other\<lparr>work_list := ns, work_size := work_size other - ucast sz, vector_offset := vector_offset other + ucast sz\<rparr>)))"
  by pat_completeness auto
termination
proof (relation "measure (\<lambda>(P, hs, sz, new, other). nodes_count (work_list other))", simp, goal_cases)
  case (1 P hs original_sz new other ol n ns sz)
  then have "nodes_count ol \<le> nodes_count (work_list other)"
    by (auto simp: node_count_children_list split: list.splits)
  then show ?case using 1(4) by (simp add: node_count_children_list [of n])
qed

declare acc_split_loop.simps [simp del]

definition acc_split ::
    "'p TriePrefix \<Rightarrow> ('m \<Rightarrow> 64 word) option \<Rightarrow> ('p, 'v, 'm) AccumulateValuesRange \<Rightarrow>
     (('p, 'v, 'm) AccumulateValuesRange \<times> ('p, 'v, 'm) AccumulateValuesRange) res" where
  "acc_split P hs other =
     acc_split_loop P hs (work_size other)
       \<lparr> work_list = [], work_size = 0, vector_offset = vector_offset other \<rparr> other"

text \<open>The worker writes the values of a subtree from \<open>offset\<close> on: the list of its writes.\<close>

fun accumulate_values_parallel_worker ::
    "'p TriePrefix \<Rightarrow> ('m \<Rightarrow> 64 word) option \<Rightarrow> nat \<Rightarrow> ('p, 'v, 'm) TrieNode \<Rightarrow> 64 word \<Rightarrow> (nat \<times> 'v) list res" where
  "accumulate_values_parallel_worker P hs vec_size (TrieNode ch p l hv m h) offset =
     (if l = MAX_KEY_LEN_BITS P then
        if unat offset > vec_size then throw ''invalid access''
        else rbind (cm_value ch) (\<lambda>v. Inr [(unat offset, v)])
      else
        rbind (rfold (\<lambda>(bb, c) (offset, ws).
            rbind (accumulate_values_parallel_worker P hs vec_size c offset) (\<lambda>ws'.
            rbind (node_size P hs c) (\<lambda>sz. Inr (offset + ucast sz, ws @ ws'))))
          (cm_list ch) (offset, []))
        (\<lambda>(_, ws). Inr ws))"

declare accumulate_values_parallel_worker.simps [simp del]

text \<open>The body of the parallel loop on one range.\<close>

definition acc_run ::
    "'p TriePrefix \<Rightarrow> ('m \<Rightarrow> 64 word) option \<Rightarrow> nat \<Rightarrow> ('p, 'v, 'm) AccumulateValuesRange \<Rightarrow> (nat \<times> 'v) list res" where
  "acc_run P hs vec_size rng =
     rbind (rfold (\<lambda>n (offset, ws).
         rbind (accumulate_values_parallel_worker P hs vec_size n offset) (\<lambda>ws'.
         rbind (node_size P hs n) (\<lambda>sz. Inr (offset + ucast sz, ws @ ws'))))
       (work_list rng) (vector_offset rng, []))
     (\<lambda>(_, ws). Inr ws)"

datatype strategy = Run | Split strategy strategy

fun acc_parallel ::
    "'p TriePrefix \<Rightarrow> ('m \<Rightarrow> 64 word) option \<Rightarrow> nat \<Rightarrow> strategy \<Rightarrow> ('p, 'v, 'm) AccumulateValuesRange \<Rightarrow> (nat \<times> 'v) list res" where
  "acc_parallel P hs vec_size Run rng = acc_run P hs vec_size rng"
| "acc_parallel P hs vec_size (Split s1 s2) rng =
     (if \<not> acc_is_divisible rng then acc_run P hs vec_size rng
      else rbind (acc_split P hs rng) (\<lambda>(new, other).
        rbind (acc_parallel P hs vec_size s1 new) (\<lambda>ws1.
        rbind (acc_parallel P hs vec_size s2 other) (\<lambda>ws2. Inr (ws1 @ ws2)))))"

text \<open>\<^verbatim>\<open>MerkleTrie::accumulate_values_parallel\<close>: \<open>perm\<close> reorders the writes, which run concurrently.\<close>

definition accumulate_values_parallel ::
    "'p TriePrefix \<Rightarrow> ('m \<Rightarrow> 64 word) option \<Rightarrow> strategy \<Rightarrow> ((nat \<times> 'v) list \<Rightarrow> (nat \<times> 'v) list) \<Rightarrow> 'v \<Rightarrow> ('p, 'v, 'm) MerkleTrie \<Rightarrow> 'v list res" where
  "accumulate_values_parallel P hs s perm dflt t =
     rbind (node_size P hs (mt_root t)) (\<lambda>n.
     rbind (AccumulateValuesRange_init P hs (mt_root t)) (\<lambda>rng.
     rbind (if work_size rng = 0 then Inr [] else acc_parallel P hs (unat n) s rng) (\<lambda>ws.
       Inr (fold (\<lambda>(i, v) out. out[i := v]) (perm ws) (replicate (unat n) dflt)))))"

text \<open>\<^verbatim>\<open>ApplyRange\<close>, with the grain size as a parameter.\<close>

record ('p, 'v, 'm) ApplyRange =
  ar_work_list :: "('p, 'v, 'm) TrieNode list"
  ar_work_size :: "64 word"

definition ApplyRange_init ::
    "'p TriePrefix \<Rightarrow> ('m \<Rightarrow> 64 word) option \<Rightarrow> ('p, 'v, 'm) TrieNode \<Rightarrow> ('p, 'v, 'm) ApplyRange res" where
  "ApplyRange_init P hs work_root =
     rbind (node_size P hs work_root) (\<lambda>sz. Inr \<lparr> ar_work_list = [work_root], ar_work_size = ucast sz \<rparr>)"

definition apply_is_divisible :: "64 word \<Rightarrow> ('p, 'v, 'm) ApplyRange \<Rightarrow> bool" where
  "apply_is_divisible grain r \<longleftrightarrow> ar_work_size r > grain"

function apply_split_loop ::
    "'p TriePrefix \<Rightarrow> ('m \<Rightarrow> 64 word) option \<Rightarrow> 64 word \<Rightarrow> ('p, 'v, 'm) ApplyRange \<Rightarrow> ('p, 'v, 'm) ApplyRange \<Rightarrow>
     (('p, 'v, 'm) ApplyRange \<times> ('p, 'v, 'm) ApplyRange) res" where
  "apply_split_loop P hs original_sz new other =
     (if \<not> ar_work_size new < original_sz div 2 then Inr (new, other)
      else case ar_work_list other of
          [] \<Rightarrow> throw ''other worklist should not be empty''
        | [n] \<Rightarrow> apply_split_loop P hs original_sz new (other\<lparr>ar_work_list := children_list n\<rparr>)
        | n # ns \<Rightarrow> rbind (node_size P hs n) (\<lambda>sz.
            apply_split_loop P hs original_sz
              (new\<lparr>ar_work_list := ar_work_list new @ [n], ar_work_size := ar_work_size new + ucast sz\<rparr>)
              (other\<lparr>ar_work_list := ns, ar_work_size := ar_work_size other - ucast sz\<rparr>)))"
  by pat_completeness auto
termination
  by (relation "measure (\<lambda>(P, hs, sz, new, other). nodes_count (ar_work_list other))")
    (auto simp: node_count_children_list)

declare apply_split_loop.simps [simp del]

definition apply_split ::
    "'p TriePrefix \<Rightarrow> ('m \<Rightarrow> 64 word) option \<Rightarrow> ('p, 'v, 'm) ApplyRange \<Rightarrow>
     (('p, 'v, 'm) ApplyRange \<times> ('p, 'v, 'm) ApplyRange) res" where
  "apply_split P hs other =
     (let new = \<lparr> ar_work_list = [], ar_work_size = 0 \<rparr> in
      if ar_work_size other = 0 then Inr (new, other)
      else apply_split_loop P hs (ar_work_size other) new other)"

text \<open>The subtrees that each task of a parallel loop over an \<^verbatim>\<open>ApplyRange\<close> works on.\<close>

fun apply_tasks ::
    "'p TriePrefix \<Rightarrow> ('m \<Rightarrow> 64 word) option \<Rightarrow> 64 word \<Rightarrow> strategy \<Rightarrow> ('p, 'v, 'm) ApplyRange \<Rightarrow> ('p, 'v, 'm) TrieNode list list res" where
  "apply_tasks P hs grain Run rng = Inr [ar_work_list rng]"
| "apply_tasks P hs grain (Split s1 s2) rng =
     (if \<not> apply_is_divisible grain rng then Inr [ar_work_list rng]
      else rbind (apply_split P hs rng) (\<lambda>(new, other).
        rbind (apply_tasks P hs grain s1 new) (\<lambda>ts1.
        rbind (apply_tasks P hs grain s2 other) (\<lambda>ts2. Inr (ts1 @ ts2)))))"

text \<open>\<^verbatim>\<open>MerkleTrie::parallel_apply\<close>: \<open>order\<close> is the order in which the tasks run; \<open>fn\<close> works on a shared state.\<close>

definition parallel_apply ::
    "'p TriePrefix \<Rightarrow> ('m \<Rightarrow> 64 word) option \<Rightarrow> strategy \<Rightarrow>
     (('p, 'v, 'm) TrieNode list list \<Rightarrow> ('p, 'v, 'm) TrieNode list list) \<Rightarrow>
     ('v \<Rightarrow> 's \<Rightarrow> 's) \<Rightarrow> ('p, 'v, 'm) MerkleTrie \<Rightarrow> 's \<Rightarrow> 's res" where
  "parallel_apply P hs s order fn t st =
     rbind (ApplyRange_init P hs (mt_root t)) (\<lambda>rng.
       if ar_work_size rng = 0 then Inr st
       else rbind (apply_tasks P hs 1000 s rng) (\<lambda>tasks.
         rfold (\<lambda>work_list st. rfold (\<lambda>n st. apply_node P hs fn n st) work_list st) (order tasks) st))"

text \<open>\<^verbatim>\<open>HashRange\<close>: the nodes carry the path of branch bits that leads to them, where the code has a pointer.\<close>

record ('p, 'v, 'm) HashRange =
  num_children :: "64 word"
  hr_nodes :: "(nat list \<times> ('p, 'v, 'm) TrieNode) list"

definition hash_live :: "'p TriePrefix \<Rightarrow> ('m \<Rightarrow> 64 word) option \<Rightarrow> 'm metadata_kind \<Rightarrow> ('p, 'v, 'm) TrieNode \<Rightarrow> 64 word res" where
  "hash_live P hs k n = rbind (node_size P hs n) (\<lambda>sz. rbind (node_num_deleted k n) (\<lambda>nd. Inr (ucast sz - nd)))"

definition HashRange_init ::
    "'p TriePrefix \<Rightarrow> ('m \<Rightarrow> 64 word) option \<Rightarrow> 'm metadata_kind \<Rightarrow> ('p, 'v, 'm) TrieNode \<Rightarrow> ('p, 'v, 'm) HashRange res" where
  "HashRange_init P hs k node = rbind (hash_live P hs k node) (\<lambda>sz. Inr \<lparr> num_children = sz, hr_nodes = [([], node)] \<rparr>)"

abbreviation path_children :: "nat list \<times> ('p, 'v, 'm) TrieNode \<Rightarrow> (nat list \<times> ('p, 'v, 'm) TrieNode) list" where
  "path_children pn \<equiv> map (\<lambda>(bb, c). (fst pn @ [bb], c)) (cm_list (tn_children (snd pn)))"

lemma nodes_count_path_children: "nodes_count (map snd (path_children pn)) \<le> node_count (snd pn)"
  by (simp add: node_count_children_list [of "snd pn"] comp_def case_prod_unfold)

function hash_split_loop ::
    "'p TriePrefix \<Rightarrow> ('m \<Rightarrow> 64 word) option \<Rightarrow> 'm metadata_kind \<Rightarrow> 64 word \<Rightarrow> ('p, 'v, 'm) HashRange \<Rightarrow> ('p, 'v, 'm) HashRange \<Rightarrow>
     (('p, 'v, 'm) HashRange \<times> ('p, 'v, 'm) HashRange) res" where
  "hash_split_loop P hs k original_sz new other =
     (if \<not> num_children new < original_sz div 2 then Inr (new, other)
      else
        let ol = (case hr_nodes other of [pn] \<Rightarrow> path_children pn | _ \<Rightarrow> hr_nodes other) in
        case ol of
          [] \<Rightarrow> Inr (new, other\<lparr>hr_nodes := []\<rparr>)
        | pn # ns \<Rightarrow> rbind (hash_live P hs k (snd pn)) (\<lambda>sz.
            hash_split_loop P hs k original_sz
              (new\<lparr>hr_nodes := hr_nodes new @ [pn], num_children := num_children new + sz\<rparr>)
              (other\<lparr>hr_nodes := ns, num_children := num_children other - sz\<rparr>)))"
  by pat_completeness auto
termination
proof (relation "measure (\<lambda>(P, hs, k, sz, new, other). nodes_count (map snd (hr_nodes other)))", simp, goal_cases)
  case (1 P hs k original_sz new other ol pn ns sz)
  then have "nodes_count (map snd ol) \<le> nodes_count (map snd (hr_nodes other))"
    using nodes_count_path_children by (cases "hr_nodes other" rule: remdups_adj.cases) auto
  then show ?case using 1(3) by (simp add: node_count_children_list [of "snd pn"])
qed

declare hash_split_loop.simps [simp del]

definition hash_split ::
    "'p TriePrefix \<Rightarrow> ('m \<Rightarrow> 64 word) option \<Rightarrow> 'm metadata_kind \<Rightarrow> ('p, 'v, 'm) HashRange \<Rightarrow>
     (('p, 'v, 'm) HashRange \<times> ('p, 'v, 'm) HashRange) res" where
  "hash_split P hs k other = hash_split_loop P hs k (num_children other) \<lparr> num_children = 0, hr_nodes = [] \<rparr> other"

text \<open>The subtrees that the tasks of the parallel loop of \<^verbatim>\<open>MerkleTrie::hash\<close> hash.\<close>

fun hash_tasks ::
    "'p TriePrefix \<Rightarrow> ('m \<Rightarrow> 64 word) option \<Rightarrow> 'm metadata_kind \<Rightarrow> strategy \<Rightarrow> ('p, 'v, 'm) HashRange \<Rightarrow>
     (nat list \<times> ('p, 'v, 'm) TrieNode) list res" where
  "hash_tasks P hs k Run rng = Inr (hr_nodes rng)"
| "hash_tasks P hs k (Split s1 s2) rng =
     (if \<not> num_children rng > 1000 then Inr (hr_nodes rng)
      else rbind (hash_split P hs k rng) (\<lambda>(new, other).
        rbind (hash_tasks P hs k s1 new) (\<lambda>ts1.
        rbind (hash_tasks P hs k s2 other) (\<lambda>ts2. Inr (ts1 @ ts2)))))"

section \<open>Splitting keeps the entries\<close>

text \<open>The node at a path of branch bits.\<close>

primrec path_node :: "nat list \<Rightarrow> ('p, 'v, 'm) TrieNode \<Rightarrow> ('p, 'v, 'm) TrieNode option" where
  "path_node [] t = Some t"
| "path_node (bb # path) t = Option.bind (cm_find (tn_children t) bb) (path_node path)"

lemma path_node_append: "path_node (as @ bs) t = Option.bind (path_node as t) (path_node bs)"
  by (induction as arbitrary: t) (auto split: bind_split)

text \<open>Every subtree knows its size.\<close>

fun sized :: "'p TriePrefix \<Rightarrow> ('m \<Rightarrow> 64 word) option \<Rightarrow> ('p, 'v, 'm) TrieNode \<Rightarrow> bool" where
  "sized P hs (TrieNode ch p l hv m h) \<longleftrightarrow>
     node_size P hs (TrieNode ch p l hv m h) = Inr (word_of_nat (length (entries P (TrieNode ch p l hv m h)))) \<and>
     (\<forall>(bb, c) \<in> set (cm_list ch). sized P hs c)"

abbreviation range_entries :: "'p TriePrefix \<Rightarrow> ('p, 'v, 'm) TrieNode list \<Rightarrow> ('p \<times> 'v) list" where
  "range_entries P ts \<equiv> concat (map (entries P) ts)"

definition nodes_ok ::
    "'p TriePrefix \<Rightarrow> ('p \<Rightarrow> bool) \<Rightarrow> ('p \<Rightarrow> nat list) \<Rightarrow> ('m \<Rightarrow> 64 word) option \<Rightarrow> ('p, 'v, 'm) TrieNode list \<Rightarrow> bool" where
  "nodes_ok P pvalid nib hs ts \<longleftrightarrow> (\<forall>t \<in> set ts. wf_node P pvalid nib 2 t \<and> sized P hs t \<and> leaf_sized P hs t)"

lemma ucast_size: "n < 2 ^ 32 \<Longrightarrow> (ucast (word_of_nat n :: 32 word) :: 64 word) = word_of_nat n"
  by (rule ucast_of_nat32)

lemma less_half:
  assumes "n < 2 ^ 32" "N < 2 ^ 32"
  shows "(word_of_nat n :: 64 word) < word_of_nat N div 2 \<longleftrightarrow> n < N div 2"
proof -
  have "unat (word_of_nat n :: 64 word) = n" "unat (word_of_nat N div 2 :: 64 word) = N div 2"
    using assms by (simp_all add: unat_of_nat unat_div_distrib)
  then show ?thesis by (simp add: word_less_nat_alt)
qed

context trie_prefix
begin

lemma sized_size: "sized P hs t \<Longrightarrow> node_size P hs t = Inr (word_of_nat (length (entries P t)))"
  by (cases t) simp

lemma entries_pos: "wf 2 t \<Longrightarrow> 0 < length (entries P t)"
  using get_lowest_key_entries by blast

lemma children_list_ok:
  assumes "wf 2 t" "sized P hs t" "leaf_sized P hs t" "tn_prefix_len t \<noteq> prefix_bits P"
  shows "nodes_ok P pvalid nib hs (children_list t)" "range_entries P (children_list t) = entries P t" "2 \<le> length (children_list t)"
proof -
  obtain cs p l hv m h where t: "t = TrieNode (Children cs) p l hv m h"
    using assms(1,4) by (cases t; cases "tn_children t") auto
  with assms have "l < prefix_bits P" by (auto elim: wf_ChildrenE)
  then show "nodes_ok P pvalid nib hs (children_list t)" "range_entries P (children_list t) = entries P t" "2 \<le> length (children_list t)"
    using assms t leaf_sized_child by (auto simp: nodes_ok_def comp_def case_prod_unfold)
qed

text \<open>While less than half is taken, the list that is split is neither empty nor a single leaf.\<close>

lemma work_expand:
  fixes ts :: "('p, 'v, 'm) TrieNode list"
  assumes ok: "nodes_ok P pvalid nib hs ts" and lt: "k < (k + length (range_entries P ts)) div 2"
  defines "ol \<equiv> (case ts of [n] \<Rightarrow> children_list n | _ \<Rightarrow> ts)"
  shows "nodes_ok P pvalid nib hs ol" "range_entries P ol = range_entries P ts" "length ol \<noteq> 1" "ol \<noteq> []"
proof -
  consider "ts = []" | n where "ts = [n]" | x y zs where "ts = x # y # zs" by (cases ts rule: remdups_adj.cases) auto
  then have "nodes_ok P pvalid nib hs ol \<and> range_entries P ol = range_entries P ts \<and> length ol \<noteq> 1 \<and> ol \<noteq> []"
  proof cases
    case 1
    then show ?thesis using lt by simp
  next
    case (2 n)
    then have n: "wf 2 n" "sized P hs n" "leaf_sized P hs n" using ok by (auto simp: nodes_ok_def)
    have "tn_prefix_len n \<noteq> prefix_bits P"
    proof
      assume "tn_prefix_len n = prefix_bits P"
      then have "length (entries P n) = 1" using iter_single_leaf [OF n(1)] by blast
      then show False using lt 2 by simp
    qed
    from children_list_ok [OF n this] show ?thesis using 2 by (auto simp: ol_def)
  qed (use ok in \<open>auto simp: ol_def\<close>)
  then show "nodes_ok P pvalid nib hs ol" "range_entries P ol = range_entries P ts" "length ol \<noteq> 1" "ol \<noteq> []" by auto
qed

lemma acc_split_loop_ok:
  fixes new other :: "('p, 'v, 'm) AccumulateValuesRange"
  assumes "nodes_ok P pvalid nib hs (work_list new)" "nodes_ok P pvalid nib hs (work_list other)"
    and "work_size new = word_of_nat (length (range_entries P (work_list new)))"
    and "work_size other = word_of_nat (length (range_entries P (work_list other)))"
    and "original_sz = word_of_nat (length (range_entries P (work_list new)) + length (range_entries P (work_list other)))"
    and "length (range_entries P (work_list new)) + length (range_entries P (work_list other)) < 2 ^ 32"
  shows "\<exists>new' other'. acc_split_loop P hs original_sz new other = Inr (new', other') \<and>
    nodes_ok P pvalid nib hs (work_list new') \<and> nodes_ok P pvalid nib hs (work_list other') \<and>
    work_size new' = word_of_nat (length (range_entries P (work_list new'))) \<and>
    work_size other' = word_of_nat (length (range_entries P (work_list other'))) \<and>
    range_entries P (work_list new') @ range_entries P (work_list other') = range_entries P (work_list new) @ range_entries P (work_list other) \<and>
    vector_offset new' = vector_offset new \<and> vector_offset other' = vector_offset other + (work_size new' - work_size new)"
  using assms
proof (induction "nodes_count (work_list other)" arbitrary: new other rule: less_induct)
  case (less other new)
  let ?n = "length (range_entries P (work_list new))" and ?o = "length (range_entries P (work_list other))"
  have lt: "work_size new < original_sz div 2 \<longleftrightarrow> ?n < (?n + ?o) div 2"
    using less_half [of ?n "?n + ?o"] less.prems(3,5,6) by simp
  show ?case
  proof (cases "?n < (?n + ?o) div 2")
    case False
    then show ?thesis using lt less.prems by (subst acc_split_loop.simps) auto
  next
    case True
    define ol where "ol = (case work_list other of [n] \<Rightarrow> children_list n | _ \<Rightarrow> work_list other)"
    have ol: "nodes_ok P pvalid nib hs ol" "range_entries P ol = range_entries P (work_list other)" "length ol \<noteq> 1" "ol \<noteq> []"
      using work_expand [OF less.prems(2), of ?n] True unfolding ol_def by auto
    then obtain n ns where nns: "ol = n # ns" by (cases ol) auto
    have n: "wf 2 n" "sized P hs n" "leaf_sized P hs n" using ol(1) nns by (auto simp: nodes_ok_def)
    let ?k = "length (entries P n)"
    have k: "?k < 2 ^ 32" "?o = ?k + length (range_entries P ns)" using ol(2) nns less.prems(6) by (auto simp flip: ol(2))
    let ?new = "new\<lparr>work_list := work_list new @ [n], work_size := work_size new + word_of_nat ?k\<rparr>"
    let ?other = "other\<lparr>work_list := ns, work_size := work_size other - word_of_nat ?k, vector_offset := vector_offset other + word_of_nat ?k\<rparr>"
    have dec: "nodes_count (work_list ?other) < nodes_count (work_list other)"
    proof -
      have "nodes_count ol \<le> nodes_count (work_list other)"
        unfolding ol_def by (auto simp: node_count_children_list split: list.splits)
      then show ?thesis using nns by (simp add: node_count_children_list [of n])
    qed
    have step: "acc_split_loop P hs original_sz new other = acc_split_loop P hs original_sz ?new ?other"
      using lt True ol(3) nns sized_size [OF n(2)] ucast_size [OF k(1)]
      by (subst acc_split_loop.simps) (simp add: ol_def [symmetric])
    have "\<exists>new' other'. acc_split_loop P hs original_sz ?new ?other = Inr (new', other') \<and>
      nodes_ok P pvalid nib hs (work_list new') \<and> nodes_ok P pvalid nib hs (work_list other') \<and>
      work_size new' = word_of_nat (length (range_entries P (work_list new'))) \<and>
      work_size other' = word_of_nat (length (range_entries P (work_list other'))) \<and>
      range_entries P (work_list new') @ range_entries P (work_list other') = range_entries P (work_list ?new) @ range_entries P (work_list ?other) \<and>
      vector_offset new' = vector_offset ?new \<and> vector_offset other' = vector_offset ?other + (work_size new' - work_size ?new)"
      using less.prems ol n nns k by (intro less.hyps [OF dec]) (auto simp: nodes_ok_def)
    then show ?thesis unfolding step using ol(2) nns by (auto simp: algebra_simps)
  qed
qed

section \<open>The parallel accumulation equals the sequential one\<close>

abbreviation range_values :: "('p, 'v, 'm) TrieNode list \<Rightarrow> 'v list" where
  "range_values ts \<equiv> map snd (range_entries P ts)"

lemma acc_loop:
  fixes xs :: "'a list" and nd :: "'a \<Rightarrow> ('p, 'v, 'm) TrieNode" and w :: "('p, 'v, 'm) TrieNode \<Rightarrow> 64 word \<Rightarrow> (nat \<times> 'v) list res"
  assumes "\<And>x i. x \<in> set xs \<Longrightarrow> i + length (entries P (nd x)) \<le> vec_size \<Longrightarrow> w (nd x) (word_of_nat i) = Inr (enumerate i (map snd (entries P (nd x))))"
    and "\<And>x. x \<in> set xs \<Longrightarrow> sized P hs (nd x)" and "i + length (range_entries P (map nd xs)) \<le> vec_size" "vec_size < 2 ^ 32"
  shows "rfold (\<lambda>x (offset, ws). rbind (w (nd x) offset) (\<lambda>ws'. rbind (node_size P hs (nd x)) (\<lambda>sz. Inr (offset + ucast sz, ws @ ws'))))
      xs (word_of_nat i, ws) = Inr (word_of_nat (i + length (range_entries P (map nd xs))), ws @ enumerate i (range_values (map nd xs)))"
  using assms
proof (induction xs arbitrary: i ws)
  case (Cons x xs)
  let ?k = "length (entries P (nd x))"
  have k: "?k < 2 ^ 32" "i + ?k \<le> vec_size" using Cons.prems(3,4) by auto
  have w: "w (nd x) (word_of_nat i) = Inr (enumerate i (map snd (entries P (nd x))))" using Cons.prems(1) [of x i] k by simp
  have sz: "node_size P hs (nd x) = Inr (word_of_nat ?k)" using Cons.prems(2) [of x] sized_size by simp
  have "rfold (\<lambda>x (offset, ws). rbind (w (nd x) offset) (\<lambda>ws'. rbind (node_size P hs (nd x)) (\<lambda>sz. Inr (offset + ucast sz, ws @ ws'))))
      xs (word_of_nat (i + ?k), ws @ enumerate i (map snd (entries P (nd x)))) =
      Inr (word_of_nat (i + ?k + length (range_entries P (map nd xs))),
        (ws @ enumerate i (map snd (entries P (nd x)))) @ enumerate (i + ?k) (range_values (map nd xs)))"
    by (rule Cons.IH) (use Cons.prems in auto)
  then show ?case using w sz ucast_size [OF k(1)] by (simp add: add.assoc enumerate_append_eq)
qed simp

lemma worker_ok:
  "wf 2 t \<Longrightarrow> sized P hs t \<Longrightarrow> i + length (entries P t) \<le> vec_size \<Longrightarrow> vec_size < 2 ^ 32 \<Longrightarrow>
    accumulate_values_parallel_worker P hs vec_size t (word_of_nat i) = Inr (enumerate i (map snd (entries P t)))"
proof (induction t arbitrary: i rule: node_induct)
  case (Value v p l hv m h)
  then have "unat (word_of_nat i :: 64 word) = i" by (simp add: unat_of_nat)
  then show ?case using Value.prems by (auto simp: accumulate_values_parallel_worker.simps enumerate_eq_zip)
next
  case (Children cs p l hv m h)
  from Children.prems(1) obtain d where d: "l = 4 * d" "4 * d < prefix_bits P" "branch 2 (take d (nib p)) cs" by (rule wf_ChildrenE)
  have len: "i + length (range_entries P (map snd cs)) \<le> vec_size" using Children.prems(3) d by (simp add: comp_def case_prod_unfold)
  have "rfold (\<lambda>x (offset, ws). rbind (accumulate_values_parallel_worker P hs vec_size (snd x) offset) (\<lambda>ws'.
      rbind (node_size P hs (snd x)) (\<lambda>sz. Inr (offset + ucast sz, ws @ ws')))) cs (word_of_nat i, []) =
      Inr (word_of_nat (i + length (range_entries P (map snd cs))), [] @ enumerate i (range_values (map snd cs)))"
  proof (rule acc_loop [OF _ _ len Children.prems(4)])
    fix x assume "x \<in> set cs"
    then have c: "(fst x, snd x) \<in> set cs" "wf 2 (snd x)" "sized P hs (snd x)" using Children.prems(1,2) by auto
    show "sized P hs (snd x)" by (rule c(3))
    show "accumulate_values_parallel_worker P hs vec_size (snd x) (word_of_nat i) = Inr (enumerate i (map snd (entries P (snd x))))"
      if "i + length (entries P (snd x)) \<le> vec_size" for i
      by (rule Children.IH [OF c that Children.prems(4)])
  qed
  then show ?case
    using d by (simp add: accumulate_values_parallel_worker.simps case_prod_unfold comp_def)
qed

lemma acc_run_ok:
  fixes rng :: "('p, 'v, 'm) AccumulateValuesRange"
  assumes "nodes_ok P pvalid nib hs (work_list rng)" "vector_offset rng = word_of_nat i"
    and "i + length (range_entries P (work_list rng)) \<le> vec_size" "vec_size < 2 ^ 32"
  shows "acc_run P hs vec_size rng = Inr (enumerate i (range_values (work_list rng)))"
proof -
  have "rfold (\<lambda>x (offset, ws). rbind (accumulate_values_parallel_worker P hs vec_size (id x) offset) (\<lambda>ws'.
      rbind (node_size P hs (id x)) (\<lambda>sz. Inr (offset + ucast sz, ws @ ws')))) (work_list rng) (word_of_nat i, []) =
      Inr (word_of_nat (i + length (range_entries P (map id (work_list rng)))), [] @ enumerate i (range_values (map id (work_list rng))))"
  proof (rule acc_loop)
    fix x assume "x \<in> set (work_list rng)"
    then have c: "wf 2 x" "sized P hs x" using assms(1) by (auto simp: nodes_ok_def)
    show "sized P hs (id x)" using c by simp
    show "accumulate_values_parallel_worker P hs vec_size (id x) (word_of_nat i) = Inr (enumerate i (map snd (entries P (id x))))"
      if "i + length (entries P (id x)) \<le> vec_size" for i
      using worker_ok [OF c _ assms(4)] that by simp
  qed (use assms in simp_all)
  then show ?thesis using assms(2) by (simp add: acc_run_def)
qed

lemma acc_parallel_ok:
  fixes rng :: "('p, 'v, 'm) AccumulateValuesRange"
  assumes "nodes_ok P pvalid nib hs (work_list rng)" "vector_offset rng = word_of_nat i"
    and "work_size rng = word_of_nat (length (range_entries P (work_list rng)))"
    and "i + length (range_entries P (work_list rng)) \<le> vec_size" "vec_size < 2 ^ 32"
  shows "acc_parallel P hs vec_size s rng = Inr (enumerate i (range_values (work_list rng)))"
  using assms
proof (induction s arbitrary: rng i)
  case Run
  then show ?case by (simp add: acc_run_ok)
next
  case (Split s1 s2)
  show ?case
  proof (cases "acc_is_divisible rng")
    case False
    then show ?thesis using Split.prems by (simp add: acc_run_ok)
  next
    case True
    let ?new = "\<lparr> work_list = [], work_size = 0, vector_offset = vector_offset rng \<rparr> :: ('p, 'v, 'm) AccumulateValuesRange"
    obtain new other where sp: "acc_split P hs rng = Inr (new, other)"
      and ok: "nodes_ok P pvalid nib hs (work_list new)" "nodes_ok P pvalid nib hs (work_list other)"
        "work_size new = word_of_nat (length (range_entries P (work_list new)))"
        "work_size other = word_of_nat (length (range_entries P (work_list other)))"
        "range_entries P (work_list new) @ range_entries P (work_list other) = range_entries P (work_list rng)"
        "vector_offset new = vector_offset rng" "vector_offset other = vector_offset rng + work_size new"
      using acc_split_loop_ok [of hs ?new rng "work_size rng"] Split.prems
      by (auto simp: acc_split_def nodes_ok_def)
    have len: "length (range_entries P (work_list rng)) = length (range_entries P (work_list new)) + length (range_entries P (work_list other))"
      and vals: "range_values (work_list rng) = range_values (work_list new) @ range_values (work_list other)"
      using ok(5) by (simp_all flip: ok(5))
    have "acc_parallel P hs vec_size s1 new = Inr (enumerate i (range_values (work_list new)))"
      using Split.IH(1) [OF ok(1) _ ok(3)] ok(6) Split.prems(2,4,5) len by simp
    moreover have "acc_parallel P hs vec_size s2 other = Inr (enumerate (i + length (range_entries P (work_list new))) (range_values (work_list other)))"
      using Split.IH(2) [OF ok(2) _ ok(4)] ok(3,7) Split.prems(2,4,5) len by simp
    ultimately show ?thesis using True sp vals by (simp add: enumerate_append_eq)
  qed
qed

text \<open>The writes of disjoint positions may run in any order.\<close>

lemma fold_writes:
  "distinct (map fst ws) \<Longrightarrow> \<forall>w \<in> set ws. fst w < length out \<Longrightarrow> j < length out \<Longrightarrow>
    length (fold (\<lambda>(i, v) out. out[i := v]) ws out) = length out \<and>
    fold (\<lambda>(i, v) out. out[i := v]) ws out ! j = (case map_of ws j of None \<Rightarrow> out ! j | Some v \<Rightarrow> v)"
proof (induction ws arbitrary: out)
  case (Cons w ws)
  obtain i v where w: "w = (i, v)" by fastforce
  have "map_of ws i = None" using Cons.prems(1) w by (simp add: map_of_eq_None_iff)
  then show ?case using Cons.IH [of "out[i := v]"] Cons.prems w by (auto split: option.splits)
qed simp

lemma fold_writes_length: "length (fold (\<lambda>(i, v) out. out[i := v]) ws out) = length out"
  by (induction ws arbitrary: out) (simp_all add: case_prod_unfold)

lemma fold_writes_enumerate:
  assumes "mset ws = mset (enumerate 0 xs)"
  shows "fold (\<lambda>(i, v) out. out[i := v]) ws (replicate (length xs) dflt) = xs"
proof (rule nth_equalityI)
  have d: "distinct (map fst ws)"
    using assms by (metis distinct_upt map_fst_enumerate mset_eq_imp_distinct_iff mset_map)
  have st: "set ws = set (enumerate 0 xs)" using assms by (metis set_mset_mset)
  show "length (fold (\<lambda>(i, v) out. out[i := v]) ws (replicate (length xs) dflt)) = length xs"
    by (simp add: fold_writes_length)
  fix j assume "j < length (fold (\<lambda>(i, v) out. out[i := v]) ws (replicate (length xs) dflt))"
  then have j: "j < length xs" by (simp add: fold_writes_length)
  then have "(j, xs ! j) \<in> set ws" unfolding st by (auto simp: in_set_enumerate_eq)
  then have "map_of ws j = Some (xs ! j)" using d by (simp add: map_of_eq_Some_iff)
  moreover have "\<forall>w \<in> set ws. fst w < length xs" unfolding st by (auto simp: in_set_enumerate_eq)
  ultimately show "fold (\<lambda>(i, v) out. out[i := v]) ws (replicate (length xs) dflt) ! j = xs ! j"
    using fold_writes [OF d, of "replicate (length xs) dflt" j] j by simp
qed

lemma counts_ok_sized:
  fixes t :: "('p, 'v, 'x::ab_group_add CombinedMetadata) TrieNode"
  shows "wf 2 t \<Longrightarrow> counts_ok P t \<Longrightarrow> sized P (Some md_size) t"
proof (induction t rule: node_induct)
  case (Value v p l hv m h)
  then show ?case using counts_ok_size(1) [OF Value] by (simp add: entries_leaves)
next
  case (Children cs p l hv m h)
  from Children.prems(1) obtain d where l: "l = 4 * d" "4 * d < prefix_bits P" "branch 2 (take d (nib p)) cs" by (rule wf_ChildrenE)
  have "sized P (Some md_size) c" if "(bb, c) \<in> set cs" for bb c
    using Children.IH [OF that] counts_ok_child [OF Children.prems(2) _ that] Children.prems(1) that l by auto
  then show ?case using counts_ok_size(1) [OF Children.prems] by (auto simp: entries_leaves simp del: entries.simps leaves.simps)
qed

lemma counts_ok_nodes_ok:
  fixes t :: "('p, 'v, 'x::ab_group_add CombinedMetadata) TrieNode"
  shows "wf 2 t \<Longrightarrow> counts_ok P t \<Longrightarrow> nodes_ok P pvalid nib (Some md_size) [t]"
  using counts_ok_sized by (auto simp: nodes_ok_def leaf_sized_def counts_ok_def)

lemma accumulate_values_parallel_ok:
  fixes t :: "('p, 'v, 'x::ab_group_add CombinedMetadata) MerkleTrie"
  assumes t: "root_ok P pvalid nib f (mt_root t)" and perm: "\<And>ws. mset (perm ws) = mset ws"
  shows "accumulate_values_parallel P (Some md_size) s perm dflt t = Inr (map snd (entries P (mt_root t)))"
proof -
  let ?r = "mt_root t" and ?n = "length (entries P (mt_root t))"
  consider "wf 2 ?r" "counts_ok P ?r" | "is_empty_node ?r" "tn_metadata ?r = 0" using t by (auto simp: root_ok_def)
  then show ?thesis
  proof cases
    case 1
    note sz = counts_ok_sized [OF 1]
    let ?rng = "\<lparr> work_list = [?r], work_size = word_of_nat ?n, vector_offset = 0 \<rparr> :: ('p, 'v, 'x CombinedMetadata) AccumulateValuesRange"
    have n: "?n < 2 ^ 31" using counts_okD(2) [OF 1(2)] by (simp add: entries_leaves)
    then have n': "?n < 2 ^ 32" "unat (word_of_nat ?n :: 32 word) = ?n" by (simp_all add: unat_of_nat)
    have i: "AccumulateValuesRange_init P (Some md_size) ?r = Inr ?rng"
      using sized_size [OF sz] ucast_size [OF n'(1)] by (simp add: AccumulateValuesRange_init_def)
    have nz: "(word_of_nat ?n :: 64 word) \<noteq> 0"
      using n entries_pos [OF 1(1)] by (auto simp: word_of_nat_eq_0_iff dest: nat_dvd_not_less)
    have "acc_parallel P (Some md_size) ?n s ?rng = Inr (enumerate 0 (range_values (work_list ?rng)))"
      using counts_ok_nodes_ok [OF 1] n'(1) by (intro acc_parallel_ok) simp_all
    then show ?thesis
      using sized_size [OF sz] i nz n' fold_writes_enumerate [OF perm, of "map snd (entries P ?r)" dflt]
      by (simp add: accumulate_values_parallel_def)
  next
    case 2
    have e: "entries P ?r = []" using leaves_empty [OF 2(1)] by (simp add: entries_leaves)
    have "perm [] = []" using perm [of "[]"] by simp
    then show ?thesis using 2 e
      by (simp add: accumulate_values_parallel_def AccumulateValuesRange_init_def node_size_def zero_CombinedMetadata_def word_sless_alt)
  qed
qed

section \<open>Applying a function in parallel\<close>

lemma apply_split_loop_ok:
  fixes new other :: "('p, 'v, 'm) ApplyRange"
  assumes "nodes_ok P pvalid nib hs (ar_work_list new)" "nodes_ok P pvalid nib hs (ar_work_list other)"
    and "ar_work_size new = word_of_nat (length (range_entries P (ar_work_list new)))"
    and "ar_work_size other = word_of_nat (length (range_entries P (ar_work_list other)))"
    and "original_sz = word_of_nat (length (range_entries P (ar_work_list new)) + length (range_entries P (ar_work_list other)))"
    and "length (range_entries P (ar_work_list new)) + length (range_entries P (ar_work_list other)) < 2 ^ 32"
  shows "\<exists>new' other'. apply_split_loop P hs original_sz new other = Inr (new', other') \<and>
    nodes_ok P pvalid nib hs (ar_work_list new') \<and> nodes_ok P pvalid nib hs (ar_work_list other') \<and>
    ar_work_size new' = word_of_nat (length (range_entries P (ar_work_list new'))) \<and>
    ar_work_size other' = word_of_nat (length (range_entries P (ar_work_list other'))) \<and>
    range_entries P (ar_work_list new') @ range_entries P (ar_work_list other') = range_entries P (ar_work_list new) @ range_entries P (ar_work_list other)"
  using assms
proof (induction "nodes_count (ar_work_list other)" arbitrary: new other rule: less_induct)
  case (less other new)
  let ?n = "length (range_entries P (ar_work_list new))" and ?o = "length (range_entries P (ar_work_list other))"
  have lt: "ar_work_size new < original_sz div 2 \<longleftrightarrow> ?n < (?n + ?o) div 2"
    using less_half [of ?n "?n + ?o"] less.prems(3,5,6) by simp
  show ?case
  proof (cases "?n < (?n + ?o) div 2")
    case False
    then show ?thesis using lt less.prems by (subst apply_split_loop.simps) auto
  next
    case True
    note ol = work_expand [OF less.prems(2), of ?n, OF True]
    consider (one) n where "ar_work_list other = [n]" | (more) n n' ns where "ar_work_list other = n # n' # ns"
      using True by (cases "ar_work_list other" rule: remdups_adj.cases) auto
    then show ?thesis
    proof cases
      case one
      let ?other = "other\<lparr>ar_work_list := children_list n\<rparr>"
      have dec: "nodes_count (ar_work_list ?other) < nodes_count (ar_work_list other)"
        using one by (simp add: node_count_children_list [of n])
      have "apply_split_loop P hs original_sz new other = apply_split_loop P hs original_sz new ?other"
        using lt True one by (subst apply_split_loop.simps) simp
      moreover have "range_entries P (children_list n) = range_entries P (ar_work_list other)" using ol(2) one by simp
      ultimately show ?thesis using less.hyps [OF dec less.prems(1)] less.prems ol(1) one by simp
    next
      case more
      have n: "wf 2 n" "sized P hs n" "leaf_sized P hs n" using less.prems(2) more by (auto simp: nodes_ok_def)
      let ?k = "length (entries P n)"
      have k: "?k < 2 ^ 32" using more less.prems(6) by simp
      let ?new = "new\<lparr>ar_work_list := ar_work_list new @ [n], ar_work_size := ar_work_size new + word_of_nat ?k\<rparr>"
      let ?other = "other\<lparr>ar_work_list := n' # ns, ar_work_size := ar_work_size other - word_of_nat ?k\<rparr>"
      have dec: "nodes_count (ar_work_list ?other) < nodes_count (ar_work_list other)" using more by simp
      have step: "apply_split_loop P hs original_sz new other = apply_split_loop P hs original_sz ?new ?other"
        using lt True more sized_size [OF n(2)] ucast_size [OF k] by (subst apply_split_loop.simps) simp
      show ?thesis unfolding step using less.hyps [OF dec, of ?new] less.prems n more by (simp add: nodes_ok_def)
    qed
  qed
qed

lemma apply_tasks_ok:
  fixes rng :: "('p, 'v, 'm) ApplyRange"
  assumes "nodes_ok P pvalid nib hs (ar_work_list rng)"
    and "ar_work_size rng = word_of_nat (length (range_entries P (ar_work_list rng)))" "length (range_entries P (ar_work_list rng)) < 2 ^ 32"
  shows "\<exists>tasks. apply_tasks P hs grain s rng = Inr tasks \<and> nodes_ok P pvalid nib hs (concat tasks) \<and>
    range_entries P (concat tasks) = range_entries P (ar_work_list rng)"
  using assms
proof (induction s arbitrary: rng)
  case (Split s1 s2)
  show ?case
  proof (cases "apply_is_divisible grain rng")
    case True
    then have nz: "ar_work_size rng \<noteq> 0" by (auto simp: apply_is_divisible_def)
    let ?new = "\<lparr> ar_work_list = [], ar_work_size = 0 \<rparr> :: ('p, 'v, 'm) ApplyRange"
    obtain new other where sp: "apply_split P hs rng = Inr (new, other)"
      and ok: "nodes_ok P pvalid nib hs (ar_work_list new)" "nodes_ok P pvalid nib hs (ar_work_list other)"
        "ar_work_size new = word_of_nat (length (range_entries P (ar_work_list new)))"
        "ar_work_size other = word_of_nat (length (range_entries P (ar_work_list other)))"
        "range_entries P (ar_work_list new) @ range_entries P (ar_work_list other) = range_entries P (ar_work_list rng)"
      using apply_split_loop_ok [of hs ?new rng "ar_work_size rng"] Split.prems nz by (auto simp: apply_split_def nodes_ok_def)
    have len: "length (range_entries P (ar_work_list new)) < 2 ^ 32" "length (range_entries P (ar_work_list other)) < 2 ^ 32"
      using Split.prems(3) by (simp_all flip: ok(5))
    obtain ts1 ts2 where ts: "apply_tasks P hs grain s1 new = Inr ts1" "apply_tasks P hs grain s2 other = Inr ts2"
      "nodes_ok P pvalid nib hs (concat ts1)" "nodes_ok P pvalid nib hs (concat ts2)"
      "range_entries P (concat ts1) = range_entries P (ar_work_list new)" "range_entries P (concat ts2) = range_entries P (ar_work_list other)"
      using Split.IH(1) [OF ok(1,3) len(1)] Split.IH(2) [OF ok(2,4) len(2)] by blast
    then show ?thesis using True sp ok(5) by (simp add: nodes_ok_def ball_Un)
  qed (use Split.prems in simp)
qed simp

lemma apply_nodes:
  "nodes_ok P pvalid nib hs ts \<Longrightarrow>
    rfold (\<lambda>n st. apply_node P hs fn n st) ts st = Inr (fold fn (map snd (range_entries P ts)) st)"
  by (induction ts arbitrary: st) (simp_all add: nodes_ok_def apply_node_entries [where k = 2])

text \<open>With a function whose applications commute, neither the splits nor the order of the tasks matters.\<close>

lemma mset_concat_map: "mset xs = mset ys \<Longrightarrow> mset (concat (map g xs)) = mset (concat (map g ys))"
  by (simp add: mset_concat comp_def) (metis mset_map sum_mset_sum_list)

lemma concat_concat_map: "concat (concat (map (map g) xss)) = concat (map (\<lambda>xs. concat (map g xs)) xss)"
  by (induction xss) simp_all

lemma fold_tasks:
  assumes "\<And>ts. ts \<in> set tasks \<Longrightarrow> nodes_ok P pvalid nib hs ts"
  shows "rfold (\<lambda>work_list st. rfold (\<lambda>n st. apply_node P hs fn n st) work_list st) tasks st =
    Inr (fold fn (map snd (range_entries P (concat tasks))) st)"
  using assms by (induction tasks arbitrary: st) (simp_all add: apply_nodes)

lemma parallel_apply_ok:
  fixes t :: "('p, 'v, 'x::ab_group_add CombinedMetadata) MerkleTrie"
  assumes t: "root_ok P pvalid nib f (mt_root t)" and order: "\<And>tasks. mset (order tasks) = mset tasks"
    and comm: "\<And>v w. fn v \<circ> fn w = fn w \<circ> fn v"
  shows "parallel_apply P (Some md_size) s order fn t st = Inr (fold fn (map snd (entries P (mt_root t))) st)"
proof -
  let ?r = "mt_root t" and ?n = "length (entries P (mt_root t))"
  consider "wf 2 ?r" "counts_ok P ?r" | "is_empty_node ?r" "tn_metadata ?r = 0" using t by (auto simp: root_ok_def)
  then show ?thesis
  proof cases
    case 1
    note ok = counts_ok_nodes_ok [OF 1] and sz = sized_size [OF counts_ok_sized [OF 1]]
    have n: "?n < 2 ^ 32" using counts_okD(2) [OF 1(2)] by (simp add: entries_leaves)
    let ?rng = "\<lparr> ar_work_list = [?r], ar_work_size = word_of_nat ?n \<rparr> :: ('p, 'v, 'x CombinedMetadata) ApplyRange"
    have i: "ApplyRange_init P (Some md_size) ?r = Inr ?rng" using sz ucast_size [OF n] by (simp add: ApplyRange_init_def)
    have nz: "(word_of_nat ?n :: 64 word) \<noteq> 0"
      using n entries_pos [OF 1(1)] by (auto simp: word_of_nat_eq_0_iff dest: nat_dvd_not_less)
    obtain tasks where tasks: "apply_tasks P (Some md_size) 1000 s ?rng = Inr tasks"
      "nodes_ok P pvalid nib (Some md_size) (concat tasks)" "range_entries P (concat tasks) = entries P ?r"
      using apply_tasks_ok [of "Some md_size" ?rng] ok n by auto
    have "set (order tasks) = set tasks" using order by (metis set_mset_mset)
    then have run: "rfold (\<lambda>work_list st. rfold (\<lambda>n st. apply_node P (Some md_size) fn n st) work_list st) (order tasks) st =
        Inr (fold fn (map snd (range_entries P (concat (order tasks)))) st)"
      using tasks(2) by (intro fold_tasks) (auto simp: nodes_ok_def)
    have "mset (map snd (range_entries P (concat (order tasks)))) = mset (map snd (range_entries P (concat tasks)))"
      using mset_concat_map [OF order, of "\<lambda>ts. map snd (range_entries P ts)" tasks] by (simp add: map_concat comp_def concat_concat_map)
    then have "fold fn (map snd (range_entries P (concat (order tasks)))) st = fold fn (map snd (entries P ?r)) st"
      using comm tasks(3) by (metis fold_multiset_equiv)
    then show ?thesis
      using i nz tasks(1) run by (simp add: parallel_apply_def)
  next
    case 2
    then show ?thesis
      using leaves_empty [OF 2(1)] by (simp add: entries_leaves parallel_apply_def ApplyRange_init_def node_size_def zero_CombinedMetadata_def word_sless_alt)
  qed
qed

section \<open>Splitting the hash range\<close>

abbreviation range_leaves where
  "range_leaves pns \<equiv> concat (map (\<lambda>pn. leaves P (snd pn)) pns)"

abbreviation live_count where
  "live_count pns \<equiv> length (filter (\<lambda>(k, v, m). num_deleted_subnodes m = 0) (range_leaves pns))"

lemma hash_live_count:
  fixes t :: "('p, 'v, 'x::ab_group_add CombinedMetadata) TrieNode"
  assumes "wf 2 t" "counts_ok P t"
  shows "hash_live P (Some md_size) combined_kind t = Inr (word_of_nat (length (live_leaves P t)))"
proof -
  have le: "length (live_leaves P t) \<le> length (leaves P t)" by (simp add: live_leaves_def)
  have "length (leaves P t) < 2 ^ 32" using counts_okD(2) [OF assms(2)] by simp
  then show ?thesis
    using counts_ok_size [OF assms] ucast_of_nat32 le by (simp add: hash_live_def del: node_num_deleted.simps)
qed

definition hash_nodes_ok :: "('p, 'v, 'x::ab_group_add CombinedMetadata) TrieNode \<Rightarrow> (nat list \<times> ('p, 'v, 'x CombinedMetadata) TrieNode) list \<Rightarrow> bool" where
  "hash_nodes_ok root pns \<longleftrightarrow> (\<forall>(path, t) \<in> set pns. wf 2 t \<and> counts_ok P t \<and> path_node path root = Some t)"

lemma path_children_ok:
  fixes t root :: "('p, 'v, 'x::ab_group_add CombinedMetadata) TrieNode"
  assumes "hash_nodes_ok root [(path, t)]" "1 < length (leaves P t)"
  shows "hash_nodes_ok root (path_children (path, t))" "range_leaves (path_children (path, t)) = leaves P t"
    "path_children (path, t) \<noteq> []"
proof -
  have t: "wf 2 t" "counts_ok P t" "path_node path root = Some t" using assms(1) by (auto simp: hash_nodes_ok_def)
  obtain cs p l hv m h where eq: "t = TrieNode (Children cs) p l hv m h"
    using t(1) assms(2) by (cases t; cases "tn_children t") auto
  from t(1) [unfolded eq] obtain d where d: "l = 4 * d" "4 * d < prefix_bits P" "branch 2 (take d (nib p)) cs" by (rule wf_ChildrenE)
  have "wf 2 c \<and> counts_ok P c \<and> path_node (path @ [bb]) root = Some c" if "(bb, c) \<in> set cs" for bb c
  proof -
    have "cm_find (Children cs) bb = Some c" using that d(3) by (auto simp: branch_ok_def map_of_sorted_iff)
    then show ?thesis using t(1,3) that counts_ok_child [OF t(2) [unfolded eq] _ that] d eq by (auto simp: path_node_append)
  qed
  then show "hash_nodes_ok root (path_children (path, t))" using eq by (auto simp: hash_nodes_ok_def)
  show "range_leaves (path_children (path, t)) = leaves P t" "path_children (path, t) \<noteq> []"
    using eq d assms(2) by (auto simp: comp_def case_prod_unfold)
qed

lemma hash_expand:
  fixes pns :: "(nat list \<times> ('p, 'v, 'x::ab_group_add CombinedMetadata) TrieNode) list"
  assumes ok: "hash_nodes_ok root pns" and lt: "k < (k + live_count pns) div 2"
  defines "ol \<equiv> (case pns of [pn] \<Rightarrow> path_children pn | _ \<Rightarrow> pns)"
  shows "hash_nodes_ok root ol \<and> range_leaves ol = range_leaves pns \<and> ol \<noteq> []"
proof -
  consider "pns = []" | path t where "pns = [(path, t)]" | x y zs where "pns = x # y # zs"
    by (cases pns rule: remdups_adj.cases) auto
  then show ?thesis
  proof cases
    case (2 path t)
    have "1 < live_count pns" using lt by auto
    then have "1 < length (leaves P t)" using 2 le_less_trans length_filter_le less_le_trans by fastforce
    from path_children_ok [OF ok [unfolded 2] this] show ?thesis using 2 by (simp add: ol_def)
  qed (use ok lt in \<open>auto simp: ol_def\<close>)
qed

lemma hash_split_loop_ok:
  fixes new other :: "('p, 'v, 'x::ab_group_add CombinedMetadata) HashRange"
  assumes "hash_nodes_ok root (hr_nodes new)" "hash_nodes_ok root (hr_nodes other)"
    and "num_children new = word_of_nat (live_count (hr_nodes new))"
    and "num_children other = word_of_nat (live_count (hr_nodes other))"
    and "original_sz = word_of_nat (live_count (hr_nodes new) + live_count (hr_nodes other))"
    and "live_count (hr_nodes new) + live_count (hr_nodes other) < 2 ^ 32"
  shows "\<exists>new' other'. hash_split_loop P (Some md_size) combined_kind original_sz new other = Inr (new', other') \<and>
    hash_nodes_ok root (hr_nodes new') \<and> hash_nodes_ok root (hr_nodes other') \<and>
    num_children new' = word_of_nat (live_count (hr_nodes new')) \<and>
    num_children other' = word_of_nat (live_count (hr_nodes other')) \<and>
    range_leaves (hr_nodes new') @ range_leaves (hr_nodes other') = range_leaves (hr_nodes new) @ range_leaves (hr_nodes other)"
  using assms
proof (induction "nodes_count (map snd (hr_nodes other))" arbitrary: new other rule: less_induct)
  case (less other new)
  let ?n = "live_count (hr_nodes new)" and ?o = "live_count (hr_nodes other)"
  have lt: "num_children new < original_sz div 2 \<longleftrightarrow> ?n < (?n + ?o) div 2"
    using less_half [of ?n "?n + ?o"] less.prems(3,5,6) by simp
  show ?case
  proof (cases "?n < (?n + ?o) div 2")
    case False
    then show ?thesis using lt less.prems by (subst hash_split_loop.simps) auto
  next
    case True
    define ol where "ol = (case hr_nodes other of [pn] \<Rightarrow> path_children pn | _ \<Rightarrow> hr_nodes other)"
    have ol: "hash_nodes_ok root ol" "range_leaves ol = range_leaves (hr_nodes other)" "ol \<noteq> []"
      using hash_expand [OF less.prems(2) True] unfolding ol_def by auto
    then obtain path n ns where nns: "ol = (path, n) # ns" by (cases ol) auto
    have n: "wf 2 n" "counts_ok P n" "path_node path root = Some n" using ol(1) nns by (auto simp: hash_nodes_ok_def)
    let ?k = "length (live_leaves P n)"
    have o: "?o = ?k + live_count ns" by (simp add: nns live_leaves_def flip: ol(2))
    let ?new = "new\<lparr>hr_nodes := hr_nodes new @ [(path, n)], num_children := num_children new + word_of_nat ?k\<rparr>"
    let ?other = "other\<lparr>hr_nodes := ns, num_children := num_children other - word_of_nat ?k\<rparr>"
    have "nodes_count (map snd ol) \<le> nodes_count (map snd (hr_nodes other))"
      unfolding ol_def using nodes_count_path_children by (cases "hr_nodes other" rule: remdups_adj.cases) auto
    then have dec: "nodes_count (map snd (hr_nodes ?other)) < nodes_count (map snd (hr_nodes other))" using nns by (simp add: node_count_children_list [of n])
    have step: "hash_split_loop P (Some md_size) combined_kind original_sz new other = hash_split_loop P (Some md_size) combined_kind original_sz ?new ?other"
      using lt True nns hash_live_count [OF n(1,2)]
      by (subst hash_split_loop.simps) (simp add: ol_def [symmetric])
    have live: "live_count (hr_nodes ?new) = ?n + ?k" "live_count (hr_nodes ?other) = live_count ns"
      by (simp_all add: live_leaves_def)
    have lv: "range_leaves (hr_nodes ?new) @ range_leaves (hr_nodes ?other) = range_leaves (hr_nodes new) @ range_leaves (hr_nodes other)"
      by (simp add: nns flip: ol(2))
    have "hash_nodes_ok root (hr_nodes ?new)" "hash_nodes_ok root (hr_nodes ?other)"
      using less.prems(1) ol(1) nns by (auto simp: hash_nodes_ok_def)
    from less.hyps [OF dec this, unfolded live lv] show ?thesis unfolding step using less.prems(3-6) o by simp
  qed
qed

lemma hash_split_ok:
  fixes rng :: "('p, 'v, 'x::ab_group_add CombinedMetadata) HashRange"
  assumes "hash_nodes_ok root (hr_nodes rng)"
    and "num_children rng = word_of_nat (live_count (hr_nodes rng))" "live_count (hr_nodes rng) < 2 ^ 32"
  shows "\<exists>new other. hash_split P (Some md_size) combined_kind rng = Inr (new, other) \<and>
    hash_nodes_ok root (hr_nodes new) \<and> hash_nodes_ok root (hr_nodes other) \<and>
    num_children new = word_of_nat (live_count (hr_nodes new)) \<and>
    num_children other = word_of_nat (live_count (hr_nodes other)) \<and>
    range_leaves (hr_nodes new) @ range_leaves (hr_nodes other) = range_leaves (hr_nodes rng)"
  using hash_split_loop_ok [of root "\<lparr> num_children = 0, hr_nodes = [] \<rparr>" rng "num_children rng"] assms
  by (simp add: hash_split_def hash_nodes_ok_def)

lemma hash_tasks_ok:
  fixes rng :: "('p, 'v, 'x::ab_group_add CombinedMetadata) HashRange"
  assumes "hash_nodes_ok root (hr_nodes rng)"
    and "num_children rng = word_of_nat (live_count (hr_nodes rng))" "live_count (hr_nodes rng) < 2 ^ 32"
  shows "\<exists>pns. hash_tasks P (Some md_size) combined_kind s rng = Inr pns \<and> hash_nodes_ok root pns \<and>
    range_leaves pns = range_leaves (hr_nodes rng)"
  using assms
proof (induction s arbitrary: rng)
  case (Split s1 s2)
  obtain new other where sp: "hash_split P (Some md_size) combined_kind rng = Inr (new, other)"
    and ok: "hash_nodes_ok root (hr_nodes new)" "hash_nodes_ok root (hr_nodes other)"
      "num_children new = word_of_nat (live_count (hr_nodes new))" "num_children other = word_of_nat (live_count (hr_nodes other))"
      "range_leaves (hr_nodes new) @ range_leaves (hr_nodes other) = range_leaves (hr_nodes rng)"
    using hash_split_ok [OF Split.prems] by blast
  have len: "live_count (hr_nodes new) < 2 ^ 32" "live_count (hr_nodes other) < 2 ^ 32"
    using Split.prems(3) by (simp_all flip: ok(5))
  obtain p1 p2 where ts: "hash_tasks P (Some md_size) combined_kind s1 new = Inr p1" "hash_nodes_ok root p1" "range_leaves p1 = range_leaves (hr_nodes new)"
    "hash_tasks P (Some md_size) combined_kind s2 other = Inr p2" "hash_nodes_ok root p2" "range_leaves p2 = range_leaves (hr_nodes other)"
    using Split.IH(1) [OF ok(1,3) len(1)] Split.IH(2) [OF ok(2,4) len(2)] by blast
  then have "hash_nodes_ok root (p1 @ p2)" by (auto simp: hash_nodes_ok_def)
  then show ?case using sp ts ok(5) Split.prems(1) by simp
qed simp

lemma hash_tasks_root:
  fixes root :: "('p, 'v, 'x::ab_group_add CombinedMetadata) TrieNode"
  assumes "wf 2 root" "counts_ok P root"
  shows "\<exists>rng pns. HashRange_init P (Some md_size) combined_kind root = Inr rng \<and>
    hash_tasks P (Some md_size) combined_kind s rng = Inr pns \<and>
    (\<forall>(path, t) \<in> set pns. path_node path root = Some t \<and> wf 2 t) \<and> concat (map (\<lambda>pn. leaves P (snd pn)) pns) = leaves P root"
proof -
  let ?rng = "\<lparr> num_children = word_of_nat (length (live_leaves P root)), hr_nodes = [([], root)] \<rparr> :: ('p, 'v, 'x CombinedMetadata) HashRange"
  have "length (live_leaves P root) \<le> length (leaves P root)" by (simp add: live_leaves_def)
  then have "length (live_leaves P root) < 2 ^ 32" using counts_okD(2) [OF assms(2)] by simp
  then show ?thesis
    using hash_tasks_ok [of root ?rng s] hash_live_count [OF assms] assms
    by (auto simp: HashRange_init_def hash_nodes_ok_def live_leaves_def)
qed

end

end
