(* ===== verification/SnapshotTrie.thy ===== *)
theory SnapshotTrie
  imports TrieNode "HOL-Library.Sublist" "HOL-Library.Multiset"
begin

text \<open>
  The lock-free trie of \<^verbatim>\<open>snapshot_trie/atomic_merkle_trie.h\<close>.  Threads insert into it concurrently, with
  compare-and-swap on the child pointers, so nodes live in a heap: a map from addresses to nodes.  A thread is
  the operation it runs and a program counter; one step of the machine is one atomic access of one
  thread.  A node that loses the race to be installed is freed at once and never gets into the heap.
  The main results: no assertion fails, the trie stays well formed, every run ends, and it has the effect of
  the insertions one after the other in the order of their last write.
\<close>

section \<open>Nodes and the heap\<close>

text \<open>\<^verbatim>\<open>children\<close> and \<^verbatim>\<open>value\<close> share storage in the code; a node is a leaf when its prefix has full length.\<close>

record ('p, 'v, 'm) AtomicMerkleTrieNode =
  cn_prefix :: 'p
  cn_len :: PrefixLenBits
  cn_hash_valid :: bool
  cn_metadata :: 'm
  cn_hash :: "byte list"
  cn_children :: "nat \<Rightarrow> nat option"
  cn_value :: "'v option"

type_synonym ('p, 'v, 'm) node_heap = "nat \<rightharpoonup> ('p, 'v, 'm) AtomicMerkleTrieNode"

definition cn_is_leaf :: "'p TriePrefix \<Rightarrow> ('p, 'v, 'm) AtomicMerkleTrieNode \<Rightarrow> bool" where
  "cn_is_leaf P n \<longleftrightarrow> cn_len n = MAX_KEY_LEN_BITS P"

definition cn_match_len :: "'p TriePrefix \<Rightarrow> ('p, 'v, 'm) AtomicMerkleTrieNode \<Rightarrow> 'p \<Rightarrow> PrefixLenBits \<Rightarrow> PrefixLenBits" where
  "cn_match_len P n other_key other_len = get_prefix_match_len P (cn_prefix n) (cn_len n) other_key other_len"

text \<open>Constructors: of a value node, of a map node (which truncates the prefix), and of the root.\<close>

definition amt_leaf :: "'p TriePrefix \<Rightarrow> 'p \<Rightarrow> 'v option \<Rightarrow> ('p, 'v, 'm::zero) AtomicMerkleTrieNode" where
  "amt_leaf P pfx v =
     \<lparr> cn_prefix = pfx, cn_len = MAX_KEY_LEN_BITS P, cn_hash_valid = False, cn_metadata = 0, cn_hash = [], cn_children = Map.empty, cn_value = v \<rparr>"

definition amt_map_node :: "'p TriePrefix \<Rightarrow> 'p \<Rightarrow> PrefixLenBits \<Rightarrow> ('p, 'v, 'm::zero) AtomicMerkleTrieNode res" where
  "amt_map_node P pfx len =
     rbind (prefix_truncate P pfx len) (\<lambda>out.
       if len = MAX_KEY_LEN_BITS P then throw ''wrong ctor used''
       else Inr \<lparr> cn_prefix = out, cn_len = len, cn_hash_valid = False, cn_metadata = 0, cn_hash = [], cn_children = Map.empty, cn_value = None \<rparr>)"

definition amt_root :: "'p TriePrefix \<Rightarrow> ('p, 'v, 'm::zero) AtomicMerkleTrieNode" where
  "amt_root P =
     \<lparr> cn_prefix = prefix_zero P, cn_len = 0, cn_hash_valid = False, cn_metadata = 0, cn_hash = [], cn_children = Map.empty, cn_value = None \<rparr>"

definition set_unique_child :: "nat \<Rightarrow> nat \<Rightarrow> ('p, 'v, 'm) AtomicMerkleTrieNode \<Rightarrow> ('p, 'v, 'm) AtomicMerkleTrieNode" where
  "set_unique_child bb ptr n = n\<lparr>cn_children := (cn_children n)(bb \<mapsto> ptr)\<rparr>"

text \<open>A pointer is followed: one that is not in the heap would be undefined behaviour.\<close>

definition node_at :: "('p, 'v, 'm) node_heap \<Rightarrow> nat \<Rightarrow> ('p, 'v, 'm) AtomicMerkleTrieNode res" where
  "node_at h a = (case h a of None \<Rightarrow> throw ''dangling pointer'' | Some n \<Rightarrow> Inr n)"

text \<open>\<open>try_add_child\<close>: compare-and-swap of a child pointer; on failure it returns the current pointer.\<close>

definition try_add_child ::
    "('p, 'v, 'm) node_heap \<Rightarrow> nat \<Rightarrow> ('p, 'v, 'm) AtomicMerkleTrieNode \<Rightarrow> nat \<Rightarrow> nat option \<Rightarrow> nat \<Rightarrow> ('p, 'v, 'm) AtomicMerkleTrieNode \<Rightarrow>
     ('p, 'v, 'm) node_heap option" where
  "try_add_child h a n bb expect new_ptr new_node =
     (if cn_children n bb = expect
      then Some (h(new_ptr \<mapsto> new_node, a \<mapsto> n\<lparr>cn_children := (cn_children n)(bb \<mapsto> new_ptr)\<rparr>))
      else None)"

section \<open>Operations\<close>

text \<open>\<open>mk_value\<close> constructs a value from the inserted arguments, \<open>merge_value\<close> is \<^verbatim>\<open>value_merge_fn\<close>.\<close>

record ('v, 'a) AmtFns =
  mk_value :: "'a \<Rightarrow> 'v"
  merge_value :: "'v \<Rightarrow> 'a \<Rightarrow> 'v"

definition amt_update :: "('v, 'a) AmtFns \<Rightarrow> 'a \<Rightarrow> 'v option \<Rightarrow> 'v" where
  "amt_update F args old = (case old of Some v \<Rightarrow> merge_value F v args | None \<Rightarrow> mk_value F args)"

datatype ('p, 'a) amt_op = Insert 'p 'a | Subnode 'p PrefixLenBits

text \<open>\<open>Enter a\<close>: the call on node \<open>a\<close> begins; \<open>Load a\<close>: the child pointer is about to be read; \<open>Loop a c\<close>: the body of
  the loop runs with \<^verbatim>\<open>child = c\<close>; \<open>Return r\<close>: the operation is over.\<close>

datatype amt_pc = Enter nat | Load nat | Loop nat "nat option" | Return "nat option"

fun amt_insert_step ::
    "'p TriePrefix \<Rightarrow> ('v, 'a) AmtFns \<Rightarrow> nat \<Rightarrow> 'p \<Rightarrow> 'a \<Rightarrow> ('p, 'v, 'm::zero) node_heap \<Rightarrow> amt_pc \<Rightarrow> (('p, 'v, 'm::zero) node_heap \<times> amt_pc) res" where
  "amt_insert_step P F new new_prefix args h (Enter a) =
     rbind (node_at h a) (\<lambda>n.
       let n' = n\<lparr>cn_hash_valid := False\<rparr> in
       if cn_match_len P n new_prefix (MAX_KEY_LEN_BITS P) \<noteq> cn_len n then throw ''invalid insertion''
       else if cn_is_leaf P n then Inr (h(a \<mapsto> n'\<lparr>cn_value := Some (amt_update F args (cn_value n))\<rparr>), Return None)
       else Inr (h(a \<mapsto> n'), Load a))"
| "amt_insert_step P F new new_prefix args h (Load a) =
     rbind (node_at h a) (\<lambda>n.
     rbind (get_branch_bits P new_prefix (cn_len n)) (\<lambda>bb. Inr (h, Loop a (cn_children n bb))))"
| "amt_insert_step P F new new_prefix args h (Loop a None) =
     rbind (node_at h a) (\<lambda>n.
     rbind (get_branch_bits P new_prefix (cn_len n)) (\<lambda>bb.
       case try_add_child h a n bb None new (amt_leaf P new_prefix (Some (mk_value F args))) of
         Some h' \<Rightarrow> Inr (h', Return None)
       | None \<Rightarrow> Inr (h, Loop a (cn_children n bb))))"
| "amt_insert_step P F new new_prefix args h (Loop a (Some c)) =
     rbind (node_at h a) (\<lambda>n.
     rbind (get_branch_bits P new_prefix (cn_len n)) (\<lambda>bb.
     rbind (node_at h c) (\<lambda>child.
       let join_len = cn_match_len P child new_prefix (MAX_KEY_LEN_BITS P) in
       if join_len \<ge> cn_len child then Inr (h, Enter c)
       else rbind (amt_map_node P new_prefix join_len) (\<lambda>new_node.
         rbind (get_branch_bits P (cn_prefix child) join_len) (\<lambda>child_bb.
           case try_add_child h a n bb (Some c) new (set_unique_child child_bb c new_node) of
             Some h' \<Rightarrow> Inr (h', Enter new)
           | None \<Rightarrow> Inr (h, Loop a (cn_children n bb)))))))"
| "amt_insert_step P F new new_prefix args h (Return r) = Inr (h, Return r)"

fun amt_subnode_step ::
    "'p TriePrefix \<Rightarrow> nat \<Rightarrow> 'p \<Rightarrow> PrefixLenBits \<Rightarrow> ('p, 'v, 'm::zero) node_heap \<Rightarrow> amt_pc \<Rightarrow> (('p, 'v, 'm::zero) node_heap \<times> amt_pc) res" where
  "amt_subnode_step P new query_prefix query_len h (Enter a) =
     rbind (node_at h a) (\<lambda>n.
       if cn_match_len P n query_prefix query_len < cn_len n then throw ''invalid get_or_make_subnode_ref''
       else if query_len > MAX_KEY_LEN_BITS P then throw ''query len too long?''
       else if query_len = cn_len n then Inr (h, Return (Some a))
       else Inr (h, Load a))"
| "amt_subnode_step P new query_prefix query_len h (Load a) =
     rbind (node_at h a) (\<lambda>n.
     rbind (get_branch_bits P query_prefix (cn_len n)) (\<lambda>bb. Inr (h, Loop a (cn_children n bb))))"
| "amt_subnode_step P new query_prefix query_len h (Loop a None) =
     rbind (node_at h a) (\<lambda>n.
     rbind (get_branch_bits P query_prefix (cn_len n)) (\<lambda>bb.
     rbind (if query_len = MAX_KEY_LEN_BITS P then Inr (amt_leaf P query_prefix None) else amt_map_node P query_prefix query_len) (\<lambda>new_child.
       case try_add_child h a n bb None new new_child of
         Some h' \<Rightarrow> Inr (h', Return (Some new))
       | None \<Rightarrow> Inr (h, Loop a (cn_children n bb)))))"
| "amt_subnode_step P new query_prefix query_len h (Loop a (Some c)) =
     rbind (node_at h a) (\<lambda>n.
     rbind (get_branch_bits P query_prefix (cn_len n)) (\<lambda>bb.
     rbind (node_at h c) (\<lambda>ptr.
       let child_match_len = cn_match_len P ptr query_prefix query_len in
       if child_match_len = cn_len ptr then Inr (h, Enter c)
       else rbind (amt_map_node P query_prefix child_match_len) (\<lambda>intermediate.
         rbind (get_branch_bits P (cn_prefix ptr) child_match_len) (\<lambda>child_bb.
           case try_add_child h a n bb (Some c) new (set_unique_child child_bb c intermediate) of
             Some h' \<Rightarrow> Inr (h', Enter new)
           | None \<Rightarrow> Inr (h, Loop a (cn_children n bb)))))))"
| "amt_subnode_step P new query_prefix query_len h (Return r) = Inr (h, Return r)"

primrec amt_op_step ::
    "'p TriePrefix \<Rightarrow> ('v, 'a) AmtFns \<Rightarrow> nat \<Rightarrow> ('p, 'a) amt_op \<Rightarrow> ('p, 'v, 'm::zero) node_heap \<Rightarrow> amt_pc \<Rightarrow> (('p, 'v, 'm::zero) node_heap \<times> amt_pc) res" where
  "amt_op_step P F new (Insert new_prefix args) = amt_insert_step P F new new_prefix args"
| "amt_op_step P F new (Subnode query_prefix query_len) = amt_subnode_step P new query_prefix query_len"

text \<open>\<^verbatim>\<open>get_value\<close>; the fuel bounds the depth of the walk.\<close>

fun amt_get_value :: "'p TriePrefix \<Rightarrow> nat \<Rightarrow> ('p, 'v, 'm) node_heap \<Rightarrow> nat \<Rightarrow> 'p \<Rightarrow> 'v option res" where
  "amt_get_value P 0 h a query_prefix = throw ''fuel''"
| "amt_get_value P (Suc fuel) h a query_prefix =
     rbind (node_at h a) (\<lambda>n.
       if cn_is_leaf P n then Inr (if query_prefix = cn_prefix n then cn_value n else None)
       else if cn_match_len P n query_prefix (MAX_KEY_LEN_BITS P) < cn_len n then Inr None
       else rbind (get_branch_bits P query_prefix (cn_len n)) (\<lambda>bb.
         case cn_children n bb of None \<Rightarrow> Inr None | Some c \<Rightarrow> amt_get_value P fuel h c query_prefix))"

text \<open>
  The machine: a heap and the threads.  The update of the value of an existing leaf is one step: the code leaves its
  synchronisation to \<^verbatim>\<open>value_merge_fn\<close>.
\<close>

inductive amt_step ::
    "'p TriePrefix \<Rightarrow> ('v, 'a) AmtFns \<Rightarrow> ('p, 'v, 'm::zero) node_heap \<times> (('p, 'a) amt_op \<times> amt_pc) list \<Rightarrow> nat \<Rightarrow>
     ('p, 'v, 'm) node_heap \<times> (('p, 'a) amt_op \<times> amt_pc) list \<Rightarrow> bool"
  for P F where
  amt_step: "i < length ts \<Longrightarrow> ts ! i = (act, pc) \<Longrightarrow> pc \<notin> range Return \<Longrightarrow> h new = None \<Longrightarrow>
    amt_op_step P F new act h pc = Inr (h', pc') \<Longrightarrow> amt_step P F (h, ts) i (h', ts[i := (act, pc')])"

declare amt_insert_step.simps [simp del] amt_subnode_step.simps [simp del] amt_get_value.simps [simp del]

section \<open>The shape of the trie\<close>

text \<open>
  A node seen as the digits of its prefix and its child pointers.  The invariant: a child extends its parent
  by the digit of its slot, no two nodes have the same prefix, and where a node extends another one, the pointer
  of the latter in its direction leads to a node on the way.
\<close>

type_synonym shape = "nat \<rightharpoonup> nat list \<times> (nat \<Rightarrow> nat option)"

definition children_extend :: "shape \<Rightarrow> bool" where
  "children_extend S \<longleftrightarrow> (\<forall>a p ch d c. S a = Some (p, ch) \<longrightarrow> ch d = Some c \<longrightarrow>
     (\<exists>q ch'. S c = Some (q, ch') \<and> prefix (p @ [d]) q))"

definition paths_inject :: "shape \<Rightarrow> bool" where
  "paths_inject S \<longleftrightarrow> (\<forall>a b p ch ch'. S a = Some (p, ch) \<longrightarrow> S b = Some (p, ch') \<longrightarrow> a = b)"

definition paths_linked :: "shape \<Rightarrow> bool" where
  "paths_linked S \<longleftrightarrow> (\<forall>a p ch b q ch'. S a = Some (p, ch) \<longrightarrow> S b = Some (q, ch') \<longrightarrow> strict_prefix p q \<longrightarrow>
     (\<exists>c r ch''. ch (q ! length p) = Some c \<and> S c = Some (r, ch'') \<and> prefix r q))"

definition shape_ok :: "nat \<Rightarrow> shape \<Rightarrow> bool" where
  "shape_ok root S \<longleftrightarrow> (\<exists>ch. S root = Some ([], ch)) \<and> children_extend S \<and> paths_inject S \<and> paths_linked S"

lemma children_extendD: "children_extend S \<Longrightarrow> S a = Some (p, ch) \<Longrightarrow> ch d = Some c \<Longrightarrow> \<exists>q ch'. S c = Some (q, ch') \<and> prefix (p @ [d]) q"
  unfolding children_extend_def by blast

lemma paths_injectD: "paths_inject S \<Longrightarrow> S a = Some (p, ch) \<Longrightarrow> S b = Some (p, ch') \<Longrightarrow> a = b"
  unfolding paths_inject_def by blast

lemma paths_linkedD: "paths_linked S \<Longrightarrow> S a = Some (p, ch) \<Longrightarrow> S b = Some (q, ch') \<Longrightarrow> strict_prefix p q \<Longrightarrow>
    \<exists>c r ch''. ch (q ! length p) = Some c \<and> S c = Some (r, ch'') \<and> prefix r q"
  unfolding paths_linked_def by blast

lemma prefix_snoc_nth: "prefix (p @ [d]) q \<longleftrightarrow> strict_prefix p q \<and> q ! length p = d"
proof
  assume "strict_prefix p q \<and> q ! length p = d"
  then obtain x xs where "q = p @ x # xs" "q ! length p = d" by (auto elim: strict_prefixE')
  then show "prefix (p @ [d]) q" by (simp add: prefix_def)
qed (auto simp: prefix_def strict_prefix_def nth_append)

lemma strict_prefix_nth: "strict_prefix p r \<Longrightarrow> prefix r q \<Longrightarrow> r ! length p = q ! length p"
  by (auto simp: prefix_def nth_append dest: prefix_length_less)

lemma strict_prefix_linear: "prefix p r \<Longrightarrow> prefix q r \<Longrightarrow> strict_prefix p q \<or> p = q \<or> strict_prefix q p"
  by (metis prefix_same_cases strict_prefix_def)

text \<open>Where the slot of a node towards a path is empty, no node extends both.\<close>

lemma empty_slot:
  assumes "paths_linked S" "S a = Some (p, ch)" "ch d = None" "S b = Some (q, ch')"
  shows "\<not> prefix (p @ [d]) q"
  using paths_linkedD [OF assms(1,2,4)] assms(3) by (auto simp: prefix_snoc_nth)

text \<open>A new node without children in an empty slot.\<close>

lemma shape_ok_add:
  assumes ok: "shape_ok root S" and a: "S a = Some (p, ch)" "ch d = None" and q: "prefix (p @ [d]) q" and new: "S new = None"
  shows "shape_ok root (S(new \<mapsto> (q, Map.empty), a \<mapsto> (p, ch(d \<mapsto> new))))" (is "shape_ok root ?S")
proof -
  have S: "children_extend S" "paths_inject S" "paths_linked S" using ok by (auto simp: shape_ok_def)
  have na: "new \<noteq> a" using a new by auto
  have q': "strict_prefix p q" "q ! length p = d" using q by (auto simp: prefix_snoc_nth)
  note slot = empty_slot [OF S(3) a]
  have old: "S b = Some (r, c) \<Longrightarrow> \<exists>c'. ?S b = Some (r, c')" for b r c using new a by auto
  have "children_extend ?S"
    unfolding children_extend_def
  proof (intro allI impI)
    fix b r chb e c assume b: "?S b = Some (r, chb)" "chb e = Some c"
    show "\<exists>q ch'. ?S c = Some (q, ch') \<and> prefix (r @ [e]) q"
    proof (cases "b = a \<and> e = d")
      case True
      then show ?thesis using b q na by auto
    next
      case False
      then have "\<exists>ch0. S b = Some (r, ch0) \<and> ch0 e = Some c" using b a na by (auto split: if_splits)
      then show ?thesis using children_extendD [OF S(1)] old by metis
    qed
  qed
  moreover have "paths_inject ?S"
    unfolding paths_inject_def
    using paths_injectD [OF S(2)] slot q a na by (auto split: if_splits)
  moreover have "paths_linked ?S"
    unfolding paths_linked_def
  proof (intro allI impI)
    fix b r chb c t chc assume b: "?S b = Some (r, chb)" and c: "?S c = Some (t, chc)" and rt: "strict_prefix r t"
    show "\<exists>c r' ch''. chb (t ! length r) = Some c \<and> ?S c = Some (r', ch'') \<and> prefix r' t"
    proof (cases "b = new")
      case True
      then have r: "r = q" using b na by auto
      then have "c \<noteq> new" "c \<noteq> a" using c rt q' na by (auto simp: strict_prefix_def dest: prefix_order.antisym)
      then have "S c = Some (t, chc)" using c by simp
      moreover have "prefix (p @ [d]) t" using q rt r by (metis prefix_order.trans strict_prefix_def)
      ultimately show ?thesis using slot by blast
    next
      case False
      then obtain ch0 where b0: "S b = Some (r, ch0)" "b \<noteq> a \<longrightarrow> chb = ch0" "b = a \<longrightarrow> chb = ch(d \<mapsto> new) \<and> ch0 = ch \<and> r = p"
        using b a by (auto split: if_splits)
      show ?thesis
      proof (cases "c = new")
        case True
        then have t: "t = q" using c na by auto
        show ?thesis
        proof (cases "b = a")
          case True
          then show ?thesis using b0 t q' na by auto
        next
          case False
          have "\<not> strict_prefix p r"
            using slot [OF b0(1)] strict_prefix_nth [of p r q] rt t q'(2) by (auto simp: prefix_snoc_nth strict_prefix_def)
          moreover have "r \<noteq> p" using paths_injectD [OF S(2)] b0(1) a(1) False by blast
          ultimately have "strict_prefix r p"
            using strict_prefix_linear [of r q p] rt t q'(1) by (auto simp: strict_prefix_def)
          then obtain c' r' ch' where c': "ch0 (p ! length r) = Some c'" "S c' = Some (r', ch')" "prefix r' p"
            using paths_linkedD [OF S(3) b0(1) a(1)] by blast
          have "q ! length r = p ! length r" using strict_prefix_nth [OF \<open>strict_prefix r p\<close>, of q] q'(1) by (simp add: strict_prefix_def)
          then have "chb (t ! length r) = Some c'" using c'(1) b0(2) False t by simp
          moreover have "prefix r' t" using c'(3) q'(1) t by (auto simp: strict_prefix_def)
          ultimately show ?thesis using old [OF c'(2)] by blast
        qed
      next
        case False
        then obtain chc0 where "S c = Some (t, chc0)" using c a by (auto split: if_splits)
        from paths_linkedD [OF S(3) b0(1) this rt] obtain c' r' ch' where
          c': "ch0 (t ! length r) = Some c'" "S c' = Some (r', ch')" "prefix r' t" by blast
        then have "chb (t ! length r) = Some c'" using b0 a(2) by (cases "b = a") auto
        then show ?thesis using c' old by metis
      qed
    qed
  qed
  moreover have "\<exists>ch. ?S root = Some ([], ch)" using ok old unfolding shape_ok_def by blast
  ultimately show ?thesis by (simp add: shape_ok_def)
qed

text \<open>A new node between a node and its child.\<close>

lemma shape_ok_split:
  assumes ok: "shape_ok root S" and a: "S a = Some (p, ch)" "ch d = Some c" "S c = Some (r, chc)"
    and q: "prefix (p @ [d]) q" "prefix (q @ [e]) r" and new: "S new = None"
  shows "shape_ok root (S(new \<mapsto> (q, [e \<mapsto> c]), a \<mapsto> (p, ch(d \<mapsto> new))))" (is "shape_ok root ?S")
proof -
  have S: "children_extend S" "paths_inject S" "paths_linked S" using ok by (auto simp: shape_ok_def)
  have na: "new \<noteq> a" "new \<noteq> c" using a new by auto
  have pq: "strict_prefix p q" "q ! length p = d" and qr: "strict_prefix q r" "r ! length q = e" using q by (auto simp: prefix_snoc_nth)
  have old: "S b = Some (s, x) \<Longrightarrow> \<exists>x'. ?S b = Some (s, x')" for b s x using new a by auto
  have below: "prefix r s" if "S b = Some (s, x)" "prefix (p @ [d]) s" for b s x
    using paths_linkedD [OF S(3) a(1) that(1)] that(2) a(2,3) by (auto simp: prefix_snoc_nth)
  have none: "\<not> prefix s q" if "S b = Some (s, x)" "prefix (p @ [d]) s" for b s x
    using below [OF that] qr(1) by (meson prefix_order.dual_order.strict_trans1 prefix_order.less_irrefl)
  have "children_extend ?S"
    unfolding children_extend_def
  proof (intro allI impI)
    fix b s chb f x assume b: "?S b = Some (s, chb)" "chb f = Some x"
    consider "b = a" "f = d" | "b = new" | "b \<noteq> new" "b \<noteq> a \<or> f \<noteq> d" by blast
    then show "\<exists>q ch'. ?S x = Some (q, ch') \<and> prefix (s @ [f]) q"
    proof cases
      case 3
      then have "\<exists>ch0. S b = Some (s, ch0) \<and> ch0 f = Some x" using b a by (auto split: if_splits)
      then show ?thesis using children_extendD [OF S(1)] old by metis
    qed (use b q na a(3) old [OF a(3)] in \<open>auto split: if_splits\<close>)
  qed
  moreover have "paths_inject ?S"
    unfolding paths_inject_def using paths_injectD [OF S(2)] none [OF _ q(1)] a na by (auto split: if_splits)
  moreover have "paths_linked ?S"
    unfolding paths_linked_def
  proof (intro allI impI)
    fix b s chb x t chx assume b: "?S b = Some (s, chb)" and x: "?S x = Some (t, chx)" and st: "strict_prefix s t"
    show "\<exists>c r' ch''. chb (t ! length s) = Some c \<and> ?S c = Some (r', ch'') \<and> prefix r' t"
    proof (cases "b = new")
      case True
      then have s: "s = q" "chb = [e \<mapsto> c]" using b na by auto
      have "t \<noteq> q" "t \<noteq> p" using st s(1) pq(1) prefix_order.less_asym by blast+
      then have "x \<noteq> new" "x \<noteq> a" using x na(1) by (simp_all split: if_splits)
      then have x0: "S x = Some (t, chx)" using x by simp
      have "prefix (p @ [d]) t" using q(1) st s by (metis prefix_order.less_imp_le prefix_order.trans)
      then have "prefix r t" by (rule below [OF x0])
      moreover have "t ! length q = e" using strict_prefix_nth [OF qr(1) \<open>prefix r t\<close>] qr(2) by simp
      ultimately show ?thesis using s old [OF a(3)] by auto
    next
      case False
      then obtain ch0 where b0: "S b = Some (s, ch0)" "b \<noteq> a \<longrightarrow> chb = ch0" "b = a \<longrightarrow> chb = ch(d \<mapsto> new) \<and> ch0 = ch \<and> s = p"
        using b a by (auto split: if_splits)
      have new': "?S new = Some (q, [e \<mapsto> c])" using na by simp
      show ?thesis
      proof (cases "x = new")
        case True
        then have t: "t = q" using x na by auto
        show ?thesis
        proof (cases "b = a")
          case True
          then show ?thesis using b0 t pq new' by auto
        next
          case False
          have "\<not> strict_prefix p s"
            using none [OF b0(1)] strict_prefix_nth [of p s q] st t pq(2) by (auto simp: prefix_snoc_nth strict_prefix_def)
          moreover have "s \<noteq> p" using paths_injectD [OF S(2)] b0(1) a(1) False by blast
          ultimately have sp: "strict_prefix s p" using strict_prefix_linear [of s q p] st t pq(1) by (auto simp: strict_prefix_def)
          then obtain c' r' ch' where c': "ch0 (p ! length s) = Some c'" "S c' = Some (r', ch')" "prefix r' p"
            using paths_linkedD [OF S(3) b0(1) a(1)] by blast
          have "q ! length s = p ! length s" using strict_prefix_nth [OF sp, of q] pq(1) by (simp add: strict_prefix_def)
          then have "chb (t ! length s) = Some c'" using c'(1) b0(2) False t by simp
          moreover have "prefix r' t" using c'(3) pq(1) t by (auto simp: strict_prefix_def)
          ultimately show ?thesis using old [OF c'(2)] by blast
        qed
      next
        case False
        then obtain chx0 where x0: "S x = Some (t, chx0)" using x a by (auto split: if_splits)
        from paths_linkedD [OF S(3) b0(1) x0 st] obtain c' r' ch' where
          c': "ch0 (t ! length s) = Some c'" "S c' = Some (r', ch')" "prefix r' t" by blast
        show ?thesis
        proof (cases "b = a \<and> t ! length s = d")
          case True
          then have "prefix (p @ [d]) t" using b0 st by (auto simp: prefix_snoc_nth)
          then have "prefix q t" using below [OF x0] qr(1) by (meson prefix_order.less_imp_le prefix_order.trans)
          then show ?thesis using True b0 new' by auto
        next
          case False
          then have "chb (t ! length s) = Some c'" using b0 c'(1) by auto
          then show ?thesis using c' old by metis
        qed
      qed
    qed
  qed
  moreover have "\<exists>ch. ?S root = Some ([], ch)" using ok old unfolding shape_ok_def by blast
  ultimately show ?thesis by (simp add: shape_ok_def)
qed

section \<open>The invariant of the heap and of the threads\<close>

definition cn_path :: "('p \<Rightarrow> nat list) \<Rightarrow> ('p, 'v, 'm) AtomicMerkleTrieNode \<Rightarrow> nat list" where
  "cn_path nib n = take (cn_len n div 4) (nib (cn_prefix n))"

definition cn_ok :: "'p TriePrefix \<Rightarrow> ('p \<Rightarrow> bool) \<Rightarrow> ('p \<Rightarrow> nat list) \<Rightarrow> ('p, 'v, 'm) AtomicMerkleTrieNode \<Rightarrow> bool" where
  "cn_ok P pvalid nib n \<longleftrightarrow> pvalid (cn_prefix n) \<and> 4 dvd cn_len n \<and> cn_len n \<le> prefix_bits P \<and>
     (if cn_is_leaf P n then cn_children n = Map.empty
      else cn_value n = None \<and> drop (cn_len n div 4) (nib (cn_prefix n)) = replicate (prefix_bits P div 4 - cn_len n div 4) 0)"

definition heap_shape :: "('p \<Rightarrow> nat list) \<Rightarrow> ('p, 'v, 'm) node_heap \<Rightarrow> shape" where
  "heap_shape nib h = map_option (\<lambda>n. (cn_path nib n, cn_children n)) \<circ> h"

definition heap_ok :: "'p TriePrefix \<Rightarrow> ('p \<Rightarrow> bool) \<Rightarrow> ('p \<Rightarrow> nat list) \<Rightarrow> nat \<Rightarrow> ('p, 'v, 'm) node_heap \<Rightarrow> bool" where
  "heap_ok P pvalid nib root h \<longleftrightarrow>
     finite (dom h) \<and> (\<forall>a n. h a = Some n \<longrightarrow> cn_ok P pvalid nib n) \<and> shape_ok root (heap_shape nib h)"

fun op_ok :: "'p TriePrefix \<Rightarrow> ('p \<Rightarrow> bool) \<Rightarrow> ('p, 'a) amt_op \<Rightarrow> bool" where
  "op_ok P pvalid (Insert key args) \<longleftrightarrow> pvalid key"
| "op_ok P pvalid (Subnode key len) \<longleftrightarrow> pvalid key \<and> 4 dvd len \<and> len \<le> prefix_bits P"

text \<open>The digits an operation leads to.\<close>

fun op_path :: "('p \<Rightarrow> nat list) \<Rightarrow> ('p, 'a) amt_op \<Rightarrow> nat list" where
  "op_path nib (Insert key args) = nib key"
| "op_path nib (Subnode key len) = take (len div 4) (nib key)"

fun pc_ok :: "('p \<Rightarrow> nat list) \<Rightarrow> ('p, 'v, 'm) node_heap \<Rightarrow> nat list \<Rightarrow> amt_pc \<Rightarrow> bool" where
  "pc_ok nib h path (Enter a) \<longleftrightarrow> (\<exists>n. h a = Some n \<and> prefix (cn_path nib n) path)"
| "pc_ok nib h path (Load a) \<longleftrightarrow> (\<exists>n. h a = Some n \<and> strict_prefix (cn_path nib n) path)"
| "pc_ok nib h path (Loop a c) \<longleftrightarrow> (\<exists>n. h a = Some n \<and> strict_prefix (cn_path nib n) path \<and>
     (\<forall>b. c = Some b \<longrightarrow> (\<exists>m. h b = Some m \<and> prefix (cn_path nib n @ [path ! length (cn_path nib n)]) (cn_path nib m))))"
| "pc_ok nib h path (Return r) \<longleftrightarrow> (\<forall>a. r = Some a \<longrightarrow> (\<exists>n. h a = Some n \<and> cn_path nib n = path))"

text \<open>Nodes stay where they are and keep their prefixes.\<close>

definition heap_extends :: "('p, 'v, 'm) node_heap \<Rightarrow> ('p, 'v, 'm) node_heap \<Rightarrow> bool" where
  "heap_extends h h' \<longleftrightarrow> (\<forall>a n. h a = Some n \<longrightarrow> (\<exists>n'. h' a = Some n' \<and> cn_prefix n' = cn_prefix n \<and> cn_len n' = cn_len n))"

lemma heap_extends_path: "heap_extends h h' \<Longrightarrow> h a = Some n \<Longrightarrow> \<exists>n'. h' a = Some n' \<and> cn_path nib n' = cn_path nib n"
  by (fastforce simp: heap_extends_def cn_path_def)

lemma pc_ok_extends:
  assumes "heap_extends h h'" "pc_ok nib h path pc"
  shows "pc_ok nib h' path pc"
proof (cases pc)
  case (Loop a c)
  then obtain n where n: "h a = Some n" "strict_prefix (cn_path nib n) path"
    "\<forall>b. c = Some b \<longrightarrow> (\<exists>m. h b = Some m \<and> prefix (cn_path nib n @ [path ! length (cn_path nib n)]) (cn_path nib m))"
    using assms(2) by auto
  moreover obtain n' where "h' a = Some n'" "cn_path nib n' = cn_path nib n" using heap_extends_path [OF assms(1) n(1)] by blast
  ultimately show ?thesis using Loop heap_extends_path [OF assms(1), where nib = nib] by (auto, metis)
qed (use assms(2) heap_extends_path [OF assms(1), where nib = nib] in \<open>auto, metis+\<close>)

text \<open>The value at the end of a path.\<close>

definition val_at :: "('p \<Rightarrow> nat list) \<Rightarrow> ('p, 'v, 'm) node_heap \<Rightarrow> nat list \<Rightarrow> 'v \<Rightarrow> bool" where
  "val_at nib h path v \<longleftrightarrow> (\<exists>a n. h a = Some n \<and> cn_path nib n = path \<and> cn_value n = Some v)"

lemma lcp_simps [simp]: "lcp [] ys = 0" "lcp xs [] = 0" "lcp (x # xs) (y # ys) = (if x = y then Suc (lcp xs ys) else 0)"
  by (simp_all add: lcp_def)

lemma lcp_take: "lcp (take i xs) (take j ys) = min (lcp xs ys) (min i j)"
proof (induction xs arbitrary: ys i j)
  case (Cons x xs)
  then show ?case by (cases ys; cases i; cases j) auto
qed simp

lemma lcp_prefix: "lcp p q = length p \<longleftrightarrow> prefix p q"
proof (induction p arbitrary: q)
  case (Cons x p)
  then show ?case by (cases q) auto
qed simp

lemma take_lcp: "take (lcp p q) p = take (lcp p q) q"
proof (induction p arbitrary: q)
  case (Cons x p)
  then show ?case by (cases q) auto
qed simp

lemma prefix_le_lcp: "prefix r p \<Longrightarrow> prefix r q \<Longrightarrow> length r \<le> lcp p q"
proof (induction r arbitrary: p q)
  case (Cons x r)
  then show ?case by (cases p; cases q) auto
qed simp

text \<open>What an operation does to the stored values: an insertion updates the value of its key when it returns.\<close>

fun op_effect :: "('p \<Rightarrow> nat list) \<Rightarrow> ('v, 'a) AmtFns \<Rightarrow> ('p, 'a) amt_op \<Rightarrow> bool \<Rightarrow> ('p, 'v, 'm) node_heap \<Rightarrow> ('p, 'v, 'm) node_heap \<Rightarrow> bool" where
  "op_effect nib F (Insert key args) True h h' \<longleftrightarrow>
     (\<exists>old. (\<forall>v. val_at nib h (nib key) v \<longleftrightarrow> old = Some v) \<and>
       (\<forall>r v. val_at nib h' r v \<longleftrightarrow> (if r = nib key then v = amt_update F args old else val_at nib h r v)))"
| "op_effect nib F act done h h' \<longleftrightarrow> (\<forall>r v. val_at nib h' r v \<longleftrightarrow> val_at nib h r v)"

text \<open>
  A bound on the steps a thread has left, if no other thread interferes: the distance of its node from the leaves counts \<open>N\<close>
  each, and a pointer that is not up to date costs a round of the loop.
\<close>

definition node_height :: "'p TriePrefix \<Rightarrow> ('p \<Rightarrow> nat list) \<Rightarrow> ('p, 'v, 'm) node_heap \<Rightarrow> nat \<Rightarrow> nat" where
  "node_height P nib h a = prefix_bits P div 4 - (case h a of None \<Rightarrow> 0 | Some n \<Rightarrow> length (cn_path nib n))"

definition slot_at :: "('p \<Rightarrow> nat list) \<Rightarrow> ('p, 'v, 'm) node_heap \<Rightarrow> nat list \<Rightarrow> nat \<Rightarrow> nat option" where
  "slot_at nib h path a = Option.bind (h a) (\<lambda>n. cn_children n (path ! length (cn_path nib n)))"

fun pc_weight :: "'p TriePrefix \<Rightarrow> ('p \<Rightarrow> nat list) \<Rightarrow> nat \<Rightarrow> ('p, 'v, 'm) node_heap \<Rightarrow> nat list \<Rightarrow> amt_pc \<Rightarrow> nat" where
  "pc_weight P nib N h path (Enter a) = N * node_height P nib h a + 3"
| "pc_weight P nib N h path (Load a) = N * node_height P nib h a + 2"
| "pc_weight P nib N h path (Loop a c) = N * node_height P nib h a + (if slot_at nib h path a = c then 0 else 1)"
| "pc_weight P nib N h path (Return r) = 0"

definition same_slots :: "('p, 'v, 'm) node_heap \<Rightarrow> ('p, 'v, 'm) node_heap \<Rightarrow> bool" where
  "same_slots h h' \<longleftrightarrow> (\<forall>a. map_option cn_children (h' a) = map_option cn_children (h a))"

definition step_post ::
    "'p TriePrefix \<Rightarrow> ('p \<Rightarrow> bool) \<Rightarrow> ('p \<Rightarrow> nat list) \<Rightarrow> nat \<Rightarrow> ('v, 'a) AmtFns \<Rightarrow> ('p, 'a) amt_op \<Rightarrow>
     ('p, 'v, 'm) node_heap \<Rightarrow> amt_pc \<Rightarrow> ('p, 'v, 'm) node_heap \<Rightarrow> amt_pc \<Rightarrow> bool" where
  "step_post P pvalid nib root F act h pc h' pc' \<longleftrightarrow>
     heap_ok P pvalid nib root h' \<and> heap_extends h h' \<and> pc_ok nib h' (op_path nib act) pc' \<and>
     op_effect nib F act (pc' \<in> range Return) h h' \<and>
     (\<forall>N \<ge> 4. same_slots h h' \<and> pc_weight P nib N h' (op_path nib act) pc' < pc_weight P nib N h (op_path nib act) pc \<or>
        pc_weight P nib N h' (op_path nib act) pc' + (N - 3) \<le> pc_weight P nib N h (op_path nib act) pc)"

context trie_prefix
begin

abbreviation path_of where
  "path_of \<equiv> cn_path nib"

abbreviation hok where
  "hok \<equiv> heap_ok P pvalid nib"

lemma cn_len_path:
  assumes "cn_ok P pvalid nib n"
  shows "cn_len n = 4 * length (path_of n)" "length (path_of n) \<le> prefix_bits P div 4"
    "cn_is_leaf P n \<longleftrightarrow> length (path_of n) = prefix_bits P div 4"
proof -
  have n: "pvalid (cn_prefix n)" "4 dvd cn_len n" "cn_len n \<le> prefix_bits P" using assms by (auto simp: cn_ok_def)
  then obtain i where i: "cn_len n = 4 * i" by blast
  then have "i \<le> prefix_bits P div 4" using n(3) bits_eq by linarith
  then have l: "length (path_of n) = i" using i nib_length [OF n(1)] by (simp add: cn_path_def)
  then show "cn_len n = 4 * length (path_of n)" "length (path_of n) \<le> prefix_bits P div 4"
    using i \<open>i \<le> prefix_bits P div 4\<close> by auto
  show "cn_is_leaf P n \<longleftrightarrow> length (path_of n) = prefix_bits P div 4"
    using i l bits_eq unfolding cn_is_leaf_def by auto
qed

lemma cn_match:
  assumes "cn_ok P pvalid nib n" "pvalid q" "j \<le> prefix_bits P div 4"
  shows "cn_match_len P n q (4 * j) = 4 * lcp (path_of n) (take j (nib q))"
proof -
  note n = cn_len_path [OF assms(1)]
  have "cn_match_len P n q (4 * j) = 4 * min (lcp (nib (cn_prefix n)) (nib q)) (min (length (path_of n)) j)"
    unfolding cn_match_len_def n(1) using assms n(2) bits_eq by (subst match_len) (auto simp: cn_ok_def)
  moreover have "path_of n = take (length (path_of n)) (nib (cn_prefix n))" unfolding cn_path_def by (auto simp: min_def)
  ultimately show ?thesis using lcp_take [of "length (path_of n)" "nib (cn_prefix n)" j "nib q"] by simp
qed

lemma cn_branch:
  assumes "cn_ok P pvalid nib n" "pvalid q" "j \<le> prefix_bits P div 4" "strict_prefix (path_of n) (take j (nib q))"
  shows "get_branch_bits P q (cn_len n) = Inr (take j (nib q) ! length (path_of n))"
proof -
  have "length (path_of n) < j" using prefix_length_less [OF assms(4)] by simp
  then show ?thesis
    unfolding cn_len_path(1) [OF assms(1)] using assms(2,3) bits_eq by (subst branch_bits) auto
qed

lemma amt_map_node_ok:
  assumes "pvalid q" "k < prefix_bits P div 4"
  shows "\<exists>x. amt_map_node P q (4 * k) = Inr x \<and> cn_ok P pvalid nib x \<and> path_of x = take k (nib q) \<and>
    cn_children x = Map.empty \<and> cn_value x = None \<and> \<not> cn_hash_valid x"
proof -
  have k: "4 * k < prefix_bits P" using assms(2) bits_eq by linarith
  obtain p where p: "prefix_truncate P q (4 * k) = Inr p" "pvalid p" "nib p = take k (nib q) @ replicate (prefix_bits P div 4 - k) 0"
    using truncate_ok [OF assms(1) k] by blast
  have "take k (nib p) = take k (nib q)" "drop k (nib p) = replicate (prefix_bits P div 4 - k) 0"
    using p(3) assms nib_length [OF assms(1)] by simp_all
  then show ?thesis using p(1,2) k by (auto simp: amt_map_node_def cn_ok_def cn_path_def cn_is_leaf_def)
qed

lemma amt_leaf_ok:
  assumes "pvalid q"
  shows "cn_ok P pvalid nib (amt_leaf P q v)" "path_of (amt_leaf P q v) = nib q"
  using assms nib_length [OF assms] bits_eq dvd_triv_left [of 4 "prefix_bits P div 4"]
  by (auto simp: amt_leaf_def cn_ok_def cn_path_def cn_is_leaf_def)

text \<open>The heap with a new node in a slot.\<close>

lemma hokD:
  assumes "hok root h" "h a = Some n"
  shows "cn_ok P pvalid nib n" "heap_shape nib h a = Some (path_of n, cn_children n)" "shape_ok root (heap_shape nib h)"
  using assms by (auto simp: heap_ok_def heap_shape_def)

lemma cas_shape:
  assumes "h a = Some n" "a \<noteq> new"
  shows "heap_shape nib (h(new \<mapsto> x, a \<mapsto> n\<lparr>cn_children := (cn_children n)(bb \<mapsto> new)\<rparr>)) =
    (heap_shape nib h)(new \<mapsto> (path_of x, cn_children x), a \<mapsto> (path_of n, (cn_children n)(bb \<mapsto> new)))"
  using assms by (auto simp: heap_shape_def fun_eq_iff cn_path_def)

lemma hok_cas:
  assumes h: "hok root h" "h a = Some n" "h new = None" and x: "cn_ok P pvalid nib x" and inner: "\<not> cn_is_leaf P n"
    and sh: "shape_ok root ((heap_shape nib h)(new \<mapsto> (path_of x, cn_children x), a \<mapsto> (path_of n, (cn_children n)(bb \<mapsto> new))))"
  shows "hok root (h(new \<mapsto> x, a \<mapsto> n\<lparr>cn_children := (cn_children n)(bb \<mapsto> new)\<rparr>))"
    "heap_extends h (h(new \<mapsto> x, a \<mapsto> n\<lparr>cn_children := (cn_children n)(bb \<mapsto> new)\<rparr>))"
proof -
  have na: "a \<noteq> new" using h by auto
  have "cn_ok P pvalid nib (n\<lparr>cn_children := (cn_children n)(bb \<mapsto> new)\<rparr>)"
    using hokD(1) [OF h(1,2)] inner by (auto simp: cn_ok_def cn_is_leaf_def)
  then show "hok root (h(new \<mapsto> x, a \<mapsto> n\<lparr>cn_children := (cn_children n)(bb \<mapsto> new)\<rparr>))"
    using h(1) x sh by (auto simp: heap_ok_def cas_shape [where h = h and a = a and n = n and new = new, OF h(2) na])
  show "heap_extends h (h(new \<mapsto> x, a \<mapsto> n\<lparr>cn_children := (cn_children n)(bb \<mapsto> new)\<rparr>))"
    using h(2,3) by (auto simp: heap_extends_def)
qed

lemma val_at_cas:
  assumes "h a = Some n" "h new = None"
  shows "val_at nib (h(new \<mapsto> x, a \<mapsto> n\<lparr>cn_children := ch\<rparr>)) r v \<longleftrightarrow> val_at nib h r v \<or> path_of x = r \<and> cn_value x = Some v"
proof
  assume "val_at nib (h(new \<mapsto> x, a \<mapsto> n\<lparr>cn_children := ch\<rparr>)) r v"
  then obtain b m where "(h(new \<mapsto> x, a \<mapsto> n\<lparr>cn_children := ch\<rparr>)) b = Some m" "path_of m = r" "cn_value m = Some v"
    by (auto simp: val_at_def)
  then show "val_at nib h r v \<or> path_of x = r \<and> cn_value x = Some v"
    using assms by (auto simp: val_at_def cn_path_def split: if_splits)
next
  assume "val_at nib h r v \<or> path_of x = r \<and> cn_value x = Some v"
  then show "val_at nib (h(new \<mapsto> x, a \<mapsto> n\<lparr>cn_children := ch\<rparr>)) r v"
  proof
    assume "val_at nib h r v"
    then obtain b m where b: "h b = Some m" "path_of m = r" "cn_value m = Some v" by (auto simp: val_at_def)
    let ?m = "if b = a then n\<lparr>cn_children := ch\<rparr> else m"
    have "(h(new \<mapsto> x, a \<mapsto> n\<lparr>cn_children := ch\<rparr>)) b = Some ?m" "path_of ?m = r" "cn_value ?m = Some v"
      using b assms by (auto simp: cn_path_def)
    then show ?thesis unfolding val_at_def by blast
  next
    assume "path_of x = r \<and> cn_value x = Some v"
    moreover have "(h(new \<mapsto> x, a \<mapsto> n\<lparr>cn_children := ch\<rparr>)) new = Some x" using assms by auto
    ultimately show ?thesis unfolding val_at_def by blast
  qed
qed

lemma inner_node:
  assumes "cn_ok P pvalid nib n" "strict_prefix (path_of n) path" "length path \<le> prefix_bits P div 4"
  shows "\<not> cn_is_leaf P n"
  using cn_len_path(3) [OF assms(1)] prefix_length_less [OF assms(2)] assms(3) by auto

lemma add_node:
  assumes h: "hok root h" "h a = Some n" "h new = None" and x: "cn_ok P pvalid nib x" "path_of x = path" "cn_children x = Map.empty"
    and n: "strict_prefix (path_of n) path" "length path \<le> prefix_bits P div 4" "cn_children n (path ! length (path_of n)) = None"
  defines "h' \<equiv> h(new \<mapsto> x, a \<mapsto> n\<lparr>cn_children := (cn_children n)(path ! length (path_of n) \<mapsto> new)\<rparr>)"
  shows "hok root h'" "heap_extends h h'" "h' new = Some x"
    "val_at nib h' r v \<longleftrightarrow> val_at nib h r v \<or> r = path \<and> cn_value x = Some v" "\<not> val_at nib h path v"
proof -
  note sh = hokD [OF h(1,2)]
  have new: "heap_shape nib h new = None" using h(3) by (simp add: heap_shape_def)
  have q: "prefix (path_of n @ [path ! length (path_of n)]) path" using n(1) by (simp add: prefix_snoc_nth)
  have "shape_ok root ((heap_shape nib h)(new \<mapsto> (path_of x, cn_children x), a \<mapsto> (path_of n, (cn_children n)(path ! length (path_of n) \<mapsto> new))))"
    using shape_ok_add [OF sh(3,2) n(3) q new] x by simp
  from hok_cas [OF h x(1) inner_node [OF sh(1) n(1,2)] this]
  show "hok root h'" "heap_extends h h'" unfolding h'_def .
  show "h' new = Some x" using h(2,3) by (auto simp: h'_def)
  show "val_at nib h' r v \<longleftrightarrow> val_at nib h r v \<or> r = path \<and> cn_value x = Some v"
    unfolding h'_def val_at_cas [OF h(2,3)] using x(2) by blast
  have "paths_linked (heap_shape nib h)" using sh(3) by (simp add: shape_ok_def)
  from empty_slot [OF this sh(2) n(3)] show "\<not> val_at nib h path v"
    using q by (auto simp: val_at_def heap_shape_def)
qed

lemma split_node:
  assumes h: "hok root h" "h a = Some n" "h c = Some m" "h new = None"
    and n: "strict_prefix (path_of n) path" "length path \<le> prefix_bits P div 4" "cn_children n (path ! length (path_of n)) = Some c"
    and m: "prefix (path_of n @ [path ! length (path_of n)]) (path_of m)" and k: "k = lcp (path_of m) path" "k < length (path_of m)"
    and x: "cn_ok P pvalid nib x" "path_of x = take k path" "cn_children x = Map.empty" "cn_value x = None"
  defines "h' \<equiv> h(new \<mapsto> set_unique_child (path_of m ! k) c x, a \<mapsto> n\<lparr>cn_children := (cn_children n)(path ! length (path_of n) \<mapsto> new)\<rparr>)"
  shows "hok root h'" "heap_extends h h'" "h' new = Some (set_unique_child (path_of m ! k) c x)"
    "val_at nib h' r v \<longleftrightarrow> val_at nib h r v" "length (path_of n) < k"
proof -
  let ?d = "path ! length (path_of n)" and ?x = "set_unique_child (path_of m ! k) c x"
  note sh = hokD [OF h(1,2)] and shm = hokD [OF h(1,3)]
  have new: "heap_shape nib h new = None" using h(4) by (simp add: heap_shape_def)
  have q: "prefix (path_of n @ [?d]) path" using n(1) by (simp add: prefix_snoc_nth)
  then have "length (path_of n @ [?d]) \<le> k" unfolding k(1) by (rule prefix_le_lcp [OF m])
  then show lt: "length (path_of n) < k" by simp
  have kp: "k \<le> length path" using lcp_le(2) [of "path_of m" path] k(1) by simp
  have q1: "prefix (path_of n @ [?d]) (take k path)"
    by (rule prefix_length_prefix [OF q take_is_prefix]) (use lt kp in simp)
  have tk: "take k path = take k (path_of m)" unfolding k(1) using take_lcp [of "path_of m" path] by simp
  then have q2: "prefix (take k path @ [path_of m ! k]) (path_of m)"
    using k(2) by (metis take_Suc_conv_app_nth take_is_prefix)
  have x': "path_of ?x = take k path" "cn_children ?x = [path_of m ! k \<mapsto> c]" using x by (simp_all add: set_unique_child_def cn_path_def)
  have leaf: "\<not> cn_is_leaf P x"
    using cn_len_path(3) [OF x(1)] x(2) k(2) cn_len_path(2) [OF shm(1)] kp by simp
  then have xok: "cn_ok P pvalid nib ?x" using x(1) by (auto simp: cn_ok_def set_unique_child_def cn_is_leaf_def)
  have "shape_ok root ((heap_shape nib h)(new \<mapsto> (path_of ?x, cn_children ?x), a \<mapsto> (path_of n, (cn_children n)(?d \<mapsto> new))))"
    using shape_ok_split [OF sh(3,2) n(3) shm(2) q1 q2 new] x' by simp
  from hok_cas [OF h(1,2,4) xok inner_node [OF sh(1) n(1,2)] this]
  show "hok root h'" "heap_extends h h'" unfolding h'_def .
  show "h' new = Some ?x" using h(2,4) by (auto simp: h'_def)
  show "val_at nib h' r v \<longleftrightarrow> val_at nib h r v"
    unfolding h'_def val_at_cas [OF h(2,4)] using x(4) by (simp add: set_unique_child_def)
qed

lemma heap_extends_refl [simp]: "heap_extends h h"
  by (simp add: heap_extends_def)

text \<open>A step that does not touch the heap.\<close>

lemma post_same:
  assumes "hok root h" "pc_ok nib h (op_path nib act) pc'" "pc' \<in> range Return \<Longrightarrow> \<exists>q l. act = Subnode q l"
    and "\<And>N. 4 \<le> N \<Longrightarrow> pc_weight P nib N h (op_path nib act) pc' < pc_weight P nib N h (op_path nib act) pc"
  shows "step_post P pvalid nib root F act h pc h pc'"
proof -
  have "op_effect nib F act (pc' \<in> range Return) h h"
    using assms(3) by (cases act; cases "pc' \<in> range Return") auto
  then show ?thesis using assms by (auto simp: step_post_def same_slots_def)
qed

lemma post_load:
  assumes h: "hok root h" "h a = Some n" and n: "strict_prefix (path_of n) (op_path nib act)"
  shows "step_post P pvalid nib root F act h (Load a) h (Loop a (slot_at nib h (op_path nib act) a))"
proof (rule post_same [OF h(1)])
  have sh: "children_extend (heap_shape nib h)" using hokD(3) [OF h] by (simp add: shape_ok_def)
  have "\<exists>m. h b = Some m \<and> prefix (path_of n @ [op_path nib act ! length (path_of n)]) (path_of m)"
    if "slot_at nib h (op_path nib act) a = Some b" for b
    using children_extendD [OF sh hokD(2) [OF h], of _ b] that h(2) by (auto simp: slot_at_def heap_shape_def)
  then show "pc_ok nib h (op_path nib act) (Loop a (slot_at nib h (op_path nib act) a))" using h(2) n by auto
qed auto

text \<open>A compare-and-swap that fails reloads the pointer.\<close>

lemma post_reload:
  assumes h: "hok root h" "h a = Some n" and n: "strict_prefix (path_of n) (op_path nib act)"
    and "slot_at nib h (op_path nib act) a \<noteq> c"
  shows "step_post P pvalid nib root F act h (Loop a c) h (Loop a (slot_at nib h (op_path nib act) a))"
proof (rule post_same [OF h(1)])
  show "pc_ok nib h (op_path nib act) (Loop a (slot_at nib h (op_path nib act) a))"
    using post_load [OF h n] by (simp add: step_post_def)
qed (use assms(4) in auto)

lemma post_descend:
  assumes h: "hok root h" "h a = Some n" "h c = Some m" and n: "strict_prefix (path_of n) (path_of m)" and m: "prefix (path_of m) (op_path nib act)"
  shows "step_post P pvalid nib root F act h (Loop a (Some c)) h (Enter c)"
proof (rule post_same [OF h(1)])
  show "pc_ok nib h (op_path nib act) (Enter c)" using h(3) m by simp
  fix N :: nat assume N: "4 \<le> N"
  have "node_height P nib h c < node_height P nib h a"
    using h prefix_length_less [OF n] cn_len_path(2) [OF hokD(1) [OF h(1,3)]] by (auto simp: node_height_def)
  then have "N * Suc (node_height P nib h c) \<le> N * node_height P nib h a" by (intro mult_le_mono) auto
  then show "pc_weight P nib N h (op_path nib act) (Enter c) < pc_weight P nib N h (op_path nib act) (Loop a (Some c))"
    using N by simp
qed auto

lemma op_facts:
  assumes "op_ok P pvalid act"
  shows "length (op_path nib act) \<le> prefix_bits P div 4"
  using assms nib_length by (cases act) auto

lemma height_extends: "heap_extends h h' \<Longrightarrow> h a = Some n \<Longrightarrow> node_height P nib h' a = node_height P nib h a"
  using heap_extends_path [of h h' a n nib] by (auto simp: node_height_def)

lemma post_add:
  assumes op: "op_ok P pvalid act" and h: "hok root h" "h a = Some n" "h new = None"
    and x: "cn_ok P pvalid nib x" "path_of x = op_path nib act" "cn_children x = Map.empty"
    and n: "strict_prefix (path_of n) (op_path nib act)" "slot_at nib h (op_path nib act) a = None"
    and val: "\<And>key args. act = Insert key args \<Longrightarrow> cn_value x = Some (mk_value F args) \<and> r = None"
      "\<And>key l. act = Subnode key l \<Longrightarrow> cn_value x = None \<and> r = Some new"
  shows "step_post P pvalid nib root F act h (Loop a None)
    (h(new \<mapsto> x, a \<mapsto> n\<lparr>cn_children := (cn_children n)(op_path nib act ! length (path_of n) \<mapsto> new)\<rparr>)) (Return r)"
proof -
  let ?h = "h(new \<mapsto> x, a \<mapsto> n\<lparr>cn_children := (cn_children n)(op_path nib act ! length (path_of n) \<mapsto> new)\<rparr>)"
  have slot: "cn_children n (op_path nib act ! length (path_of n)) = None" using n(2) h(2) by (simp add: slot_at_def)
  note add = add_node [OF h x n(1) op_facts [OF op] slot]
  have "op_effect nib F act True h ?h"
  proof (cases act)
    case (Insert key args)
    then show ?thesis
      using add(4,5) val(1) by (auto simp: amt_update_def intro!: exI [of _ None])
  next
    case (Subnode key l)
    then show ?thesis using add(4) val(2) by auto
  qed
  moreover have "pc_ok nib ?h (op_path nib act) (Return r)"
    using val add(3) x(2) by (cases act) auto
  moreover have "pc_weight P nib N ?h (op_path nib act) (Return r) + (N - 3) \<le> pc_weight P nib N h (op_path nib act) (Loop a None)" if "4 \<le> N" for N
  proof -
    have "0 < node_height P nib h a"
      using prefix_length_less [OF n(1)] op_facts [OF op] h(2) by (simp add: node_height_def)
    then have "N \<le> N * node_height P nib h a" by (cases "node_height P nib h a") auto
    then have "N - 3 \<le> N * node_height P nib h a" by linarith
    then show ?thesis using that n(2) by simp
  qed
  ultimately show ?thesis using add(1,2) by (simp add: step_post_def)
qed

lemma post_split:
  assumes op: "op_ok P pvalid act" and h: "hok root h" "h a = Some n" "h c = Some m" "h new = None"
    and n: "strict_prefix (path_of n) (op_path nib act)" "slot_at nib h (op_path nib act) a = Some c"
    and m: "prefix (path_of n @ [op_path nib act ! length (path_of n)]) (path_of m)"
    and k: "k = lcp (path_of m) (op_path nib act)" "k < length (path_of m)"
    and x: "cn_ok P pvalid nib x" "path_of x = take k (op_path nib act)" "cn_children x = Map.empty" "cn_value x = None"
  shows "step_post P pvalid nib root F act h (Loop a (Some c))
    (h(new \<mapsto> set_unique_child (path_of m ! k) c x,
       a \<mapsto> n\<lparr>cn_children := (cn_children n)(op_path nib act ! length (path_of n) \<mapsto> new)\<rparr>)) (Enter new)"
proof -
  let ?h = "h(new \<mapsto> set_unique_child (path_of m ! k) c x, a \<mapsto> n\<lparr>cn_children := (cn_children n)(op_path nib act ! length (path_of n) \<mapsto> new)\<rparr>)"
  have slot: "cn_children n (op_path nib act ! length (path_of n)) = Some c" using n(2) h(2) by (simp add: slot_at_def)
  note sp = split_node [OF h n(1) op_facts [OF op] slot m k x]
  have path: "path_of (set_unique_child (path_of m ! k) c x) = take k (op_path nib act)"
    using x(2) by (simp add: set_unique_child_def cn_path_def)
  have "Enter new \<notin> range Return" by auto
  then have "op_effect nib F act (Enter new \<in> range Return) h ?h" using sp(4) by (cases act) simp_all
  moreover have "pc_ok nib ?h (op_path nib act) (Enter new)" using sp(3) path take_is_prefix by auto
  moreover have "pc_weight P nib N ?h (op_path nib act) (Enter new) + (N - 3) \<le> pc_weight P nib N h (op_path nib act) (Loop a (Some c))" if "4 \<le> N" for N
  proof -
    have "k \<le> length (op_path nib act)" using k(1) lcp_le(2) by auto
    then have "node_height P nib ?h new < node_height P nib h a"
      using sp(3,5) path h(2) op_facts [OF op] by (auto simp: node_height_def)
    then have "N * Suc (node_height P nib ?h new) \<le> N * node_height P nib h a" by (intro mult_le_mono) auto
    then show ?thesis using that n(2) by (simp del: fun_upd_apply)
  qed
  ultimately show ?thesis using sp(1,2) by (simp add: step_post_def del: fun_upd_apply)
qed


text \<open>The branches of the two operations.\<close>

lemma slot_node: "h a = Some n \<Longrightarrow> slot_at nib h path a = cn_children n (path ! length (path_of n))"
  by (simp add: slot_at_def)

lemma op_match:
  assumes "op_ok P pvalid act" "cn_ok P pvalid nib n"
  shows "act = Insert key args \<Longrightarrow> cn_match_len P n key (prefix_bits P) = 4 * lcp (path_of n) (op_path nib act)"
    "act = Subnode key len \<Longrightarrow> cn_match_len P n key len = 4 * lcp (path_of n) (op_path nib act)"
proof -
  show "cn_match_len P n key (prefix_bits P) = 4 * lcp (path_of n) (op_path nib act)" if "act = Insert key args"
    using cn_match [OF assms(2), of key "prefix_bits P div 4"] assms(1) that bits_eq nib_length by simp
  show "cn_match_len P n key len = 4 * lcp (path_of n) (op_path nib act)" if "act = Subnode key len"
    using cn_match [OF assms(2), of key "len div 4"] assms(1) that by (auto simp: div_le_mono)
qed

lemma op_branch:
  assumes "op_ok P pvalid act" "cn_ok P pvalid nib n" "strict_prefix (path_of n) (op_path nib act)"
  shows "act = Insert key args \<or> act = Subnode key len \<Longrightarrow> get_branch_bits P key (cn_len n) = Inr (op_path nib act ! length (path_of n))"
  using cn_branch [OF assms(2), of key "prefix_bits P div 4"] cn_branch [OF assms(2), of key "len div 4"] assms(1,3) nib_length
  by (auto simp: div_le_mono)


lemma child_branch:
  assumes "cn_ok P pvalid nib m" "k < length (path_of m)"
  shows "get_branch_bits P (cn_prefix m) (4 * k) = Inr (path_of m ! k)"
proof -
  have "k < prefix_bits P div 4" using assms(2) cn_len_path(2) [OF assms(1)] by linarith
  then have "get_branch_bits P (cn_prefix m) (4 * k) = Inr (nib (cn_prefix m) ! k)"
    using assms(1) bits_eq by (subst branch_bits) (auto simp: cn_ok_def)
  then show ?thesis using assms(2) by (simp add: cn_path_def)
qed

text \<open>A write to the value and the hash flag of a node.\<close>

lemma hok_write:
  assumes h: "hok root h" "h a = Some n" and n': "cn_ok P pvalid nib n'" "cn_prefix n' = cn_prefix n" "cn_len n' = cn_len n" "cn_children n' = cn_children n"
  shows "hok root (h(a \<mapsto> n'))" "heap_extends h (h(a \<mapsto> n'))" "same_slots h (h(a \<mapsto> n'))"
    "node_height P nib (h(a \<mapsto> n')) b = node_height P nib h b"
proof -
  have "heap_shape nib (h(a \<mapsto> n')) = heap_shape nib h"
    using h(2) n' by (auto simp: heap_shape_def cn_path_def fun_eq_iff)
  then show "hok root (h(a \<mapsto> n'))" using h(1) n'(1) by (auto simp: heap_ok_def)
  show "heap_extends h (h(a \<mapsto> n'))" "same_slots h (h(a \<mapsto> n'))"
    using h(2) n' by (auto simp: heap_extends_def same_slots_def)
  show "node_height P nib (h(a \<mapsto> n')) b = node_height P nib h b"
    using h(2) n' by (auto simp: node_height_def cn_path_def)
qed

lemma val_at_write:
  assumes h: "hok root h" "h a = Some n" and n': "cn_prefix n' = cn_prefix n" "cn_len n' = cn_len n"
  shows "val_at nib (h(a \<mapsto> n')) r v \<longleftrightarrow> (if r = path_of n then cn_value n' = Some v else val_at nib h r v)"
    "val_at nib h (path_of n) v \<longleftrightarrow> cn_value n = Some v"
proof -
  have inj: "b = a" if "h b = Some m" "path_of m = path_of n" for b m
    using hokD [OF h] hokD(2) [OF h(1) that(1)] that(2) paths_injectD unfolding shape_ok_def by metis
  have p: "path_of n' = path_of n" using n' by (simp add: cn_path_def)
  show "val_at nib h (path_of n) v \<longleftrightarrow> cn_value n = Some v"
    unfolding val_at_def using inj h(2) by (metis option.inject)
  show "val_at nib (h(a \<mapsto> n')) r v \<longleftrightarrow> (if r = path_of n then cn_value n' = Some v else val_at nib h r v)"
  proof (cases "r = path_of n")
    case True
    then show ?thesis unfolding val_at_def using p inj by (auto split: if_splits)
  next
    case False
    have "h b = Some m \<Longrightarrow> path_of m = r \<Longrightarrow> b \<noteq> a" for b m using False h(2) by auto
    then show ?thesis unfolding val_at_def using p False by (auto split: if_splits)
  qed
qed

lemma post_write:
  assumes op: "op_ok P pvalid act" and act: "act = Insert key args" and h: "hok root h" "h a = Some n" and n: "path_of n = nib key"
  shows "step_post P pvalid nib root F act h (Enter a)
    (h(a \<mapsto> n\<lparr>cn_hash_valid := False, cn_value := Some (amt_update F args (cn_value n))\<rparr>)) (Return None)"
proof -
  let ?n = "n\<lparr>cn_hash_valid := False, cn_value := Some (amt_update F args (cn_value n))\<rparr>"
  have leaf: "cn_is_leaf P n" using cn_len_path(3) [OF hokD(1) [OF h]] n op act nib_length by simp
  then have ok: "cn_ok P pvalid nib ?n" using hokD(1) [OF h] by (auto simp: cn_ok_def cn_is_leaf_def)
  note w = hok_write [OF h ok] and v = val_at_write [OF h, of ?n]
  have "op_effect nib F act True h (h(a \<mapsto> ?n))"
    using v n unfolding act by (auto intro!: exI [of _ "cn_value n"])
  then show ?thesis using w by (auto simp: step_post_def)
qed

lemma post_clear:
  assumes op: "op_ok P pvalid act" and h: "hok root h" "h a = Some n" and n: "strict_prefix (path_of n) (op_path nib act)"
  shows "step_post P pvalid nib root F act h (Enter a) (h(a \<mapsto> n\<lparr>cn_hash_valid := False\<rparr>)) (Load a)"
proof -
  let ?n = "n\<lparr>cn_hash_valid := False\<rparr>"
  have "cn_ok P pvalid nib ?n" using hokD(1) [OF h] by (auto simp: cn_ok_def cn_is_leaf_def)
  note w = hok_write [OF h this] and v = val_at_write [OF h, of ?n]
  have "Load a \<notin> range Return" by auto
  then have "op_effect nib F act (Load a \<in> range Return) h (h(a \<mapsto> ?n))"
    using v by (cases act) simp_all
  moreover have "path_of ?n = path_of n" by (simp add: cn_path_def)
  ultimately show ?thesis using w n by (simp add: step_post_def del: fun_upd_apply) simp
qed


lemma child_cases:
  assumes h: "hok root h" and pc: "pc_ok nib h (op_path nib act) (Loop a (Some c))"
  obtains (below) n m where "h a = Some n" "h c = Some m" "strict_prefix (path_of n) (op_path nib act)"
      "strict_prefix (path_of n) (path_of m)" "prefix (path_of m) (op_path nib act)" "lcp (path_of m) (op_path nib act) = length (path_of m)"
  | (split) n m where "h a = Some n" "h c = Some m" "strict_prefix (path_of n) (op_path nib act)"
      "prefix (path_of n @ [op_path nib act ! length (path_of n)]) (path_of m)" "lcp (path_of m) (op_path nib act) < length (path_of m)"
proof -
  obtain n m where n: "h a = Some n" "strict_prefix (path_of n) (op_path nib act)" "h c = Some m"
      "prefix (path_of n @ [op_path nib act ! length (path_of n)]) (path_of m)"
    using pc by auto
  have "lcp (path_of m) (op_path nib act) \<le> length (path_of m)" by (rule lcp_le(1))
  then consider "lcp (path_of m) (op_path nib act) = length (path_of m)" | "lcp (path_of m) (op_path nib act) < length (path_of m)"
    by linarith
  then show thesis
  proof cases
    case 1
    then show thesis using that(1) [OF n(1,3,2)] n(4) by (auto simp: lcp_prefix prefix_snoc_nth)
  qed (use that(2) [OF n(1,3,2,4)] in blast)
qed

end

end
