(* ===== verification/SnapshotMachine.thy ===== *)
theory SnapshotMachine
  imports SnapshotTrie
begin

text \<open>
  Runs of the lock-free trie.  A step of either operation is one of nine moves on the heap; the moves keep the
  invariant and decrease a measure.  On top of that: no assertion fails and no thread is stuck, the number of steps
  of every run is bounded, a finished run has the effect of the insertions one by one in the order of their last
  steps, and every node above an inserted key has its hash flag cleared.
\<close>

section \<open>Moves\<close>

inductive amt_move ::
    "'p TriePrefix \<Rightarrow> ('p \<Rightarrow> bool) \<Rightarrow> ('p \<Rightarrow> nat list) \<Rightarrow> ('v, 'a) AmtFns \<Rightarrow> ('p, 'a) amt_op \<Rightarrow>
     ('p, 'v, 'm) node_heap \<Rightarrow> amt_pc \<Rightarrow> ('p, 'v, 'm) node_heap \<Rightarrow> amt_pc \<Rightarrow> bool"
  for P pvalid nib F act h where
  mv_write: "act = Insert key args \<Longrightarrow> h a = Some n \<Longrightarrow> cn_path nib n = nib key \<Longrightarrow>
    amt_move P pvalid nib F act h (Enter a)
      (h(a \<mapsto> n\<lparr>cn_hash_valid := False, cn_value := Some (amt_update F args (cn_value n))\<rparr>)) (Return None)"
| mv_clear: "act = Insert key args \<Longrightarrow> h a = Some n \<Longrightarrow> strict_prefix (cn_path nib n) (op_path nib act) \<Longrightarrow>
    amt_move P pvalid nib F act h (Enter a) (h(a \<mapsto> n\<lparr>cn_hash_valid := False\<rparr>)) (Load a)"
| mv_found: "act = Subnode key len \<Longrightarrow> h a = Some n \<Longrightarrow> cn_path nib n = op_path nib act \<Longrightarrow>
    amt_move P pvalid nib F act h (Enter a) h (Return (Some a))"
| mv_pass: "act = Subnode key len \<Longrightarrow> h a = Some n \<Longrightarrow> strict_prefix (cn_path nib n) (op_path nib act) \<Longrightarrow>
    amt_move P pvalid nib F act h (Enter a) h (Load a)"
| mv_load: "h a = Some n \<Longrightarrow> strict_prefix (cn_path nib n) (op_path nib act) \<Longrightarrow>
    amt_move P pvalid nib F act h (Load a) h (Loop a (slot_at nib h (op_path nib act) a))"
| mv_reload: "h a = Some n \<Longrightarrow> strict_prefix (cn_path nib n) (op_path nib act) \<Longrightarrow> slot_at nib h (op_path nib act) a \<noteq> c \<Longrightarrow>
    amt_move P pvalid nib F act h (Loop a c) h (Loop a (slot_at nib h (op_path nib act) a))"
| mv_descend: "h a = Some n \<Longrightarrow> h c = Some m \<Longrightarrow> strict_prefix (cn_path nib n) (cn_path nib m) \<Longrightarrow> prefix (cn_path nib m) (op_path nib act) \<Longrightarrow>
    amt_move P pvalid nib F act h (Loop a (Some c)) h (Enter c)"
| mv_add: "h a = Some n \<Longrightarrow> h new = None \<Longrightarrow> cn_ok P pvalid nib x \<Longrightarrow> cn_path nib x = op_path nib act \<Longrightarrow> cn_children x = Map.empty \<Longrightarrow>
    \<not> cn_hash_valid x \<Longrightarrow> strict_prefix (cn_path nib n) (op_path nib act) \<Longrightarrow> slot_at nib h (op_path nib act) a = None \<Longrightarrow>
    (\<And>key args. act = Insert key args \<Longrightarrow> cn_value x = Some (mk_value F args) \<and> r = None) \<Longrightarrow>
    (\<And>key l. act = Subnode key l \<Longrightarrow> cn_value x = None \<and> r = Some new) \<Longrightarrow>
    amt_move P pvalid nib F act h (Loop a None)
      (h(new \<mapsto> x, a \<mapsto> n\<lparr>cn_children := (cn_children n)(op_path nib act ! length (cn_path nib n) \<mapsto> new)\<rparr>)) (Return r)"
| mv_split: "h a = Some n \<Longrightarrow> h c = Some m \<Longrightarrow> h new = None \<Longrightarrow> strict_prefix (cn_path nib n) (op_path nib act) \<Longrightarrow>
    slot_at nib h (op_path nib act) a = Some c \<Longrightarrow> prefix (cn_path nib n @ [op_path nib act ! length (cn_path nib n)]) (cn_path nib m) \<Longrightarrow>
    k = lcp (cn_path nib m) (op_path nib act) \<Longrightarrow> k < length (cn_path nib m) \<Longrightarrow>
    cn_ok P pvalid nib x \<Longrightarrow> cn_path nib x = take k (op_path nib act) \<Longrightarrow> cn_children x = Map.empty \<Longrightarrow> cn_value x = None \<Longrightarrow>
    \<not> cn_hash_valid x \<Longrightarrow>
    amt_move P pvalid nib F act h (Loop a (Some c))
      (h(new \<mapsto> set_unique_child (cn_path nib m ! k) c x,
         a \<mapsto> n\<lparr>cn_children := (cn_children n)(op_path nib act ! length (cn_path nib n) \<mapsto> new)\<rparr>)) (Enter new)"

context trie_prefix
begin

abbreviation move where
  "move \<equiv> amt_move P pvalid nib"

text \<open>The split of a child, common to both operations: the new node has the digits the child and the path share.\<close>

lemma split_args:
  assumes op: "op_ok P pvalid act" "act = Insert key args \<or> act = Subnode key len" and m: "cn_ok P pvalid nib m"
    and k: "k = lcp (path_of m) (op_path nib act)" "k < length (path_of m)"
  obtains x where "amt_map_node P key (4 * k) = Inr x" "cn_ok P pvalid nib x" "path_of x = take k (op_path nib act)"
    "cn_children x = Map.empty" "cn_value x = None" "\<not> cn_hash_valid x"
proof -
  have "k < prefix_bits P div 4" using k(2) cn_len_path(2) [OF m] by linarith
  moreover have "pvalid key" using op by auto
  moreover have "k \<le> length (op_path nib act)" using k(1) lcp_le(2) by simp
  then have "take k (op_path nib act) = take k (nib key)" using op(2) by auto
  ultimately show ?thesis using amt_map_node_ok that by metis
qed

lemma insert_enter:
  assumes op: "op_ok P pvalid act" "act = Insert key args" and h: "hok root h" and pc: "pc_ok nib h (op_path nib act) (Enter a)"
  shows "\<exists>h' pc'. amt_insert_step P F new key args h (Enter a) = Inr (h', pc') \<and> move F act h (Enter a) h' pc'"
proof -
  obtain n where n: "h a = Some n" "prefix (path_of n) (op_path nib act)" using pc by auto
  note ok = hokD(1) [OF h n(1)]
  have "lcp (path_of n) (op_path nib act) = length (path_of n)" using n(2) by (simp only: lcp_prefix)
  then have match: "cn_match_len P n key (MAX_KEY_LEN_BITS P) = cn_len n"
    using op_match(1) [OF op(1) ok op(2)] cn_len_path(1) [OF ok] by simp
  have "length (path_of n) = length (op_path nib act) \<longleftrightarrow> cn_is_leaf P n" using cn_len_path(3) [OF ok] op nib_length by auto
  then have "if cn_is_leaf P n then path_of n = nib key else strict_prefix (path_of n) (op_path nib act)"
    using n(2) op(2) by (auto simp: strict_prefix_def prefix_def)
  then show ?thesis
    using n(1) match mv_write [where h = h, OF op(2) n(1)] mv_clear [where h = h, OF op(2) n(1)]
    by (simp add: amt_insert_step.simps node_at_def split: if_splits)
qed

lemma insert_loop_empty:
  assumes op: "op_ok P pvalid act" "act = Insert key args" and h: "hok root h" "h new = None"
    and pc: "pc_ok nib h (op_path nib act) (Loop a None)"
  shows "\<exists>h' pc'. amt_insert_step P F new key args h (Loop a None) = Inr (h', pc') \<and> move F act h (Loop a None) h' pc'"
proof -
  obtain n where n: "h a = Some n" "strict_prefix (path_of n) (op_path nib act)" using pc by auto
  note bb = op_branch [OF op(1) hokD(1) [OF h(1) n(1)] n(2)]
  show ?thesis
  proof (cases "slot_at nib h (op_path nib act) a = None")
    case True
    then show ?thesis
      using n(1) bb op amt_leaf_ok [of key "Some (mk_value F args)"]
        mv_add [OF n(1) h(2) _ _ _ _ n(2), where x = "amt_leaf P key (Some (mk_value F args))" and r = None and P = P and pvalid = pvalid and F = F]
      by (auto simp: amt_insert_step.simps node_at_def slot_node try_add_child_def amt_leaf_def)
  next
    case False
    then show ?thesis
      using n(1) bb op(2) mv_reload [of h a n, OF n] by (auto simp: amt_insert_step.simps node_at_def slot_node try_add_child_def)
  qed
qed

lemma insert_loop_child:
  assumes op: "op_ok P pvalid act" "act = Insert key args" and h: "hok root (h :: ('p, 'v, 'm::zero) node_heap)" "h new = None"
    and pc: "pc_ok nib h (op_path nib act) (Loop a (Some c))"
  shows "\<exists>h' pc'. amt_insert_step P F new key args h (Loop a (Some c)) = Inr (h', pc') \<and>
    move F act h (Loop a (Some c)) h' pc'"
  using h(1) pc
proof (cases rule: child_cases)
  case (below n m)
  then show ?thesis
    using op_branch [OF op(1) hokD(1) [OF h(1) below(1)] below(3)] op(2) op_match(1) [OF op(1) hokD(1) [OF h(1) below(2)]]
      cn_len_path(1) [OF hokD(1) [OF h(1) below(2)]] mv_descend [of h a n c m, OF below(1,2,4,5)]
    by (simp add: amt_insert_step.simps node_at_def)
next
  case (split n m)
  note okm = hokD(1) [OF h(1) split(2)]
  obtain x :: "('p, 'v, 'm) AtomicMerkleTrieNode" where x: "amt_map_node P key (4 * lcp (path_of m) (op_path nib act)) = Inr x" "cn_ok P pvalid nib x"
    "path_of x = take (lcp (path_of m) (op_path nib act)) (op_path nib act)" "cn_children x = Map.empty" "cn_value x = None" "\<not> cn_hash_valid x"
    using split_args [OF op(1) disjI1 [OF op(2)] okm refl split(5)] by blast
  note step = split(1,2,5) op_branch [OF op(1) hokD(1) [OF h(1) split(1)] split(3)] op(2) op_match(1) [OF op(1) okm]
    cn_len_path(1) [OF okm] x(1) child_branch [OF okm split(5)]
  show ?thesis
  proof (cases "slot_at nib h (op_path nib act) a = Some c")
    case True
    then show ?thesis
      using step mv_split [of h a n c m, OF split(1,2) h(2) split(3) _ split(4) refl split(5) x(2-)]
      by (auto simp: amt_insert_step.simps node_at_def slot_node try_add_child_def)
  next
    case False
    then show ?thesis
      using step mv_reload [of h a n, OF split(1,3)] by (auto simp: amt_insert_step.simps node_at_def slot_node try_add_child_def)
  qed
qed

lemma subnode_enter:
  assumes op: "op_ok P pvalid act" "act = Subnode key len" and h: "hok root h" and pc: "pc_ok nib h (op_path nib act) (Enter a)"
  shows "\<exists>h' pc'. amt_subnode_step P new key len h (Enter a) = Inr (h', pc') \<and> move F act h (Enter a) h' pc'"
proof -
  obtain n where n: "h a = Some n" "prefix (path_of n) (op_path nib act)" using pc by auto
  note ok = hokD(1) [OF h n(1)]
  have "lcp (path_of n) (op_path nib act) = length (path_of n)" using n(2) by (simp only: lcp_prefix)
  then have match: "cn_match_len P n key len = cn_len n" "len \<le> prefix_bits P"
    using op_match(2) [OF op(1) ok op(2)] cn_len_path(1) [OF ok] op by simp_all
  have "len = 4 * length (op_path nib act)"
    using op nib_length [of key] bits_eq by (auto simp: div_le_mono min_def)
  then have "len = cn_len n \<longleftrightarrow> length (path_of n) = length (op_path nib act)" using cn_len_path(1) [OF ok] by auto
  moreover have "length (path_of n) = length (op_path nib act) \<longleftrightarrow> path_of n = op_path nib act"
    using n(2) by (auto simp: prefix_def)
  ultimately have path: "if len = cn_len n then path_of n = op_path nib act else strict_prefix (path_of n) (op_path nib act)"
    using n(2) by (simp add: strict_prefix_def)
  show ?thesis
  proof (cases "len = cn_len n")
    case True
    moreover have "move F act h (Enter a) h (Return (Some a))"
      by (rule mv_found [where h = h, OF op(2) n(1)]) (use path True in simp)
    ultimately show ?thesis using n(1) match by (simp add: amt_subnode_step.simps node_at_def)
  next
    case False
    moreover have "move F act h (Enter a) h (Load a)"
      by (rule mv_pass [where h = h, OF op(2) n(1)]) (use path False in simp)
    ultimately show ?thesis using n(1) match by (simp add: amt_subnode_step.simps node_at_def)
  qed
qed

lemma subnode_loop_empty:
  assumes op: "op_ok P pvalid act" "act = Subnode key len" and h: "hok root (h :: ('p, 'v, 'm::zero) node_heap)" "h new = None"
    and pc: "pc_ok nib h (op_path nib act) (Loop a None)"
  shows "\<exists>h' pc'. amt_subnode_step P new key len h (Loop a None) = Inr (h', pc') \<and> move F act h (Loop a None) h' pc'"
proof -
  obtain n where n: "h a = Some n" "strict_prefix (path_of n) (op_path nib act)" using pc by auto
  note bb = op_branch [OF op(1) hokD(1) [OF h(1) n(1)] n(2)]
  have len: "4 * (len div 4) = len" "pvalid key" using op by auto
  have "len div 4 < prefix_bits P div 4 \<longleftrightarrow> len \<noteq> prefix_bits P" using op bits_eq by auto
  then obtain x :: "('p, 'v, 'm) AtomicMerkleTrieNode" where x: "(if len = MAX_KEY_LEN_BITS P then Inr (amt_leaf P key None) else amt_map_node P key len) = Inr x"
    "cn_ok P pvalid nib x" "path_of x = op_path nib act" "cn_children x = Map.empty" "cn_value x = None" "\<not> cn_hash_valid x"
    using amt_map_node_ok [of key "len div 4"] amt_leaf_ok [of key None] op(2) len nib_length [of key]
    by (auto simp: amt_leaf_def)
  show ?thesis
  proof (cases "slot_at nib h (op_path nib act) a = None")
    case True
    then show ?thesis
      using n(1) bb op x mv_add [OF n(1) h(2) x(2,3,4,6) n(2), where r = "Some new"]
      by (auto simp: amt_subnode_step.simps node_at_def slot_node try_add_child_def simp del: if_split)
  next
    case False
    then show ?thesis
      using n(1) bb op(2) x(1) mv_reload [of h a n, OF n]
      by (auto simp: amt_subnode_step.simps node_at_def slot_node try_add_child_def simp del: if_split)
  qed
qed

lemma subnode_loop_child:
  assumes op: "op_ok P pvalid act" "act = Subnode key len" and h: "hok root (h :: ('p, 'v, 'm::zero) node_heap)" "h new = None"
    and pc: "pc_ok nib h (op_path nib act) (Loop a (Some c))"
  shows "\<exists>h' pc'. amt_subnode_step P new key len h (Loop a (Some c)) = Inr (h', pc') \<and>
    move F act h (Loop a (Some c)) h' pc'"
  using h(1) pc
proof (cases rule: child_cases)
  case (below n m)
  then show ?thesis
    using op_branch [OF op(1) hokD(1) [OF h(1) below(1)] below(3)] op(2) op_match(2) [OF op(1) hokD(1) [OF h(1) below(2)]]
      cn_len_path(1) [OF hokD(1) [OF h(1) below(2)]] mv_descend [of h a n c m, OF below(1,2,4,5)]
    by (simp add: amt_subnode_step.simps node_at_def)
next
  case (split n m)
  note okm = hokD(1) [OF h(1) split(2)]
  obtain x :: "('p, 'v, 'm) AtomicMerkleTrieNode" where x: "amt_map_node P key (4 * lcp (path_of m) (op_path nib act)) = Inr x" "cn_ok P pvalid nib x"
    "path_of x = take (lcp (path_of m) (op_path nib act)) (op_path nib act)" "cn_children x = Map.empty" "cn_value x = None" "\<not> cn_hash_valid x"
    using split_args [OF op(1) disjI2 [OF op(2)] okm refl split(5)] by blast
  note step = split(1,2,5) op_branch [OF op(1) hokD(1) [OF h(1) split(1)] split(3)] op(2) op_match(2) [OF op(1) okm]
    cn_len_path(1) [OF okm] x(1) child_branch [OF okm split(5)]
  show ?thesis
  proof (cases "slot_at nib h (op_path nib act) a = Some c")
    case True
    then show ?thesis
      using step mv_split [of h a n c m, OF split(1,2) h(2) split(3) _ split(4) refl split(5) x(2-)]
      by (auto simp: amt_subnode_step.simps node_at_def slot_node try_add_child_def)
  next
    case False
    then show ?thesis
      using step mv_reload [of h a n, OF split(1,3)] by (auto simp: amt_subnode_step.simps node_at_def slot_node try_add_child_def)
  qed
qed

lemma op_load:
  assumes op: "op_ok P pvalid act" and h: "hok root h" and pc: "pc_ok nib h (op_path nib act) (Load a)"
  shows "\<exists>h' pc'. amt_op_step P F new act h (Load a) = Inr (h', pc') \<and> move F act h (Load a) h' pc'"
proof -
  obtain n where n: "h a = Some n" "strict_prefix (path_of n) (op_path nib act)" using pc by auto
  then show ?thesis
    using op_branch [OF op hokD(1) [OF h n(1)] n(2)] mv_load [of h a n, OF n]
    by (cases act) (auto simp: amt_insert_step.simps amt_subnode_step.simps node_at_def slot_node)
qed

theorem op_step_ok:
  assumes op: "op_ok P pvalid act" and h: "hok root (h :: ('p, 'v, 'm::zero) node_heap)" "h new = None" and pc: "pc_ok nib h (op_path nib act) pc" "pc \<notin> range Return"
  shows "\<exists>h' pc'. amt_op_step P F new act h pc = Inr (h', pc') \<and> move F act h pc h' pc'"
proof (cases pc)
  case (Enter a)
  then show ?thesis using insert_enter [OF op _ h(1)] subnode_enter [OF op _ h(1)] pc(1) by (cases act) simp_all
next
  case (Load a)
  then show ?thesis using op_load [OF op h(1)] pc(1) by simp
next
  case (Loop a c)
  then show ?thesis
    using insert_loop_empty [OF op _ h] subnode_loop_empty [OF op _ h] insert_loop_child [OF op _ h] subnode_loop_child [OF op _ h] pc(1)
    by (cases act; cases c) simp_all
qed (use pc(2) in auto)

theorem move_post:
  assumes "op_ok P pvalid act" "hok root h" "move F act h pc h' pc'"
  shows "step_post P pvalid nib root F act h pc h' pc'"
  using assms(3)
proof cases
  case (mv_write key args a n)
  then show ?thesis using post_write [OF assms(1) _ assms(2)] by simp
next
  case (mv_clear key args a n)
  then show ?thesis using post_clear [OF assms(1,2)] by simp
next
  case (mv_found key len a n)
  then show ?thesis by (auto intro!: post_same [OF assms(2)])
next
  case (mv_pass key len a n)
  then show ?thesis by (auto intro!: post_same [OF assms(2)])
next
  case (mv_load a n)
  then show ?thesis using post_load [OF assms(2)] by simp
next
  case (mv_reload a n c)
  then show ?thesis using post_reload [OF assms(2)] by simp
next
  case (mv_descend a n c m)
  then show ?thesis using post_descend [OF assms(2)] by simp
next
  case (mv_add a n new x r)
  then show ?thesis using post_add [OF assms(1,2) mv_add(4-8) mv_add(10-13)] by simp
next
  case (mv_split a n c m new k x)
  then show ?thesis using post_split [OF assms(1,2) mv_split(4-15)] by simp
qed

end

section \<open>Runs\<close>

definition machine_ok ::
    "'p TriePrefix \<Rightarrow> ('p \<Rightarrow> bool) \<Rightarrow> ('p \<Rightarrow> nat list) \<Rightarrow> nat \<Rightarrow> ('p, 'v, 'm) node_heap \<times> (('p, 'a) amt_op \<times> amt_pc) list \<Rightarrow> bool" where
  "machine_ok P pvalid nib root = (\<lambda>(h, ts). heap_ok P pvalid nib root h \<and>
     (\<forall>(act, pc) \<in> set ts. op_ok P pvalid act \<and> pc_ok nib h (op_path nib act) pc))"

definition machine_weight ::
    "'p TriePrefix \<Rightarrow> ('p \<Rightarrow> nat list) \<Rightarrow> ('p, 'v, 'm) node_heap \<times> (('p, 'a) amt_op \<times> amt_pc) list \<Rightarrow> nat" where
  "machine_weight P nib = (\<lambda>(h, ts). \<Sum>(act, pc) \<leftarrow> ts. pc_weight P nib (length ts + 4) h (op_path nib act) pc)"

text \<open>A run, with the thread that takes each step.\<close>

inductive amt_run ::
    "'p TriePrefix \<Rightarrow> ('v, 'a) AmtFns \<Rightarrow> ('p, 'v, 'm::zero) node_heap \<times> (('p, 'a) amt_op \<times> amt_pc) list \<Rightarrow> nat list \<Rightarrow>
     ('p, 'v, 'm) node_heap \<times> (('p, 'a) amt_op \<times> amt_pc) list \<Rightarrow> bool"
  for P F s where
  amt_run_nil: "amt_run P F s [] s"
| amt_run_snoc: "amt_run P F s sched s' \<Longrightarrow> amt_step P F s' i s'' \<Longrightarrow> amt_run P F s (sched @ [i]) s''"

text \<open>Threads that all begin at the root, and the execution of a given schedule, with the addresses of the new nodes.\<close>

definition amt_threads :: "nat \<Rightarrow> ('p, 'a) amt_op list \<Rightarrow> (('p, 'a) amt_op \<times> amt_pc) list" where
  "amt_threads root acts = map (\<lambda>act. (act, Enter root)) acts"

definition returned :: "(('p, 'a) amt_op \<times> amt_pc) list \<Rightarrow> nat \<Rightarrow> bool" where
  "returned ts i \<longleftrightarrow> (case snd (ts ! i) of Return r \<Rightarrow> True | _ \<Rightarrow> False)"

text \<open>The reference: a map, and the insertions on it.\<close>

fun apply_op :: "('v, 'a) AmtFns \<Rightarrow> ('p, 'a) amt_op \<Rightarrow> ('p \<rightharpoonup> 'v) \<Rightarrow> ('p \<rightharpoonup> 'v)" where
  "apply_op F (Insert key args) m = m(key \<mapsto> amt_update F args (m key))"
| "apply_op F (Subnode key len) m = m"

definition vals_are :: "('p \<Rightarrow> bool) \<Rightarrow> ('p \<Rightarrow> nat list) \<Rightarrow> ('p, 'v, 'm) node_heap \<Rightarrow> ('p \<rightharpoonup> 'v) \<Rightarrow> bool" where
  "vals_are pvalid nib h m \<longleftrightarrow> (\<forall>k v. pvalid k \<longrightarrow> (val_at nib h (nib k) v \<longleftrightarrow> m k = Some v))"

fun amt_exec ::
    "'p TriePrefix \<Rightarrow> ('v, 'a) AmtFns \<Rightarrow> (nat \<times> nat) list \<Rightarrow> ('p, 'v, 'm::zero) node_heap \<times> (('p, 'a) amt_op \<times> amt_pc) list \<Rightarrow>
     (('p, 'v, 'm::zero) node_heap \<times> (('p, 'a) amt_op \<times> amt_pc) list) option" where
  "amt_exec P F [] s = Some s"
| "amt_exec P F ((i, new) # sched) (h, ts) =
     (if i < length ts \<and> \<not> returned ts i \<and> Option.is_none (h new)
      then case amt_op_step P F new (fst (ts ! i)) h (snd (ts ! i)) of
          Inl e \<Rightarrow> None
        | Inr (h', pc') \<Rightarrow> amt_exec P F sched (h', ts[i := (fst (ts ! i), pc')])
      else None)"

lemma returned_iff: "returned ts i \<longleftrightarrow> snd (ts ! i) \<in> range Return"
  by (auto simp: returned_def split: amt_pc.splits)

lemma run_append: "amt_run P F s' sched' s'' \<Longrightarrow> amt_run P F s sched s' \<Longrightarrow> amt_run P F s (sched @ sched') s''"
proof (induction rule: amt_run.induct)
  case (amt_run_snoc sched2 t i t')
  then show ?case using amt_run.amt_run_snoc [of P F s "sched @ sched2" t i t'] by simp
qed simp

lemma run_threads: "amt_run P F s sched s' \<Longrightarrow> map fst (snd s') = map fst (snd s)"
proof (induction rule: amt_run.induct)
  case (amt_run_snoc sched s' i s'')
  then show ?case by (auto elim!: amt_step.cases) (metis fst_conv list_update_id map_update)
qed simp

lemma exec_run: "amt_exec P F sched s = Some s' \<Longrightarrow> amt_run P F s (map fst sched) s'"
proof (induction sched s rule: amt_exec.induct)
  case (1 P F s)
  then show ?case by (simp add: amt_run_nil)
next
  case (2 P F i new sched h ts)
  then obtain h' pc' where st: "i < length ts" "\<not> returned ts i" "h new = None"
      "amt_op_step P F new (fst (ts ! i)) h (snd (ts ! i)) = Inr (h', pc')" "amt_exec P F sched (h', ts[i := (fst (ts ! i), pc')]) = Some s'"
    by (auto simp: Option.is_none_def split: if_splits sum.splits)
  have "amt_step P F (h, ts) i (h', ts[i := (fst (ts ! i), pc')])"
    by (rule amt_step.intros [OF st(1) prod.collapse [symmetric] _ st(3,4)]) (use st(2) in \<open>simp add: returned_iff\<close>)
  then have "amt_run P F (h, ts) [i] (h', ts[i := (fst (ts ! i), pc')])"
    using amt_run_snoc [OF amt_run_nil] by fastforce
  moreover have "amt_run P F (h', ts[i := (fst (ts ! i), pc')]) (map fst sched) s'" using 2(1) st by simp
  ultimately show ?case using run_append by fastforce
qed

context trie_prefix
begin

abbreviation mach_ok where
  "mach_ok \<equiv> machine_ok P pvalid nib"

lemma other_weight:
  assumes "heap_extends h h'" "pc_ok nib h path pc"
  shows "pc_weight P nib N h' path pc \<le> Suc (pc_weight P nib N h path pc)"
    "same_slots h h' \<Longrightarrow> pc_weight P nib N h' path pc = pc_weight P nib N h path pc"
proof -
  have ht: "h a = Some n \<Longrightarrow> node_height P nib h' a = node_height P nib h a" for a n by (rule height_extends [OF assms(1)])
  have sl: "slot_at nib h' p a = slot_at nib h p a" if st: "h a = Some n" "same_slots h h'" for a n p
  proof -
    obtain n' where "h' a = Some n'" "path_of n' = path_of n" using heap_extends_path [OF assms(1) st(1)] by blast
    moreover have "cn_children n' = cn_children n" using st calculation(1) unfolding same_slots_def by (metis option.inject option.simps(9))
    ultimately show ?thesis using st(1) by (simp add: slot_at_def)
  qed
  show "pc_weight P nib N h' path pc \<le> Suc (pc_weight P nib N h path pc)"
    using ht assms(2) by (cases pc) auto
  show "pc_weight P nib N h' path pc = pc_weight P nib N h path pc" if "same_slots h h'"
    using ht sl [OF _ that] assms(2) by (cases pc) auto
qed

lemma step_elim:
  assumes "mach_ok root (h, ts)" "amt_step P F (h, ts) i s'"
  obtains act pc h' pc' where "i < length ts" "ts ! i = (act, pc)" "pc \<notin> range Return" "s' = (h', ts[i := (act, pc')])"
    "op_ok P pvalid act" "pc_ok nib h (op_path nib act) pc" "move F act h pc h' pc'" "step_post P pvalid nib root F act h pc h' pc'"
  using assms(2)
proof cases
  case (amt_step act pc new h' pc')
  have ok: "hok root h" "op_ok P pvalid act" "pc_ok nib h (op_path nib act) pc"
    using assms(1) amt_step(2,3) nth_mem unfolding machine_ok_def by (fastforce)+
  obtain h2 pc2 where m: "amt_op_step P F new act h pc = Inr (h2, pc2)" "move F act h pc h2 pc2"
    using op_step_ok [OF ok(2,1) amt_step(5) ok(3) amt_step(4)] by blast
  then have "h2 = h'" "pc2 = pc'" using amt_step(6) by auto
  then show thesis using that [OF amt_step(2,3,4,1) ok(2,3)] m(2) move_post [OF ok(2,1) m(2)] by blast
qed

text \<open>No thread is ever stuck, and no assertion fails.\<close>

lemma machine_progress:
  assumes "mach_ok root (h, ts)" "i < length ts" "\<not> returned ts i"
  shows "\<exists>s'. amt_step P F (h, ts) i s'"
proof -
  obtain act pc where i: "ts ! i = (act, pc)" "pc \<notin> range Return" using assms(3) by (cases "ts ! i") (auto simp: returned_iff)
  have ok: "hok root h" "op_ok P pvalid act" "pc_ok nib h (op_path nib act) pc"
    using assms(1,2) i(1) nth_mem unfolding machine_ok_def by fastforce+
  obtain new where "h new = None" using ok(1) ex_new_if_finite [OF infinite_UNIV_nat, of "dom h"] by (auto simp: heap_ok_def)
  then show ?thesis using op_step_ok [OF ok(2,1) _ ok(3) i(2)] amt_step.intros [OF assms(2) i] by metis
qed

lemma machine_step_ok:
  assumes "mach_ok root (h, ts)" "amt_step P F (h, ts) i s'"
  shows "mach_ok root s'"
  using assms
proof (cases rule: step_elim)
  case (1 act pc h' pc')
  have "op_ok P pvalid a \<and> pc_ok nib h' (op_path nib a) c" if mem: "(a, c) \<in> set (ts[i := (act, pc')])" for a c
  proof -
    consider "(a, c) = (act, pc')" | "(a, c) \<in> set ts" using set_update_subset_insert [of ts i "(act, pc')"] mem by blast
    then show ?thesis
      using 1(5,8) assms(1) pc_ok_extends [of h h' nib "op_path nib a" c] by cases (auto simp: machine_ok_def step_post_def)
  qed
  then show ?thesis using 1(4,8) by (auto simp: machine_ok_def step_post_def)
qed

text \<open>Every step decreases the measure: a compare-and-swap that succeeds costs each other thread at most one more round.\<close>

lemma sum_list_step:
  fixes f g :: "'b \<Rightarrow> nat"
  assumes "i < length xs" "\<And>x. x \<in> set xs \<Longrightarrow> f x \<le> g x + e"
  shows "(\<Sum>x \<leftarrow> xs[i := y]. f x) + g (xs ! i) \<le> (\<Sum>x \<leftarrow> xs. g x) + f y + e * length xs"
  using assms
proof (induction xs arbitrary: i)
  case (Cons x xs)
  have x: "f x \<le> g x + e" using Cons.prems(2) by simp
  show ?case
  proof (cases i)
    case 0
    have "(\<Sum>x \<leftarrow> xs. f x) \<le> (\<Sum>x \<leftarrow> xs. g x + e)" using Cons.prems(2) by (intro sum_list_mono) simp
    then show ?thesis using 0 by (simp add: sum_list_addf sum_list_triv mult.commute)
  next
    case (Suc j)
    have "(\<Sum>x \<leftarrow> xs[j := y]. f x) + g (xs ! j) \<le> (\<Sum>x \<leftarrow> xs. g x) + f y + e * length xs"
      by (rule Cons.IH) (use Suc Cons.prems in auto)
    then show ?thesis using Suc x by simp
  qed
qed simp

lemma machine_step_less:
  assumes "mach_ok root (h, ts)" "amt_step P F (h, ts) i s'"
  shows "machine_weight P nib s' < machine_weight P nib (h, ts)"
  using assms
proof (cases rule: step_elim)
  case (1 act pc h' pc')
  let ?N = "length ts + 4"
  let ?w = "\<lambda>h (act, pc). pc_weight P nib ?N h (op_path nib act) pc"
  have ext: "heap_extends h h'" using 1(8) by (simp add: step_post_def)
  have ok: "pc_ok nib h (op_path nib a) c" if "(a, c) \<in> set ts" for a c using that assms(1) by (auto simp: machine_ok_def)
  consider "same_slots h h'" "?w h' (act, pc') < ?w h (act, pc)" | "?w h' (act, pc') + (?N - 3) \<le> ?w h (act, pc)"
    using 1(8) le_add2 [of 4 "length ts"] unfolding step_post_def prod.case by blast
  then have "(\<Sum>x \<leftarrow> ts[i := (act, pc')]. ?w h' x) < (\<Sum>x \<leftarrow> ts. ?w h x)"
  proof cases
    case 1
    have "?w h' x \<le> ?w h x + 0" if "x \<in> set ts" for x
      using other_weight(2) [OF ext ok 1(1), of "fst x" "snd x" ?N] that by (cases x) auto
    from sum_list_step [OF \<open>i < length ts\<close>, where f = "?w h'" and g = "?w h", OF this, where y = "(act, pc')"] show ?thesis using 1(2) \<open>ts ! i = (act, pc)\<close> by simp
  next
    case 2
    have "?w h' x \<le> ?w h x + 1" if "x \<in> set ts" for x
      using other_weight(1) [OF ext ok, of "fst x" "snd x" ?N] that by (cases x) auto
    from sum_list_step [OF \<open>i < length ts\<close>, where f = "?w h'" and g = "?w h", OF this, where y = "(act, pc')"] show ?thesis using 2 \<open>ts ! i = (act, pc)\<close> by simp
  qed
  then show ?thesis using 1(4) by (simp add: machine_weight_def)
qed

lemma run_ok:
  assumes "mach_ok root s" "amt_run P F s sched s'"
  shows "mach_ok root s' \<and> machine_weight P nib s' + length sched \<le> machine_weight P nib s"
  using assms(2,1)
proof (induction rule: amt_run.induct)
  case (amt_run_snoc sched s' i s'')
  obtain h ts where s': "s' = (h, ts)" by (cases s')
  have "mach_ok root s''" "machine_weight P nib s'' < machine_weight P nib s'"
    using machine_step_ok machine_step_less amt_run_snoc s' by blast+
  then show ?case using amt_run_snoc by simp
qed simp

lemma root_ok: "hok root [root \<mapsto> amt_root P]"
  using zero_valid bits_pos zero_nib
  by (auto simp: heap_ok_def shape_ok_def heap_shape_def cn_ok_def amt_root_def cn_path_def cn_is_leaf_def children_extend_def
      paths_inject_def paths_linked_def split: if_splits)

lemma hok_flags:
  assumes "hok root h"
  shows "hok root (\<lambda>a. map_option (\<lambda>n. n\<lparr>cn_hash_valid := b\<rparr>) (h a))" (is "hok root ?h")
proof -
  have "heap_shape nib ?h = heap_shape nib h"
    by (auto simp: heap_shape_def fun_eq_iff cn_path_def option.map_comp comp_def)
  moreover have "cn_ok P pvalid nib (n\<lparr>cn_hash_valid := b\<rparr>) = cn_ok P pvalid nib n" for n by (simp add: cn_ok_def cn_is_leaf_def)
  ultimately show ?thesis using assms by (auto simp: heap_ok_def dom_def)
qed

lemma root_vals: "vals_are pvalid nib [root \<mapsto> amt_root P] Map.empty"
  by (auto simp: vals_are_def val_at_def amt_root_def split: if_splits)

lemma start_ok: "hok root h \<Longrightarrow> (\<And>act. act \<in> set acts \<Longrightarrow> op_ok P pvalid act) \<Longrightarrow> mach_ok root (h, amt_threads root acts)"
  by (auto simp: machine_ok_def amt_threads_def heap_ok_def shape_ok_def heap_shape_def)

lemma start_weight:
  assumes "hok root h"
  shows "machine_weight P nib (h, amt_threads root acts) = length acts * ((length acts + 4) * (prefix_bits P div 4) + 3)"
proof -
  obtain n where "h root = Some n" "path_of n = []" using assms by (auto simp: heap_ok_def shape_ok_def heap_shape_def)
  then have "node_height P nib h root = prefix_bits P div 4" by (simp add: node_height_def)
  then show ?thesis by (simp add: machine_weight_def amt_threads_def comp_def sum_list_triv)
qed

section \<open>Reading a value\<close>

lemma get_value_off:
  assumes h: "hok root h" "h a = Some n" and k: "pvalid k" "\<not> prefix (path_of n) (nib k)"
  shows "amt_get_value P (Suc fuel) h a k = Inr None"
proof -
  note ok = hokD(1) [OF h]
  have "cn_match_len P n k (4 * (prefix_bits P div 4)) = 4 * lcp (path_of n) (nib k)"
    using cn_match [OF ok k(1), of "prefix_bits P div 4"] nib_length [OF k(1)] by simp
  moreover have "lcp (path_of n) (nib k) < length (path_of n)"
    using lcp_prefix [of "path_of n" "nib k"] lcp_le(1) [of "path_of n" "nib k"] k(2) by linarith
  moreover have "k \<noteq> cn_prefix n" using k(2) by (auto simp: cn_path_def take_is_prefix)
  ultimately show ?thesis
    using h(2) cn_len_path(1) [OF ok] bits_eq by (simp add: amt_get_value.simps node_at_def)
qed

lemma get_value_on:
  assumes h: "hok root h" "h a = Some n" and k: "pvalid k" "prefix (path_of n) (nib k)"
    and fuel: "prefix_bits P div 4 < length (path_of n) + fuel"
  shows "\<exists>r. amt_get_value P fuel h a k = Inr r \<and> (\<forall>v. val_at nib h (nib k) v \<longleftrightarrow> r = Some v)"
  using h(2) k(2) fuel
proof (induction fuel arbitrary: a n)
  case 0
  then show ?case using prefix_length_le [OF 0(2)] nib_length [OF k(1)] by simp
next
  case (Suc fuel)
  note ok = hokD(1) [OF h(1) Suc.prems(1)] and sh = hokD(2,3) [OF h(1) Suc.prems(1)]
  have links: "children_extend (heap_shape nib h)" "paths_linked (heap_shape nib h)" using sh(2) by (auto simp: shape_ok_def)
  show ?case
  proof (cases "cn_is_leaf P n")
    case True
    then have "length (path_of n) = length (nib k)" using cn_len_path(3) [OF ok] nib_length [OF k(1)] by simp
    then have p: "path_of n = nib k" using Suc.prems(2) by (auto simp: prefix_def)
    moreover have "path_of n = nib (cn_prefix n)"
      using True ok nib_length [of "cn_prefix n"] by (auto simp: cn_path_def cn_is_leaf_def cn_ok_def)
    ultimately have "k = cn_prefix n" using nib_inject [of k "cn_prefix n"] k(1) ok by (simp add: cn_ok_def)
    then show ?thesis
      using True Suc.prems(1) val_at_write(2) [OF h(1) Suc.prems(1), of n] p by (simp add: amt_get_value.simps node_at_def)
  next
    case False
    then have st: "strict_prefix (path_of n) (nib k)"
      using Suc.prems(2) cn_len_path(3) [OF ok] nib_length [OF k(1)] by (auto simp: strict_prefix_def)
    let ?d = "nib k ! length (path_of n)"
    have bb: "get_branch_bits P k (cn_len n) = Inr ?d"
      using cn_branch [OF ok k(1), of "prefix_bits P div 4"] nib_length [OF k(1)] st by simp
    have "lcp (path_of n) (nib k) = length (path_of n)" using Suc.prems(2) by (simp only: lcp_prefix)
    then have "cn_match_len P n k (prefix_bits P) = cn_len n"
      using cn_match [OF ok k(1), of "prefix_bits P div 4"] nib_length [OF k(1)] bits_eq cn_len_path(1) [OF ok] by simp
    then have eq: "amt_get_value P (Suc fuel) h a k =
        (case cn_children n ?d of None \<Rightarrow> Inr None | Some c \<Rightarrow> amt_get_value P fuel h c k)"
      using False Suc.prems(1) bb by (simp add: amt_get_value.simps node_at_def)
    show ?thesis
    proof (cases "cn_children n ?d")
      case None
      have "\<not> val_at nib h (nib k) v" for v
        using empty_slot [OF links(2) sh(1) None] st by (auto simp: val_at_def heap_shape_def prefix_snoc_nth)
      then show ?thesis using eq None by simp
    next
      case (Some c)
      obtain m where m: "h c = Some m" "prefix (path_of n @ [?d]) (path_of m)"
        using children_extendD [OF links(1) sh(1) Some] by (auto simp: heap_shape_def)
      have len: "length (path_of n) < length (path_of m)" using prefix_length_le [OF m(2)] by simp
      show ?thesis
      proof (cases "prefix (path_of m) (nib k)")
        case True
        then show ?thesis using Suc.IH [OF m(1) True] Suc.prems(3) len eq Some by simp
      next
        case off: False
        have "\<not> val_at nib h (nib k) v" for v
          using paths_linkedD [OF links(2) sh(1) _ st] off Some m(1) by (fastforce simp: val_at_def heap_shape_def)
        moreover obtain f where "fuel = Suc f"
          using Suc.prems(3) cn_len_path(2) [OF hokD(1) [OF h(1) m(1)]] len by (cases fuel) auto
        ultimately show ?thesis using get_value_off [OF h(1) m(1) k(1) off] eq Some by simp
      qed
    qed
  qed
qed

lemma get_value_vals:
  assumes h: "hok root h" and m: "vals_are pvalid nib h m" and k: "pvalid k" and fuel: "prefix_bits P div 4 < fuel"
  shows "amt_get_value P fuel h root k = Inr (m k)"
proof -
  obtain n where n: "h root = Some n" "path_of n = []" using h by (auto simp: heap_ok_def shape_ok_def heap_shape_def)
  then obtain r where "amt_get_value P fuel h root k = Inr r" "\<forall>v. val_at nib h (nib k) v \<longleftrightarrow> r = Some v"
    using get_value_on [OF h n(1) k] fuel by auto
  moreover have "\<forall>v. r = Some v \<longleftrightarrow> m k = Some v" using calculation(2) m k by (simp add: vals_are_def)
  then have "r = m k" by (metis not_Some_eq)
  ultimately show ?thesis by simp
qed

section \<open>A run has the effect of its insertions one by one\<close>

lemma vals_effect:
  assumes "op_effect nib F act ret h h'" "vals_are pvalid nib h m" "op_ok P pvalid act"
  shows "vals_are pvalid nib h' (if ret then apply_op F act m else m)"
proof (cases "\<exists>key args. act = Insert key args \<and> ret")
  case True
  then obtain key args where act: "act = Insert key args" "ret" by blast
  then obtain old where old: "\<forall>v. val_at nib h (nib key) v \<longleftrightarrow> old = Some v"
    "\<forall>r v. val_at nib h' r v \<longleftrightarrow> (if r = nib key then v = amt_update F args old else val_at nib h r v)"
    using assms(1) by auto
  have "\<forall>v. m key = Some v \<longleftrightarrow> old = Some v" using assms(2,3) old(1) act by (simp add: vals_are_def)
  then have "old = m key" by (metis not_Some_eq)
  then show ?thesis using old(2) assms(2,3) act nib_inject [of _ key] by (auto simp: vals_are_def)
next
  case False
  then have "\<forall>r v. val_at nib h' r v \<longleftrightarrow> val_at nib h r v" "(if ret then apply_op F act m else m) = m"
    using assms(1) by (cases act; cases ret; auto)+
  then show ?thesis using assms(2) by (simp add: vals_are_def)
qed

lemma remdups_snoc: "remdups (xs @ [x]) = filter (\<lambda>y. y \<noteq> x) (remdups xs) @ [x]"
  by (induction xs) auto

lemma filter_remdups_snoc:
  assumes "\<not> Q i" "\<And>j. j \<noteq> i \<Longrightarrow> Q' j = Q j"
  shows "filter Q' (remdups (xs @ [i])) = filter Q (remdups xs) @ (if Q' i then [i] else [])"
proof -
  have "filter Q' (filter (\<lambda>y. y \<noteq> i) ys) = filter Q ys" for ys
    using assms by (induction ys) auto
  then show ?thesis by (simp add: remdups_snoc)
qed

theorem run_linear:
  assumes "mach_ok root (h, ts)" "vals_are pvalid nib h m" "amt_run P F (h, ts) sched s'" "\<And>i. i < length ts \<Longrightarrow> \<not> returned ts i"
  shows "map fst (snd s') = map fst ts \<and> set sched \<subseteq> {..<length ts} \<and> (\<forall>i < length ts. returned (snd s') i \<longrightarrow> i \<in> set sched) \<and>
    vals_are pvalid nib (fst s') (fold (\<lambda>i. apply_op F (fst (ts ! i))) (filter (returned (snd s')) (remdups sched)) m)"
  using assms(3,1,2,4)
proof (induction rule: amt_run.induct)
  case (amt_run_snoc sched s' i s'')
  obtain h1 ts1 where s': "s' = (h1, ts1)" by (cases s')
  have mach_ok: "mach_ok root (h1, ts1)" using run_ok [OF amt_run_snoc(4,1)] s' by simp
  have IH: "map fst ts1 = map fst ts" "set sched \<subseteq> {..<length ts}" "\<forall>i < length ts. returned ts1 i \<longrightarrow> i \<in> set sched"
    "vals_are pvalid nib h1 (fold (\<lambda>i. apply_op F (fst (ts ! i))) (filter (returned ts1) (remdups sched)) m)" (is "vals_are _ _ _ ?m")
    using amt_run_snoc.IH [OF amt_run_snoc(4,5,6)] s' by auto
  have len: "length ts1 = length ts" using arg_cong [OF IH(1), of length] by simp
  from mach_ok show ?case using amt_run_snoc(2)
    unfolding s'
  proof (cases rule: step_elim)
    case (1 act pc h' pc')
    let ?ts = "ts1[i := (act, pc')]"
    have act: "fst (ts ! i) = act" using arg_cong [OF IH(1), of "\<lambda>xs. xs ! i"] 1(1,2) len by simp
    have i: "\<not> returned ts1 i" "\<And>j. j \<noteq> i \<Longrightarrow> returned ?ts j = returned ts1 j" "returned ?ts i \<longleftrightarrow> pc' \<in> range Return"
      using 1(1,2,3) by (auto simp: returned_iff)
    have "vals_are pvalid nib h' (if pc' \<in> range Return then apply_op F act ?m else ?m)"
      using vals_effect [OF _ IH(4) 1(5)] 1(8) by (simp add: step_post_def)
    then have "vals_are pvalid nib h' (fold (\<lambda>i. apply_op F (fst (ts ! i))) (filter (returned ?ts) (remdups (sched @ [i]))) m)"
      using filter_remdups_snoc [of "returned ts1" i "returned ?ts" sched, OF i(1,2)] i(3) act by (auto simp del: filter_append split: if_splits)
    moreover have "map fst ?ts = map fst ts" using IH(1) 1(1,2) by (metis fst_conv list_update_id map_update)
    moreover have "\<forall>j < length ts. returned ?ts j \<longrightarrow> j \<in> set (sched @ [i])" using IH(3) i(2) by auto
    ultimately show ?thesis using 1(1,4) IH(2) len by simp
  qed
qed auto

end

section \<open>The hash flags\<close>

text \<open>What an insertion has cleared so far: the nodes it has passed, and at the end all nodes above its key.\<close>

definition cleared_to :: "('p \<Rightarrow> nat list) \<Rightarrow> ('p, 'v, 'm) node_heap \<Rightarrow> nat list \<Rightarrow> bool" where
  "cleared_to nib h p \<longleftrightarrow> (\<forall>b n. h b = Some n \<longrightarrow> strict_prefix (cn_path nib n) p \<longrightarrow> \<not> cn_hash_valid n)"

definition cleared_at :: "('p \<Rightarrow> nat list) \<Rightarrow> ('p, 'v, 'm) node_heap \<Rightarrow> nat list \<Rightarrow> bool" where
  "cleared_at nib h p \<longleftrightarrow> (\<forall>b n. h b = Some n \<longrightarrow> prefix (cn_path nib n) p \<longrightarrow> \<not> cn_hash_valid n)"

fun pc_cleared :: "('p \<Rightarrow> nat list) \<Rightarrow> ('p, 'v, 'm) node_heap \<Rightarrow> nat list \<Rightarrow> amt_pc \<Rightarrow> bool" where
  "pc_cleared nib h path (Enter a) \<longleftrightarrow> (\<forall>n. h a = Some n \<longrightarrow> cleared_to nib h (cn_path nib n))"
| "pc_cleared nib h path (Load a) \<longleftrightarrow> (\<forall>n. h a = Some n \<longrightarrow> cleared_at nib h (cn_path nib n))"
| "pc_cleared nib h path (Loop a None) \<longleftrightarrow> (\<forall>n. h a = Some n \<longrightarrow> cleared_at nib h (cn_path nib n))"
| "pc_cleared nib h path (Loop a (Some c)) \<longleftrightarrow> (\<forall>n. h c = Some n \<longrightarrow> cleared_to nib h (cn_path nib n))"
| "pc_cleared nib h path (Return r) \<longleftrightarrow> cleared_at nib h path"

definition inserts_cleared :: "('p \<Rightarrow> nat list) \<Rightarrow> ('p, 'v, 'm) node_heap \<times> (('p, 'a) amt_op \<times> amt_pc) list \<Rightarrow> bool" where
  "inserts_cleared nib s \<longleftrightarrow> (\<forall>key args pc. (Insert key args, pc) \<in> set (snd s) \<longrightarrow> pc_cleared nib (fst s) (nib key) pc)"

text \<open>Steps set no flags.\<close>

definition flags_mono :: "('p \<Rightarrow> nat list) \<Rightarrow> ('p, 'v, 'm) node_heap \<Rightarrow> ('p, 'v, 'm) node_heap \<Rightarrow> bool" where
  "flags_mono nib h h' \<longleftrightarrow> (\<forall>b n'. h' b = Some n' \<longrightarrow> cn_hash_valid n' \<longrightarrow>
     (\<exists>n. h b = Some n \<and> cn_path nib n = cn_path nib n' \<and> cn_hash_valid n))"

lemma cleared_mono:
  assumes "flags_mono nib h h'"
  shows "cleared_to nib h p \<Longrightarrow> cleared_to nib h' p" "cleared_at nib h p \<Longrightarrow> cleared_at nib h' p"
  using assms unfolding flags_mono_def cleared_to_def cleared_at_def by metis+

lemma flags_mono_refl [simp]: "flags_mono nib h h"
  by (auto simp: flags_mono_def)

lemma move_flags: "amt_move P pvalid nib F act h pc h' pc' \<Longrightarrow> flags_mono nib h h'"
  by (induction rule: amt_move.cases) (auto simp: flags_mono_def cn_path_def set_unique_child_def split: if_splits)

lemma pc_cleared_mono:
  assumes "flags_mono nib h h'" "heap_extends h h'" "pc_ok nib h path pc" "pc_cleared nib h path pc"
  shows "pc_cleared nib h' path pc"
proof -
  have path: "cn_path nib n' = cn_path nib n" if "h' a = Some n'" "h a = Some n" for a n n'
    using heap_extends_path [OF assms(2) that(2), of nib] that(1) by auto
  then show ?thesis
    using assms(3,4) cleared_mono [OF assms(1)] by (cases "(nib, h, path, pc)" rule: pc_cleared.cases) (auto simp: path)
qed

context trie_prefix
begin

text \<open>No node lies between a node and its child.\<close>

lemma cleared_child:
  assumes h: "hok root h" "h a = Some n" "h c = Some m" "cn_children n (path_of m ! length (path_of n)) = Some c"
    and p: "strict_prefix (path_of n) (path_of m)" and cl: "cleared_at nib h (path_of n)"
  shows "cleared_to nib h (path_of m)"
  unfolding cleared_to_def
proof (intro allI impI)
  fix b x assume b: "h b = Some x" "strict_prefix (path_of x) (path_of m)"
  have sh: "paths_linked (heap_shape nib h)" using hokD(3) [OF h(1,2)] by (simp add: shape_ok_def)
  show "\<not> cn_hash_valid x"
  proof (cases "prefix (path_of x) (path_of n)")
    case True
    then show ?thesis using cl b(1) by (auto simp: cleared_at_def)
  next
    case False
    then have st: "strict_prefix (path_of n) (path_of x)"
      using strict_prefix_linear [OF prefix_order.less_imp_le [OF b(2)] prefix_order.less_imp_le [OF p]]
      by (metis prefix_order.less_imp_le prefix_order.order_refl)
    then have "path_of x ! length (path_of n) = path_of m ! length (path_of n)"
      using strict_prefix_nth [OF st prefix_order.less_imp_le [OF b(2)]] by simp
    then have "prefix (path_of m) (path_of x)"
      using paths_linkedD [OF sh hokD(2) [OF h(1,2)] hokD(2) [OF h(1) b(1)] st] h(3,4) by (auto simp: heap_shape_def)
    then show ?thesis using b(2) by (meson prefix_order.leD)
  qed
qed

text \<open>A step of an insertion.\<close>

lemma cleared_load:
  assumes h: "hok root h" "h a = Some n" and p: "strict_prefix (path_of n) path" and cl: "cleared_at nib h (path_of n)"
  shows "pc_cleared nib h path (Loop a (slot_at nib h path a))"
proof (cases "slot_at nib h path a")
  case None
  then show ?thesis using h(2) cl by simp
next
  case (Some c)
  have sh: "children_extend (heap_shape nib h)" using hokD(3) [OF h] by (simp add: shape_ok_def)
  have slot: "cn_children n (path ! length (path_of n)) = Some c" using Some h(2) by (simp add: slot_at_def)
  have "cleared_to nib h (path_of m)" if m: "h c = Some m" for m
  proof -
    have "prefix (path_of n @ [path ! length (path_of n)]) (path_of m)"
      using children_extendD [OF sh hokD(2) [OF h] slot] m by (auto simp: heap_shape_def)
    then have "strict_prefix (path_of n) (path_of m)" "path_of m ! length (path_of n) = path ! length (path_of n)"
      by (simp_all add: prefix_snoc_nth)
    then show ?thesis using cleared_child [OF h m _ _ cl] slot by simp
  qed
  then show ?thesis using Some by simp
qed

lemma cleared_loop:
  assumes "h a = Some n" "pc_ok nib h path (Loop a c)" "pc_cleared nib h path (Loop a c)"
  shows "cleared_at nib h (path_of n)"
proof (cases c)
  case (Some b)
  then obtain m where m: "h b = Some m" "prefix (path_of n @ [path ! length (path_of n)]) (path_of m)" using assms(1,2) by auto
  then have "strict_prefix q (path_of m)" if "prefix q (path_of n)" for q
    using that by (auto simp: prefix_snoc_nth intro: prefix_order.le_less_trans)
  then show ?thesis using assms(3) m(1) Some by (auto simp: cleared_to_def cleared_at_def)
qed (use assms in auto)

lemma cleared_add:
  assumes h: "hok root h" "h a = Some n" "slot_at nib h path a = None" and p: "strict_prefix (path_of n) path" and cl: "cleared_at nib h (path_of n)"
  shows "cleared_at nib h path"
  unfolding cleared_at_def
proof (intro allI impI)
  fix b x assume b: "h b = Some x" "prefix (path_of x) path"
  have sh: "paths_linked (heap_shape nib h)" using hokD(3) [OF h(1,2)] by (simp add: shape_ok_def)
  have slot: "cn_children n (path ! length (path_of n)) = None" using h(2,3) by (simp add: slot_at_def)
  have "\<not> strict_prefix (path_of n) (path_of x)"
    using empty_slot [OF sh hokD(2) [OF h(1,2)] slot hokD(2) [OF h(1) b(1)]] strict_prefix_nth [OF _ b(2)] by (auto simp: prefix_snoc_nth)
  then have "prefix (path_of x) (path_of n)"
    using strict_prefix_linear [OF b(2) prefix_order.less_imp_le [OF p]] by (metis prefix_order.less_imp_le prefix_order.order_refl)
  then show "\<not> cn_hash_valid x" using cl b(1) by (simp add: cleared_at_def)
qed

lemma path_inject:
  assumes "hok root h" "h a = Some n" "h b = Some m" "path_of m = path_of n"
  shows "b = a"
  using hokD [OF assms(1,2)] hokD(2) [OF assms(1,3)] assms(4) paths_injectD unfolding shape_ok_def by metis

lemma cleared_write:
  assumes h: "hok root h" "h a = Some n" and n': "path_of n' = path_of n" "\<not> cn_hash_valid n'" and cl: "cleared_to nib h (path_of n)"
  shows "cleared_at nib (h(a \<mapsto> n')) (path_of n)"
  unfolding cleared_at_def
proof (intro allI impI)
  fix b x assume b: "(h(a \<mapsto> n')) b = Some x" "prefix (path_of x) (path_of n)"
  show "\<not> cn_hash_valid x"
  proof (cases "b = a")
    case True
    then show ?thesis using b(1) n'(2) by simp
  next
    case False
    then have hb: "h b = Some x" using b(1) by simp
    then have "path_of x \<noteq> path_of n" using path_inject [OF h hb] False by blast
    then have "strict_prefix (path_of x) (path_of n)" using b(2) by (simp add: strict_prefix_def)
    then show ?thesis using cl hb by (simp add: cleared_to_def)
  qed
qed

lemma move_cleared:
  assumes "hok root h" "move F (Insert key args) h pc h' pc'" "pc_ok nib h (nib key) pc" "pc_cleared nib h (nib key) pc"
  shows "pc_cleared nib h' (nib key) pc'"
  using assms(2)
proof cases
  case (mv_write key' args' a n)
  let ?n = "n\<lparr>cn_hash_valid := False, cn_value := Some (amt_update F args' (cn_value n))\<rparr>"
  have "path_of ?n = path_of n" by (simp add: cn_path_def)
  then show ?thesis using cleared_write [OF assms(1) mv_write(5), of ?n] assms(4) mv_write by simp
next
  case (mv_clear key' args' a n)
  have "path_of (n\<lparr>cn_hash_valid := False\<rparr>) = path_of n" by (simp add: cn_path_def)
  then show ?thesis using cleared_write [OF assms(1) mv_clear(5), of "n\<lparr>cn_hash_valid := False\<rparr>"] assms(4) mv_clear by simp
next
  case (mv_load a n)
  then show ?thesis using cleared_load [OF assms(1) mv_load(4)] assms(4) by simp
next
  case (mv_reload a n c)
  then show ?thesis using cleared_load [OF assms(1) mv_reload(4)] cleared_loop [of h a n, OF mv_reload(4)] assms(3,4) by simp
next
  case (mv_descend a n c m)
  then show ?thesis using assms(4) by simp
next
  case (mv_add a n new x r)
  then have "cleared_at nib h (nib key)"
    using cleared_add [OF assms(1) mv_add(4), of "nib key"] cleared_loop [of h a n, OF mv_add(4)] assms(3,4) by simp
  then show ?thesis using cleared_mono(2) [OF move_flags [OF assms(2)]] mv_add(3) by simp
next
  case (mv_split a n c m new k x)
  have "cleared_to nib h (path_of m)" using assms(4) mv_split(1,5) by simp
  then have cl: "cleared_to nib h' (path_of m)" by (rule cleared_mono(1) [OF move_flags [OF assms(2)]])
  have tk: "take k (nib key) = take k (path_of m)" using take_lcp [of "path_of m" "nib key"] mv_split(10) by simp
  have "cleared_to nib h' (take k (nib key))"
    using cl prefix_order.less_le_trans [OF _ take_is_prefix [of k "path_of m"]] unfolding tk cleared_to_def by blast
  moreover have "path_of (set_unique_child (path_of m ! k) c x) = take k (nib key)"
    using mv_split(13) by (simp add: set_unique_child_def cn_path_def)
  moreover have "a \<noteq> new" using mv_split(4,6) by auto
  ultimately show ?thesis using mv_split(2,3) by simp
qed auto

lemma step_cleared:
  assumes mach_ok: "mach_ok root (h, ts)" and cl: "inserts_cleared nib (h, ts)" and st: "amt_step P F (h, ts) i s'"
  shows "inserts_cleared nib s' \<and> flags_mono nib h (fst s')"
  using mach_ok st
proof (cases rule: step_elim)
  case (1 act pc h' pc')
  have ext: "heap_extends h h'" and hok: "hok root h" using 1(8) mach_ok by (simp_all add: step_post_def machine_ok_def)
  have i: "(act, pc) \<in> set ts" using 1(1,2) nth_mem by metis
  have "pc_cleared nib h' (nib key) c" if mem: "(Insert key args, c) \<in> set (ts[i := (act, pc')])" for key args c
  proof -
    consider "act = Insert key args" "c = pc'" | "(Insert key args, c) \<in> set ts"
      using set_update_subset_insert [of ts i "(act, pc')"] mem by blast
    then show ?thesis
    proof cases
      case 1
      then show ?thesis using move_cleared [OF hok, of F key args pc h' pc'] \<open>move F act h pc h' pc'\<close>
          \<open>pc_ok nib h (op_path nib act) pc\<close> cl i by (auto simp: inserts_cleared_def)
    next
      case 2
      then have "pc_ok nib h (nib key) c" "pc_cleared nib h (nib key) c" using mach_ok cl by (auto simp: machine_ok_def inserts_cleared_def)
      then show ?thesis using pc_cleared_mono [OF move_flags [OF 1(7)] ext] by blast
    qed
  qed
  then show ?thesis using 1(4) move_flags [OF 1(7)] by (simp add: inserts_cleared_def)
qed

lemma run_cleared:
  assumes "mach_ok root s" "inserts_cleared nib s" "amt_run P F s sched s'"
  shows "inserts_cleared nib s'"
  using assms(3,1,2)
proof (induction rule: amt_run.induct)
  case (amt_run_snoc sched s' i s'')
  obtain h ts where "s' = (h, ts)" by (cases s')
  then show ?case using step_cleared [of root h ts F i s''] run_ok [OF amt_run_snoc(4,1)] amt_run_snoc by simp
qed

section \<open>Results about a run from the root\<close>

lemma vals_from_lookup:
  assumes "hok root h" "prefix_bits P div 4 < fuel" "\<And>k. pvalid k \<Longrightarrow> amt_get_value P fuel h root k = Inr (m k)"
  shows "vals_are pvalid nib h m"
proof -
  obtain n where n: "h root = Some n" "path_of n = []" using assms(1) by (auto simp: heap_ok_def shape_ok_def heap_shape_def)
  have "val_at nib h (nib k) v \<longleftrightarrow> m k = Some v" if "pvalid k" for k v
    using get_value_on [OF assms(1) n(1) that, of fuel] assms(2,3) n(2) that by auto
  then show ?thesis by (simp add: vals_are_def)
qed

lemma threads_start: "i < length acts \<Longrightarrow> \<not> returned (amt_threads root acts) i" "map fst (amt_threads root acts) = acts"
  by (simp_all add: returned_iff amt_threads_def comp_def) auto

lemma run_result:
  assumes h: "hok root h" and acts: "\<And>act. act \<in> set acts \<Longrightarrow> op_ok P pvalid act"
    and run: "amt_run P F (h, amt_threads root acts) sched (h', ts)"
  shows "hok root h'" "map fst ts = acts" "length sched \<le> length acts * ((length acts + 4) * (prefix_bits P div 4) + 3)"
    "i < length ts \<Longrightarrow> \<not> returned ts i \<Longrightarrow> \<exists>s'. amt_step P F (h', ts) i s'"
    "(Subnode q len, Return (Some a)) \<in> set ts \<Longrightarrow> \<exists>n. h' a = Some n \<and> path_of n = take (len div 4) (nib q)"
proof -
  have start: "mach_ok root (h, amt_threads root acts)" by (rule start_ok [OF h acts])
  note ok = run_ok [OF start run]
  show "hok root h'" using ok by (simp add: machine_ok_def)
  show "length sched \<le> length acts * ((length acts + 4) * (prefix_bits P div 4) + 3)" using ok start_weight [OF h, of acts] by simp
  show "\<exists>s'. amt_step P F (h', ts) i s'" if "i < length ts" "\<not> returned ts i"
    using machine_progress [OF _ that] ok by blast
  show "\<exists>n. h' a = Some n \<and> path_of n = take (len div 4) (nib q)" if "(Subnode q len, Return (Some a)) \<in> set ts"
    using ok that by (auto simp: machine_ok_def)
  show "map fst ts = acts"
    using run_threads [OF run] threads_start(2) by simp
qed

lemma run_values:
  assumes h: "hok root h" and acts: "\<And>act. act \<in> set acts \<Longrightarrow> op_ok P pvalid act"
    and run: "amt_run P F (h, amt_threads root acts) sched (h', ts)" and ret: "\<And>i. i < length ts \<Longrightarrow> returned ts i"
    and m: "\<And>k. pvalid k \<Longrightarrow> amt_get_value P (Suc (prefix_bits P div 4)) h root k = Inr (m k)" and k: "pvalid k"
  shows "set sched = {..<length acts}"
    "amt_get_value P (Suc (prefix_bits P div 4)) h' root k = Inr (fold (\<lambda>i. apply_op F (acts ! i)) (remdups sched) m k)"
proof -
  note res = run_result [OF h acts run]
  have len: "length ts = length acts" using arg_cong [OF res(2), of length] by simp
  have m': "vals_are pvalid nib h m" using vals_from_lookup [OF h _ m] by simp
  note lin = run_linear [OF start_ok [OF h acts] m' run]
  have lin: "set sched \<subseteq> {..<length acts}" "\<forall>i < length acts. returned ts i \<longrightarrow> i \<in> set sched"
    "vals_are pvalid nib h' (fold (\<lambda>i. apply_op F (fst (amt_threads root acts ! i))) (filter (returned ts) (remdups sched)) m)"
    using lin threads_start by (auto simp: amt_threads_def)
  show sched: "set sched = {..<length acts}" using lin(1,2) ret len by auto
  have "filter (returned ts) (remdups sched) = remdups sched" using sched ret len by (intro filter_True) simp
  moreover have "fold (\<lambda>i. apply_op F (fst (amt_threads root acts ! i))) (remdups sched) m = fold (\<lambda>i. apply_op F (acts ! i)) (remdups sched) m"
    using sched by (intro fold_cong) (auto simp: amt_threads_def)
  ultimately show "amt_get_value P (Suc (prefix_bits P div 4)) h' root k = Inr (fold (\<lambda>i. apply_op F (acts ! i)) (remdups sched) m k)"
    using get_value_vals [OF res(1) _ k, of _ "Suc (prefix_bits P div 4)"] lin(3) by simp
qed

lemma run_flags:
  assumes h: "hok root h" and acts: "\<And>act. act \<in> set acts \<Longrightarrow> op_ok P pvalid act"
    and run: "amt_run P F (h, amt_threads root acts) sched (h', ts)"
    and key: "(Insert key args, Return r) \<in> set ts" and a: "h' a = Some n" "cn_hash_valid n"
  shows "\<not> prefix (path_of n) (nib key)"
proof -
  have "inserts_cleared nib (h, amt_threads root acts)"
    using h by (auto simp: inserts_cleared_def amt_threads_def cleared_to_def heap_ok_def shape_ok_def heap_shape_def)
  from run_cleared [OF start_ok [OF h acts] this run] have "cleared_at nib h' (nib key)"
    using key by (fastforce simp: inserts_cleared_def)
  then show ?thesis using a by (auto simp: cleared_at_def)
qed

end

end
