(* ===== verification/TrieEdit.thy ===== *)
theory TrieEdit
  imports TrieQuery MerkleTrie
begin

text \<open>
  The operations of \<^verbatim>\<open>trie/merkle_trie.h\<close> that change single nodes or cut a trie in two: \<^verbatim>\<open>modify_value_nolocks\<close>,
  \<^verbatim>\<open>endow_split\<close> (the keys of a given total endowment, from the lowest key on), \<^verbatim>\<open>destructive_steal_child\<close> and
  \<^verbatim>\<open>propagate_metadata\<close> of the batch merge, the two walks that invalidate hashes, \<^verbatim>\<open>clean_singlechild_nodes\<close>, and the generation of proofs.
\<close>

section \<open>Operations\<close>

text \<open>Both overloads of \<^verbatim>\<open>modify_value_nolocks\<close>; the test for a leaf comes before the comparison of the prefix.\<close>

fun modify_value_nolocks :: "'p TriePrefix \<Rightarrow> ('v \<Rightarrow> 'v) \<Rightarrow> 'p \<Rightarrow> ('p, 'v, 'm) TrieNode \<Rightarrow> ('p, 'v, 'm) TrieNode res" where
  "modify_value_nolocks P fn query_prefix (TrieNode ch p l hv m h) =
     (if l = MAX_KEY_LEN_BITS P then rbind (cm_value ch) (\<lambda>v. Inr (TrieNode (Value (fn v)) p l False m h))
      else if get_prefix_match_len P p l query_prefix (MAX_KEY_LEN_BITS P) \<noteq> l then throw ''invalid recurison: value nonexistent''
      else rbind (get_branch_bits P query_prefix l) (\<lambda>bb.
        case cm_find ch bb of
          None \<Rightarrow> throw ''branch bits not found: can't modify nonexistent value''
        | Some c \<Rightarrow> rbind (modify_value_nolocks P fn query_prefix c) (\<lambda>c'. Inr (TrieNode (cm_set ch bb c') p l False m h))))"

text \<open>
  \<^verbatim>\<open>endow_split\<close>.  \<open>endow\<close> reads the field \<^verbatim>\<open>int64_t endow\<close> of the user's metadata.  The loop runs over the branch bits \<open>0 \<dots> 15\<close> and changes the child
  at the current bits only, so it meets the children that were there at its start; the test at the end of each round, also of a
  round without a child, is made here at the beginning of the next child's round.
\<close>

fun endow_split ::
    "'p TriePrefix \<Rightarrow> ('m::ab_group_add \<Rightarrow> int) \<Rightarrow> int \<Rightarrow> ('p, 'v, 'm) TrieNode \<Rightarrow>
     (('p, 'v, 'm) TrieNode option \<times> ('p, 'v, 'm) TrieNode) res" where
  "endow_split P endow endow_threshold (TrieNode ch p l hv m h) =
     (if cm_size ch = 0 then Inr (None, TrieNode ch p l hv m h)
      else if endow_threshold \<ge> endow m then throw ''shouldn't have reached this far down - entire node is consumed''
      else if endow_threshold < 0 then throw ''endow threshold can't be negative''
      else rbind
        (rfold (\<lambda>(branch_bits, child) (ch, m, acc_endow, new_node_children).
            if branch_bits \<noteq> 0 \<and> acc_endow \<ge> endow_threshold then Inr (ch, m, acc_endow, new_node_children)
            else
              let fully_consumed_subtree = acc_endow + endow (tn_metadata child) in
              if fully_consumed_subtree \<le> endow_threshold then
                rbind (cm_extract ch branch_bits) (\<lambda>(new_child, ch').
                  Inr (ch', m - tn_metadata child, fully_consumed_subtree, al_put branch_bits new_child new_node_children))
              else rbind (endow_split P endow (endow_threshold - acc_endow) child) (\<lambda>(split_obj, child').
                rbind (if single_child child' then rbind (get_single_child child') (cm_emplace (cm_set ch branch_bits child') branch_bits)
                       else Inr (cm_set ch branch_bits child')) (\<lambda>ch'.
                  case split_obj of
                    None \<Rightarrow> Inr (ch', m, fully_consumed_subtree, new_node_children)
                  | Some s \<Rightarrow> Inr (ch', m - tn_metadata s, fully_consumed_subtree, al_put branch_bits s new_node_children))))
          (cm_list ch) (ch, m, 0, []))
        (\<lambda>(ch', m', acc_endow, new_node_children).
          Inr (if new_node_children = [] then None
               else Some (TrieNode (Children new_node_children) p l False
                 (sum_list (map (\<lambda>(bb, c). tn_metadata c) new_node_children)) uninit_hash),
               TrieNode ch' p l False m' h)))"

text \<open>\<^verbatim>\<open>destructive_steal_child\<close>: whether the whole node is to be stolen, the metadata of what is stolen, the stolen node, the rest.\<close>

fun destructive_steal_child ::
    "'p TriePrefix \<Rightarrow> 'p \<Rightarrow> PrefixLenBits \<Rightarrow> ('p, 'v, 'm::ab_group_add) TrieNode \<Rightarrow>
     (bool \<times> 'm \<times> ('p, 'v, 'm) TrieNode option \<times> ('p, 'v, 'm) TrieNode) res" where
  "destructive_steal_child P stealing_prefix stealing_prefix_len (TrieNode ch p l hv m h) =
     (let prefix_match_len = get_prefix_match_len P p l stealing_prefix stealing_prefix_len in
      if prefix_match_len = stealing_prefix_len then Inr (True, m, None, TrieNode ch p l hv m h)
      else if prefix_match_len = l then
        rbind (get_branch_bits P stealing_prefix l) (\<lambda>branch_bits.
          case cm_find ch branch_bits of
            None \<Rightarrow> Inr (False, 0, None, TrieNode ch p l hv m h)
          | Some child \<Rightarrow>
              rbind (destructive_steal_child P stealing_prefix stealing_prefix_len child) (\<lambda>(do_steal_entire_subtree, meta_delta, ptr, child').
              let ch' = cm_set ch branch_bits child' in
              if do_steal_entire_subtree then
                rbind (cm_extract ch' branch_bits) (\<lambda>(out, ch''). Inr (False, meta_delta, Some out, TrieNode ch'' p l hv (m - meta_delta) h))
              else if ptr \<noteq> None then Inr (False, meta_delta, ptr, TrieNode ch' p l hv (m - meta_delta) h)
              else Inr (False, 0, None, TrieNode ch' p l hv m h)))
      else Inr (False, 0, None, TrieNode ch p l hv m h))"

text \<open>\<^verbatim>\<open>MerkleTrie::endow_split\<close>; \<open>g\<close> is the uninitialised hash buffer of the new trie.\<close>

definition MerkleTrie_endow_split ::
    "'p TriePrefix \<Rightarrow> ('m::ab_group_add \<Rightarrow> int) \<Rightarrow> 'v \<Rightarrow> Hash \<Rightarrow> int \<Rightarrow> ('p, 'v, 'm) MerkleTrie \<Rightarrow>
     (('p, 'v, 'm) MerkleTrie \<times> ('p, 'v, 'm) MerkleTrie) res" where
  "MerkleTrie_endow_split P endow dflt g endow_threshold t =
     (if endow_threshold = 0 then Inr (MerkleTrie_empty P dflt g, t)
      else
        let root_endow = endow (tn_metadata (mt_root t)) in
        if endow_threshold > root_endow then throw ''not enough endow''
        else if endow_threshold = root_endow then
          Inr (MerkleTrie_of_root (mt_root t) g, t\<lparr>mt_root := make_empty_node P dflt, mt_hash_valid := False\<rparr>)
        else rbind (endow_split P endow endow_threshold (mt_root t)) (\<lambda>(ptr, root1).
          rbind (contract_root root1) (\<lambda>root2.
            Inr (case ptr of None \<Rightarrow> MerkleTrie_empty P dflt g | Some s \<Rightarrow> MerkleTrie_of_root s g,
                 t\<lparr>mt_root := root2, mt_hash_valid := False\<rparr>))))"

text \<open>
  The walks to a node below.  \<^verbatim>\<open>target == this\<close> compares pointers; two nodes of a trie differ in prefix or length, so
  here the target is given by both.
\<close>

fun propagate_metadata ::
    "'p TriePrefix \<Rightarrow> 'p \<Rightarrow> PrefixLenBits \<Rightarrow> 'm::ab_group_add \<Rightarrow> ('p, 'v, 'm) TrieNode \<Rightarrow> ('p, 'v, 'm) TrieNode res" where
  "propagate_metadata P target_prefix target_len md (TrieNode ch p l hv m h) =
     (if p = target_prefix \<and> l = target_len then Inr (TrieNode ch p l False m h)
      else rbind (get_branch_bits P target_prefix l) (\<lambda>branch_bits.
        case cm_find ch branch_bits of
          None \<Rightarrow> throw ''can't propagate metadata to nonexistent node''
        | Some c \<Rightarrow> rbind (propagate_metadata P target_prefix target_len md c) (\<lambda>c'.
            Inr (TrieNode (cm_set ch branch_bits c') p l False (m + md) h))))"

fun invalidate_hash_to_node_nolocks ::
    "'p TriePrefix \<Rightarrow> 'p \<Rightarrow> PrefixLenBits \<Rightarrow> ('p, 'v, 'm) TrieNode \<Rightarrow> ('p, 'v, 'm) TrieNode res" where
  "invalidate_hash_to_node_nolocks P target_prefix target_len (TrieNode ch p l hv m h) =
     (if p = target_prefix \<and> l = target_len then Inr (TrieNode ch p l False m h)
      else rbind (get_branch_bits P target_prefix l) (\<lambda>branch_bits.
        case cm_find ch branch_bits of
          None \<Rightarrow> throw ''can't propagate metadata to nonexistent node''
        | Some c \<Rightarrow> rbind (invalidate_hash_to_node_nolocks P target_prefix target_len c) (\<lambda>c'.
            Inr (TrieNode (cm_set ch branch_bits c') p l False m h))))"

fun invalidate_hash_to_key_nolocks :: "'p TriePrefix \<Rightarrow> 'p \<Rightarrow> ('p, 'v, 'm) TrieNode \<Rightarrow> ('p, 'v, 'm) TrieNode res" where
  "invalidate_hash_to_key_nolocks P query_key (TrieNode ch p l hv m h) =
     (if l = MAX_KEY_LEN_BITS P then Inr (TrieNode ch p l False m h)
      else rbind (get_branch_bits P query_key l) (\<lambda>branch_bits.
        case cm_find ch branch_bits of
          None \<Rightarrow> throw ''can't invalidate hash to nonexistent node''
        | Some c \<Rightarrow> rbind (invalidate_hash_to_key_nolocks P query_key c) (\<lambda>c'.
            Inr (TrieNode (cm_set ch branch_bits c') p l False m h))))"

text \<open>\<^verbatim>\<open>clean_singlechild_nodes\<close>: at each branch the loop replaces the child by its only child until it has none or several.\<close>

fun contract_chain :: "('p, 'v, 'm) TrieNode \<Rightarrow> ('p, 'v, 'm) TrieNode" where
  "contract_chain (TrieNode ch p l hv m h) =
     (case cm_list ch of [(bb, c)] \<Rightarrow> contract_chain c | _ \<Rightarrow> TrieNode ch p l hv m h)"

lemma contract_chain_size: "size (contract_chain t) \<le> size t"
proof (induction t rule: contract_chain.induct)
  case (1 ch p l hv m h)
  have less: "size c < size (TrieNode ch p l hv m h)" if "cm_list ch = (bb, c) # cs" for bb c cs
    using cm_list_hd_size_less [OF that, of size "\<lambda>_. 0"] by simp
  show ?case
  proof (cases "\<exists>bb c. cm_list ch = [(bb, c)]")
    case True
    then obtain bb c where c: "cm_list ch = [(bb, c)]" by blast
    then have "size (contract_chain c) \<le> size c" using 1 by simp
    then show ?thesis using less [OF c] c by simp
  next
    case False
    then show ?thesis by (auto split: list.splits)
  qed
qed

lemma contract_find: "cm_find (map_children_map contract_chain id ch) bb = map_option contract_chain (cm_find ch bb)"
  by (cases ch) (auto simp: map_prod_def map_of_map)

function clean_singlechild_nodes :: "'p TriePrefix \<Rightarrow> 'p \<Rightarrow> ('p, 'v, 'm) TrieNode \<Rightarrow> ('p, 'v, 'm) TrieNode res" where
  "clean_singlechild_nodes P explore_path (TrieNode ch p l hv m h) =
     (if l = MAX_KEY_LEN_BITS P then Inr (TrieNode ch p l False m h)
      else let ch' = map_children_map contract_chain id ch in
        rbind (get_branch_bits P explore_path l) (\<lambda>bb.
          case cm_find ch' bb of
            None \<Rightarrow> Inr (TrieNode ch' p l False m h)
          | Some c \<Rightarrow> rbind (clean_singlechild_nodes P explore_path c) (\<lambda>c'. Inr (TrieNode (cm_set ch' bb c') p l False m h))))"
  by pat_completeness auto
termination
proof (relation "measure (\<lambda>(P, path, t). size t)")
  fix P :: "'p TriePrefix" and path :: 'p and ch :: "(('p, 'v, 'm) TrieNode, 'v) children_map" and p l hv m h ch' bb c
  assume ch': "ch' = map_children_map contract_chain id ch" and find: "cm_find ch' bb = Some c"
  then obtain c0 where c0: "cm_find ch bb = Some c0" "c = contract_chain c0" by (auto simp: contract_find)
  then have "(bb, c0) \<in> set (cm_list ch)" by (cases ch) (auto dest: map_of_SomeD)
  then have "size c0 < size (TrieNode ch p l hv m h)" using cm_list_size_less [of bb c0 ch size "\<lambda>_. 0"] by simp
  then show "((P, path, c), (P, path, TrieNode ch p l hv m h)) \<in> measure (\<lambda>(P, path, t). size t)"
    using contract_chain_size [of c0] c0(2) by simp
qed simp

text \<open>\<^verbatim>\<open>MerkleTrie::clean_singlechild_nodes\<close>; its \<^verbatim>\<open>while\<close> loop is \<open>contract_chain\<close> again.\<close>

definition MerkleTrie_clean_singlechild_nodes ::
    "'p TriePrefix \<Rightarrow> 'p \<Rightarrow> ('p, 'v, 'm) MerkleTrie \<Rightarrow> ('p, 'v, 'm) MerkleTrie res" where
  "MerkleTrie_clean_singlechild_nodes P explore_path t =
     rbind (clean_singlechild_nodes P explore_path (mt_root t)) (\<lambda>root.
       Inr (t\<lparr>mt_root := contract_chain root, mt_hash_valid := False\<rparr>))"

text \<open>\<^verbatim>\<open>create_proof_node\<close> and \<^verbatim>\<open>create_proof\<close>.  \<^verbatim>\<open>membership_flag\<close> is not initialised; \<open>flag\<close> is what the memory holds.\<close>

record ProofNode =
  prefix_length_and_bv :: "byte list"
  pn_hashes :: "Hash list"

record Proof =
  pf_nodes :: "ProofNode list"
  pf_prefix :: "byte list"
  pf_trie_size :: "32 word"
  pf_root_node_hash :: Hash
  value_bytes :: "byte list"
  membership_flag :: "32 word"

fun pop_hashes :: "'b BitVector_ops \<Rightarrow> nat \<Rightarrow> 'b \<Rightarrow> (nat \<times> ('p, 'v, 'm) TrieNode) list \<Rightarrow> Hash list res" where
  "pop_hashes B 0 bits cs = Inr []"
| "pop_hashes B (Suc n) bits cs =
     (let (bb, bits') = bv_pop B bits in
      case map_of cs bb of
        None \<Rightarrow> throw ''out of range''
      | Some c \<Rightarrow> rbind (pop_hashes B n bits' cs) (\<lambda>hs. Inr (tn_hash c # hs)))"

fun create_proof_node :: "'p TriePrefix \<Rightarrow> 'b BitVector_ops \<Rightarrow> ('p, 'v, 'b) HashEnv \<Rightarrow> ('p, 'v, 'm) TrieNode \<Rightarrow> ProofNode res" where
  "create_proof_node P B E (TrieNode ch p l hv m h) =
     (if l = MAX_KEY_LEN_BITS P then Inr \<lparr> prefix_length_and_bv = append_be16 E l [], pn_hashes = [] \<rparr>
      else let bits = fold (\<lambda>(bb, c) bits. bv_add B bits bb) (cm_list ch) (bv_clear B) in
        rbind (pop_hashes B (bv_size B bits) bits (cm_list ch)) (\<lambda>hs.
          Inr \<lparr> prefix_length_and_bv = bv_write E bits (append_be16 E l []), pn_hashes = hs \<rparr>))"

fun create_proof ::
    "'p TriePrefix \<Rightarrow> 'b BitVector_ops \<Rightarrow> ('p, 'v, 'b) HashEnv \<Rightarrow> 'p \<Rightarrow> Proof \<Rightarrow> ('p, 'v, 'm) TrieNode \<Rightarrow> Proof res" where
  "create_proof P B E key proof (TrieNode ch p l hv m h) =
     rbind (create_proof_node P B E (TrieNode ch p l hv m h)) (\<lambda>node.
     let proof1 = proof\<lparr>pf_nodes := pf_nodes proof @ [node]\<rparr> in
     if l = MAX_KEY_LEN_BITS P then
       rbind (cm_value ch) (\<lambda>v. Inr (proof1\<lparr>membership_flag := 1, value_bytes := copy_data E v (value_bytes proof1)\<rparr>))
     else rbind (get_branch_bits P key l) (\<lambda>bb.
       case cm_find ch bb of None \<Rightarrow> Inr proof1 | Some c \<Rightarrow> create_proof P B E key proof1 c))"

definition generate_proof ::
    "'p TriePrefix \<Rightarrow> 'b BitVector_ops \<Rightarrow> ('p, 'v, 'b) HashEnv \<Rightarrow> ('m \<Rightarrow> 64 word) option \<Rightarrow> ('p \<Rightarrow> byte list) \<Rightarrow> 32 word \<Rightarrow> 'p \<Rightarrow>
     ('p, 'v, 'm) MerkleTrie \<Rightarrow> Proof res" where
  "generate_proof P B E hs get_bytes flag key t =
     rbind (create_proof P B E key
       \<lparr> pf_nodes = [], pf_prefix = [], pf_trie_size = 0, pf_root_node_hash = [], value_bytes = [], membership_flag = flag \<rparr> (mt_root t)) (\<lambda>output.
     rbind (node_size P hs (mt_root t)) (\<lambda>sz.
       Inr (output\<lparr>pf_prefix := get_bytes key, pf_trie_size := sz, pf_root_node_hash := tn_hash (mt_root t)\<rparr>)))"

declare modify_value_nolocks.simps [simp del] endow_split.simps [simp del] destructive_steal_child.simps [simp del]
  propagate_metadata.simps [simp del] invalidate_hash_to_node_nolocks.simps [simp del] invalidate_hash_to_key_nolocks.simps [simp del]
  contract_chain.simps [simp del] create_proof.simps [simp del]

text \<open>All nodes of a trie.\<close>

fun subnodes :: "('p, 'v, 'm) TrieNode \<Rightarrow> ('p, 'v, 'm) TrieNode set" where
  "subnodes (TrieNode ch p l hv m h) =
     insert (TrieNode ch p l hv m h) (\<Union>x \<in> set (cm_list ch). case x of (bb, c) \<Rightarrow> subnodes c)"

lemma hashed_subnodes: "hashed_nodes t \<subseteq> subnodes t"
  by (induction t rule: node_induct) auto

section \<open>Modification of a value\<close>

context trie_prefix
begin

lemma modify_value_correct:
  fixes t :: "('p, 'v, 'm::ab_group_add) TrieNode"
  assumes "wf k t" "pvalid key" "trie_map P t key = Some v"
  shows "\<exists>t'. modify_value_nolocks P fn key t = Inr t' \<and> wf k t' \<and> trie_map P t' = (trie_map P t)(key \<mapsto> fn v) \<and>
    tn_prefix t' = tn_prefix t \<and> tn_prefix_len t' = tn_prefix_len t \<and> tn_metadata t' = tn_metadata t \<and>
    (metadata_sum_ok t \<longrightarrow> metadata_sum_ok t') \<and> hashed_nodes t' \<subseteq> hashed_nodes t"
  using assms(1,3)
proof (induction t rule: measure_induct_rule [of size])
  case (less t)
  from less.prems(1) assms(2) show ?case
  proof (cases rule: key_walk)
    case Absent
    then show ?thesis using less.prems(2) by simp
  next
    case (Leaf w hv m h)
    then show ?thesis using assms(2) less.prems by (auto simp: modify_value_nolocks.simps trie_map_Value)
  next
    case (Inner cs p d hv m h c)
    note wt = less.prems(1) [unfolded Inner(1)]
    have "size c < size t" using Inner(1,5) by (auto dest!: map_of_SomeD simp: cm_list_size_less [where ch = "Children cs", simplified])
    moreover have "trie_map P c key = Some v"
      using less.prems(2) trie_map_Children [OF wt assms(2)] Inner(1,5) by simp
    ultimately obtain c' where c': "modify_value_nolocks P fn key c = Inr c'" "wf k c'" "trie_map P c' = (trie_map P c)(key \<mapsto> fn v)"
        "tn_prefix c' = tn_prefix c" "tn_prefix_len c' = tn_prefix_len c" "tn_metadata c' = tn_metadata c"
        "metadata_sum_ok c \<longrightarrow> metadata_sum_ok c'" "hashed_nodes c' \<subseteq> hashed_nodes c"
      using less.IH [OF _ Inner(6)] by blast
    let ?t = "TrieNode (Children (al_put (nib key ! d) c' cs)) p (4 * d) False m h"
    have run: "modify_value_nolocks P fn key t = Inr ?t"
      using Inner(1-5) c'(1) by (simp add: modify_value_nolocks.simps)
    from wt have w: "branch k (take d (nib p)) cs" "length (take d (nib p)) = d" by (elim wf_ChildrenE; simp)+
    note put = put_child [OF wt c'(2), unfolded c'(4,5)]
    have bc: "4 * d < tn_prefix_len c" "take (Suc d) (nib (tn_prefix c)) = take d (nib p) @ [nib key ! d]"
      using branch_child(2,3) [OF w(1) Inner(5)] w(2) by simp_all
    have "trie_map P ?t = (trie_map P t)(key \<mapsto> fn v)"
    proof (rule trie_map_eqI [OF put(1) [OF bc]])
      show "((trie_map P t)(key \<mapsto> fn v)) q = None" if "\<not> pvalid q" for q
        using that assms(2) trie_map_invalid [OF less.prems(1) that] by auto
      show "trie_map P ?t q = ((trie_map P t)(key \<mapsto> fn v)) q" if "pvalid q" for q
        using put(2) [OF bc that] c'(3) trie_map_Children [OF wt that] Inner(1,5) by auto
    qed
    moreover have "metadata_sum_ok t \<longrightarrow> metadata_sum_ok ?t"
      using Inner(1,5) c'(6,7) put(3) [OF bc] by (auto simp: set_al_put sum_al_put dest: map_of_SomeD)
    moreover have "hashed_nodes ?t \<subseteq> hashed_nodes t"
      using Inner(1) c'(8) map_of_SomeD [OF Inner(5)] by (fastforce simp: set_al_put [OF put(3) [OF bc]])
    ultimately show ?thesis using run put(1) [OF bc] Inner(1) by auto
  qed
qed

end

section \<open>The split by endowment\<close>

definition endow_step ::
    "('m::ab_group_add \<Rightarrow> int) \<Rightarrow> int \<Rightarrow> (int \<Rightarrow> ('p, 'v, 'm) TrieNode \<Rightarrow> (('p, 'v, 'm) TrieNode option \<times> ('p, 'v, 'm) TrieNode) res) \<Rightarrow>
     nat \<times> ('p, 'v, 'm) TrieNode \<Rightarrow> (('p, 'v, 'm) TrieNode, 'v) children_map \<times> 'm \<times> int \<times> (nat \<times> ('p, 'v, 'm) TrieNode) list \<Rightarrow>
     ((('p, 'v, 'm) TrieNode, 'v) children_map \<times> 'm \<times> int \<times> (nat \<times> ('p, 'v, 'm) TrieNode) list) res" where
  "endow_step endow thr rec = (\<lambda>(bb, child) (ch, m, acc, new).
     if bb \<noteq> 0 \<and> acc \<ge> thr then Inr (ch, m, acc, new)
     else
       let full = acc + endow (tn_metadata child) in
       if full \<le> thr then
         rbind (cm_extract ch bb) (\<lambda>(new_child, ch'). Inr (ch', m - tn_metadata child, full, al_put bb new_child new))
       else rbind (rec (thr - acc) child) (\<lambda>(split_obj, child').
         rbind (if single_child child' then rbind (get_single_child child') (cm_emplace (cm_set ch bb child') bb)
                else Inr (cm_set ch bb child')) (\<lambda>ch'.
           case split_obj of None \<Rightarrow> Inr (ch', m, full, new) | Some s \<Rightarrow> Inr (ch', m - tn_metadata s, full, al_put bb s new))))"

lemma al_put_same: "sorted_keys cs \<Longrightarrow> map_of cs bb = Some c \<Longrightarrow> al_put bb c cs = cs"
  by (induction cs) (auto dest!: map_of_SomeD, fastforce)

lemma endow_split_step:
  "endow_split P endow thr (TrieNode ch p l hv m h) =
     (if cm_size ch = 0 then Inr (None, TrieNode ch p l hv m h)
      else if thr \<ge> endow m then throw ''shouldn't have reached this far down - entire node is consumed''
      else if thr < 0 then throw ''endow threshold can't be negative''
      else rbind (rfold (endow_step endow thr (endow_split P endow)) (cm_list ch) (ch, m, 0, []))
        (\<lambda>(ch', m', acc, new).
          Inr (if new = [] then None
               else Some (TrieNode (Children new) p l False (sum_list (map (\<lambda>(bb, c). tn_metadata c) new)) uninit_hash),
               TrieNode ch' p l False m' h)))"
  by (simp add: endow_split.simps endow_step_def)

text \<open>
  The leaves of the node split off and of the rest together are the leaves of the node, in order.  What is split off
  has at most the given endowment, and no more leaf fits.
\<close>

abbreviation opt_leaves :: "'p TriePrefix \<Rightarrow> ('p, 'v, 'm) TrieNode option \<Rightarrow> ('p \<times> 'v \<times> 'm) list" where
  "opt_leaves P out \<equiv> (case out of None \<Rightarrow> [] | Some t \<Rightarrow> leaves P t)"

abbreviation leaf_endow :: "('m \<Rightarrow> int) \<Rightarrow> ('p \<times> 'v \<times> 'm) list \<Rightarrow> int" where
  "leaf_endow endow xs \<equiv> (\<Sum>(k, v, m) \<leftarrow> xs. endow m)"

definition split_at :: "('m \<Rightarrow> int) \<Rightarrow> int \<Rightarrow> ('p \<times> 'v \<times> 'm) list \<Rightarrow> ('p \<times> 'v \<times> 'm) list \<Rightarrow> bool" where
  "split_at endow thr xs ys \<longleftrightarrow> leaf_endow endow xs \<le> thr \<and> ys \<noteq> [] \<and>
     (leaf_endow endow xs = thr \<or> thr < leaf_endow endow xs + leaf_endow endow [hd ys])"

definition endow_post ::
    "'p TriePrefix \<Rightarrow> ('p \<Rightarrow> bool) \<Rightarrow> ('p \<Rightarrow> nat list) \<Rightarrow> ('m::ab_group_add \<Rightarrow> int) \<Rightarrow> int \<Rightarrow>
     ('p, 'v, 'm) TrieNode \<Rightarrow> ('p, 'v, 'm) TrieNode option \<Rightarrow> ('p, 'v, 'm) TrieNode \<Rightarrow> bool" where
  "endow_post P pvalid nib endow thr t out t' \<longleftrightarrow>
     leaves P t = opt_leaves P out @ leaves P t' \<and> split_at endow thr (opt_leaves P out) (leaves P t') \<and>
     wf_open P pvalid nib 1 t' \<and> metadata_sum_ok t' \<and> tn_prefix t' = tn_prefix t \<and> tn_prefix_len t' = tn_prefix_len t \<and>
     hashed_nodes t' \<subseteq> hashed_nodes t \<and> tn_metadata t' = tn_metadata t - (case out of None \<Rightarrow> 0 | Some s \<Rightarrow> tn_metadata s) \<and>
     (\<forall>s. out = Some s \<longrightarrow> wf_node P pvalid nib 1 s \<and> metadata_sum_ok s \<and> tn_prefix s = tn_prefix t \<and> tn_prefix_len s = tn_prefix_len t \<and>
        hashed_nodes s \<subseteq> hashed_nodes t)"

lemma endow_skip:
  assumes "thr \<le> acc" "\<forall>x \<in> set zs. fst x \<noteq> 0"
  shows "rfold (endow_step endow thr rec) zs (ch, m, acc, new) = Inr (ch, m, acc, new)"
  using assms(2)
proof (induction zs)
  case (Cons z zs)
  then show ?case using assms(1) by (cases z) (simp add: endow_step_def)
qed simp

lemma al_put_last: "sorted_keys (xs @ (b, c) # ys) \<Longrightarrow> al_put b c' xs = xs @ [(b, c')]"
  by (induction xs) auto

context trie_prefix
begin

lemma contract_branch:
  fixes c :: "('p, 'v, 'm::ab_group_add) TrieNode"
  assumes br: "branch 2 pi (xs @ (b, c) # ys)" and c': "wfo 1 c'" "tn_prefix c' = tn_prefix c" "tn_prefix_len c' = tn_prefix_len c"
  shows "branch 2 pi (xs @ (b, contract c') # ys)"
proof -
  have c: "wf 2 c" "4 * length pi < tn_prefix_len c" "take (Suc (length pi)) (nib (tn_prefix c)) = pi @ [b]"
    using br by (auto simp: branch_ok_def)
  note k = contract_wf [OF c'(1)]
  have "Suc (length pi) \<le> tn_prefix_len c div 4" using c(2) wf_len [OF c(1)] by linarith
  then have "take (Suc (length pi)) (nib (tn_prefix (contract c'))) = pi @ [b]"
    using arg_cong [OF k(7), of "take (Suc (length pi))"] c(3) c'(2,3) by (simp add: min_absorb1)
  moreover have "4 * length pi < tn_prefix_len (contract c')" using k(6) c(2) c'(3) by simp
  ultimately show ?thesis using br k(1) by (auto simp: branch_ok_def)
qed

lemma child_endow:
  fixes cs :: "(nat \<times> ('p, 'v, 'm::ab_group_add) TrieNode) list"
  assumes add: "\<And>a b. endow (a + b) = endow a + endow b" "endow 0 = 0"
    and "\<forall>(b, c) \<in> set cs. wf k c \<and> metadata_sum_ok c"
  shows "endow (child_metadata cs) = leaf_endow endow (child_leaves P cs)"
  using assms(3)
proof (induction cs)
  case (Cons x cs)
  obtain b c where x: "x = (b, c)" by (cases x)
  have "endow (tn_metadata c) = leaf_endow endow (leaves P c)"
    using metadata_leaves [of k c] Cons.prems x by (simp add: endow_sum [OF add] comp_def case_prod_unfold)
  then show ?case using Cons x by (simp add: add)
qed (simp add: add)

lemma branch_weaken: "branch k pi cs \<Longrightarrow> j \<le> k \<Longrightarrow> branch j pi cs"
  using wf_weaken by (fastforce simp: branch_ok_def)

text \<open>The loop has taken \<open>xs\<close>; \<open>ys\<close> are left.  The child where the endowment runs out is split.\<close>

definition loop_post where
  "loop_post endow thr pi cs new rem \<longleftrightarrow>
    branch 1 pi new \<and> branch 2 pi rem \<and> child_leaves P new @ child_leaves P rem = child_leaves P cs \<and>
    split_at endow thr (child_leaves P new) (child_leaves P rem) \<and>
    (\<forall>(b, c) \<in> set (new @ rem). metadata_sum_ok c) \<and> child_metadata new + child_metadata rem = child_metadata cs \<and>
    child_hashed (new @ rem) \<subseteq> child_hashed cs"

lemma loop_post_exact:
  fixes xs ys :: "(nat \<times> ('p, 'v, 'm::ab_group_add) TrieNode) list"
  assumes add: "\<And>a b. endow (a + b) = endow a + endow b" "endow 0 = 0"
    and br: "branch 2 pi (xs @ ys)" and md: "\<forall>(b, c) \<in> set (xs @ ys). metadata_sum_ok c"
    and thr: "endow (child_metadata xs) = thr" "thr < endow (child_metadata (xs @ ys))"
  shows "loop_post endow thr pi (xs @ ys) xs ys"
proof -
  have parts: "branch 2 pi xs" "branch 2 pi ys" using br by (auto simp: branch_ok_def sorted_wrt_append)
  have ok: "\<forall>(b, c) \<in> set zs. wf 2 c \<and> metadata_sum_ok c" if "set zs \<subseteq> set (xs @ ys)" for zs
    using br md that by (fastforce simp: branch_ok_def)
  have e: "endow (child_metadata zs) = leaf_endow endow (child_leaves P zs)" if "set zs \<subseteq> set (xs @ ys)" for zs
    by (rule child_endow [where k = 2, OF add ok [OF that]])
  have "child_leaves P ys \<noteq> []"
  proof
    assume "child_leaves P ys = []"
    then have "leaf_endow endow (child_leaves P ys) = 0" by (simp only: list.map sum_list.Nil)
    then have "endow (child_metadata ys) = 0" using e [of ys] by simp
    then show False using thr by (simp add: add)
  qed
  moreover have "leaf_endow endow (child_leaves P xs) = thr" using e [of xs] thr(1) by simp
  ultimately show ?thesis
    using parts(2) branch_weaken [OF parts(1), of 1] md by (simp add: loop_post_def split_at_def)
qed

lemma loop_post_split:
  fixes xs ys :: "(nat \<times> ('p, 'v, 'm::ab_group_add) TrieNode) list"
  assumes add: "\<And>a b. endow (a + b) = endow a + endow b" "endow 0 = 0"
    and br: "branch 2 pi (xs @ (b, c) # ys)" and md: "\<forall>(b, c) \<in> set (xs @ (b, c) # ys). metadata_sum_ok c"
    and post: "endow_post P pvalid nib endow (thr - endow (child_metadata xs)) c out c'"
  shows "loop_post endow thr pi (xs @ (b, c) # ys) (xs @ (case out of None \<Rightarrow> [] | Some s \<Rightarrow> [(b, s)])) ((b, contract c') # ys)"
proof -
  let ?s = "case out of None \<Rightarrow> [] | Some s \<Rightarrow> [(b, s)]"
  have c: "4 * length pi < tn_prefix_len c" "take (Suc (length pi)) (nib (tn_prefix c)) = pi @ [b]"
    using br by (auto simp: branch_ok_def)
  have p: "leaves P c = opt_leaves P out @ leaves P c'" "split_at endow (thr - endow (child_metadata xs)) (opt_leaves P out) (leaves P c')"
      "wfo 1 c'" "metadata_sum_ok c'" "tn_prefix c' = tn_prefix c" "tn_prefix_len c' = tn_prefix_len c" "hashed_nodes c' \<subseteq> hashed_nodes c"
      "tn_metadata c' = tn_metadata c - (case out of None \<Rightarrow> 0 | Some s \<Rightarrow> tn_metadata s)"
      "\<forall>s. out = Some s \<longrightarrow> wf 1 s \<and> metadata_sum_ok s \<and> tn_prefix s = tn_prefix c \<and> tn_prefix_len s = tn_prefix_len c \<and> hashed_nodes s \<subseteq> hashed_nodes c"
    using post by (simp_all add: endow_post_def)
  note k = contract_wf [OF p(3)]
  have xs: "branch 2 pi xs" "sorted_keys (xs @ [(b, c)])" using br by (auto simp: branch_ok_def sorted_wrt_append)
  have new: "branch 1 pi (xs @ ?s)"
    using branch_weaken [OF xs(1), of 1] xs(2) p(9) c by (cases out) (auto simp: branch_ok_def sorted_wrt_append)
  have rem: "branch 2 pi ((b, contract c') # ys)"
    using contract_branch [OF br p(3,5,6)] by (auto simp: branch_ok_def sorted_wrt_append)
  have lv: "child_leaves P ?s = opt_leaves P out" "child_leaves P ((b, contract c') # ys) = leaves P c' @ child_leaves P ys"
    by (cases out, simp, simp) (simp add: k(2))
  have "endow (child_metadata xs) = leaf_endow endow (child_leaves P xs)"
    by (rule child_endow [where k = 2, OF add]) (use xs(1) md in \<open>auto simp: branch_ok_def\<close>)
  then have split: "split_at endow thr (child_leaves P (xs @ ?s)) (child_leaves P ((b, contract c') # ys))"
    using p(2) lv by (auto simp: split_at_def)
  have sums: "\<forall>(b, c) \<in> set ((xs @ ?s) @ (b, contract c') # ys). metadata_sum_ok c"
    using md p(4,9) k(3) by (cases out) auto
  have mds: "child_metadata (xs @ ?s) + child_metadata ((b, contract c') # ys) = child_metadata (xs @ (b, c) # ys)"
    using p(4,8) k(4) by (cases out) (simp_all add: algebra_simps)
  have hs: "child_hashed ((xs @ ?s) @ (b, contract c') # ys) \<subseteq> child_hashed (xs @ (b, c) # ys)"
    using p(7,9) k(5) by (cases out) auto
  show ?thesis unfolding loop_post_def using new rem split sums mds hs lv p(1) by simp
qed

lemma endow_loop:
  fixes ys :: "(nat \<times> ('p, 'v, 'm::ab_group_add) TrieNode) list"
  assumes add: "\<And>a b. endow (a + b) = endow a + endow b" "endow 0 = 0"
    and "branch 2 pi (xs @ ys)" "endow (child_metadata xs) < thr" "thr < endow (child_metadata (xs @ ys))"
    and "\<forall>(b, c) \<in> set (xs @ ys). metadata_sum_ok c"
    and "\<And>b c thr'. (b, c) \<in> set ys \<Longrightarrow> 0 < thr' \<Longrightarrow> thr' < endow (tn_metadata c) \<Longrightarrow>
      \<exists>out c'. rec thr' c = Inr (out, c') \<and> endow_post P pvalid nib endow thr' c out c'"
  shows "\<exists>new rem acc. rfold (endow_step endow thr rec) ys (Children ys, m - child_metadata xs, endow (child_metadata xs), xs) =
      Inr (Children rem, m - child_metadata new, acc, new) \<and> loop_post endow thr pi (xs @ ys) new rem"
  using assms(3-)
proof (induction ys arbitrary: xs)
  case Nil
  then show ?case by simp
next
  case (Cons y ys)
  obtain b c where y: "y = (b, c)" by (cases y)
  let ?acc = "endow (child_metadata xs)" and ?e = "endow (tn_metadata c)"
  have sorted: "sorted_keys (xs @ (b, c) # ys)" using Cons.prems(1) y by (simp add: branch_ok_def)
  have pos: "\<forall>x \<in> set ys. fst x \<noteq> 0" using sorted by (fastforce simp: sorted_wrt_append)
  have full: "?acc + ?e = endow (child_metadata (xs @ [y]))" using y by (simp add: add)
  consider "?acc + ?e < thr" | "?acc + ?e = thr" | "thr < ?acc + ?e" by linarith
  then show ?case
  proof cases
    case 1
    have step: "endow_step endow thr rec y (Children (y # ys), m - child_metadata xs, ?acc, xs) =
        Inr (Children ys, m - child_metadata (xs @ [y]), endow (child_metadata (xs @ [y])), xs @ [y])"
      using 1 Cons.prems(2) sorted al_put_last [OF sorted] al_del_mid [of "[]" b c ys] full y
      by (simp add: endow_step_def sorted_wrt_append algebra_simps)
    have "\<exists>new rem acc. rfold (endow_step endow thr rec) ys (Children ys, m - child_metadata (xs @ [y]), endow (child_metadata (xs @ [y])), xs @ [y]) =
      Inr (Children rem, m - child_metadata new, acc, new) \<and> loop_post endow thr pi ((xs @ [y]) @ ys) new rem"
      by (rule Cons.IH) (use Cons.prems(1-4) 1 full in \<open>auto intro!: Cons.prems(5)\<close>)
    then show ?thesis using step by simp
  next
    case 2
    have step: "endow_step endow thr rec y (Children (y # ys), m - child_metadata xs, ?acc, xs) =
        Inr (Children ys, m - child_metadata (xs @ [y]), thr, xs @ [y])"
      using 2 Cons.prems(2) sorted al_put_last [OF sorted] al_del_mid [of "[]" b c ys] y
      by (simp add: endow_step_def sorted_wrt_append algebra_simps)
    have "loop_post endow thr pi ((xs @ [y]) @ ys) (xs @ [y]) ys"
      by (rule loop_post_exact [OF add]) (use Cons.prems 2 full in auto)
    then show ?thesis using step endow_skip [OF order_refl pos] by fastforce
  next
    case 3
    have "0 < thr - ?acc" "thr - ?acc < ?e" using 3 Cons.prems(2) by auto
    then obtain out c' where rec: "rec (thr - ?acc) c = Inr (out, c')" and post: "endow_post P pvalid nib endow (thr - ?acc) c out c'"
      using Cons.prems(5) [of b c "thr - ?acc"] y by (metis list.set_intros(1))
    let ?new = "xs @ (case out of None \<Rightarrow> [] | Some s \<Rightarrow> [(b, s)])" and ?rem = "(b, contract c') # ys"
    have "sorted_keys ([] @ (b, c) # ys)" using sorted by (simp add: sorted_wrt_append)
    note upd = child_update [OF this, of False c', simplified]
    have step: "endow_step endow thr rec y (Children (y # ys), m - child_metadata xs, ?acc, xs) =
        Inr (Children ?rem, m - child_metadata ?new, ?acc + ?e, ?new)"
      using 3 Cons.prems(2) rec upd al_put_last [OF sorted] y
      by (auto simp: endow_step_def replaced_def algebra_simps split: option.splits)
    have "loop_post endow thr pi (xs @ y # ys) ?new ?rem"
      using loop_post_split [OF add Cons.prems(1,4) [unfolded y] post] y by simp
    then show ?thesis using step endow_skip [OF order.strict_implies_order [OF 3] pos] by fastforce
  qed
qed

lemma loop_endow_post:
  fixes cs :: "(nat \<times> ('p, 'v, 'm::ab_group_add) TrieNode) list"
  assumes d: "pvalid p" "4 * d < prefix_bits P" "drop d (nib p) = replicate (prefix_bits P div 4 - d) 0"
    and post: "loop_post endow thr (take d (nib p)) cs new rem" "rem \<noteq> []" "child_metadata cs = m"
  shows "endow_post P pvalid nib endow thr (TrieNode (Children cs) p (4 * d) hv m h)
    (if new = [] then None else Some (TrieNode (Children new) p (4 * d) False (child_metadata new) uninit_hash))
    (TrieNode (Children rem) p (4 * d) False (m - child_metadata new) h)"
proof -
  note lp = post(1) [unfolded loop_post_def]
  have sums: "m - child_metadata new = child_metadata rem" "\<forall>(b, c) \<in> set new. metadata_sum_ok c" "\<forall>(b, c) \<in> set rem. metadata_sum_ok c"
    using lp post(3) by (auto simp: algebra_simps)
  have hs: "child_hashed new \<subseteq> child_hashed cs" "child_hashed rem \<subseteq> child_hashed cs" using lp by auto
  have "Suc 0 \<le> length rem" using post(2) by (cases rem) auto
  then have rem: "wfo 1 (TrieNode (Children rem) p (4 * d) False (m - child_metadata new) h)"
    unfolding wfo_Children using lp d by simp
  have new: "wf 1 (TrieNode (Children new) p (4 * d) False (child_metadata new) uninit_hash)" if "new \<noteq> []"
    unfolding wf_Children using lp d that by (cases new) auto
  have lv: "opt_leaves P (if new = [] then None else Some (TrieNode (Children new) p (4 * d) False (child_metadata new) uninit_hash)) = child_leaves P new"
    using d(2) by simp
  show ?thesis
    unfolding endow_post_def lv using lp rem new sums hs d(2)
    by (auto simp del: wf_node.simps simp: hashed_nodes.simps)
qed

theorem endow_split_correct:
  fixes t :: "('p, 'v, 'm::ab_group_add) TrieNode"
  assumes add: "\<And>a b. endow (a + b) = endow a + endow b" "endow 0 = 0"
  shows "wf 2 t \<Longrightarrow> metadata_sum_ok t \<Longrightarrow> 0 < thr \<Longrightarrow> thr < endow (tn_metadata t) \<Longrightarrow>
    \<exists>out t'. endow_split P endow thr t = Inr (out, t') \<and> endow_post P pvalid nib endow thr t out t'"
proof (induction t arbitrary: thr rule: node_induct)
  case (Value v p l hv m h)
  then show ?case
    by (auto simp: endow_split_step endow_post_def split_at_def wfo_wf)
next
  case (Children cs p l hv m h)
  from Children.prems(1) obtain d where d: "l = 4 * d" "4 * d < prefix_bits P" "branch 2 (take d (nib p)) cs" "length (take d (nib p)) = d"
    "pvalid p" "2 \<le> length cs" "drop d (nib p) = replicate (prefix_bits P div 4 - d) 0"
    by (rule wf_ChildrenE)
  have m: "m = child_metadata cs" "\<forall>(b, c) \<in> set cs. metadata_sum_ok c" using Children.prems(2) by auto
  have sub: "\<exists>out c'. endow_split P endow thr' c = Inr (out, c') \<and> endow_post P pvalid nib endow thr' c out c'"
    if "(b, c) \<in> set cs" "0 < thr'" "thr' < endow (tn_metadata c)" for b c thr'
  proof (rule Children.IH [OF that(1) _ _ that(2,3)])
    show "wf 2 c" "metadata_sum_ok c" using d(3) m(2) that(1) by (auto simp: branch_ok_def)
  qed
  have "endow (child_metadata ([] :: (nat \<times> ('p, 'v, 'm) TrieNode) list)) < thr" using Children.prems(3) by (simp add: add)
  then obtain new rem acc where run: "rfold (endow_step endow thr (endow_split P endow)) cs (Children cs, m, 0, []) =
      Inr (Children rem, m - child_metadata new, acc, new)" and post: "loop_post endow thr (take d (nib p)) cs new rem"
    using endow_loop [OF add, of "take d (nib p)" "[]" cs thr "endow_split P endow" m] d(3) m Children.prems(4) sub by (auto simp: add)
  have "rem \<noteq> []" using post by (auto simp: loop_post_def split_at_def)
  let ?out = "if new = [] then None else Some (TrieNode (Children new) p (4 * d) False (child_metadata new) uninit_hash)"
    and ?t = "TrieNode (Children rem) p (4 * d) False (m - child_metadata new) h"
  have "endow_split P endow thr (TrieNode (Children cs) p l hv m h) = Inr (?out, ?t)"
    using run Children.prems(3,4) d(1,6) by (auto simp: endow_split_step)
  moreover have "endow_post P pvalid nib endow thr (TrieNode (Children cs) p l hv m h) ?out ?t"
    unfolding d(1) by (rule loop_endow_post) (use post d m \<open>rem \<noteq> []\<close> in auto)
  ultimately show ?case by blast
qed

lemma endow_split_root:
  fixes t :: "('p, 'v, 'm::ab_group_add) MerkleTrie"
  assumes add: "\<And>a b. endow (a + b) = endow a + endow b" "endow 0 = 0"
    and t: "wf 2 (mt_root t)" "metadata_sum_ok (mt_root t)" and thr: "0 < thr" "thr \<le> endow (tn_metadata (mt_root t))"
  shows "\<exists>out t'. MerkleTrie_endow_split P endow dflt g thr t = Inr (out, t') \<and>
    leaves P (mt_root t) = leaves P (mt_root out) @ leaves P (mt_root t') \<and>
    leaf_endow endow (leaves P (mt_root out)) \<le> thr \<and>
    (leaf_endow endow (leaves P (mt_root out)) = thr \<or>
      thr < leaf_endow endow (leaves P (mt_root out)) + leaf_endow endow [hd (leaves P (mt_root t'))]) \<and>
    wf_trie P pvalid nib (mt_root t') \<and> metadata_sum_ok (mt_root t') \<and> metadata_sum_ok (mt_root out) \<and>
    \<not> mt_hash_valid t' \<and> \<not> mt_hash_valid out"
proof (cases "thr = endow (tn_metadata (mt_root t))")
  case True
  have e: "endow (tn_metadata (mt_root t)) = leaf_endow endow (leaves P (mt_root t))"
    using metadata_leaves [OF t] by (simp add: endow_sum [OF add] comp_def case_prod_unfold)
  have emp: "is_empty_node (make_empty_node P dflt)" "pvalid (tn_prefix (make_empty_node P dflt))"
    using zero_valid by (simp_all add: is_empty_node_def make_empty_node_def)
  then show ?thesis
    using True thr t e leaves_empty [OF emp(1)] bits_pos
    by (auto simp: MerkleTrie_endow_split_def MerkleTrie_of_root_def wf_trie_def make_empty_node_def)
next
  case False
  then obtain out t' where run: "endow_split P endow thr (mt_root t) = Inr (out, t')" and post: "endow_post P pvalid nib endow thr (mt_root t) out t'"
    using endow_split_correct [OF add t thr(1)] thr(2) by auto
  have w: "wfo 1 t'" "metadata_sum_ok t'" using post by (simp_all add: endow_post_def)
  have emp: "is_empty_node (make_empty_node P dflt)" by (simp add: is_empty_node_def make_empty_node_def)
  have con: "contract_root t' = Inr (contract t')" by (simp add: contract_root_def contract_single)
  let ?out = "case out of None \<Rightarrow> MerkleTrie_empty P dflt g | Some s \<Rightarrow> MerkleTrie_of_root s g"
  have lv: "leaves P (mt_root ?out) = opt_leaves P out" "metadata_sum_ok (mt_root ?out)" "\<not> mt_hash_valid ?out"
    using post leaves_empty [OF emp] bits_pos by (auto simp: endow_post_def MerkleTrie_empty_def MerkleTrie_of_root_def make_empty_node_def split: option.splits)
  have "MerkleTrie_endow_split P endow dflt g thr t = Inr (?out, t\<lparr>mt_root := contract t', mt_hash_valid := False\<rparr>)"
    using False thr run con by (simp add: MerkleTrie_endow_split_def)
  then show ?thesis
    using post contract_wf(1-3) [OF w(1)] w(2) lv by (auto simp: endow_post_def split_at_def wf_trie_def)
qed

section \<open>Stealing a subtree\<close>

definition below_prefix :: "nat \<Rightarrow> 'p \<Rightarrow> 'p \<times> 'v \<times> 'm \<Rightarrow> bool" where
  "below_prefix j sp x \<longleftrightarrow> take j (nib (fst x)) = take j (nib sp)"

definition steal_post where
  "steal_post j sp t entire delta ptr t' \<longleftrightarrow>
    (if entire then t' = t \<and> delta = tn_metadata t \<and> ptr = None \<and> filter (below_prefix j sp) (leaves P t) = leaves P t
     else wf 0 t' \<and> tn_prefix t' = tn_prefix t \<and> tn_prefix_len t' = tn_prefix_len t \<and>
       leaves P t' = filter (Not \<circ> below_prefix j sp) (leaves P t) \<and> opt_leaves P ptr = filter (below_prefix j sp) (leaves P t) \<and>
       tn_metadata t' = tn_metadata t - delta \<and> delta = (case ptr of None \<Rightarrow> 0 | Some x \<Rightarrow> tn_metadata x) \<and>
       (metadata_sum_ok t \<longrightarrow> metadata_sum_ok t' \<and> (\<forall>x. ptr = Some x \<longrightarrow> metadata_sum_ok x)) \<and> (\<forall>x. ptr = Some x \<longrightarrow> wf 0 x))"

lemma match_steal:
  assumes "wf k t" "pvalid sp" "4 * j \<le> prefix_bits P"
  shows "get_prefix_match_len P (tn_prefix t) (tn_prefix_len t) sp (4 * j) =
    4 * min (lcp (nib (tn_prefix t)) (nib sp)) (min (tn_prefix_len t div 4) j)"
proof -
  have "get_prefix_match_len P (tn_prefix t) (4 * (tn_prefix_len t div 4)) sp (4 * j) =
      4 * min (lcp (nib (tn_prefix t)) (nib sp)) (min (tn_prefix_len t div 4) j)"
    using assms wf_len [OF assms(1)] wf_prefix by (intro match_len) auto
  then show ?thesis using wf_len [OF assms(1)] by simp
qed

lemma below_entire:
  assumes "wf k t" "pvalid sp" "4 * j \<le> prefix_bits P" "j \<le> tn_prefix_len t div 4" "j \<le> lcp (nib (tn_prefix t)) (nib sp)"
  shows "filter (below_prefix j sp) (leaves P t) = leaves P t"
proof (rule filter_True, rule ballI)
  fix x assume x: "x \<in> set (leaves P t)"
  obtain q v md where xe: "x = (q, v, md)" by (cases x)
  have q: "covers nib t q" using leaves_covers [OF assms(1)] x xe by blast
  have "take j (nib q) = take j (nib (tn_prefix t))"
    using arg_cong [OF q [unfolded covers_def], of "take j"] assms(4) by (simp add: min_absorb1)
  moreover have "take j (nib (tn_prefix t)) = take j (nib sp)"
    using assms le_lcp_iff [of "nib (tn_prefix t)" "nib sp" j] nib_length wf_prefix [OF assms(1)] by simp
  ultimately show "below_prefix j sp x" by (simp add: below_prefix_def xe)
qed

lemma below_none:
  assumes "wf k t" "pvalid sp" "4 * j \<le> prefix_bits P" "lcp (nib (tn_prefix t)) (nib sp) < min (tn_prefix_len t div 4) j"
  shows "filter (below_prefix j sp) (leaves P t) = []"
proof (rule filter_False, rule ballI)
  fix x assume x: "x \<in> set (leaves P t)"
  obtain q v md where xe: "x = (q, v, md)" by (cases x)
  let ?i = "min (tn_prefix_len t div 4) j"
  have q: "covers nib t q" using leaves_covers [OF assms(1)] x xe by blast
  have "take ?i (nib q) = take ?i (nib (tn_prefix t))"
    using arg_cong [OF q [unfolded covers_def], of "take ?i"] by simp
  moreover have "?i \<le> prefix_bits P div 4" using assms(3) by linarith
  then have "take ?i (nib (tn_prefix t)) \<noteq> take ?i (nib sp)"
    using assms(2,4) le_lcp_iff [of "nib (tn_prefix t)" "nib sp" ?i] nib_length wf_prefix [OF assms(1)] by auto
  moreover have "take ?i (nib q) = take ?i (nib sp)" if "take j (nib q) = take j (nib sp)"
    using arg_cong [OF that, of "take (tn_prefix_len t div 4)"] by simp
  ultimately show "\<not> below_prefix j sp x" by (auto simp: below_prefix_def xe)
qed

text \<open>Only the child on the path holds keys below the stolen prefix.\<close>

lemma below_others:
  assumes br: "branch k pi cs" and sp: "pvalid sp" "length pi < j" and zs: "set zs \<subseteq> set cs" "\<forall>x \<in> set zs. fst x \<noteq> nib sp ! length pi"
  shows "filter (below_prefix j sp) (child_leaves P zs) = []" "filter (Not \<circ> below_prefix j sp) (child_leaves P zs) = child_leaves P zs"
proof -
  have "\<not> below_prefix j sp x" if "x \<in> set (child_leaves P zs)" for x
  proof
    assume S: "below_prefix j sp x"
    obtain q v md where xe: "x = (q, v, md)" by (cases x)
    from that xe obtain b c where c: "(b, c) \<in> set zs" "(q, v, md) \<in> set (leaves P c)" by auto
    have bc: "(b, c) \<in> set cs" "wf k c" using c zs(1) br by (auto simp: branch_ok_def)
    have q: "pvalid q" "covers nib c q" using leaves_covers [OF bc(2) c(2)] by auto
    have "nib q ! length pi = b" using branch_nth(2) [OF branch_covers [OF br bc(1) q(2,1)]] .
    moreover have "nib q ! length pi = nib sp ! length pi"
      using S sp(2) xe unfolding below_prefix_def by (metis fst_conv nth_take)
    ultimately show False using zs(2) c(1) by auto
  qed
  then show "filter (below_prefix j sp) (child_leaves P zs) = []" "filter (Not \<circ> below_prefix j sp) (child_leaves P zs) = child_leaves P zs"
    by (auto simp: filter_empty_conv filter_id_conv)
qed

lemma steal_child:
  fixes c :: "('p, 'v, 'm::ab_group_add) TrieNode"
  assumes t: "wf 0 (TrieNode (Children cs) p (4 * d) hv m h)" and sp: "pvalid sp" "d < j"
    and c: "map_of cs (nib sp ! d) = Some c" and post: "steal_post j sp c entire delta ptr c'"
  defines "rest \<equiv> if entire then al_del (nib sp ! d) cs else al_put (nib sp ! d) c' cs"
    and "out \<equiv> if entire then Some c else ptr"
  shows "steal_post j sp (TrieNode (Children cs) p (4 * d) hv m h) False delta out
    (TrieNode (Children rest) p (4 * d) hv (m - delta) h)"
proof -
  from t have w: "pvalid p" "4 * d < prefix_bits P" "drop d (nib p) = replicate (prefix_bits P div 4 - d) 0" "branch 0 (take d (nib p)) cs"
    unfolding wf_Children by blast+
  have len: "length (take d (nib p)) = d" using w(1,2) nib_length bits_eq by simp
  have sorted: "sorted_keys cs" using w(4) by (simp add: branch_ok_def)
  obtain xs ys where cs: "cs = xs @ (nib sp ! d, c) # ys" using split_list map_of_SomeD [OF c] by metis
  have ne: "\<forall>x \<in> set (xs @ ys). fst x \<noteq> nib sp ! d" using sorted cs by (fastforce simp: sorted_wrt_append)
  have oth: "filter (below_prefix j sp) (child_leaves P zs) = []" "filter (Not \<circ> below_prefix j sp) (child_leaves P zs) = child_leaves P zs"
    if "set zs \<subseteq> set (xs @ ys)" for zs
    using below_others [OF w(4) sp(1), of j zs] sp(2) len that ne cs by auto
  let ?new = "if entire then [] else [(nib sp ! d, c')]"
  have rest: "rest = xs @ ?new @ ys"
    using al_del_mid [OF sorted [unfolded cs]] al_put_mid [OF sorted [unfolded cs]] cs by (simp add: rest_def)
  have lv: "child_leaves P ?new = filter (Not \<circ> below_prefix j sp) (leaves P c)" "opt_leaves P out = filter (below_prefix j sp) (leaves P c)"
    using post by (auto simp: steal_post_def out_def filter_id_conv filter_empty_conv split: if_splits)
  have br: "branch 0 (take d (nib p)) rest"
    using w(4) post unfolding cs rest by (auto simp: branch_ok_def steal_post_def sorted_wrt_append)
  have md: "child_metadata ?new = tn_metadata c - delta" "delta = (case out of None \<Rightarrow> 0 | Some x \<Rightarrow> tn_metadata x)"
    "\<forall>x. out = Some x \<longrightarrow> wf 0 x"
    using post branch_child(1) [OF w(4) c] by (auto simp: steal_post_def out_def)
  have sums: "metadata_sum_ok c \<Longrightarrow> (\<forall>(b, x) \<in> set ?new. metadata_sum_ok x) \<and> (\<forall>x. out = Some x \<longrightarrow> metadata_sum_ok x)"
    using post by (auto simp: steal_post_def out_def)
  have "wf 0 (TrieNode (Children rest) p (4 * d) hv (m - delta) h)" unfolding wf_Children using w br by simp
  moreover have "child_leaves P rest = filter (Not \<circ> below_prefix j sp) (child_leaves P cs)"
    unfolding cs rest using oth(2) [of xs] oth(2) [of ys] lv(1) by simp
  moreover have "opt_leaves P out = filter (below_prefix j sp) (child_leaves P cs)"
    unfolding cs using oth(1) [of xs] oth(1) [of ys] lv(2) by simp
  moreover have "metadata_sum_ok (TrieNode (Children rest) p (4 * d) hv (m - delta) h) \<and> (\<forall>x. out = Some x \<longrightarrow> metadata_sum_ok x)"
    if "metadata_sum_ok (TrieNode (Children cs) p (4 * d) hv m h)"
    using that sums md(1) unfolding cs rest by (auto simp: algebra_simps)
  ultimately show ?thesis
    unfolding steal_post_def using md w(2) by (simp del: wf_node.simps metadata_sum_ok.simps)
qed

lemma steal_none:
  assumes "wf 0 t" "filter (below_prefix j sp) (leaves P t) = []"
  shows "steal_post j sp t False (0 :: 'm::ab_group_add) None t"
  using assms by (auto simp: steal_post_def filter_id_conv filter_empty_conv)

theorem steal_correct:
  fixes t :: "('p, 'v, 'm::ab_group_add) TrieNode"
  assumes sp: "pvalid sp" "4 * j \<le> prefix_bits P" and t: "wf 0 t"
  shows "\<exists>entire delta ptr t'. destructive_steal_child P sp (4 * j) t = Inr (entire, delta, ptr, t') \<and> steal_post j sp t entire delta ptr t'"
  using t
proof (induction t rule: node_induct)
  case (Value v p l hv m h)
  let ?t = "TrieNode (Value v) p l hv m h"
  note mm = match_steal [OF Value sp]
  have l: "l = prefix_bits P" using Value by simp
  then have "j \<le> l div 4" using sp(2) by simp
  show ?case
  proof (cases "j \<le> lcp (nib p) (nib sp)")
    case True
    then show ?thesis
      using mm below_entire [OF Value sp] \<open>j \<le> l div 4\<close> by (auto simp: destructive_steal_child.simps steal_post_def)
  next
    case False
    then have "steal_post j sp ?t False 0 None ?t" using steal_none [OF Value below_none [OF Value sp]] \<open>j \<le> l div 4\<close> by simp
    moreover have "destructive_steal_child P sp (4 * j) ?t = Inr (False, 0, None, ?t)"
      using mm False \<open>j \<le> l div 4\<close> wf_len [OF Value] by (auto simp: destructive_steal_child.simps min_def)
    ultimately show ?thesis by blast
  qed
next
  case (Children cs p l hv m h)
  let ?t = "TrieNode (Children cs) p l hv m h"
  note mm = match_steal [OF Children.prems sp]
  from Children.prems obtain d where d: "l = 4 * d" "4 * d < prefix_bits P" "branch 0 (take d (nib p)) cs" "length (take d (nib p)) = d"
    by (rule wf_ChildrenE)
  consider "j \<le> d" "j \<le> lcp (nib p) (nib sp)" | "lcp (nib p) (nib sp) < min d j" | "d < j" "d \<le> lcp (nib p) (nib sp)" by linarith
  then show ?case
  proof cases
    case 1
    then show ?thesis
      using mm below_entire [OF Children.prems sp] d(1) by (auto simp: destructive_steal_child.simps steal_post_def)
  next
    case 2
    then have "steal_post j sp ?t False 0 None ?t" using steal_none [OF Children.prems below_none [OF Children.prems sp]] d(1) by simp
    moreover have "destructive_steal_child P sp (4 * j) ?t = Inr (False, 0, None, ?t)"
      using mm 2 d(1) by (simp add: destructive_steal_child.simps min_absorb1)
    ultimately show ?thesis by blast
  next
    case 3
    have match: "get_prefix_match_len P p (4 * d) sp (4 * j) = 4 * d" "d \<noteq> j" using mm 3 d(1) by (auto simp: min_def)
    note bb = branch_bits_at [OF sp(1) d(2)]
    show ?thesis
    proof (cases "map_of cs (nib sp ! d)")
      case None
      then have "\<forall>x \<in> set cs. fst x \<noteq> nib sp ! d" by (force simp: map_of_eq_None_iff)
      then have "filter (below_prefix j sp) (child_leaves P cs) = []" using below_others(1) [OF d(3) sp(1), of j cs] d(4) 3(1) by simp
      then have "steal_post j sp ?t False 0 None ?t" using steal_none [OF Children.prems] d(1,2) by simp
      then show ?thesis using match bb None d(1) by (auto simp: destructive_steal_child.simps)
    next
      case (Some c)
      have "(nib sp ! d, c) \<in> set cs" "wf 0 c" using map_of_SomeD [OF Some] branch_child(1) [OF d(3) Some] by auto
      then obtain entire delta ptr c' where rec: "destructive_steal_child P sp (4 * j) c = Inr (entire, delta, ptr, c')"
        and post: "steal_post j sp c entire delta ptr c'" using Children.IH by blast
      have sorted: "sorted_keys cs" using d(3) by (simp add: branch_ok_def)
      have put: "al_put (nib sp ! d) c cs = cs" using sorted Some by (rule al_put_same)
      have "ptr = None \<Longrightarrow> \<not> entire \<Longrightarrow> delta = 0" "entire \<Longrightarrow> c' = c" using post by (auto simp: steal_post_def)
      then have "destructive_steal_child P sp (4 * j) ?t = Inr (False, delta, if entire then Some c else ptr,
          TrieNode (Children (if entire then al_del (nib sp ! d) cs else al_put (nib sp ! d) c' cs)) p (4 * d) hv (m - delta) h)"
        using match bb Some rec put d(1) by (cases ptr) (auto simp: destructive_steal_child.simps Let_def)
      then show ?thesis using steal_child [OF Children.prems [unfolded d(1)] sp(1) 3(1) Some post] d(1) by blast
    qed
  qed
qed

section \<open>Contraction of chains\<close>

lemma chain_aux:
  fixes t :: "('p, 'v, 'm::ab_group_add) TrieNode"
  assumes "wf 1 t"
  shows "wf 1 (contract_chain t) \<and> leaves P (contract_chain t) = leaves P t \<and> \<not> single_child (contract_chain t) \<and>
    (metadata_sum_ok t \<longrightarrow> metadata_sum_ok (contract_chain t) \<and> tn_metadata (contract_chain t) = tn_metadata t) \<and>
    tn_prefix_len t \<le> tn_prefix_len (contract_chain t) \<and>
    take (tn_prefix_len t div 4) (nib (tn_prefix (contract_chain t))) = take (tn_prefix_len t div 4) (nib (tn_prefix t))"
  using assms
proof (induction t rule: node_induct)
  case (Value v p l hv m h)
  then show ?case by (simp add: contract_chain.simps single_child_def)
next
  case (Children cs p l hv m h)
  show ?case
  proof (cases "\<exists>b c. cs = [(b, c)]")
    case True
    then obtain b c where cs: "cs = [(b, c)]" by blast
    from Children.prems obtain d where d: "l = 4 * d" "4 * d < prefix_bits P" "branch 1 (take d (nib p)) cs" "length (take d (nib p)) = d"
      by (rule wf_ChildrenE)
    have c: "wf 1 c" "4 * d < tn_prefix_len c" "take (Suc d) (nib (tn_prefix c)) = take d (nib p) @ [b]"
      using d(3,4) cs by (auto simp: branch_ok_def)
    note IH = Children.IH [of b c, OF _ c(1)]
    have "take d (nib (tn_prefix c)) = take d (nib p)"
      using branch_nth(3) [of "take d (nib p)" "nib (tn_prefix c)" b] c(3) d(4) by simp
    moreover have "take d (nib (tn_prefix (contract_chain c))) = take d (nib (tn_prefix c))"
    proof -
      have "d \<le> tn_prefix_len c div 4" using c(2) by linarith
      then show ?thesis using arg_cong [of _ _ "take d", OF conjunct2 [OF conjunct2 [OF conjunct2 [OF conjunct2 [OF conjunct2 [OF IH]]]]]] cs
        by (simp add: min_absorb1)
    qed
    ultimately show ?thesis using IH cs d(1,2) c(2) by (simp add: contract_chain.simps)
  next
    case False
    then have "contract_chain (TrieNode (Children cs) p l hv m h) = TrieNode (Children cs) p l hv m h"
      by (auto simp: contract_chain.simps split: list.splits)
    then show ?thesis using Children.prems False by (simp add: single_child_def length_Suc_conv del: wf_node.simps) auto
  qed
qed

lemmas chain_ok = chain_aux [THEN conjunct1] chain_aux [THEN conjunct2, THEN conjunct1]
  chain_aux [THEN conjunct2, THEN conjunct2, THEN conjunct1]
  chain_aux [THEN conjunct2, THEN conjunct2, THEN conjunct2]

lemma chain_children:
  fixes cs :: "(nat \<times> ('p, 'v, 'm::ab_group_add) TrieNode) list"
  assumes "branch 1 pi cs"
  defines "cs' \<equiv> map (\<lambda>(b, c). (b, contract_chain c)) cs"
  shows "branch 1 pi cs'" "child_leaves P cs' = child_leaves P cs"
    "\<forall>(b, c) \<in> set cs. metadata_sum_ok c \<Longrightarrow> (\<forall>(b, c) \<in> set cs'. metadata_sum_ok c) \<and> child_metadata cs' = child_metadata cs"
proof -
  have c: "wf 1 c" "4 * length pi < tn_prefix_len c" "take (Suc (length pi)) (nib (tn_prefix c)) = pi @ [b]" if "(b, c) \<in> set cs" for b c
    using assms(1) that by (auto simp: branch_ok_def)
  have "take (Suc (length pi)) (nib (tn_prefix (contract_chain c))) = pi @ [b] \<and> 4 * length pi < tn_prefix_len (contract_chain c)"
    if bc: "(b, c) \<in> set cs" for b c
  proof -
    note ch = chain_ok(4) [OF c(1) [OF bc]]
    have "Suc (length pi) \<le> tn_prefix_len c div 4" using c(2) [OF bc] wf_len [OF c(1) [OF bc]] by linarith
    moreover have "take (Suc (length pi)) (take (tn_prefix_len c div 4) (nib (tn_prefix (contract_chain c)))) =
        take (Suc (length pi)) (take (tn_prefix_len c div 4) (nib (tn_prefix c)))"
      using ch by presburger
    ultimately have "take (Suc (length pi)) (nib (tn_prefix (contract_chain c))) = take (Suc (length pi)) (nib (tn_prefix c))"
      by (simp add: min_absorb1)
    then show ?thesis using c(2,3) [OF bc] ch by simp
  qed
  then have "\<forall>(b, c) \<in> set cs'. wf 1 c \<and> 4 * length pi < tn_prefix_len c \<and> take (Suc (length pi)) (nib (tn_prefix c)) = pi @ [b]"
    using chain_ok(1) [OF c(1)] by (auto simp: cs'_def)
  moreover have "map fst cs' = map fst cs" by (auto simp: cs'_def)
  then have "sorted_keys cs'" using assms(1) unfolding branch_ok_def by metis
  ultimately show "branch 1 pi cs'" unfolding branch_ok_def by blast
  show "child_leaves P cs' = child_leaves P cs"
    using chain_ok(2) [OF c(1)] by (auto simp: cs'_def comp_def intro!: arg_cong [where f = concat])
  assume md: "\<forall>(b, c) \<in> set cs. metadata_sum_ok c"
  have "map (\<lambda>(bb, c). tn_metadata c) cs' = map (\<lambda>(bb, c). tn_metadata c) cs"
    using chain_ok(4) [OF c(1)] md by (auto simp: cs'_def)
  then have "child_metadata cs' = child_metadata cs" by (rule arg_cong)
  moreover have "\<forall>(b, c) \<in> set cs'. metadata_sum_ok c" using chain_ok(4) [OF c(1)] md by (auto simp: cs'_def)
  ultimately show "(\<forall>(b, c) \<in> set cs'. metadata_sum_ok c) \<and> child_metadata cs' = child_metadata cs" by blast
qed

theorem clean_correct:
  fixes t :: "('p, 'v, 'm::ab_group_add) TrieNode"
  assumes path: "pvalid path" and t: "wf 1 t"
  shows "\<exists>t'. clean_singlechild_nodes P path t = Inr t' \<and> wf 1 t' \<and> leaves P t' = leaves P t \<and>
    tn_prefix t' = tn_prefix t \<and> tn_prefix_len t' = tn_prefix_len t \<and>
    (metadata_sum_ok t \<longrightarrow> metadata_sum_ok t' \<and> tn_metadata t' = tn_metadata t)"
  using t
proof (induction t rule: measure_induct_rule [of size])
  case (less t)
  obtain ch p l hv m h where te: "t = TrieNode ch p l hv m h" by (cases t)
  show ?case
  proof (cases ch)
    case (Value v)
    then show ?thesis using less.prems te by simp
  next
    case (Children cs)
    from less.prems [unfolded te Children] obtain d where d: "l = 4 * d" "4 * d < prefix_bits P" "branch 1 (take d (nib p)) cs" "length (take d (nib p)) = d"
      "pvalid p" "1 \<le> length cs" "drop d (nib p) = replicate (prefix_bits P div 4 - d) 0"
      by (rule wf_ChildrenE)
    define cs' where "cs' = map (\<lambda>(b, c). (b, contract_chain c)) cs"
    note ch = chain_children [OF d(3), folded cs'_def]
    have mp: "map_children_map contract_chain id (Children cs :: (('p, 'v, 'm) TrieNode, 'v) children_map) = Children cs'"
      by (auto simp: map_prod_def cs'_def)
    have w: "wf 1 (TrieNode (Children cs') p (4 * d) False m h)" unfolding wf_Children using d ch(1) by (simp add: cs'_def)
    have run: "clean_singlechild_nodes P path t = (case map_of cs' (nib path ! d) of None \<Rightarrow> Inr (TrieNode (Children cs') p (4 * d) False m h)
        | Some c \<Rightarrow> rbind (clean_singlechild_nodes P path c) (\<lambda>c'. Inr (TrieNode (Children (al_put (nib path ! d) c' cs')) p (4 * d) False m h)))"
      unfolding te Children d(1) clean_singlechild_nodes.simps mp Let_def branch_bits_at [OF path d(2)]
      using d(2) by (cases "map_of cs' (nib path ! d)") simp_all
    show ?thesis
    proof (cases "map_of cs' (nib path ! d)")
      case None
      then show ?thesis using run w ch(2,3) d(1,2) te Children by (auto simp del: wf_node.simps)
    next
      case (Some c)
      then obtain c0 where c0: "map_of cs (nib path ! d) = Some c0" "c = contract_chain c0" by (auto simp: map_of_map cs'_def)
      note c = branch_child [OF ch(1) Some, unfolded d(4)]
      have "(nib path ! d, c0) \<in> set (cm_list ch)" using map_of_SomeD [OF c0(1)] Children by simp
      then have "size c < size t"
        using contract_chain_size [of c0] c0(2) cm_list_size_less [of "nib path ! d" c0 ch size "\<lambda>_. 0"] te by simp
      then obtain c' where c': "clean_singlechild_nodes P path c = Inr c'" "wf 1 c'" "leaves P c' = leaves P c"
          "tn_prefix c' = tn_prefix c" "tn_prefix_len c' = tn_prefix_len c" "metadata_sum_ok c \<longrightarrow> metadata_sum_ok c' \<and> tn_metadata c' = tn_metadata c"
        using less.IH c(1) by blast
      have sorted: "sorted_keys cs'" using ch(1) by (simp add: branch_ok_def)
      obtain xs ys where cs: "cs' = xs @ (nib path ! d, c) # ys" using split_list map_of_SomeD [OF Some] by metis
      have put: "al_put (nib path ! d) c' cs' = xs @ (nib path ! d, c') # ys" using al_put_mid sorted cs by metis
      let ?t = "TrieNode (Children (xs @ (nib path ! d, c') # ys)) p (4 * d) False m h"
      have "wf 1 ?t"
        using put_child(1) [OF w c'(2), unfolded c'(4,5), OF c(2,3)] put by simp
      moreover have "leaves P ?t = leaves P t" using ch(2) d(1,2) te Children cs c'(3) by simp
      moreover have "metadata_sum_ok ?t" if md: "metadata_sum_ok t"
      proof -
        have "(\<forall>(b, c) \<in> set cs'. metadata_sum_ok c) \<and> child_metadata cs' = m"
          using md te Children ch(3) by auto
        then show ?thesis using c'(6) cs by auto
      qed
      ultimately show ?thesis using run Some c'(1) put te d(1) by (simp del: wf_node.simps metadata_sum_ok.simps leaves.simps)
    qed
  qed
qed

lemma clean_root:
  fixes t :: "('p, 'v, 'm::ab_group_add) MerkleTrie"
  assumes "pvalid path" "wf 1 (mt_root t)"
  shows "\<exists>t'. MerkleTrie_clean_singlechild_nodes P path t = Inr t' \<and> wf 1 (mt_root t') \<and> \<not> single_child (mt_root t') \<and>
    leaves P (mt_root t') = leaves P (mt_root t) \<and> (metadata_sum_ok (mt_root t) \<longrightarrow> metadata_sum_ok (mt_root t')) \<and> \<not> mt_hash_valid t'"
proof -
  obtain r where r: "clean_singlechild_nodes P path (mt_root t) = Inr r" "wf 1 r" "leaves P r = leaves P (mt_root t)"
      "metadata_sum_ok (mt_root t) \<longrightarrow> metadata_sum_ok r"
    using clean_correct [OF assms] by blast
  then show ?thesis using chain_ok [OF r(2)] by (simp add: MerkleTrie_clean_singlechild_nodes_def)
qed

section \<open>Walks to a key or a node below\<close>

lemma covers_take:
  assumes "covers nib x key" "take (Suc d) (nib (tn_prefix x)) = ps" "4 * d < tn_prefix_len x" "wf k x"
  shows "take (Suc d) (nib key) = ps"
proof -
  have "Suc d \<le> tn_prefix_len x div 4" using assms(3) wf_len [OF assms(4)] by linarith
  then show ?thesis using arg_cong [OF assms(1) [unfolded covers_def], of "take (Suc d)"] assms(2) by (simp add: min_absorb1)
qed

lemma subnodes_below:
  assumes "branch k pi cs" "(b, y) \<in> set cs" "x \<in> subnodes y"
  shows "take (Suc (length pi)) (nib (tn_prefix x)) = pi @ [b]" "4 * length pi < tn_prefix_len x" "wf k x"
proof -
  have y: "wf k y" "4 * length pi < tn_prefix_len y" "take (Suc (length pi)) (nib (tn_prefix y)) = pi @ [b]"
    using assms(1,2) by (auto simp: branch_ok_def)
  have "wf k x \<and> tn_prefix_len y \<le> tn_prefix_len x \<and> covers nib y (tn_prefix x)"
    using assms(3) y(1)
  proof (induction y rule: node_induct)
    case (Value v p l hv m h)
    then show ?case by (auto simp: covers_def)
  next
    case (Children cs p l hv m h)
    show ?case
    proof (cases "x = TrieNode (Children cs) p l hv m h")
      case True
      then show ?thesis using Children.prems(2) by (simp add: covers_def)
    next
      case False
      then obtain b c where c: "(b, c) \<in> set cs" "x \<in> subnodes c" using Children.prems(1) by auto
      from Children.prems(2) obtain d where d: "l = 4 * d" "branch k (take d (nib p)) cs" "length (take d (nib p)) = d" by (rule wf_ChildrenE)
      have wc: "wf k c" "4 * d < tn_prefix_len c" using d c(1) by (auto simp: branch_ok_def)
      have ih: "wf k x" "tn_prefix_len c \<le> tn_prefix_len x" "covers nib c (tn_prefix x)" using Children.IH [OF c wc(1)] by auto
      have "take d (nib (tn_prefix x)) = take d (nib p)"
        using branch_nth(3) [OF branch_covers [OF d(2) c(1) ih(3) wf_prefix [OF ih(1)]]] d(3) by simp
      then show ?thesis using ih d(1) wc(2) by (simp add: covers_def)
    qed
  qed
  then show "wf k x" "4 * length pi < tn_prefix_len x" "take (Suc (length pi)) (nib (tn_prefix x)) = pi @ [b]"
    using y(2) covers_take [OF _ y(3,2,1), of "tn_prefix x"] by auto
qed

lemma invalidate_key_correct:
  fixes t :: "('p, 'v, 'm) TrieNode"
  assumes "wf k t" "pvalid key" "trie_map P t key \<noteq> None"
  shows "\<exists>t'. invalidate_hash_to_key_nolocks P key t = Inr t' \<and> wf k t' \<and> leaves P t' = leaves P t \<and>
    tn_prefix t' = tn_prefix t \<and> tn_prefix_len t' = tn_prefix_len t \<and> tn_metadata t' = tn_metadata t \<and>
    hashed_nodes t' \<subseteq> hashed_nodes t \<and> (\<forall>x \<in> hashed_nodes t'. \<not> covers nib x key)"
  using assms(1,3)
proof (induction t rule: measure_induct_rule [of size])
  case (less t)
  from less.prems(1) assms(2) show ?case
  proof (cases rule: key_walk)
    case Absent
    then show ?thesis using less.prems(2) by simp
  next
    case (Leaf w hv m h)
    then show ?thesis using assms(2) less.prems by (auto simp: invalidate_hash_to_key_nolocks.simps)
  next
    case (Inner cs p d hv m h c)
    note wt = less.prems(1) [unfolded Inner(1)]
    have "size c < size t" using Inner(1,5) by (auto dest!: map_of_SomeD simp: cm_list_size_less [where ch = "Children cs", simplified])
    moreover have "trie_map P c key \<noteq> None"
      using less.prems(2) trie_map_Children [OF wt assms(2)] Inner(1,5) by simp
    ultimately obtain c' where c': "invalidate_hash_to_key_nolocks P key c = Inr c'" "wf k c'" "leaves P c' = leaves P c"
        "tn_prefix c' = tn_prefix c" "tn_prefix_len c' = tn_prefix_len c" "tn_metadata c' = tn_metadata c"
        "hashed_nodes c' \<subseteq> hashed_nodes c" "\<forall>x \<in> hashed_nodes c'. \<not> covers nib x key"
      using less.IH [OF _ Inner(6)] by blast
    obtain xs ys where cs: "cs = xs @ (nib key ! d, c) # ys" using split_list map_of_SomeD [OF Inner(5)] by metis
    from wt have w: "branch k (take d (nib p)) cs" "length (take d (nib p)) = d" by (elim wf_ChildrenE; simp)+
    have sorted: "sorted_keys cs" using w(1) by (simp add: branch_ok_def)
    have put: "al_put (nib key ! d) c' cs = xs @ (nib key ! d, c') # ys" using al_put_mid sorted cs by metis
    have bc: "4 * d < tn_prefix_len c" "take (Suc d) (nib (tn_prefix c)) = take d (nib p) @ [nib key ! d]"
      using branch_child(2,3) [OF w(1) Inner(5)] w(2) by simp_all
    let ?t = "TrieNode (Children (xs @ (nib key ! d, c') # ys)) p (4 * d) False m h"
    have "invalidate_hash_to_key_nolocks P key t = Inr ?t"
      using Inner(1-5) c'(1) put by (simp add: invalidate_hash_to_key_nolocks.simps)
    moreover have "wf k ?t" using put_child(1) [OF wt c'(2), unfolded c'(4,5), OF bc] put by simp
    moreover have "leaves P ?t = leaves P t" using Inner(1,2) cs c'(3) by simp
    moreover have "hashed_nodes ?t \<subseteq> hashed_nodes t" using Inner(1) cs c'(7) by auto
    moreover have "\<not> covers nib x key" if "x \<in> hashed_nodes ?t" for x
    proof -
      have "\<not> covers nib x key" if bx: "(b, y) \<in> set cs" "x \<in> hashed_nodes y" "b \<noteq> nib key ! d" for b y
      proof
        assume "covers nib x key"
        moreover have "take (Suc d) (nib (tn_prefix x)) = take d (nib p) @ [b]" "4 * d < tn_prefix_len x" "wf k x"
          using subnodes_below [OF w(1) bx(1) subsetD [OF hashed_subnodes bx(2)]] w(2) by simp_all
        ultimately have "take (Suc d) (nib key) = take d (nib p) @ [b]" by (rule covers_take)
        then show False using branch_nth(2) [of "take d (nib p)" "nib key" b] w(2) bx(3) by simp
      qed
      moreover have "fst z \<noteq> nib key ! d" if "z \<in> set (xs @ ys)" for z
        using sorted cs that by (fastforce simp: sorted_wrt_append)
      ultimately show ?thesis using that c'(8) cs by fastforce
    qed
    ultimately show ?thesis using Inner(1) by (auto simp del: wf_node.simps hashed_nodes.simps leaves.simps)
  qed
qed

lemma propagate_correct:
  fixes t :: "('p, 'v, 'm::ab_group_add) TrieNode"
  assumes "wf k t" "n \<in> subnodes t"
  shows "\<exists>t'. propagate_metadata P (tn_prefix n) (tn_prefix_len n) md t = Inr t' \<and> wf k t' \<and> leaves P t' = leaves P t \<and>
    tn_prefix t' = tn_prefix t \<and> tn_prefix_len t' = tn_prefix_len t \<and> hashed_nodes t' \<subseteq> hashed_nodes t \<and> \<not> tn_hash_valid t' \<and>
    tn_metadata t' = tn_metadata t + (if t = n then 0 else md)"
  using assms
proof (induction t rule: node_induct)
  case (Value v p l hv m h)
  then show ?case by (auto simp: propagate_metadata.simps)
next
  case (Children cs p l hv m h)
  let ?t = "TrieNode (Children cs) p l hv m h"
  show ?case
  proof (cases "n = ?t")
    case True
    then show ?thesis using Children.prems by (auto simp: propagate_metadata.simps)
  next
    case False
    then obtain b c where c: "(b, c) \<in> set cs" "n \<in> subnodes c" using Children.prems(2) by auto
    from Children.prems(1) obtain d where d: "l = 4 * d" "4 * d < prefix_bits P" "branch k (take d (nib p)) cs" "length (take d (nib p)) = d"
      by (rule wf_ChildrenE)
    note n = subnodes_below [OF d(3) c, unfolded d(4)]
    have sorted: "sorted_keys cs" using d(3) by (simp add: branch_ok_def)
    have wc: "wf k c" "4 * d < tn_prefix_len c" "take (Suc d) (nib (tn_prefix c)) = take d (nib p) @ [b]"
      using d(3,4) c(1) by (auto simp: branch_ok_def)
    obtain c' where c': "propagate_metadata P (tn_prefix n) (tn_prefix_len n) md c = Inr c'" "wf k c'" "leaves P c' = leaves P c"
        "tn_prefix c' = tn_prefix c" "tn_prefix_len c' = tn_prefix_len c" "hashed_nodes c' \<subseteq> hashed_nodes c"
      using Children.IH [OF c(1) wc(1) c(2)] by blast
    have "nib (tn_prefix n) ! d = b" using branch_nth(2) [of "take d (nib p)" "nib (tn_prefix n)" b] n(1) d(4) by simp
    then have bb: "get_branch_bits P (tn_prefix n) (4 * d) = Inr b" using branch_bits_at [OF wf_prefix [OF n(3)] d(2)] by simp
    have find: "map_of cs b = Some c" using map_of_sorted_iff [OF sorted] c(1) by simp
    obtain xs ys where cs: "cs = xs @ (b, c) # ys" using split_list c(1) by metis
    have put: "al_put b c' cs = xs @ (b, c') # ys" using al_put_mid sorted cs by metis
    let ?t' = "TrieNode (Children (xs @ (b, c') # ys)) p (4 * d) False (m + md) h"
    have "propagate_metadata P (tn_prefix n) (tn_prefix_len n) md ?t = Inr ?t'"
      using n(2) bb find c'(1) put d(1) by (simp add: propagate_metadata.simps)
    moreover have "wf k ?t'" using put_child(1) [OF Children.prems(1) [unfolded d(1)] c'(2), unfolded c'(4,5), OF wc(2,3)] put by simp
    moreover have "leaves P ?t' = leaves P ?t" using d(1,2) cs c'(3) by simp
    moreover have "hashed_nodes ?t' \<subseteq> hashed_nodes ?t" using cs c'(6) by auto
    ultimately show ?thesis using False d(1) by (auto simp del: wf_node.simps hashed_nodes.simps leaves.simps)
  qed
qed

lemma invalidate_node_propagate:
  fixes t :: "('p, 'v, 'm::ab_group_add) TrieNode"
  shows "invalidate_hash_to_node_nolocks P q len t = propagate_metadata P q len 0 t"
proof (induction t rule: node_induct)
  case (Children cs p l hv m h)
  then have "invalidate_hash_to_node_nolocks P q len c = propagate_metadata P q len 0 c" if "map_of cs bb = Some c" for bb c
    using map_of_SomeD [OF that] by blast
  then show ?case
    by (auto simp: invalidate_hash_to_node_nolocks.simps propagate_metadata.simps split: option.split intro!: rbind_cong)
qed (simp add: invalidate_hash_to_node_nolocks.simps propagate_metadata.simps)

end

section \<open>Proofs\<close>

context trie_hash
begin

lemma pop_hashes_eq:
  assumes "sorted_keys ls" "\<forall>(bb, c) \<in> set ls. bb < 16 \<and> map_of cs bb = Some c" "bvset bits = fst ` set ls"
  shows "pop_hashes B (length ls) bits cs = Inr (map (\<lambda>(bb, c). tn_hash c) ls)"
  using assms
proof (induction ls arbitrary: bits)
  case (Cons x ls)
  obtain bb c where x: "x = (bb, c)" by (cases x)
  have least: "\<forall>y \<in> fst ` set ls. bb < y" using Cons.prems(1) x by auto
  have "Min (insert bb (fst ` set ls)) = bb" by (rule Min_eqI) (use least in auto)
  then have pop: "bv_pop B bits = (bb, bv_erase B bits bb)" using bv_pop [of bits] Cons.prems(3) x by simp
  have "bvset (bv_erase B bits bb) = fst ` set ls" using bv_erase [of bb bits] Cons.prems(2,3) x least by auto
  then have "pop_hashes B (length ls) (bv_erase B bits bb) cs = Inr (map (\<lambda>(bb, c). tn_hash c) ls)"
    using Cons.prems(1,2) by (intro Cons.IH) auto
  then show ?case using pop Cons.prems(2) x by simp
qed simp

lemma proof_node_Children:
  assumes "wf k (TrieNode (Children cs) p l hv m h)"
  shows "\<exists>bytes. create_proof_node P B E (TrieNode (Children cs) p l hv m h) = Inr \<lparr> prefix_length_and_bv = bytes, pn_hashes = map (\<lambda>(bb, c). tn_hash c) cs \<rparr>"
proof -
  from assms obtain d where d: "l = 4 * d" "4 * d < prefix_bits P" "branch k (take d (nib p)) cs" by (rule wf_ChildrenE)
  have sorted: "sorted_keys cs" using d(3) by (simp add: branch_ok_def)
  have lt: "bb < 16" if "(bb, c) \<in> set cs" for bb c using branch_bound [OF assms that] by (simp add: MAX_BRANCH_VALUE_def)
  let ?bits = "fold (\<lambda>(bb, c) bits. bv_add B bits bb) cs (bv_clear B)"
  have "bvset (fold (\<lambda>(bb, c) bits. bv_add B bits bb) xs s) = bvset s \<union> fst ` set xs" if "set xs \<subseteq> set cs" for xs s
    using that lt by (induction xs arbitrary: s) (auto simp: bv_add)
  then have bits: "bvset ?bits = fst ` set cs" by (simp add: bv_clear)
  have "bv_size B ?bits = length cs"
    using bits distinct_card [OF sorted_keys_distinct [OF sorted]] by (simp add: bv_size)
  moreover have "pop_hashes B (length cs) ?bits cs = Inr (map (\<lambda>(bb, c). tn_hash c) cs)"
    by (rule pop_hashes_eq [OF sorted _ bits]) (use map_of_sorted_iff [OF sorted] lt in auto)
  ultimately show ?thesis using d(1,2) by simp
qed

text \<open>The proof of a key that is present has one node per level with the hashes of its children, the flag and the value.\<close>

lemma create_proof_member:
  assumes "wf k t" "pvalid key" "trie_map P t key = Some v"
  shows "\<exists>ns. create_proof P B E key pf t =
      Inr (pf\<lparr>pf_nodes := pf_nodes pf @ ns, membership_flag := 1, value_bytes := copy_data E v (value_bytes pf)\<rparr>) \<and>
    ns \<noteq> [] \<and> pn_hashes (hd ns) = map (\<lambda>(bb, c). tn_hash c) (cm_list (tn_children t))"
  using assms(1,3)
proof (induction t arbitrary: pf rule: measure_induct_rule [of size])
  case (less t)
  from less.prems(1) assms(2) show ?case
  proof (cases rule: key_walk)
    case Absent
    then show ?thesis using less.prems(2) by simp
  next
    case (Leaf w hv m h)
    then show ?thesis using less.prems by (auto simp: create_proof.simps trie_map_Value intro!: exI [of _ "[_]"])
  next
    case (Inner cs p d hv m h c)
    note wt = less.prems(1) [unfolded Inner(1)]
    have "size c < size t" using Inner(1,5) by (auto dest!: map_of_SomeD simp: cm_list_size_less [where ch = "Children cs", simplified])
    moreover have "trie_map P c key = Some v" using less.prems(2) trie_map_Children [OF wt assms(2)] Inner(1,5) by simp
    moreover obtain bytes where node: "create_proof_node P B E t = Inr \<lparr> prefix_length_and_bv = bytes, pn_hashes = map (\<lambda>(bb, c). tn_hash c) cs \<rparr>"
      using proof_node_Children [OF wt] Inner(1) by blast
    let ?n = "\<lparr> prefix_length_and_bv = bytes, pn_hashes = map (\<lambda>(bb, c). tn_hash c) cs \<rparr>"
    let ?pf = "pf\<lparr>pf_nodes := pf_nodes pf @ [?n]\<rparr>"
    obtain ns where ns: "create_proof P B E key ?pf c =
        Inr (?pf\<lparr>pf_nodes := pf_nodes ?pf @ ns, membership_flag := 1, value_bytes := copy_data E v (value_bytes ?pf)\<rparr>)"
      using less.IH [OF calculation(1) Inner(6) calculation(2), of ?pf] by blast
    have "create_proof P B E key pf t =
        Inr (pf\<lparr>pf_nodes := pf_nodes pf @ (?n # ns), membership_flag := 1, value_bytes := copy_data E v (value_bytes pf)\<rparr>)"
      using ns node Inner(1-5) by (simp add: create_proof.simps del: create_proof_node.simps)
    then show ?thesis using Inner(1) by (intro exI [of _ "?n # ns"]) simp
  qed
qed

end

end
