(* ===== verification/SnapshotHash.thy ===== *)
theory SnapshotHash
  imports SnapshotMachine TrieEdit
begin

text \<open>
  The operations of \<^verbatim>\<open>snapshot_trie/atomic_merkle_trie.h\<close> that need the trie for themselves: hashing with normalisation,
  deletion and the invalidation of hashes.  No thread inserts meanwhile and every node is owned by its parent, so a subtree is a
  value, as in the model of \<^verbatim>\<open>merkle_trie.h\<close>; a leaf holds an optional value.  \<open>heap_tree\<close> reads the tree off the heap on which the
  concurrent operations work.
\<close>

section \<open>Operations\<close>

type_synonym ('p, 'v, 'm) snap_tree = "('p, 'v option, 'm) TrieNode"

text \<open>What the template parameters provide: \<^verbatim>\<open>has_value_f\<close> of \<^verbatim>\<open>OptionalValue\<close>, and \<^verbatim>\<open>from_value\<close> and \<^verbatim>\<open>write_to\<close> of the metadata.\<close>

record ('v, 'm) SnapEnv =
  has_value_f :: "'v \<Rightarrow> bool"
  from_value :: "'m \<Rightarrow> 'v \<Rightarrow> 'm"
  write_to :: "'m \<Rightarrow> byte list"

definition has_logical_value :: "('v, 'm) SnapEnv \<Rightarrow> 'v option \<Rightarrow> bool" where
  "has_logical_value S v = (case v of None \<Rightarrow> False | Some x \<Rightarrow> has_value_f S x)"

definition get_num_children :: "'p TriePrefix \<Rightarrow> ('v, 'm) SnapEnv \<Rightarrow> ('p, 'v, 'm) snap_tree \<Rightarrow> nat res" where
  "get_num_children P S t =
     (if tn_prefix_len t = MAX_KEY_LEN_BITS P
      then rbind (cm_value (tn_children t)) (\<lambda>v. Inr (if has_logical_value S v then 255 else 0))
      else Inr (cm_size (tn_children t)))"

definition extract_singlechild :: "'p TriePrefix \<Rightarrow> ('p, 'v, 'm) snap_tree \<Rightarrow> ('p, 'v, 'm) snap_tree res" where
  "extract_singlechild P t =
     (if tn_prefix_len t = MAX_KEY_LEN_BITS P then throw ''invalid extract''
      else case cm_list (tn_children t) of [] \<Rightarrow> throw ''there was no child'' | (bb, c) # cs \<Rightarrow> Inr c)"

definition snap_generichash :: "('p, 'v, 'b) HashEnv \<Rightarrow> byte list \<Rightarrow> Hash res" where
  "snap_generichash E digest_bytes =
     (case generichash E digest_bytes of None \<Rightarrow> throw ''error from crypto_generichash'' | Some h \<Rightarrow> Inr h)"

text \<open>\<^verbatim>\<open>append_hash_to_vec\<close> for all children in turn.\<close>

fun append_snap_hashes :: "('v, 'm) SnapEnv \<Rightarrow> (nat \<times> ('p, 'v, 'm) snap_tree) list \<Rightarrow> byte list \<Rightarrow> byte list res" where
  "append_snap_hashes S [] bytes = Inr bytes"
| "append_snap_hashes S ((bb, c) # cs) bytes =
     (if tn_hash_valid c then append_snap_hashes S cs (bytes @ write_to S (tn_metadata c) @ tn_hash c)
      else throw ''invalid hash appended'')"

text \<open>
  \<^verbatim>\<open>compute_hash_and_normalize\<close>.  The metadata returned are those stored in the node.  The loop over the branch bits only replaces or
  erases the child at the current bits; the compare-and-swap that puts an extracted child in place succeeds, since nobody else writes.
\<close>

fun compute_hash_and_normalize ::
    "'p TriePrefix \<Rightarrow> 'b BitVector_ops \<Rightarrow> ('p, 'v, 'b) HashEnv \<Rightarrow> ('v, 'm::monoid_add) SnapEnv \<Rightarrow>
     ('p, 'v, 'm) snap_tree \<Rightarrow> ('p, 'v, 'm) snap_tree res" where
  "compute_hash_and_normalize P B E S (TrieNode ch p l hv m h) =
     (if hv then Inr (TrieNode ch p l hv m h)
      else if l = MAX_KEY_LEN_BITS P then
        rbind (cm_value ch) (\<lambda>v.
          if \<not> has_logical_value S v then Inr (TrieNode ch p l True 0 h)
          else rbind (snap_generichash E (copy_data E (the v) (write_node_header E [] p l))) (\<lambda>h'.
            Inr (TrieNode ch p l True (from_value S m (the v)) h')))
      else rbind
        (rfold (\<lambda>(bb, child) (ch, md, num_children, bits).
            rbind (compute_hash_and_normalize P B E S child) (\<lambda>child'.
            rbind (get_num_children P S child') (\<lambda>child_count.
            let ch1 = cm_set ch bb child'; md' = md + tn_metadata child' in
            if child_count = 0 then rbind (cm_erase ch1 bb) (\<lambda>ch2. Inr (ch2, md', num_children, bits))
            else if child_count = 1 then
              rbind (extract_singlechild P child') (\<lambda>new_child.
                Inr (cm_set ch1 bb new_child, md', Suc num_children, bv_add B bits bb))
            else Inr (ch1, md', Suc num_children, bv_add B bits bb))))
          (cm_list ch) (ch, 0, 0, bv_clear B))
        (\<lambda>(ch', md, num_children, bits).
          if num_children \<le> 1 \<and> l \<noteq> 0 then Inr (TrieNode ch' p l False md h)
          else
            rbind (append_snap_hashes S (cm_list ch') (bv_write E bits (write_node_header E [] p l))) (\<lambda>digest_bytes.
            rbind (snap_generichash E digest_bytes) (\<lambda>h'. Inr (TrieNode ch' p l True md h')))))"

text \<open>\<^verbatim>\<open>delete_value\<close>: a leaf below the root is cut off, the value of a leaf that is itself the target is reset.\<close>

fun delete_value :: "'p TriePrefix \<Rightarrow> 'p \<Rightarrow> ('p, 'v, 'm) snap_tree \<Rightarrow> ('p, 'v, 'm) snap_tree res" where
  "delete_value P delete_prefix (TrieNode ch p l hv m h) =
     (if l = MAX_KEY_LEN_BITS P then
        (if delete_prefix \<noteq> p then throw ''mismatch'' else Inr (TrieNode (Value None) p l False m h))
      else rbind (get_branch_bits P delete_prefix l) (\<lambda>bb.
        case cm_find ch bb of
          None \<Rightarrow> throw ''must exist''
        | Some ptr \<Rightarrow>
            if tn_prefix_len ptr = MAX_KEY_LEN_BITS P \<and> tn_prefix ptr = delete_prefix
            then Inr (TrieNode (Children (al_del bb (cm_list ch))) p l False m h)
            else rbind (delete_value P delete_prefix ptr) (\<lambda>ptr'. Inr (TrieNode (cm_set ch bb ptr') p l False m h))))"

text \<open>The walks that invalidate; the target is given by its prefix and length.\<close>

fun snap_invalidate_to_node :: "'p TriePrefix \<Rightarrow> 'p \<Rightarrow> PrefixLenBits \<Rightarrow> ('p, 'v, 'm) snap_tree \<Rightarrow> ('p, 'v, 'm) snap_tree res" where
  "snap_invalidate_to_node P target_prefix target_len (TrieNode ch p l hv m h) =
     (if p = target_prefix \<and> l = target_len then Inr (TrieNode ch p l False m h)
      else if get_prefix_match_len P p l target_prefix target_len \<noteq> l then throw ''invalid invalidate''
      else rbind (get_branch_bits P target_prefix l) (\<lambda>bb.
        case cm_find ch bb of
          None \<Rightarrow> throw ''found null child in invalidate_hash_to_node''
        | Some c \<Rightarrow> rbind (snap_invalidate_to_node P target_prefix target_len c) (\<lambda>c'. Inr (TrieNode (cm_set ch bb c') p l False m h))))"

fun snap_invalidate_to_key :: "'p TriePrefix \<Rightarrow> 'p \<Rightarrow> ('p, 'v, 'm) snap_tree \<Rightarrow> ('p, 'v, 'm) snap_tree res" where
  "snap_invalidate_to_key P query (TrieNode ch p l hv m h) =
     (if l = MAX_KEY_LEN_BITS P then
        (if p = query then Inr (TrieNode ch p l False m h) else throw ''mismatch on invalidate_hash_to_key'')
      else rbind (get_branch_bits P query l) (\<lambda>bb.
        case cm_find ch bb of
          None \<Rightarrow> throw ''invalid child found''
        | Some c \<Rightarrow> rbind (snap_invalidate_to_key P query c) (\<lambda>c'. Inr (TrieNode (cm_set ch bb c') p l False m h))))"

text \<open>\<^verbatim>\<open>AtomicMerkleTrie::hash_and_normalize\<close> returns the hash of the root, whose flag it checks.\<close>

definition hash_and_normalize ::
    "'p TriePrefix \<Rightarrow> 'b BitVector_ops \<Rightarrow> ('p, 'v, 'b) HashEnv \<Rightarrow> ('v, 'm::monoid_add) SnapEnv \<Rightarrow>
     ('p, 'v, 'm) snap_tree \<Rightarrow> (Hash \<times> ('p, 'v, 'm) snap_tree) res" where
  "hash_and_normalize P B E S root =
     rbind (compute_hash_and_normalize P B E S root) (\<lambda>root'.
       if tn_hash_valid root' then Inr (tn_hash root', root') else throw ''invalid hash appended'')"

declare compute_hash_and_normalize.simps [simp del] delete_value.simps [simp del] snap_invalidate_to_node.simps [simp del]
  snap_invalidate_to_key.simps [simp del]

section \<open>The hash of a normalised trie\<close>

text \<open>Metadata and hash of a node from scratch, for tries whose leaves all have a value.\<close>

fun snap_md :: "('v, 'm::monoid_add) SnapEnv \<Rightarrow> ('p, 'v, 'm) snap_tree \<Rightarrow> 'm" where
  "snap_md S (TrieNode ch p l hv m h) =
     (case ch of Value v \<Rightarrow> (case v of None \<Rightarrow> 0 | Some x \<Rightarrow> from_value S 0 x)
      | Children cs \<Rightarrow> sum_list (map (\<lambda>(bb, c). snap_md S c) cs))"

fun snap_hash ::
    "'b BitVector_ops \<Rightarrow> ('p, 'v, 'b) HashEnv \<Rightarrow> (byte list \<Rightarrow> Hash) \<Rightarrow> ('v, 'm::monoid_add) SnapEnv \<Rightarrow> ('p, 'v, 'm) snap_tree \<Rightarrow> Hash" where
  "snap_hash B E H S (TrieNode ch p l hv m h) =
     (case ch of
        Value v \<Rightarrow> H (copy_data E (the v) (write_node_header E [] p l))
      | Children cs \<Rightarrow> H (bv_write E (bv_of_keys B (map fst cs)) (write_node_header E [] p l) @
          concat (map (\<lambda>(bb, c). write_to S (snap_md S c) @ snap_hash B E H S c) cs)))"

text \<open>A node as hashing leaves it: every leaf has a value, all flags are set, and the cached data are right.\<close>

fun snap_cached ::
    "'b BitVector_ops \<Rightarrow> ('p, 'v, 'b) HashEnv \<Rightarrow> (byte list \<Rightarrow> Hash) \<Rightarrow> ('v, 'm::monoid_add) SnapEnv \<Rightarrow> ('p, 'v, 'm) snap_tree \<Rightarrow> bool" where
  "snap_cached B E H S (TrieNode ch p l hv m h) \<longleftrightarrow>
     hv \<and> m = snap_md S (TrieNode ch p l hv m h) \<and> h = snap_hash B E H S (TrieNode ch p l hv m h) \<and>
     (case ch of Value v \<Rightarrow> has_logical_value S v | Children cs \<Rightarrow> \<forall>(bb, c) \<in> set cs. snap_cached B E H S c)"

text \<open>
  A node whose flag is set is one that hashing has left, or a leaf without a value.  Only the root may have fewer than two
  children then.
\<close>

definition snap_valid ::
    "'p TriePrefix \<Rightarrow> ('p \<Rightarrow> bool) \<Rightarrow> ('p \<Rightarrow> nat list) \<Rightarrow> 'b BitVector_ops \<Rightarrow> ('p, 'v, 'b) HashEnv \<Rightarrow> (byte list \<Rightarrow> Hash) \<Rightarrow>
     ('v, 'm::monoid_add) SnapEnv \<Rightarrow> ('p, 'v, 'm) snap_tree \<Rightarrow> bool" where
  "snap_valid P pvalid nib B E H S t \<longleftrightarrow>
     (case tn_children t of
        Value v \<Rightarrow> if has_logical_value S v then snap_cached B E H S t else tn_metadata t = 0
      | Children cs \<Rightarrow> wf_open P pvalid nib (if tn_prefix_len t = 0 then 0 else 2) t \<and> snap_cached B E H S t)"

definition snap_ok ::
    "'p TriePrefix \<Rightarrow> ('p \<Rightarrow> bool) \<Rightarrow> ('p \<Rightarrow> nat list) \<Rightarrow> 'b BitVector_ops \<Rightarrow> ('p, 'v, 'b) HashEnv \<Rightarrow> (byte list \<Rightarrow> Hash) \<Rightarrow>
     ('v, 'm::monoid_add) SnapEnv \<Rightarrow> ('p, 'v, 'm) snap_tree \<Rightarrow> bool" where
  "snap_ok P pvalid nib B E H S t \<longleftrightarrow> wf_node P pvalid nib 0 t \<and> (\<forall>x \<in> hashed_nodes t. snap_valid P pvalid nib B E H S x)"

text \<open>The entries that count: those with a logical value.\<close>

definition live_entries :: "'p TriePrefix \<Rightarrow> ('v, 'm) SnapEnv \<Rightarrow> ('p, 'v, 'm) snap_tree \<Rightarrow> ('p \<times> 'v option) list" where
  "live_entries P S t = filter (\<lambda>(k, v). has_logical_value S v) (entries P t)"

definition entries_md :: "('v, 'm::monoid_add) SnapEnv \<Rightarrow> ('p \<times> 'v option) list \<Rightarrow> 'm" where
  "entries_md S es = sum_list (map (\<lambda>(k, v). from_value S 0 (the v)) es)"

lemma entries_md_append [simp]: "entries_md S [] = 0" "entries_md S (xs @ ys) = entries_md S xs + entries_md S ys"
  by (simp_all add: entries_md_def)

text \<open>What the parent keeps of a child after hashing it.\<close>

definition snap_kept :: "('v, 'm) SnapEnv \<Rightarrow> nat \<Rightarrow> ('p, 'v, 'm) snap_tree \<Rightarrow> (nat \<times> ('p, 'v, 'm) snap_tree) list" where
  "snap_kept S bb t =
     (case tn_children t of
        Value v \<Rightarrow> if has_logical_value S v then [(bb, t)] else []
      | Children [] \<Rightarrow> []
      | Children [(b, c)] \<Rightarrow> [(bb, c)]
      | _ \<Rightarrow> [(bb, t)])"

context trie_prefix
begin

text \<open>With two children below the root, the map determines the tree.\<close>

lemma root_canonical:
  fixes t u :: "('p, 'v, 'm) TrieNode"
  assumes "wfo 0 t" "wfo 0 u" "tn_prefix_len t = 0" "tn_prefix_len u = 0" and eq: "trie_map P t = trie_map P u"
  shows "strip t = strip u"
proof -
  have ex: "\<exists>cs p hv m h. x = TrieNode (Children cs) p (4 * 0) hv m h \<and> wf 0 x \<and> branch 2 (take 0 (nib p)) cs \<and> nib p = replicate (prefix_bits P div 4) 0 \<and> pvalid p"
    if x0: "wfo 0 x" "tn_prefix_len x = 0" for x :: "('p, 'v, 'm) TrieNode"
  proof -
    obtain cs p hv m h where x: "x = TrieNode (Children cs) p (4 * 0) hv m h"
      using x0 bits_pos by (cases x; cases "tn_children x") (auto simp: wf_open_def)
    have w: "pvalid p" "branch 2 (take 0 (nib p)) cs" "nib p = replicate (prefix_bits P div 4) 0"
      using x0(1) unfolding x wfo_Children by simp_all
    have "branch 0 (take 0 (nib p)) cs" using w(2) wf_weaken by (fastforce simp: branch_ok_def)
    then have "wf 0 x" unfolding x wf_Children using w bits_pos by simp
    then show ?thesis using x w by blast
  qed
  obtain cs p hv m h where t: "t = TrieNode (Children cs) p (4 * 0) hv m h" "wf 0 t" "branch 2 (take 0 (nib p)) cs"
    "nib p = replicate (prefix_bits P div 4) 0" "pvalid p" using ex [OF assms(1,3)] by blast
  obtain ds p' hv' m' h' where u: "u = TrieNode (Children ds) p' (4 * 0) hv' m' h'" "wf 0 u" "branch 2 (take 0 (nib p')) ds"
    "nib p' = replicate (prefix_bits P div 4) 0" "pvalid p'" using ex [OF assms(2,4)] by blast
  have p: "p' = p" using nib_inject [of p' p] t(4,5) u(4,5) by simp
  have "map (\<lambda>(bb, c). (bb, strip c)) cs = map (\<lambda>(bb, c). (bb, strip c)) ds"
    by (rule same_children [OF t(2) [unfolded t(1)] u(2) [unfolded u(1) p] t(3) u(3) [unfolded p]])
      (use eq canonical in \<open>auto simp: t(1) u(1) p\<close>)
  then show ?thesis by (simp add: t(1) u(1) p)
qed

end

text \<open>The interface to the template parameters: \<^verbatim>\<open>from_value\<close> sets the metadata, whatever they were.\<close>

locale snapshot_hash = trie_hash P pvalid nib B bvset E H
  for P :: "'p TriePrefix" and pvalid and nib and B :: "'b BitVector_ops" and bvset
    and E :: "('p, 'v, 'b) HashEnv" and H +
  fixes S :: "('v, 'm::monoid_add) SnapEnv"
  assumes from_value_eq: "from_value S m v = from_value S 0 v"
begin

abbreviation cached where
  "cached \<equiv> snap_cached B E H S"

abbreviation valid_node where
  "valid_node \<equiv> snap_valid P pvalid nib B E H S"

abbreviation sok where
  "sok \<equiv> snap_ok P pvalid nib B E H S"

abbreviation live where
  "live \<equiv> live_entries P S"

abbreviation child_live where
  "child_live cs \<equiv> concat (map (\<lambda>(bb, c). live c) cs)"

lemma snap_generichash_ok [simp]: "snap_generichash E d = Inr (H d)"
  by (simp add: snap_generichash_def generichash_ok)

lemma live_Children: "l < prefix_bits P \<Longrightarrow> live (TrieNode (Children cs) p l hv m h) = child_live cs"
  by (simp add: live_entries_def filter_concat comp_def case_prod_unfold)

lemma live_Value: "live (TrieNode (Value v) p (prefix_bits P) hv m h) = (if has_logical_value S v then [(p, v)] else [])"
  by (simp add: live_entries_def)

lemma cached_md:
  assumes "wf k t" "cached t"
  shows "tn_metadata t = entries_md S (live t)" "tn_metadata t = snap_md S t" "tn_hash t = snap_hash B E H S t" "tn_hash_valid t"
proof -
  show "tn_metadata t = snap_md S t" "tn_hash t = snap_hash B E H S t" "tn_hash_valid t"
    using assms(2) by (cases t; simp)+
  show "tn_metadata t = entries_md S (live t)" using assms
  proof (induction t rule: node_induct)
    case (Value v p l hv m h)
    then show ?case by (auto simp: live_Value entries_md_def has_logical_value_def split: option.splits)
  next
    case (Children cs p l hv m h)
    have c: "snap_md S c = entries_md S (live c)" if "(b, c) \<in> set cs" for b c
    proof -
      have "wf k c" "cached c" using Children.prems that by auto
      then show ?thesis using Children.IH [OF that] by (cases c) auto
    qed
    have "sum_list (map (\<lambda>(bb, c). snap_md S c) xs) = entries_md S (child_live xs)" if "set xs \<subseteq> set cs" for xs
      using that c by (induction xs) auto
    moreover have "l < prefix_bits P" using Children.prems(1) by simp
    ultimately show ?case using Children.prems(2) by (simp add: live_Children)
  qed
qed

text \<open>The state of a node after hashing.\<close>

definition post where
  "post t t' \<longleftrightarrow> wf_open P pvalid nib 0 t' \<and> tn_prefix t' = tn_prefix t \<and> tn_prefix_len t' = tn_prefix_len t \<and>
     live t' = live t \<and> tn_metadata t' = entries_md S (live t) \<and>
     (case tn_children t' of
        Value v \<Rightarrow> has_logical_value S v \<longrightarrow> cached t'
      | Children cs \<Rightarrow> (\<forall>(b, c) \<in> set cs. cached c) \<and> (if 2 \<le> length cs \<or> tn_prefix_len t = 0 then cached t' else \<not> tn_hash_valid t'))"

lemma kept_ok:
  fixes c :: "('p, 'v, 'm) snap_tree"
  assumes c: "wf 0 c" "4 * length pi < tn_prefix_len c" "take (Suc (length pi)) (nib (tn_prefix c)) = pi @ [b]" and post: "post c c'"
  shows "branch 2 pi (snap_kept S b c') \<and> (\<forall>(bb, x) \<in> set (snap_kept S b c'). cached x \<and> bb = b) \<and> child_live (snap_kept S b c') = live c"
proof (cases c')
  case te: (TrieNode ch p l hv m h)
  have p: "wfo 0 c'" "p = tn_prefix c" "l = tn_prefix_len c" "live c' = live c" using post te by (auto simp: post_def)
  show ?thesis
  proof (cases ch)
    case (Value v)
    then have l: "l = prefix_bits P" "pvalid p" using p(1) te by (auto simp: wf_open_def)
    then show ?thesis using post p(2-4) c te Value by (auto simp: post_def snap_kept_def live_Value branch_ok_def)
  next
    case (Children cs)
    obtain d where d: "l = 4 * d" using p(1) te Children by (auto simp: wf_open_def elim: dvdE)
    have w: "pvalid p" "4 * d < prefix_bits P" "branch 2 (take d (nib p)) cs" "drop d (nib p) = replicate (prefix_bits P div 4 - d) 0"
      using p(1) unfolding te Children d wfo_Children by blast+
    have len: "length (take d (nib p)) = d" using w(1,2) nib_length bits_eq by simp
    have lv: "child_live cs = live c" using p(4) w(2) te Children d by (simp add: live_Children)
    have big: "l \<noteq> 0" "\<not> 2 \<le> length cs \<or> cached c'" "\<forall>(b, c) \<in> set cs. cached c"
      using post c(2) te Children p(3) by (auto simp: post_def split: if_splits)
    consider "cs = []" | b' x where "cs = [(b', x)]" | "2 \<le> length cs"
      by (cases cs rule: remdups_adj.cases) auto
    then show ?thesis
    proof cases
      case 1
      then show ?thesis using lv te Children by (simp add: snap_kept_def branch_ok_def)
    next
      case (2 b' x)
      have x: "wf 2 x" "4 * d < tn_prefix_len x" "take (Suc d) (nib (tn_prefix x)) = take d (nib p) @ [b']"
        using w(3) 2 len by (auto simp: branch_ok_def)
      have "take d (nib (tn_prefix x)) = take d (nib p)" using branch_nth(3) [of "take d (nib p)" "nib (tn_prefix x)" b'] x(3) len by simp
      moreover have "Suc (length pi) \<le> d" using c(2) p(3) d by linarith
      ultimately have "take (Suc (length pi)) (nib (tn_prefix x)) = pi @ [b]"
        using c(3) p(2) by (metis min_absorb1 take_take)
      then show ?thesis using 2 lv te Children x big(3) c(2) p(3) d by (auto simp: snap_kept_def branch_ok_def)
    next
      case 3
      then obtain y z zs where cs: "cs = y # z # zs" by (cases cs rule: remdups_adj.cases) auto
      have "wf 2 c'" unfolding te Children d wf_Children using w 3 by simp
      then show ?thesis
        using cs p c te Children big(2) 3 by (auto simp: snap_kept_def branch_ok_def split: prod.splits)
    qed
  qed
qed

text \<open>One child of the loop: the children map, the counter and the bit vector after it.\<close>

definition norm_step ::
    "(('p, 'v, 'm) snap_tree \<Rightarrow> ('p, 'v, 'm) snap_tree res) \<Rightarrow> nat \<times> ('p, 'v, 'm) snap_tree \<Rightarrow>
     (('p, 'v, 'm) snap_tree, 'v option) children_map \<times> 'm \<times> nat \<times> 'b \<Rightarrow>
     ((('p, 'v, 'm) snap_tree, 'v option) children_map \<times> 'm \<times> nat \<times> 'b) res" where
  "norm_step rec = (\<lambda>(bb, child) (ch, md, num_children, bits).
     rbind (rec child) (\<lambda>child'.
     rbind (get_num_children P S child') (\<lambda>child_count.
     let ch1 = cm_set ch bb child'; md' = md + tn_metadata child' in
     if child_count = 0 then rbind (cm_erase ch1 bb) (\<lambda>ch2. Inr (ch2, md', num_children, bits))
     else if child_count = 1 then
       rbind (extract_singlechild P child') (\<lambda>new_child. Inr (cm_set ch1 bb new_child, md', Suc num_children, bv_add B bits bb))
     else Inr (ch1, md', Suc num_children, bv_add B bits bb))))"

lemma norm_step_kept:
  fixes c :: "('p, 'v, 'm) snap_tree"
  assumes rec: "rec c = Inr c'" and post: "post c c'" and sorted: "sorted_keys (xs @ (b, c) # ys)"
  shows "norm_step rec (b, c) (Children (xs @ (b, c) # ys), md, n, bits) =
    Inr (Children (xs @ snap_kept S b c' @ ys), md + tn_metadata c', n + length (snap_kept S b c'),
      fold (\<lambda>bb bits. bv_add B bits bb) (map fst (snap_kept S b c')) bits)"
proof (cases c')
  case te: (TrieNode ch p l hv m h)
  have s': "sorted_keys (xs @ (b, c') # ys)" using sorted by simp
  have put: "al_put b c' (xs @ (b, c) # ys) = xs @ (b, c') # ys" using al_put_mid [OF sorted] .
  have put2: "al_put b x (xs @ (b, c') # ys) = xs @ (b, x) # ys" for x using al_put_mid [OF s'] .
  have del: "al_del b (xs @ (b, c') # ys) = xs @ ys" using al_del_mid [OF s'] .
  have find: "map_of (xs @ (b, c') # ys) b = Some c'" using map_of_sorted_iff [OF s', of b c'] by simp
  have w: "wfo 0 c'" using post by (simp add: post_def)
  show ?thesis
  proof (cases ch)
    case (Value v)
    then have "tn_prefix_len c' = prefix_bits P" using w te by (simp add: wf_open_def)
    then show ?thesis
      using rec put del find te Value by (auto simp: norm_step_def get_num_children_def snap_kept_def cm_erase_def)
  next
    case (Children cs)
    then have l: "tn_prefix_len c' \<noteq> prefix_bits P" using w te by (simp add: wf_open_def)
    consider "cs = []" | b' x where "cs = [(b', x)]" | y z zs where "cs = y # z # zs"
      by (cases cs rule: remdups_adj.cases) auto
    then show ?thesis
    proof cases
      case 1
      then show ?thesis
        using rec put del find te Children l by (auto simp: norm_step_def get_num_children_def snap_kept_def cm_erase_def)
    next
      case (2 b' x)
      then show ?thesis
        using rec put put2 te Children l by (auto simp: norm_step_def get_num_children_def snap_kept_def extract_singlechild_def)
    next
      case (3 y z zs)
      then show ?thesis
        using rec put te Children l by (cases y) (auto simp: norm_step_def get_num_children_def snap_kept_def)
    qed
  qed
qed

lemma norm_loop:
  fixes ys :: "(nat \<times> ('p, 'v, 'm) snap_tree) list"
  assumes "branch 0 pi ys" "sorted_keys (xs @ ys)" "\<forall>c \<in> snd ` set ys. \<exists>c'. rec c = Inr c' \<and> post c c'"
  shows "\<exists>zs. rfold (norm_step rec) ys (Children (xs @ ys), md, n, bits) =
      Inr (Children (xs @ zs), md + entries_md S (child_live ys), n + length zs, fold (\<lambda>bb bits. bv_add B bits bb) (map fst zs) bits) \<and>
    branch 2 pi zs \<and> (\<forall>(b, c) \<in> set zs. cached c) \<and> child_live zs = child_live ys \<and> fst ` set zs \<subseteq> fst ` set ys"
  using assms
proof (induction ys arbitrary: xs md n bits)
  case Nil
  then show ?case by (simp add: branch_ok_def)
next
  case (Cons y ys)
  obtain b c where y: "y = (b, c)" by (cases y)
  obtain c' where c': "rec c = Inr c'" "post c c'" using Cons.prems(3) y by auto
  have bc: "wf 0 c" "4 * length pi < tn_prefix_len c" "take (Suc (length pi)) (nib (tn_prefix c)) = pi @ [b]"
    using Cons.prems(1) y by (auto simp: branch_ok_def)
  let ?k = "snap_kept S b c'"
  note kept = kept_ok [OF bc c'(2)]
  have kb: "map fst ?k = [] \<or> map fst ?k = [b]" by (auto simp: snap_kept_def split: children_map.splits list.splits)
  have sorted: "sorted_keys ((xs @ ?k) @ ys)" "\<forall>z \<in> set ys. b < fst z"
    using Cons.prems(2) kb y by (auto simp: sorted_wrt_append)
  have step: "norm_step rec y (Children (xs @ y # ys), md, n, bits) =
    Inr (Children ((xs @ ?k) @ ys), md + tn_metadata c', n + length ?k, fold (\<lambda>bb bits. bv_add B bits bb) (map fst ?k) bits)"
    using norm_step_kept [where rec = rec, OF c'] Cons.prems(2) y by simp
  have br: "branch 0 pi ys" using Cons.prems(1) by (simp add: branch_ok_def)
  have md: "tn_metadata c' = entries_md S (live c)" using c'(2) by (simp add: post_def)
  let ?bits = "fold (\<lambda>bb bits. bv_add B bits bb) (map fst ?k) bits"
  have rec': "\<forall>c \<in> snd ` set ys. \<exists>c'. rec c = Inr c' \<and> post c c'" using Cons.prems(3) by simp
  from Cons.IH [OF br sorted(1), of "md + tn_metadata c'" "n + length ?k" ?bits, OF rec']
  obtain zs where zs: "rfold (norm_step rec) ys (Children ((xs @ ?k) @ ys), md + tn_metadata c', n + length ?k, ?bits) =
      Inr (Children ((xs @ ?k) @ zs), md + tn_metadata c' + entries_md S (child_live ys), n + length ?k + length zs,
        fold (\<lambda>bb bits. bv_add B bits bb) (map fst zs) ?bits)"
    "branch 2 pi zs" "\<forall>(b, c) \<in> set zs. cached c" "child_live zs = child_live ys" "fst ` set zs \<subseteq> fst ` set ys"
    by blast
  have "b < fst z" if "z \<in> set zs" for z using that zs(5) sorted(2) by fastforce
  moreover have "fst x = b" if "x \<in> set ?k" for x using that kept by auto
  ultimately have "branch 2 pi (?k @ zs)" "fst ` set (?k @ zs) \<subseteq> fst ` set (y # ys)"
    using kept zs(2,5) y by (auto simp: branch_ok_def sorted_wrt_append)
  moreover have "rfold (norm_step rec) (y # ys) (Children (xs @ y # ys), md, n, bits) =
      Inr (Children (xs @ ?k @ zs), md + entries_md S (child_live (y # ys)), n + length (?k @ zs),
        fold (\<lambda>bb bits. bv_add B bits bb) (map fst (?k @ zs)) bits)"
    using step zs(1) md by (simp add: y add.assoc)
  moreover have "\<forall>(b, c) \<in> set (?k @ zs). cached c" "child_live (?k @ zs) = child_live (y # ys)"
    using kept zs(3,4) y by auto
  ultimately show ?case by blast
qed

lemma append_hashes:
  fixes zs :: "(nat \<times> ('p, 'v, 'm) snap_tree) list"
  assumes "branch 2 pi zs" "\<forall>(b, c) \<in> set zs. cached c"
  shows "append_snap_hashes S zs bytes = Inr (bytes @ concat (map (\<lambda>(bb, c). write_to S (snap_md S c) @ snap_hash B E H S c) zs))"
  using assms
proof (induction zs arbitrary: bytes)
  case (Cons z zs)
  obtain b c where z: "z = (b, c)" by (cases z)
  have "branch 2 pi zs" using Cons.prems(1) by (simp add: branch_ok_def)
  moreover have "wf 2 c" "cached c" using Cons.prems z by (auto simp: branch_ok_def)
  ultimately show ?case using Cons cached_md(2-4) [of 2 c] z by simp
qed simp

lemma children_md:
  fixes zs :: "(nat \<times> ('p, 'v, 'm) snap_tree) list"
  assumes "branch 2 pi zs" "\<forall>(b, c) \<in> set zs. cached c"
  shows "sum_list (map (\<lambda>(bb, c). snap_md S c) zs) = entries_md S (child_live zs)"
  using assms
proof (induction zs)
  case (Cons z zs)
  obtain b c where z: "z = (b, c)" by (cases z)
  have "branch 2 pi zs" using Cons.prems(1) by (simp add: branch_ok_def)
  moreover have "wf 2 c" "cached c" using Cons.prems z by (auto simp: branch_ok_def)
  ultimately show ?case using Cons cached_md(1,2) [of 2 c] z by simp
qed simp

theorem compute_correct:
  fixes t :: "('p, 'v, 'm) snap_tree"
  assumes "sok t"
  shows "\<exists>t'. compute_hash_and_normalize P B E S t = Inr t' \<and> post t t'"
  using assms
proof (induction t rule: node_induct)
  case (Value v p l hv m h)
  let ?t = "TrieNode (Value v) p l hv m h"
  have l: "l = prefix_bits P" "pvalid p" and ok: "hv \<Longrightarrow> valid_node ?t" using Value by (auto simp: snap_ok_def)
  show ?case
  proof (cases "hv \<or> \<not> has_logical_value S v")
    case True
    then show ?thesis
      using l ok by (auto simp: compute_hash_and_normalize.simps post_def snap_valid_def live_Value wf_open_def
        entries_md_def has_logical_value_def split: option.splits if_splits)
  next
    case False
    then show ?thesis
      using l from_value_eq [of m "the v"]
      by (auto simp: compute_hash_and_normalize.simps post_def live_Value wf_open_def entries_md_def has_logical_value_def
        split: option.splits)
  qed
next
  case (Children cs p l hv m h)
  let ?t = "TrieNode (Children cs) p l hv m h"
  have wt: "wf 0 ?t" and ok: "hv \<Longrightarrow> valid_node ?t" and sub: "\<And>b c. (b, c) \<in> set cs \<Longrightarrow> sok c"
    using Children.prems by (auto simp: snap_ok_def)
  show ?case
  proof (cases hv)
    case True
    then have v: "wfo (if l = 0 then 0 else 2) ?t" "cached ?t" using ok [OF True] by (simp_all add: snap_valid_def del: snap_cached.simps)
    have "tn_metadata ?t = entries_md S (live ?t)" using cached_md(1) [OF wt v(2)] .
    moreover have "wfo 0 ?t" using wfo_weaken [OF v(1)] by simp
    moreover have "l = 0 \<or> 2 \<le> length cs" using v(1) by (auto simp: wf_open_def split: if_splits)
    moreover have "\<forall>(b, c) \<in> set cs. cached c" using v(2) by simp
    ultimately have "post ?t ?t" using v(2) by (auto simp: post_def simp del: snap_cached.simps)
    then show ?thesis using True by (simp add: compute_hash_and_normalize.simps)
  next
    case False
    from wt obtain d where d: "l = 4 * d" "4 * d < prefix_bits P" "branch 0 (take d (nib p)) cs" "pvalid p"
      "drop d (nib p) = replicate (prefix_bits P div 4 - d) 0"
      by (rule wf_ChildrenE)
    have "\<forall>c \<in> snd ` set cs. \<exists>c'. compute_hash_and_normalize P B E S c = Inr c' \<and> post c c'"
      using Children.IH sub by force
    moreover have "sorted_keys ([] @ cs)" using d(3) by (simp add: branch_ok_def)
    ultimately obtain zs where zs: "rfold (norm_step (compute_hash_and_normalize P B E S)) cs (Children cs, 0, 0, bv_clear B) =
        Inr (Children zs, entries_md S (child_live cs), length zs, bv_of_keys B (map fst zs))"
      "branch 2 (take d (nib p)) zs" "\<forall>(b, c) \<in> set zs. cached c" "child_live zs = child_live cs"
      using norm_loop [OF d(3), of "[]" "compute_hash_and_normalize P B E S" 0 0 "bv_clear B"] by (auto simp: bv_of_keys_def)
    have step: "compute_hash_and_normalize P B E S ?t =
        (if length zs \<le> 1 \<and> l \<noteq> 0 then Inr (TrieNode (Children zs) p l False (entries_md S (child_live cs)) h)
         else rbind (append_snap_hashes S zs (bv_write E (bv_of_keys B (map fst zs)) (write_node_header E [] p l)))
           (\<lambda>d. Inr (TrieNode (Children zs) p l True (entries_md S (child_live cs)) (H d))))"
      unfolding compute_hash_and_normalize.simps norm_step_def [symmetric] cm_list.simps zs(1) using False d(1,2) by simp
    let ?t' = "\<lambda>hv h. TrieNode (Children zs) p l hv (entries_md S (child_live cs)) h"
    have w: "wfo 0 (?t' hv h)" for hv h unfolding d(1) wfo_Children using d zs(2) by simp
    have lv: "live (?t' hv h) = live ?t" "live ?t = child_live cs" for hv h using d(1,2) zs(4) by (simp_all add: live_Children)
    show ?thesis
    proof (cases "length zs \<le> 1 \<and> l \<noteq> 0")
      case True
      then show ?thesis using w lv zs(3) step by (auto simp: post_def)
    next
      case False
      then show ?thesis using w lv zs(3,4) step append_hashes [OF zs(2,3)] children_md [OF zs(2,3)] by (auto simp: post_def)
    qed
  qed
qed

text \<open>Nodes that hashing has left are valid, so a second call returns at once.\<close>

lemma cached_ok:
  fixes t :: "('p, 'v, 'm) snap_tree"
  shows "wfo (if tn_prefix_len t = 0 then 0 else 2) t \<Longrightarrow> cached t \<Longrightarrow> sok t"
proof (induction t rule: node_induct)
  case (Value v p l hv m h)
  then show ?case by (auto simp: snap_ok_def snap_valid_def wf_open_def)
next
  case (Children cs p l hv m h)
  let ?t = "TrieNode (Children cs) p l hv m h"
  obtain d where d: "l = 4 * d" using Children.prems(1) by (auto simp: wf_open_def elim: dvdE)
  have w: "pvalid p" "4 * d < prefix_bits P" "branch 2 (take d (nib p)) cs" "drop d (nib p) = replicate (prefix_bits P div 4 - d) 0"
    using Children.prems(1) unfolding d wfo_Children by (simp_all split: if_splits)
  have c: "sok c" "wf 0 c" if "(b, c) \<in> set cs" for b c
  proof -
    have "wf 2 c" "0 < tn_prefix_len c" "cached c" using w(3) Children.prems(2) that by (auto simp: branch_ok_def)
    then show "sok c" "wf 0 c" using Children.IH [OF that] wfo_iff_wf wf_weaken [of 2 c 0] by auto
  qed
  have "branch 0 (take d (nib p)) cs" using w(3) c(2) by (auto simp: branch_ok_def)
  then have "wf 0 ?t" unfolding d wf_Children using w by simp
  moreover have "valid_node ?t" using Children.prems by (simp add: snap_valid_def del: snap_cached.simps)
  ultimately show ?case using c(1) by (auto simp: snap_ok_def)
qed

lemma cached_live:
  fixes t :: "('p, 'v, 'm) snap_tree"
  shows "wf 0 t \<Longrightarrow> cached t \<Longrightarrow> entries P t = live t"
proof (induction t rule: node_induct)
  case (Children cs p l hv m h)
  have "entries P c = live c" if "(b, c) \<in> set cs" for b c
    by (rule Children.IH [OF that]) (use Children.prems that in auto)
  then have "concat (map (\<lambda>(b, c). entries P c) cs) = child_live cs" by (metis (no_types, lifting) map_cong split_cong surj_pair)
  then show ?case using Children.prems(1) by (simp add: live_Children)
qed (simp add: live_Value)

theorem root_hash:
  fixes t :: "('p, 'v, 'm) snap_tree"
  assumes t: "sok t" "tn_prefix_len t = 0"
  shows "\<exists>t'. hash_and_normalize P B E S t = Inr (snap_hash B E H S t', t') \<and> wfo 0 t' \<and> cached t' \<and> sok t' \<and>
    tn_prefix t' = tn_prefix t \<and> tn_prefix_len t' = 0 \<and> entries P t' = live t \<and> tn_metadata t' = entries_md S (live t)"
proof -
  obtain t' where t': "compute_hash_and_normalize P B E S t = Inr t'" "post t t'" using compute_correct [OF t(1)] by blast
  have w: "wfo 0 t'" "tn_prefix t' = tn_prefix t" "tn_prefix_len t' = 0" "live t' = live t" "tn_metadata t' = entries_md S (live t)"
    using t'(2) t(2) by (auto simp: post_def)
  moreover have c: "cached t'"
    using t'(2) t(2) bits_pos w(1,3) by (cases t'; cases "tn_children t'") (auto simp: post_def wf_open_def simp del: snap_cached.simps)
  moreover have ok: "sok t'" using cached_ok [OF _ c] w(1,3) by simp
  moreover have "entries P t' = live t" using cached_live [OF _ c] ok w(4) by (simp add: snap_ok_def)
  ultimately show ?thesis using t'(1) cached_md(3,4) [OF _ c, of 0] ok by (auto simp: hash_and_normalize_def snap_ok_def)
qed

text \<open>The hash is a function of the shape, and the shape of the root after hashing a function of the entries.\<close>

lemma snap_hash_strip:
  fixes t u :: "('p, 'v, 'm) snap_tree"
  shows "strip t = strip u \<Longrightarrow> snap_md S t = snap_md S u \<and> snap_hash B E H S t = snap_hash B E H S u"
proof (induction t arbitrary: u rule: node_induct)
  case (Value v p l hv m h)
  then show ?case by (cases u; cases "tn_children u") auto
next
  case (Children cs p l hv m h)
  then obtain ds hv' m' h' where u: "u = TrieNode (Children ds) p l hv' m' h'"
      and eq: "map (\<lambda>(bb, c). (bb, strip c)) cs = map (\<lambda>(bb, c). (bb, strip c)) ds"
    by (cases u; cases "tn_children u") auto
  have "list_all2 (\<lambda>x y. fst x = fst y \<and> snap_md S (snd x) = snap_md S (snd y) \<and> snap_hash B E H S (snd x) = snap_hash B E H S (snd y)) cs ds"
    using eq Children.IH
    by (intro list_all2_all_nthI) (auto simp: list_eq_iff_nth_eq case_prod_unfold, (metis nth_mem prod.collapse)+)
  then have "map fst cs = map fst ds" "map (\<lambda>(bb, c). snap_md S c) cs = map (\<lambda>(bb, c). snap_md S c) ds"
    "map (\<lambda>(bb, c). write_to S (snap_md S c) @ snap_hash B E H S c) cs = map (\<lambda>(bb, c). write_to S (snap_md S c) @ snap_hash B E H S c) ds"
    by (induction rule: list_all2_induct) auto
  then show ?case using u by simp
qed

theorem hash_agree:
  fixes t u :: "('p, 'v, 'm) snap_tree"
  assumes "sok t" "tn_prefix_len t = 0" "sok u" "tn_prefix_len u = 0" and eq: "map_of (live t) = map_of (live u)"
  shows "\<exists>hash t' u'. hash_and_normalize P B E S t = Inr (hash, t') \<and> hash_and_normalize P B E S u = Inr (hash, u') \<and> strip t' = strip u'"
proof -
  obtain t' where t': "hash_and_normalize P B E S t = Inr (snap_hash B E H S t', t')" "wfo 0 t'" "tn_prefix_len t' = 0" "entries P t' = live t"
    using root_hash [OF assms(1,2)] by blast
  obtain u' where u': "hash_and_normalize P B E S u = Inr (snap_hash B E H S u', u')" "wfo 0 u'" "tn_prefix_len u' = 0" "entries P u' = live u"
    using root_hash [OF assms(3,4)] by blast
  have "strip t' = strip u'"
    using root_canonical [OF t'(2) u'(2) t'(3) u'(3)] t'(4) u'(4) eq by (simp add: trie_map_def)
  then show ?thesis using t'(1) u'(1) snap_hash_strip by metis
qed

end

section \<open>Deletion and invalidation\<close>

context trie_prefix
begin

lemma other_child:
  assumes t: "wf k (TrieNode (Children cs) p (4 * d) hv m h)" and c: "(b, c) \<in> set cs" "b \<noteq> nib key ! d"
  shows "filter (\<lambda>(q, v). q \<noteq> key) (entries P c) = entries P c"
proof -
  from t have w: "branch k (take d (nib p)) cs" by (elim wf_ChildrenE) simp
  then have "wf k c" "map_of cs b = Some c" using c(1) map_of_sorted_iff [of cs b c] by (auto simp: branch_ok_def)
  then have "trie_map P c key = None" using child_map [OF t, of b c key] c(2) by simp
  then have "key \<notin> fst ` set (entries P c)" unfolding trie_map_def by (simp add: map_of_eq_None_iff)
  then show ?thesis by (force simp: filter_id_conv)
qed

lemma other_children:
  assumes t: "wf k (TrieNode (Children cs) p (4 * d) hv m h)" and xs: "set xs \<subseteq> set cs" "nib key ! d \<notin> fst ` set xs"
  shows "filter (\<lambda>(q, v). q \<noteq> key) (concat (map (\<lambda>(b, c). entries P c) xs)) = concat (map (\<lambda>(b, c). entries P c) xs)"
  using xs
proof (induction xs)
  case (Cons x xs)
  then show ?case using other_child [OF t, of "fst x" "snd x" key] by (cases x) auto
qed simp

lemma delete_value_correct:
  fixes t :: "('p, 'v, 'm) snap_tree"
  assumes "wf 0 t" "pvalid key" "trie_map P t key \<noteq> None"
  shows "\<exists>t'. delete_value P key t = Inr t' \<and> wf 0 t' \<and> tn_prefix t' = tn_prefix t \<and> tn_prefix_len t' = tn_prefix_len t \<and>
    hashed_nodes t' \<subseteq> hashed_nodes t \<and>
    entries P t' = (if tn_prefix_len t = prefix_bits P then [(key, None)] else filter (\<lambda>(q, v). q \<noteq> key) (entries P t))"
  using assms(1,3)
proof (induction t rule: measure_induct_rule [of size])
  case (less t)
  from less.prems(1) assms(2) show ?case
  proof (cases rule: key_walk)
    case Absent
    then show ?thesis using less.prems(2) by simp
  next
    case (Leaf w hv m h)
    then show ?thesis using assms(2) less.prems by (auto simp: delete_value.simps)
  next
    case (Inner cs p d hv m h c)
    note wt = less.prems(1) [unfolded Inner(1)]
    have size: "size c < size t" using Inner(1,5) by (auto dest!: map_of_SomeD simp: cm_list_size_less [where ch = "Children cs", simplified])
    have mem: "trie_map P c key \<noteq> None" using less.prems(2) trie_map_Children [OF wt assms(2)] Inner(1,5) by simp
    from wt have w: "branch 0 (take d (nib p)) cs" "length (take d (nib p)) = d" by (elim wf_ChildrenE; simp)+
    have wf: "wf 0 (TrieNode (Children ds) p (4 * d) False m h)" if "branch 0 (take d (nib p)) ds" for ds
      using wt that unfolding wf_Children by simp
    obtain xs ys where cs: "cs = xs @ (nib key ! d, c) # ys" using split_list map_of_SomeD [OF Inner(5)] by metis
    have sorted: "sorted_keys cs" using w(1) by (simp add: branch_ok_def)
    have put: "al_put (nib key ! d) c' cs = xs @ (nib key ! d, c') # ys" for c' using al_put_mid sorted cs by metis
    have del: "al_del (nib key ! d) cs = xs @ ys" using al_del_mid sorted cs by metis
    have "nib key ! d \<notin> fst ` set xs" "nib key ! d \<notin> fst ` set ys" using sorted cs by (fastforce simp: sorted_wrt_append)+
    moreover have "set xs \<subseteq> set cs" "set ys \<subseteq> set cs" using cs by auto
    ultimately have rest: "filter (\<lambda>(q, v). q \<noteq> key) (concat (map (\<lambda>(b, c). entries P c) zs)) = concat (map (\<lambda>(b, c). entries P c) zs)"
      if "zs = xs \<or> zs = ys" for zs using other_children [OF wt] that by blast
    have ent: "filter (\<lambda>(q, v). q \<noteq> key) (entries P t) =
        concat (map (\<lambda>(b, c). entries P c) xs) @ filter (\<lambda>(q, v). q \<noteq> key) (entries P c) @ concat (map (\<lambda>(b, c). entries P c) ys)"
      using Inner(1,2) rest [of xs] rest [of ys] cs by simp
    show ?thesis
    proof (cases "tn_prefix_len c = prefix_bits P")
      case True
      then obtain v p' hv' m' h' where c': "c = TrieNode (Value v) p' (prefix_bits P) hv' m' h'"
        using Inner(6) by (cases c; cases "tn_children c") auto
      then have c: "c = TrieNode (Value v) key (prefix_bits P) hv' m' h'" using mem by (simp add: trie_map_Value split: if_splits)
      have step: "delete_value P key t = Inr (TrieNode (Children (xs @ ys)) p (4 * d) False m h)"
        using Inner(1-5) c del by (simp add: delete_value.simps)
      moreover have "branch 0 (take d (nib p)) (xs @ ys)" using w(1) cs by (auto simp: branch_ok_def sorted_wrt_append)
      then have "wf 0 (TrieNode (Children (xs @ ys)) p (4 * d) False m h)" by (rule wf)
      moreover have "filter (\<lambda>(q, v). q \<noteq> key) (entries P c) = []" using c by simp
      ultimately show ?thesis using Inner(1,2) cs ent by auto
    next
      case False
      obtain c' where c': "delete_value P key c = Inr c'" "wf 0 c'" "tn_prefix c' = tn_prefix c" "tn_prefix_len c' = tn_prefix_len c"
          "hashed_nodes c' \<subseteq> hashed_nodes c" "entries P c' = filter (\<lambda>(q, v). q \<noteq> key) (entries P c)"
        using less.IH [OF size Inner(6) mem] False by auto
      have bc: "4 * d < tn_prefix_len c" "take (Suc d) (nib (tn_prefix c)) = take d (nib p) @ [nib key ! d]"
        using branch_child(2,3) [OF w(1) Inner(5)] w(2) by simp_all
      let ?t = "TrieNode (Children (xs @ (nib key ! d, c') # ys)) p (4 * d) False m h"
      have "delete_value P key t = Inr ?t" using Inner(1-5) c'(1) put False by (simp add: delete_value.simps)
      moreover have "wf 0 ?t" using put_child(1) [OF wt c'(2), unfolded c'(3,4), OF bc] put by simp
      moreover have "entries P ?t = filter (\<lambda>(q, v). q \<noteq> key) (entries P t)" using ent c'(6) Inner(2) by simp
      moreover have "hashed_nodes ?t \<subseteq> hashed_nodes t" using Inner(1) cs c'(5) by auto
      ultimately show ?thesis using Inner(1,2) by (auto simp del: wf_node.simps hashed_nodes.simps entries.simps)
    qed
  qed
qed

lemma invalidate_key_eq:
  fixes t :: "('p, 'v, 'm) snap_tree"
  shows "wf k t \<Longrightarrow> pvalid key \<Longrightarrow> trie_map P t key \<noteq> None \<Longrightarrow> snap_invalidate_to_key P key t = invalidate_hash_to_key_nolocks P key t"
proof (induction t rule: node_induct)
  case (Value v p l hv m h)
  then show ?case by (auto simp: snap_invalidate_to_key.simps invalidate_hash_to_key_nolocks.simps trie_map_Value split: if_splits)
next
  case (Children cs p l hv m h)
  from Children.prems(1) obtain d where d: "l = 4 * d" "4 * d < prefix_bits P" "branch k (take d (nib p)) cs" by (rule wf_ChildrenE)
  obtain c where c: "map_of cs (nib key ! d) = Some c" "trie_map P c key \<noteq> None"
    using Children.prems(3) trie_map_Children [OF Children.prems(1) [unfolded d(1)] Children.prems(2)] d(1) by (auto split: option.splits)
  have "snap_invalidate_to_key P key c = invalidate_hash_to_key_nolocks P key c"
    using Children.IH [OF map_of_SomeD [OF c(1)]] branch_child(1) [OF d(3) c(1)] Children.prems(2) c(2) by blast
  then show ?case
    using c(1) d(1,2) branch_bits_at [OF Children.prems(2) d(2)]
    by (simp add: snap_invalidate_to_key.simps invalidate_hash_to_key_nolocks.simps)
qed

text \<open>A key that is not in the trie fails an assertion.\<close>

lemma delete_value_absent:
  fixes t :: "('p, 'v, 'm) snap_tree"
  shows "wf k t \<Longrightarrow> pvalid key \<Longrightarrow> trie_map P t key = None \<Longrightarrow> delete_value P key t \<in> {throw ''mismatch'', throw ''must exist''}"
proof (induction t rule: node_induct)
  case (Value v p l hv m h)
  then show ?case by (auto simp: delete_value.simps trie_map_Value split: if_splits)
next
  case (Children cs p l hv m h)
  from Children.prems(1) obtain d where d: "l = 4 * d" "4 * d < prefix_bits P" "branch k (take d (nib p)) cs" by (rule wf_ChildrenE)
  note walk = trie_map_Children [OF Children.prems(1) [unfolded d(1)] Children.prems(2)] branch_bits_at [OF Children.prems(2) d(2)]
  show ?case
  proof (cases "map_of cs (nib key ! d)")
    case None
    then show ?thesis using walk(2) d(1,2) by (simp add: delete_value.simps)
  next
    case (Some c)
    have wc: "wf k c" using branch_child(1) [OF d(3) Some] .
    have none: "trie_map P c key = None" using walk(1) Some Children.prems(3) d(1) by simp
    have "delete_value P key c \<in> {throw ''mismatch'', throw ''must exist''}"
      using Children.IH [OF map_of_SomeD [OF Some] wc Children.prems(2) none] .
    moreover have "\<not> (tn_prefix_len c = prefix_bits P \<and> tn_prefix c = key)"
      using wc none by (cases c; cases "tn_children c") (auto simp: trie_map_Value)
    ultimately show ?thesis using walk(2) d(1,2) Some by (auto simp: delete_value.simps)
  qed
qed

lemma match_below:
  assumes "wf k n" "pvalid p" "4 * d < tn_prefix_len n" "take d (nib (tn_prefix n)) = take d (nib p)" "4 * d \<le> prefix_bits P"
  shows "get_prefix_match_len P p (4 * d) (tn_prefix n) (tn_prefix_len n) = 4 * d"
proof -
  obtain e where e: "tn_prefix_len n = 4 * e" "e \<le> prefix_bits P div 4" using wf_len [OF assms(1)] by (metis div_le_mono)
  have "length (take d (nib p)) = d" using assms(2,5) nib_length [of p] by simp
  then have "lcp (nib p) (nib (tn_prefix n)) \<ge> d"
    using prefix_le_lcp [of "take d (nib p)" "nib p" "nib (tn_prefix n)"] assms(4) by (metis take_is_prefix)
  then show ?thesis using match_len [of p "tn_prefix n" d e] assms e wf_prefix [OF assms(1)] by (simp add: min_def)
qed

lemma invalidate_node_eq:
  fixes t :: "('p, 'v, 'm) snap_tree"
  shows "wf k t \<Longrightarrow> n \<in> subnodes t \<Longrightarrow>
    snap_invalidate_to_node P (tn_prefix n) (tn_prefix_len n) t = invalidate_hash_to_node_nolocks P (tn_prefix n) (tn_prefix_len n) t"
proof (induction t rule: node_induct)
  case (Value v p l hv m h)
  then show ?case by (auto simp: snap_invalidate_to_node.simps invalidate_hash_to_node_nolocks.simps)
next
  case (Children cs p l hv m h)
  let ?t = "TrieNode (Children cs) p l hv m h"
  show ?case
  proof (cases "n = ?t")
    case True
    then show ?thesis by (simp add: snap_invalidate_to_node.simps invalidate_hash_to_node_nolocks.simps)
  next
    case False
    then obtain b c where c: "(b, c) \<in> set cs" "n \<in> subnodes c" using Children.prems(2) by auto
    from Children.prems(1) obtain d where d: "l = 4 * d" "4 * d < prefix_bits P" "branch k (take d (nib p)) cs" "length (take d (nib p)) = d" "pvalid p"
      by (rule wf_ChildrenE)
    note n = subnodes_below [OF d(3) c, unfolded d(4)]
    note nb = branch_nth [of "take d (nib p)" "nib (tn_prefix n)" b]
    have b: "nib (tn_prefix n) ! d = b" "take d (nib (tn_prefix n)) = take d (nib p)" using nb n(1) d(4) by simp_all
    have "get_prefix_match_len P p (4 * d) (tn_prefix n) (tn_prefix_len n) = 4 * d" using match_below [OF n(3) d(5) n(2) b(2)] d(2) by simp
    moreover have "map_of cs b = Some c" using map_of_sorted_iff [of cs b c] d(3) c(1) by (simp add: branch_ok_def)
    moreover have "get_branch_bits P (tn_prefix n) (4 * d) = Inr b" using branch_bits_at [OF wf_prefix [OF n(3)] d(2)] b(1) by simp
    moreover have "snap_invalidate_to_node P (tn_prefix n) (tn_prefix_len n) c = invalidate_hash_to_node_nolocks P (tn_prefix n) (tn_prefix_len n) c"
      using Children.IH [OF c(1) _ c(2)] d(3) c(1) by (auto simp: branch_ok_def)
    ultimately show ?thesis using d(1) n(2) by (simp add: snap_invalidate_to_node.simps invalidate_hash_to_node_nolocks.simps)
  qed
qed

end


section \<open>From the heap to the tree\<close>

text \<open>The subtree at an address of the heap; the fuel bounds its depth.\<close>

fun heap_tree :: "'p TriePrefix \<Rightarrow> nat \<Rightarrow> ('p, 'v, 'm) node_heap \<Rightarrow> nat \<Rightarrow> ('p, 'v, 'm) snap_tree res" where
  "heap_tree P 0 h a = throw ''fuel''"
| "heap_tree P (Suc fuel) h a =
     rbind (node_at h a) (\<lambda>n.
       if cn_is_leaf P n
       then Inr (TrieNode (Value (cn_value n)) (cn_prefix n) (cn_len n) (cn_hash_valid n) (cn_metadata n) (cn_hash n))
       else rbind (rfold (\<lambda>bb cs. case cn_children n bb of
                None \<Rightarrow> Inr cs
              | Some c \<Rightarrow> rbind (heap_tree P fuel h c) (\<lambda>t. Inr (cs @ [(bb, t)]))) [0..<16] [])
          (\<lambda>cs. Inr (TrieNode (Children cs) (cn_prefix n) (cn_len n) (cn_hash_valid n) (cn_metadata n) (cn_hash n))))"

declare heap_tree.simps [simp del]

text \<open>The value slots of the leaves below a node.\<close>

definition slot_val :: "'p TriePrefix \<Rightarrow> ('p \<Rightarrow> nat list) \<Rightarrow> ('p, 'v, 'm) node_heap \<Rightarrow> nat list \<Rightarrow> 'v option \<Rightarrow> bool" where
  "slot_val P nib h p v \<longleftrightarrow> (\<exists>a n. h a = Some n \<and> cn_is_leaf P n \<and> cn_path nib n = p \<and> cn_value n = v)"

lemma rfold_children:
  assumes "\<And>bb c. bb \<in> set bs \<Longrightarrow> ch bb = Some c \<Longrightarrow> f c = Inr (g c)"
  shows "rfold (\<lambda>bb cs. case ch bb of None \<Rightarrow> Inr cs | Some c \<Rightarrow> rbind (f c) (\<lambda>t. Inr (cs @ [(bb, t)]))) bs cs =
    Inr (cs @ List.map_filter (\<lambda>bb. map_option (\<lambda>c. (bb, g c)) (ch bb)) bs)"
  using assms
proof (induction bs arbitrary: cs)
  case (Cons b bs)
  have "f c = Inr (g c)" if "ch b = Some c" for c by (rule Cons.prems [OF _ that]) simp
  moreover have "f c = Inr (g c)" if "bb \<in> set bs" "ch bb = Some c" for bb c by (rule Cons.prems [OF _ that(2)]) (simp add: that(1))
  note Cons.IH [OF this]
  ultimately show ?case by (cases "ch b") (auto simp: List.map_filter_simps)
qed (simp add: List.map_filter_simps)

lemma map_filter_keys:
  "set (List.map_filter (\<lambda>bb. map_option (\<lambda>c. (bb, g c)) (ch bb)) bs) = {(bb, g c) |bb c. bb \<in> set bs \<and> ch bb = Some c}"
  "sorted_wrt (<) bs \<Longrightarrow> sorted_keys (List.map_filter (\<lambda>bb. map_option (\<lambda>c. (bb, g c)) (ch bb)) (bs :: nat list))"
proof -
  show set: "set (List.map_filter (\<lambda>bb. map_option (\<lambda>c. (bb, g c)) (ch bb)) bs) = {(bb, g c) |bb c. bb \<in> set bs \<and> ch bb = Some c}" for bs
    by (induction bs) (auto simp: List.map_filter_simps split: option.splits)
  show "sorted_keys (List.map_filter (\<lambda>bb. map_option (\<lambda>c. (bb, g c)) (ch bb)) bs)" if "sorted_wrt (<) bs"
    using that
  proof (induction bs)
    case (Cons b bs)
    then show ?case using set [of bs] by (cases "ch b") (auto simp: List.map_filter_simps)
  qed (simp add: List.map_filter_simps)
qed

context trie_prefix
begin

text \<open>The tree at an address is well formed, holds the values of the leaves below the address, and its flags are those of the heap.\<close>

definition tree_of :: "('p, 'v, 'm) node_heap \<Rightarrow> nat \<Rightarrow> ('p, 'v, 'm) snap_tree \<Rightarrow> bool" where
  "tree_of h a t \<longleftrightarrow> wf 0 t \<and> (\<exists>n. h a = Some n \<and> tn_prefix t = cn_prefix n \<and> tn_prefix_len t = cn_len n \<and>
     (\<forall>k v. pvalid k \<longrightarrow> (trie_map P t k = Some v \<longleftrightarrow> prefix (path_of n) (nib k) \<and> slot_val P nib h (nib k) v))) \<and>
     (\<forall>x \<in> hashed_nodes t. \<exists>b n. h b = Some n \<and> cn_hash_valid n \<and> cn_prefix n = tn_prefix x \<and> cn_len n = tn_prefix_len x)"

lemma slot_val_leaf:
  assumes h: "hok root h" "h a = Some n" "cn_is_leaf P n"
  shows "slot_val P nib h (path_of n) v \<longleftrightarrow> v = cn_value n"
  using path_inject [OF h(1,2)] h(2,3) by (auto simp: slot_val_def)

lemma tree_of_leaf:
  assumes h: "hok root h" "h a = Some n" and leaf: "cn_is_leaf P n"
  shows "tree_of h a (TrieNode (Value (cn_value n)) (cn_prefix n) (cn_len n) (cn_hash_valid n) (cn_metadata n) (cn_hash n))"
proof -
  have l: "cn_len n = prefix_bits P" "pvalid (cn_prefix n)" using leaf hokD(1) [OF h] by (auto simp: cn_is_leaf_def cn_ok_def)
  then have p: "path_of n = nib (cn_prefix n)" using nib_length [of "cn_prefix n"] by (simp add: cn_path_def)
  have "prefix (path_of n) (nib k) \<longleftrightarrow> k = cn_prefix n" if "pvalid k" for k
    using that l(2) nib_length nib_inject [of k "cn_prefix n"] unfolding p by (metis not_equal_is_parallel parallelD1 prefix_order.order_refl)
  then show ?thesis using l h(2) slot_val_leaf [OF h leaf] p by (auto simp: tree_of_def trie_map_Value)
qed

lemma child_node:
  assumes h: "hok root h" "h a = Some n" and c: "cn_children n bb = Some c"
  shows "bb < 16" "\<exists>m. h c = Some m \<and> cn_ok P pvalid nib m \<and> prefix (path_of n @ [bb]) (path_of m) \<and> length (path_of n) < length (path_of m)"
proof -
  obtain m where m: "h c = Some m" "prefix (path_of n @ [bb]) (path_of m)"
    using children_extendD [of "heap_shape nib h" a "path_of n" "cn_children n", OF _ hokD(2) [OF h] c] h(1)
    by (auto simp: heap_ok_def shape_ok_def heap_shape_def)
  then show "\<exists>m. h c = Some m \<and> cn_ok P pvalid nib m \<and> prefix (path_of n @ [bb]) (path_of m) \<and> length (path_of n) < length (path_of m)"
    using hokD(1) [OF h(1)] prefix_length_le [OF m(2)] by auto
  have "bb \<in> set (path_of m)" using m(2) set_mono_prefix [OF m(2)] by simp
  then have "bb \<in> set (nib (cn_prefix m))" unfolding cn_path_def by (rule in_set_takeD)
  then show "bb < 16" using hokD(1) [OF h(1) m(1)] nib_bound [of "cn_prefix m"] by (auto simp: cn_ok_def)
qed

lemma tree_of_inner:
  assumes h: "hok root h" "h a = Some n" and inner: "\<not> cn_is_leaf P n" and sub: "\<And>bb c. cn_children n bb = Some c \<Longrightarrow> tree_of h c (g c)"
    and bs: "sorted_wrt (<) bs" "set bs = {..<16}"
  shows "tree_of h a (TrieNode (Children (List.map_filter (\<lambda>bb. map_option (\<lambda>c. (bb, g c)) (cn_children n bb)) bs))
    (cn_prefix n) (cn_len n) (cn_hash_valid n) (cn_metadata n) (cn_hash n))" (is "tree_of h a (TrieNode (Children ?cs) ?p _ ?hv ?m ?h)")
proof -
  let ?d = "length (path_of n)"
  note ok = hokD(1) [OF h]
  note len = cn_len_path [OF ok]
  have lt: "4 * ?d < prefix_bits P" using len inner bits_eq by auto
  have p: "path_of n = take ?d (nib ?p)" using len(1) unfolding cn_path_def by (simp add: min_def)
  have set: "set ?cs = {(bb, g c) |bb c. cn_children n bb = Some c}" using child_node(1) [OF h] by (auto simp: map_filter_keys(1) bs(2))
  have sorted: "sorted_keys ?cs" by (rule map_filter_keys(2) [OF bs(1)])
  have kid: "wf 0 (g c) \<and> 4 * ?d < tn_prefix_len (g c) \<and> take (Suc ?d) (nib (tn_prefix (g c))) = path_of n @ [bb]"
    if c: "cn_children n bb = Some c" for bb c
  proof -
    obtain m where m: "h c = Some m" "cn_ok P pvalid nib m" "prefix (path_of n @ [bb]) (path_of m)" "?d < length (path_of m)"
      using child_node(2) [OF h c] by blast
    have t: "wf 0 (g c)" "tn_prefix (g c) = cn_prefix m" "tn_prefix_len (g c) = 4 * length (path_of m)"
      using sub [OF c] m(1) cn_len_path(1) [OF m(2)] by (auto simp: tree_of_def)
    have "prefix (path_of n @ [bb]) (nib (cn_prefix m))" using m(3) unfolding cn_path_def [of nib m] by (meson prefix_order.trans take_is_prefix)
    then show ?thesis using t m(4) by (auto simp: prefix_def)
  qed
  then have br: "branch 0 (take ?d (nib ?p)) ?cs" using set sorted p by (auto simp: branch_ok_def)
  have wt: "wf 0 (TrieNode (Children ?cs) ?p (4 * ?d) ?hv ?m ?h)"
    unfolding wf_Children using br lt ok inner len(1) by (auto simp: cn_ok_def)
  have find: "map_of ?cs bb = map_option g (cn_children n bb)" for bb
    using map_of_sorted_iff [OF sorted, of bb] set by (cases "cn_children n bb"; cases "map_of ?cs bb") auto
  have links: "paths_linked (heap_shape nib h)" using h(1) by (simp add: heap_ok_def shape_ok_def)
  have "trie_map P (TrieNode (Children ?cs) ?p (4 * ?d) ?hv ?m ?h) k = Some v \<longleftrightarrow> prefix (path_of n) (nib k) \<and> slot_val P nib h (nib k) v"
    if k: "pvalid k" for k v
  proof -
    have c: "trie_map P (g c) k = Some v \<longleftrightarrow> (\<exists>m. h c = Some m \<and> prefix (path_of m) (nib k)) \<and> slot_val P nib h (nib k) v"
      if "cn_children n bb = Some c" for bb c using sub [OF that] k by (auto simp: tree_of_def)
    have "prefix (path_of n) (nib k)" if "cn_children n bb = Some c" "h c = Some m" "prefix (path_of m) (nib k)" for bb c m
      using child_node(2) [OF h that(1)] that(2,3) by (metis append_prefixD option.inject prefix_order.trans)
    moreover have "\<exists>c m. cn_children n (nib k ! ?d) = Some c \<and> h c = Some m \<and> prefix (path_of m) (nib k)"
      if v: "prefix (path_of n) (nib k)" "slot_val P nib h (nib k) v"
    proof -
      obtain b x where b: "h b = Some x" "path_of x = nib k" using v(2) by (auto simp: slot_val_def)
      have "strict_prefix (path_of n) (nib k)" using v(1) lt nib_length [OF k] bits_eq by (auto simp: strict_prefix_def)
      then show ?thesis
        using paths_linkedD [OF links hokD(2) [OF h] hokD(2) [OF h(1) b(1)]] b(2) by (fastforce simp: heap_shape_def)
    qed
    ultimately show ?thesis
      using c [of "nib k ! ?d"] trie_map_Children [OF wt k] find by (cases "cn_children n (nib k ! ?d)") auto
  qed
  moreover have "\<exists>b n. h b = Some n \<and> cn_hash_valid n \<and> cn_prefix n = tn_prefix x \<and> cn_len n = tn_prefix_len x"
    if x: "x \<in> hashed_nodes (TrieNode (Children ?cs) ?p (4 * ?d) ?hv ?m ?h)" for x
  proof (cases "cn_hash_valid n \<and> x = TrieNode (Children ?cs) ?p (4 * ?d) ?hv ?m ?h")
    case True
    then show ?thesis using h(2) len(1) by auto
  next
    case False
    then obtain bb c where "cn_children n bb = Some c" "x \<in> hashed_nodes (g c)" using x set by (auto split: if_splits)
    then show ?thesis using sub unfolding tree_of_def by blast
  qed
  ultimately show ?thesis using wt h(2) len(1) by (auto simp: tree_of_def simp del: wf_node.simps hashed_nodes.simps)
qed

theorem heap_tree_correct:
  assumes "hok root h"
  shows "h a = Some n \<Longrightarrow> prefix_bits P div 4 < length (path_of n) + fuel \<Longrightarrow> \<exists>t. heap_tree P fuel h a = Inr t \<and> tree_of h a t"
proof (induction fuel arbitrary: a n)
  case 0
  then show ?case using cn_len_path(2) [OF hokD(1) [OF assms 0(1)]] by simp
next
  case (Suc fuel)
  show ?case
  proof (cases "cn_is_leaf P n")
    case True
    then show ?thesis using tree_of_leaf [OF assms Suc.prems(1)] Suc.prems(1) by (simp add: heap_tree.simps node_at_def)
  next
    case False
    define bs :: "nat list" where "bs = [0..<16]"
    have bs: "sorted_wrt (<) bs" "set bs = {..<16}" by (auto simp: bs_def simp del: upt_rec_numeral)
    let ?g = "\<lambda>c. projr (heap_tree P fuel h c)"
    have g: "heap_tree P fuel h c = Inr (?g c) \<and> tree_of h c (?g c)" if "cn_children n bb = Some c" for bb c
      using child_node(2) [OF assms Suc.prems(1) that] Suc.IH Suc.prems(2) by fastforce
    have "rfold (\<lambda>bb cs. case cn_children n bb of None \<Rightarrow> Inr cs | Some c \<Rightarrow> rbind (heap_tree P fuel h c) (\<lambda>t. Inr (cs @ [(bb, t)]))) bs [] =
        Inr ([] @ List.map_filter (\<lambda>bb. map_option (\<lambda>c. (bb, ?g c)) (cn_children n bb)) bs)"
      by (rule rfold_children) (use g in blast)
    then show ?thesis
      using tree_of_inner [OF assms Suc.prems(1) False _ bs, of ?g] g Suc.prems(1) False
      by (simp add: heap_tree.simps node_at_def bs_def [symmetric] del: upt_rec_numeral)
  qed
qed

lemma run_unflagged:
  assumes h: "hok root h" "\<forall>a n. h a = Some n \<longrightarrow> \<not> cn_hash_valid n" and acts: "\<And>act. act \<in> set acts \<Longrightarrow> op_ok P pvalid act"
    and run: "amt_run P F (h, amt_threads root acts) sched s"
  shows "\<forall>a n. fst s a = Some n \<longrightarrow> \<not> cn_hash_valid n"
  using run
proof (induction rule: amt_run.induct)
  case (amt_run_snoc sched s' i s'')
  obtain h' ts where s': "s' = (h', ts)" by (cases s')
  have "mach_ok root (h', ts)" using run_ok [OF start_ok [OF h(1) acts] amt_run_snoc(1)] s' by simp
  then show ?case
    using amt_run_snoc(2) unfolding s'
  proof (cases rule: step_elim)
    case (1 act pc h2 pc2)
    then show ?thesis using move_flags [OF 1(7)] amt_run_snoc.IH s' by (fastforce simp: flags_mono_def)
  qed
qed (use h(2) in simp)

text \<open>What a finished run leaves, when its operations commute: the result of any order.\<close>

lemma run_commuting:
  assumes h: "hok root h" and acts: "\<And>act. act \<in> set acts \<Longrightarrow> op_ok P pvalid act"
    and run: "amt_run P F (h, amt_threads root acts) sched (h', ts)" and ret: "\<And>i. i < length ts \<Longrightarrow> returned ts i"
    and m: "vals_are pvalid nib h m"
    and comm: "\<And>x y. x \<in> set acts \<Longrightarrow> y \<in> set acts \<Longrightarrow> apply_op F x \<circ> apply_op F y = apply_op F y \<circ> apply_op F x"
  shows "vals_are pvalid nib h' (fold (apply_op F) acts m)"
proof -
  have look: "amt_get_value P (Suc (prefix_bits P div 4)) h root k = Inr (m k)" if "pvalid k" for k
    using get_value_vals [OF h m that] by simp
  have sched: "set sched = {..<length acts}" by (rule run_values(1) [OF h acts run ret look zero_valid])
  have "amt_get_value P (Suc (prefix_bits P div 4)) h' root k = Inr (fold (\<lambda>i. apply_op F (acts ! i)) (remdups sched) m k)" if "pvalid k" for k
    by (rule run_values(2) [OF h acts run ret look that])
  then have "vals_are pvalid nib h' (fold (\<lambda>i. apply_op F (acts ! i)) (remdups sched) m)"
    using vals_from_lookup [OF run_result(1) [OF h acts run], where fuel = "Suc (prefix_bits P div 4)"] by simp
  moreover have "mset (map ((!) acts) (remdups sched)) = mset acts"
  proof -
    have "mset (remdups sched) = mset [0..<length acts]"
      using sched by (subst set_eq_iff_mset_eq_distinct [symmetric]) (auto simp: atLeast0LessThan)
    then have "mset (map ((!) acts) (remdups sched)) = mset (map ((!) acts) [0..<length acts])" by simp
    then show ?thesis by (simp only: map_nth)
  qed
  then have "fold (apply_op F) (map ((!) acts) (remdups sched)) = fold (apply_op F) acts"
    by (intro fold_multiset_equiv) (use comm in \<open>auto simp flip: set_mset_mset\<close>)
  ultimately show ?thesis by (simp add: fold_map comp_def)
qed

end

text \<open>The entries a map leaves after normalisation.\<close>

definition live_ref :: "('v, 'm) SnapEnv \<Rightarrow> ('p \<rightharpoonup> 'v) \<Rightarrow> 'p \<rightharpoonup> 'v option" where
  "live_ref S m k = (case m k of None \<Rightarrow> None | Some v \<Rightarrow> if has_value_f S v then Some (Some v) else None)"

context snapshot_hash
begin

lemma set_live: "wf k t \<Longrightarrow> map_of (live t) q = Some w \<longleftrightarrow> trie_map P t q = Some w \<and> has_logical_value S w"
proof -
  assume "wf k t"
  then have "distinct (map fst (entries P t))" by (rule entries_distinct)
  then have "distinct (map fst (live t))" unfolding live_entries_def by (rule distinct_map_filter)
  then show ?thesis using set_entries [OF \<open>wf k t\<close>, of q w] by (auto simp: live_entries_def)
qed

text \<open>The trie on the heap of a quiescent state without cached hashes: hashing gives the hash of the map it stores.\<close>

theorem heap_hash:
  fixes h :: "('p, 'v, 'm) node_heap"
  assumes h: "hok root h" "\<forall>a n. h a = Some n \<longrightarrow> \<not> cn_hash_valid n" and m: "vals_are pvalid nib h m"
  shows "\<exists>t. heap_tree P (Suc (prefix_bits P div 4)) h root = Inr t \<and> sok t \<and> tn_prefix_len t = 0 \<and>
    (\<forall>k. map_of (live t) k = (if pvalid k then live_ref S m k else None))"
proof -
  obtain n where n: "h root = Some n" "path_of n = []" using h(1) by (auto simp: heap_ok_def shape_ok_def heap_shape_def)
  obtain t where t: "heap_tree P (Suc (prefix_bits P div 4)) h root = Inr t" "tree_of h root t"
    using heap_tree_correct [OF h(1) n(1), of "Suc (prefix_bits P div 4)"] n(2) by auto
  have w: "wf 0 t" "tn_prefix_len t = 0" using t(2) n cn_len_path(1) [OF hokD(1) [OF h(1) n(1)]] by (auto simp: tree_of_def)
  moreover have "hashed_nodes t = {}" using t(2) h(2) by (fastforce simp: tree_of_def)
  moreover have "map_of (live t) k = (if pvalid k then live_ref S m k else None)" for k
  proof (cases "pvalid k")
    case True
    have "trie_map P t k = Some (Some v) \<longleftrightarrow> m k = Some v" for v
    proof -
      have "slot_val P nib h (nib k) (Some v) \<longleftrightarrow> val_at nib h (nib k) v"
        using hokD(1) [OF h(1)] cn_len_path(3) nib_length [OF True] by (fastforce simp: slot_val_def val_at_def)
      then show ?thesis using t(2) n m True by (auto simp: tree_of_def vals_are_def)
    qed
    then have "map_of (live t) k = Some x \<longleftrightarrow> live_ref S m k = Some x" for x
      unfolding set_live [OF w(1)] by (cases x; cases "m k") (auto simp: live_ref_def has_logical_value_def)
    then show ?thesis using True by (metis option.exhaust)
  next
    case False
    then have "map_of (live t) k \<noteq> Some x" for x using set_live [OF w(1)] trie_map_covers [OF w(1)] by blast
    then show ?thesis using False by auto
  qed
  ultimately show ?thesis using t(1) by (auto simp: snap_ok_def)
qed

theorem run_hash:
  fixes h1 h2 :: "('p, 'v, 'm) node_heap"
  assumes h1: "hok root1 h1" "\<forall>a n. h1 a = Some n \<longrightarrow> \<not> cn_hash_valid n" "vals_are pvalid nib h1 m1"
    and h2: "hok root2 h2" "\<forall>a n. h2 a = Some n \<longrightarrow> \<not> cn_hash_valid n" "vals_are pvalid nib h2 m2"
    and eq: "\<And>k. pvalid k \<Longrightarrow> live_ref S m1 k = live_ref S m2 k"
  shows "\<exists>t1 t2 hash t1' t2'. heap_tree P (Suc (prefix_bits P div 4)) h1 root1 = Inr t1 \<and> heap_tree P (Suc (prefix_bits P div 4)) h2 root2 = Inr t2 \<and>
    hash_and_normalize P B E S t1 = Inr (hash, t1') \<and> hash_and_normalize P B E S t2 = Inr (hash, t2') \<and> strip t1' = strip t2'"
proof -
  obtain t1 t2 where t: "heap_tree P (Suc (prefix_bits P div 4)) h1 root1 = Inr t1" "sok t1" "tn_prefix_len t1 = 0"
      "heap_tree P (Suc (prefix_bits P div 4)) h2 root2 = Inr t2" "sok t2" "tn_prefix_len t2 = 0" "map_of (live t1) = map_of (live t2)"
    using heap_hash [OF h1] heap_hash [OF h2] eq by (auto simp: fun_eq_iff)
  then show ?thesis using hash_agree [OF t(2,3,5,6,7)] by blast
qed

theorem commuting_runs:
  fixes h h' :: "('p, 'v, 'm) node_heap"
  assumes acts: "\<And>act. act \<in> set acts \<Longrightarrow> op_ok P pvalid act"
    and comm: "\<And>x y. x \<in> set acts \<Longrightarrow> y \<in> set acts \<Longrightarrow> apply_op F x \<circ> apply_op F y = apply_op F y \<circ> apply_op F x"
    and run: "amt_run P F ([root \<mapsto> amt_root P], amt_threads root acts) sched (h, ts)" "\<And>i. i < length ts \<Longrightarrow> returned ts i"
    and same: "mset acts' = mset acts"
    and run': "amt_run P F ([root' \<mapsto> amt_root P], amt_threads root' acts') sched' (h', ts')" "\<And>i. i < length ts' \<Longrightarrow> returned ts' i"
  shows "\<exists>t t' hash n n'. heap_tree P (Suc (prefix_bits P div 4)) h root = Inr t \<and> heap_tree P (Suc (prefix_bits P div 4)) h' root' = Inr t' \<and>
    hash_and_normalize P B E S t = Inr (hash, n) \<and> hash_and_normalize P B E S t' = Inr (hash, n') \<and> strip n = strip n'"
proof -
  have set: "set acts' = set acts" using same by (rule mset_eq_setD)
  have acts': "op_ok P pvalid act" if "act \<in> set acts'" for act using acts that set by simp
  have comm': "apply_op F x \<circ> apply_op F y = apply_op F y \<circ> apply_op F x" if "x \<in> set acts'" "y \<in> set acts'" for x y
    using comm that set by simp
  have flags: "\<forall>a n. [r \<mapsto> amt_root P] a = Some (n :: ('p, 'v, 'm) AtomicMerkleTrieNode) \<longrightarrow> \<not> cn_hash_valid n" for r :: nat
    by (simp add: amt_root_def)
  have "fold (apply_op F) acts' = fold (apply_op F) acts" by (rule fold_multiset_equiv) (use comm' same in auto)
  then have vals: "vals_are pvalid nib h (fold (apply_op F) acts Map.empty)" "vals_are pvalid nib h' (fold (apply_op F) acts Map.empty)"
    using run_commuting [OF root_ok acts run root_vals comm] run_commuting [OF root_ok acts' run' root_vals comm'] by simp_all
  show ?thesis
    by (rule run_hash [OF run_result(1) [OF root_ok acts run(1)] _ vals(1) run_result(1) [OF root_ok acts' run'(1)] _ vals(2)])
      (use run_unflagged [OF root_ok flags acts run(1)] run_unflagged [OF root_ok flags acts' run'(1)] in auto)
qed

end

text \<open>Deletion and invalidation keep every cached hash that is still marked valid right.\<close>

context snapshot_hash
begin

lemma snap_ok_sub: "sok t \<Longrightarrow> wf 0 t' \<Longrightarrow> hashed_nodes t' \<subseteq> hashed_nodes t \<Longrightarrow> sok t'"
  by (auto simp: snap_ok_def)

lemma delete_ok:
  assumes "sok t" "pvalid key" "tn_prefix_len t < prefix_bits P"
  shows "case trie_map P t key of
      None \<Rightarrow> delete_value P key t \<in> {throw ''mismatch'', throw ''must exist''}
    | Some v \<Rightarrow> \<exists>t'. delete_value P key t = Inr t' \<and> sok t' \<and> tn_prefix_len t' = tn_prefix_len t \<and>
        entries P t' = filter (\<lambda>(q, v). q \<noteq> key) (entries P t)"
proof (cases "trie_map P t key")
  case None
  then show ?thesis using delete_value_absent [of 0 t key] assms by (simp add: snap_ok_def)
next
  case (Some v)
  then have "\<exists>t'. delete_value P key t = Inr t' \<and> sok t' \<and> tn_prefix_len t' = tn_prefix_len t \<and>
      entries P t' = filter (\<lambda>(q, v). q \<noteq> key) (entries P t)"
    using delete_value_correct [of t key] snap_ok_sub assms by (auto simp: snap_ok_def)
  then show ?thesis using Some by simp
qed

lemma invalidate_key_ok:
  assumes "sok t" "pvalid key" "trie_map P t key \<noteq> None"
  shows "\<exists>t'. snap_invalidate_to_key P key t = Inr t' \<and> sok t' \<and> entries P t' = entries P t \<and> (\<forall>x \<in> hashed_nodes t'. \<not> covers nib x key)"
proof -
  have w: "wf 0 t" using assms(1) by (simp add: snap_ok_def)
  obtain t' where "invalidate_hash_to_key_nolocks P key t = Inr t'" "wf 0 t'" "leaves P t' = leaves P t"
      "hashed_nodes t' \<subseteq> hashed_nodes t" "\<forall>x \<in> hashed_nodes t'. \<not> covers nib x key"
    using invalidate_key_correct [OF w assms(2,3)] by blast
  then show ?thesis using invalidate_key_eq [OF w assms(2,3)] snap_ok_sub [OF assms(1)] by (auto simp: entries_leaves)
qed

end

section \<open>The environment of 64-bit prefixes\<close>

text \<open>Metadata whose \<^verbatim>\<open>from_value\<close> is a function of the value alone, as in \<^verbatim>\<open>SnapshotTrieMetadataBase\<close> and its extensions.\<close>

definition snap_env :: "('v \<Rightarrow> bool) \<Rightarrow> ('v \<Rightarrow> 'm) \<Rightarrow> ('m \<Rightarrow> byte list) \<Rightarrow> ('v, 'm) SnapEnv" where
  "snap_env hv f wr = \<lparr> has_value_f = hv, from_value = (\<lambda>_ v. f v), write_to = wr \<rparr>"

interpretation u64_snap: snapshot_hash UInt64Prefix_ops "\<lambda>_. True" UInt64_nib word16_ops "\<lambda>w. set (word16_bits w)"
    "UInt64_hash_env H be16 be64 bvw copy" H "snap_env hv f wr"
  for H be16 be64 bvw copy hv f wr
  by unfold_locales (simp add: snap_env_def)

end
