(* ===== verification/EphemeralAlloc.thy ===== *)
theory EphemeralAlloc
  imports Prelude
begin

text \<open>
  \<^verbatim>\<open>ephemeral_trie/allocator.h\<close>: nodes and values live in arrays of \<open>2 ^ b\<close> slots, at most \<open>2 ^ n\<close> of each kind, and are named by 32-bit words,
  the number of the array followed by \<open>b\<close> bits of offset.  Each thread has a context that hands out consecutive slots of an array of its own and asks
  for a new array when this one is full.  The main result: no slot is handed out twice, every word that is handed out
  names a slot of an array that exists, and none is the null word.
\<close>

unbundle bit_operations_syntax

section \<open>Operations\<close>

definition BUF_SIZE :: "nat \<Rightarrow> nat" where
  "BUF_SIZE b = 2 ^ b"

definition NUM_BUFFERS :: "nat \<Rightarrow> nat" where
  "NUM_BUFFERS n = 2 ^ n"

definition OFFSET_MASK :: "nat \<Rightarrow> 32 word" where
  "OFFSET_MASK b = push_bit b 1 - 1"

text \<open>One kind of arrays: the atomic counter and the arrays that have been created.\<close>

record buffer_pool =
  bp_next :: "32 word"
  bp_buffers :: "nat set"

record EphemeralTrieNodeAllocator =
  node_pool :: buffer_pool
  value_pool :: buffer_pool

record EphemeralTrieNodeAllocationContext =
  cur_buffer_offset_and_index :: "32 word"
  value_buffer_offset_and_index :: "32 word"

definition overflow_check :: "nat \<Rightarrow> 32 word \<Rightarrow> nat \<Rightarrow> bool" where
  "overflow_check b offset_and_index new_allocs = (unat ((offset_and_index AND OFFSET_MASK b) + word_of_nat new_allocs) \<ge> BUF_SIZE b)"

text \<open>The counter is incremented also when the arrays are used up.\<close>

definition claim_buffer :: "nat \<Rightarrow> string \<Rightarrow> buffer_pool \<Rightarrow> 32 word res \<times> buffer_pool" where
  "claim_buffer n msg p =
     (let idx = bp_next p; p1 = p\<lparr>bp_next := idx + 1\<rparr> in
      if unat idx \<ge> NUM_BUFFERS n then (throw msg, p1)
      else (Inr idx, p1\<lparr>bp_buffers := insert (unat idx) (bp_buffers p1)\<rparr>))"

abbreviation node_msg :: string where
  "node_msg \<equiv> ''used up all allocation buffers!!!''"

abbreviation value_msg :: string where
  "value_msg \<equiv> ''used up all value buffers''"

definition get_new_allocator ::
    "nat \<Rightarrow> nat \<Rightarrow> EphemeralTrieNodeAllocator \<Rightarrow> EphemeralTrieNodeAllocationContext res \<times> EphemeralTrieNodeAllocator" where
  "get_new_allocator b n al =
     (case claim_buffer n node_msg (node_pool al) of
        (Inl e, p) \<Rightarrow> (Inl e, al\<lparr>node_pool := p\<rparr>)
      | (Inr idx, p) \<Rightarrow>
          (case claim_buffer n value_msg (value_pool al) of
             (Inl e, q) \<Rightarrow> (Inl e, al\<lparr>node_pool := p, value_pool := q\<rparr>)
           | (Inr value_buffer_idx, q) \<Rightarrow>
               (Inr \<lparr> cur_buffer_offset_and_index = push_bit b idx, value_buffer_offset_and_index = push_bit b value_buffer_idx \<rparr>,
                al\<lparr>node_pool := p, value_pool := q\<rparr>)))"

definition assign_new_buffer ::
    "nat \<Rightarrow> nat \<Rightarrow> EphemeralTrieNodeAllocationContext \<Rightarrow> EphemeralTrieNodeAllocator \<Rightarrow>
     EphemeralTrieNodeAllocationContext res \<times> EphemeralTrieNodeAllocator" where
  "assign_new_buffer b n context al =
     (case claim_buffer n node_msg (node_pool al) of
        (Inl e, p) \<Rightarrow> (Inl e, al\<lparr>node_pool := p\<rparr>)
      | (Inr idx, p) \<Rightarrow> (Inr (context\<lparr>cur_buffer_offset_and_index := push_bit b idx\<rparr>), al\<lparr>node_pool := p\<rparr>))"

definition assign_new_value_buffer ::
    "nat \<Rightarrow> nat \<Rightarrow> EphemeralTrieNodeAllocationContext \<Rightarrow> EphemeralTrieNodeAllocator \<Rightarrow>
     EphemeralTrieNodeAllocationContext res \<times> EphemeralTrieNodeAllocator" where
  "assign_new_value_buffer b n context al =
     (case claim_buffer n value_msg (value_pool al) of
        (Inl e, p) \<Rightarrow> (Inl e, al\<lparr>value_pool := p\<rparr>)
      | (Inr idx, p) \<Rightarrow> (Inr (context\<lparr>value_buffer_offset_and_index := push_bit b idx\<rparr>), al\<lparr>value_pool := p\<rparr>))"

definition allocate ::
    "nat \<Rightarrow> nat \<Rightarrow> nat \<Rightarrow> EphemeralTrieNodeAllocationContext \<Rightarrow> EphemeralTrieNodeAllocator \<Rightarrow>
     32 word res \<times> EphemeralTrieNodeAllocationContext \<times> EphemeralTrieNodeAllocator" where
  "allocate b n num_nodes context al =
     (case (if overflow_check b (cur_buffer_offset_and_index context) num_nodes then assign_new_buffer b n context al else (Inr context, al)) of
        (Inl e, al') \<Rightarrow> (Inl e, context, al')
      | (Inr c, al') \<Rightarrow>
          (Inr (cur_buffer_offset_and_index c),
           c\<lparr>cur_buffer_offset_and_index := cur_buffer_offset_and_index c + word_of_nat num_nodes\<rparr>, al'))"

definition allocate_value ::
    "nat \<Rightarrow> nat \<Rightarrow> EphemeralTrieNodeAllocationContext \<Rightarrow> EphemeralTrieNodeAllocator \<Rightarrow>
     32 word res \<times> EphemeralTrieNodeAllocationContext \<times> EphemeralTrieNodeAllocator" where
  "allocate_value b n context al =
     (case (if overflow_check b (value_buffer_offset_and_index context) 1 then assign_new_value_buffer b n context al else (Inr context, al)) of
        (Inl e, al') \<Rightarrow> (Inl e, context, al')
      | (Inr c, al') \<Rightarrow>
          (Inr (value_buffer_offset_and_index c),
           c\<lparr>value_buffer_offset_and_index := value_buffer_offset_and_index c + 1\<rparr>, al'))"

text \<open>\<^verbatim>\<open>get_object\<close> and \<^verbatim>\<open>get_value\<close>: the array and the offset; an array that does not exist would be undefined behaviour.\<close>

definition get_slot :: "nat \<Rightarrow> buffer_pool \<Rightarrow> 32 word \<Rightarrow> (nat \<times> nat) res" where
  "get_slot b p ptr =
     (let idx = unat (drop_bit b ptr); offset = unat (ptr AND OFFSET_MASK b) in
      if idx \<in> bp_buffers p \<and> offset < BUF_SIZE b then Inr (idx, offset) else throw ''undefined'')"

definition reset :: "EphemeralTrieNodeAllocator \<Rightarrow> EphemeralTrieNodeAllocator" where
  "reset al = al\<lparr>node_pool := (node_pool al)\<lparr>bp_next := 0\<rparr>, value_pool := (value_pool al)\<lparr>bp_next := 0\<rparr>\<rparr>"

definition empty_allocator :: EphemeralTrieNodeAllocator where
  "empty_allocator = \<lparr> node_pool = \<lparr> bp_next = 0, bp_buffers = {} \<rparr>, value_pool = \<lparr> bp_next = 0, bp_buffers = {} \<rparr> \<rparr>"

section \<open>Sequences of requests\<close>

text \<open>The contexts share the allocator.  A state also records the words handed out.\<close>

datatype alloc_request = New_Context | Allocate nat nat | Allocate_Value nat

record alloc_state =
  as_allocator :: EphemeralTrieNodeAllocator
  as_contexts :: "EphemeralTrieNodeAllocationContext list"
  as_nodes :: "32 word list"
  as_values :: "32 word list"

fun alloc_step :: "nat \<Rightarrow> nat \<Rightarrow> alloc_request \<Rightarrow> alloc_state \<Rightarrow> alloc_state" where
  "alloc_step b n New_Context s =
     (case get_new_allocator b n (as_allocator s) of
        (Inl e, al) \<Rightarrow> s\<lparr>as_allocator := al\<rparr>
      | (Inr c, al) \<Rightarrow> s\<lparr>as_allocator := al, as_contexts := as_contexts s @ [c]\<rparr>)"
| "alloc_step b n (Allocate i k) s =
     (if i < length (as_contexts s) then
        case allocate b n k (as_contexts s ! i) (as_allocator s) of (r, c, al) \<Rightarrow>
          s\<lparr>as_allocator := al, as_contexts := (as_contexts s)[i := c],
            as_nodes := (case r of Inl e \<Rightarrow> as_nodes s | Inr p \<Rightarrow> as_nodes s @ map (\<lambda>j. p + word_of_nat j) [0..<k])\<rparr>
      else s)"
| "alloc_step b n (Allocate_Value i) s =
     (if i < length (as_contexts s) then
        case allocate_value b n (as_contexts s ! i) (as_allocator s) of (r, c, al) \<Rightarrow>
          s\<lparr>as_allocator := al, as_contexts := (as_contexts s)[i := c],
            as_values := (case r of Inl e \<Rightarrow> as_values s | Inr p \<Rightarrow> as_values s @ [p])\<rparr>
      else s)"

definition alloc_start :: "EphemeralTrieNodeAllocator \<Rightarrow> alloc_state" where
  "alloc_start al = \<lparr> as_allocator = al, as_contexts = [], as_nodes = [], as_values = [] \<rparr>"

abbreviation alloc_run :: "nat \<Rightarrow> nat \<Rightarrow> alloc_request list \<Rightarrow> alloc_state \<Rightarrow> alloc_state" where
  "alloc_run b n rs s \<equiv> fold (alloc_step b n) rs s"

section \<open>Words as array and offset\<close>

lemma OFFSET_MASK_mask: "OFFSET_MASK b = mask b"
  by (simp add: OFFSET_MASK_def push_bit_eq_mult mask_eq_exp_minus_1)

lemma unat_offset: "unat (w AND OFFSET_MASK b) = unat w mod 2 ^ b"
  using unsigned_take_bit_eq [of b w, where 'a = nat] by (simp add: OFFSET_MASK_mask take_bit_eq_mask [symmetric] take_bit_nat_def)

lemma unat_index: "unat (drop_bit b (w :: 32 word)) = unat w div 2 ^ b"
  using unat_drop_bit_eq [of b w] by (simp add: drop_bit_nat_def)

text \<open>Counting up inside an array.\<close>

lemma bump:
  fixes c :: "32 word"
  assumes "unat c mod 2 ^ b + j < 2 ^ b" "b \<le> 32"
  shows "unat (c + word_of_nat j) = unat c + j" "(unat c + j) div 2 ^ b = unat c div 2 ^ b" "(unat c + j) mod 2 ^ b = unat c mod 2 ^ b + j"
proof -
  let ?q = "unat c div 2 ^ b"
  have c: "unat c + j = ?q * 2 ^ b + (unat c mod 2 ^ b + j)" using div_mult_mod_eq [of "unat c" "2 ^ b"] by simp
  show "(unat c + j) div 2 ^ b = ?q" "(unat c + j) mod 2 ^ b = unat c mod 2 ^ b + j"
    unfolding c using assms(1) by simp_all
  have pow: "(2 :: nat) ^ 32 = 2 ^ (32 - b) * 2 ^ b" using assms(2) by (simp flip: power_add)
  have "unat c < 2 ^ 32" using unsigned_less [of c, where 'a = nat] by simp
  then have "?q < 2 ^ (32 - b)" unfolding pow by (simp add: less_mult_imp_div_less)
  then have "Suc ?q * 2 ^ b \<le> 2 ^ 32" unfolding pow using Suc_leI mult_le_mono1 by blast
  moreover have "unat c + j < Suc ?q * 2 ^ b" unfolding mult_Suc using c assms(1) by linarith
  ultimately have "unat c + j < 2 ^ 32" by linarith
  then show "unat (c + word_of_nat j) = unat c + j" by (simp add: unat_word_ariths unat_of_nat take_bit_eq_mod)
qed

lemma overflow_iff:
  assumes "k < 2 ^ b" "b < 32"
  shows "overflow_check b c k \<longleftrightarrow> 2 ^ b \<le> unat c mod 2 ^ b + k"
proof -
  have pow: "(2 :: nat) ^ Suc b \<le> 2 ^ 32" using assms(2) by (intro power_increasing) auto
  have "unat c mod 2 ^ b < 2 ^ b" by simp
  then have "unat c mod 2 ^ b + k < 2 * 2 ^ b" using assms(1) by linarith
  then have "unat c mod 2 ^ b + k < 2 ^ 32" using pow by (simp only: power_Suc [symmetric] less_le_trans)
  moreover have "unat ((c AND OFFSET_MASK b) + word_of_nat k) = (unat c mod 2 ^ b + k) mod 2 ^ 32"
    by (simp add: unat_word_ariths unat_of_nat unat_offset mod_simps)
  ultimately show ?thesis by (simp add: overflow_check_def BUF_SIZE_def)
qed

lemma unat_shifted:
  assumes "unat (i :: 32 word) < 2 ^ n" "b + n \<le> 32"
  shows "unat (push_bit b i) = unat i * 2 ^ b"
proof -
  have "unat i * 2 ^ b < 2 ^ n * 2 ^ b" using assms(1) by simp
  also have "\<dots> \<le> 2 ^ 32" using assms(2) by (subst power_add [symmetric]) (intro power_increasing, auto)
  finally show ?thesis
    using unsigned_push_bit_eq [of b i, where 'a = nat] by (simp add: push_bit_nat_def take_bit_nat_def)
qed

section \<open>The invariant of one kind of arrays\<close>

text \<open>Each context owns the array it points into; what has been handed out of that array lies below its cursor.\<close>

definition pool_ok :: "nat \<Rightarrow> nat \<Rightarrow> nat \<Rightarrow> buffer_pool \<Rightarrow> 32 word list \<Rightarrow> 32 word list \<Rightarrow> bool" where
  "pool_ok b n m p cs out \<longleftrightarrow>
     unat (bp_next p) \<le> m \<and> {..<min (unat (bp_next p)) (2 ^ n)} \<subseteq> bp_buffers p \<and>
     (\<forall>c \<in> set cs. unat c div 2 ^ b < min (unat (bp_next p)) (2 ^ n)) \<and> distinct (map (\<lambda>c. unat c div 2 ^ b) cs) \<and>
     (\<forall>a \<in> set out. unat a div 2 ^ b < min (unat (bp_next p)) (2 ^ n) \<and> Suc (unat a mod 2 ^ b) < 2 ^ b \<and>
        (\<forall>c \<in> set cs. unat c div 2 ^ b = unat a div 2 ^ b \<longrightarrow> unat a mod 2 ^ b < unat c mod 2 ^ b)) \<and>
     distinct out"

lemma pool_ok_claim:
  assumes ok: "pool_ok b n m p cs out" and m: "Suc m < 2 ^ 32" and bn: "b + n \<le> 32" and claim: "claim_buffer n msg p = (r, p')"
  shows "case r of Inl e \<Rightarrow> pool_ok b n (Suc m) p' cs out
    | Inr idx \<Rightarrow> pool_ok b n (Suc m) p' cs out \<and>
        (\<forall>a \<in> set cs \<union> set out. unat a div 2 ^ b \<noteq> unat idx) \<and> unat (push_bit b idx) = unat idx * 2 ^ b \<and> unat idx < min (unat (bp_next p')) (2 ^ n)"
proof -
  have "unat (bp_next p) < 2 ^ 32 - 1" using ok m by (simp add: pool_ok_def)
  then have nx: "unat (bp_next p + 1) = Suc (unat (bp_next p))" by (simp add: unat_word_ariths)
  let ?p = "p\<lparr>bp_next := bp_next p + 1\<rparr>"
  show ?thesis
  proof (cases "2 ^ n \<le> unat (bp_next p)")
    case True
    then have "r = throw msg" "p' = ?p" using claim by (simp_all add: claim_buffer_def NUM_BUFFERS_def Let_def)
    moreover have "pool_ok b n (Suc m) ?p cs out" using ok nx True by (simp add: pool_ok_def min_absorb2)
    ultimately show ?thesis by simp
  next
    case False
    then have r: "r = Inr (bp_next p)" "p' = ?p\<lparr>bp_buffers := insert (unat (bp_next p)) (bp_buffers p)\<rparr>"
      using claim by (simp_all add: claim_buffer_def NUM_BUFFERS_def Let_def)
    have m: "min (unat (bp_next p)) (2 ^ n) = unat (bp_next p)" "min (unat (bp_next p')) (2 ^ n) = Suc (unat (bp_next p))"
      using False nx r(2) by simp_all
    have "unat a div 2 ^ b \<noteq> unat (bp_next p)" if "a \<in> set cs \<union> set out" for a using ok that unfolding pool_ok_def m(1) by fastforce
    moreover have "pool_ok b n (Suc m) p' cs out"
      using ok nx r(2) unfolding pool_ok_def m by (auto simp: lessThan_Suc less_SucI)
    ultimately show ?thesis using r(1) m(2) False unat_shifted [OF _ bn, of "bp_next p"] by auto
  qed
qed

lemma pool_ok_more: "pool_ok b n m p cs out \<Longrightarrow> m \<le> m' \<Longrightarrow> pool_ok b n m' p cs out"
  by (auto simp: pool_ok_def)

lemma pool_ok_new_cursor:
  assumes "pool_ok b n m p cs out" "\<forall>a \<in> set cs \<union> set out. unat a div 2 ^ b \<noteq> i" "unat c = i * 2 ^ b" "i < min (unat (bp_next p)) (2 ^ n)"
  shows "pool_ok b n m p (cs @ [c]) out" "k < length cs \<Longrightarrow> pool_ok b n m p (cs[k := c]) out"
proof -
  have c: "unat c div 2 ^ b = i" using assms(3) by simp
  show "pool_ok b n m p (cs @ [c]) out" using assms c by (auto simp: pool_ok_def)
  show "pool_ok b n m p (cs[k := c]) out" if "k < length cs"
    unfolding pool_ok_def
  proof (intro conjI)
    show "distinct (map (\<lambda>c. unat c div 2 ^ b) (cs[k := c]))"
      unfolding map_update by (rule distinct_list_update) (use assms c in \<open>auto simp: pool_ok_def\<close>)
    have "ca = c \<or> ca \<in> set cs" if "ca \<in> set (cs[k := c])" for ca using set_update_subset_insert [of cs k c] that by auto
    then show "\<forall>a \<in> set out. unat a div 2 ^ b < min (unat (bp_next p)) (2 ^ n) \<and> Suc (unat a mod 2 ^ b) < 2 ^ b \<and>
        (\<forall>ca \<in> set (cs[k := c]). unat ca div 2 ^ b = unat a div 2 ^ b \<longrightarrow> unat a mod 2 ^ b < unat ca mod 2 ^ b)"
      using assms(1,2) c unfolding pool_ok_def by (metis UnI2)
  qed (use assms c set_update_subset_insert [of cs k c] in \<open>auto simp: pool_ok_def\<close>)
qed

lemma pool_ok_bump:
  assumes ok: "pool_ok b n m p cs out" and i: "i < length cs" and k: "unat (cs ! i) mod 2 ^ b + k < 2 ^ b" and b: "b < 32"
  shows "pool_ok b n m p (cs[i := cs ! i + word_of_nat k]) (out @ map (\<lambda>j. cs ! i + word_of_nat j) [0..<k])"
proof -
  let ?c = "cs ! i"
  have bump: "unat (?c + word_of_nat j) = unat ?c + j" "(unat ?c + j) div 2 ^ b = unat ?c div 2 ^ b" "(unat ?c + j) mod 2 ^ b = unat ?c mod 2 ^ b + j"
    if "j \<le> k" for j using bump [of ?c b j] k b that by auto
  have own: "unat c div 2 ^ b = unat ?c div 2 ^ b \<Longrightarrow> c = ?c \<and> l = i" if "l < length cs" "c = cs ! l" for c l
    using ok i that by (auto simp: pool_ok_def distinct_conv_nth)
  have upd: "map (\<lambda>c. unat c div 2 ^ b) (cs[i := ?c + word_of_nat k]) = map (\<lambda>c. unat c div 2 ^ b) cs"
    using bump(1,2) [of k] i by (simp add: map_update list_update_same_conv)
  have low: "unat a mod 2 ^ b < unat ?c mod 2 ^ b" if "a \<in> set out" "unat a div 2 ^ b = unat ?c div 2 ^ b" for a
    using ok that nth_mem [OF i] by (auto simp: pool_ok_def)
  have curs: "c' = ?c + word_of_nat k \<or> (c' \<in> set cs \<and> unat c' div 2 ^ b \<noteq> unat ?c div 2 ^ b)" if "c' \<in> set (cs[i := ?c + word_of_nat k])" for c'
  proof -
    obtain l where "l < length cs" "c' = (if l = i then ?c + word_of_nat k else cs ! l)" using \<open>c' \<in> _\<close> i by (auto simp: set_conv_nth nth_list_update)
    then show ?thesis using own [of l c'] by (cases "l = i") auto
  qed
  have "unat c' div 2 ^ b < min (unat (bp_next p)) (2 ^ n)" if "c' \<in> set (cs[i := ?c + word_of_nat k])" for c'
    using curs [OF that] ok nth_mem [OF i] bump(1,2) [of k] by (auto simp: pool_ok_def)
  moreover have "unat a div 2 ^ b < min (unat (bp_next p)) (2 ^ n) \<and> Suc (unat a mod 2 ^ b) < 2 ^ b \<and>
      (\<forall>c' \<in> set (cs[i := ?c + word_of_nat k]). unat c' div 2 ^ b = unat a div 2 ^ b \<longrightarrow> unat a mod 2 ^ b < unat c' mod 2 ^ b)"
    if a: "a \<in> set (out @ map (\<lambda>j. ?c + word_of_nat j) [0..<k])" for a
  proof (cases "a \<in> set out")
    case True
    then have "unat a div 2 ^ b < min (unat (bp_next p)) (2 ^ n)" "Suc (unat a mod 2 ^ b) < 2 ^ b"
        "\<forall>c' \<in> set cs. unat c' div 2 ^ b = unat a div 2 ^ b \<longrightarrow> unat a mod 2 ^ b < unat c' mod 2 ^ b"
      using ok by (auto simp: pool_ok_def)
    moreover have "unat a mod 2 ^ b < unat c' mod 2 ^ b" if "unat c' div 2 ^ b = unat a div 2 ^ b" "c' = ?c + word_of_nat k" for c'
      using low [OF True] that bump [of k] by simp
    ultimately show ?thesis using curs by blast
  next
    case False
    then obtain j where j: "j < k" "a = ?c + word_of_nat j" using a by auto
    have "unat ?c div 2 ^ b < min (unat (bp_next p)) (2 ^ n)" using ok nth_mem [OF i] by (auto simp: pool_ok_def)
    then show ?thesis using j bump [of j] bump [of k] k curs by fastforce
  qed
  moreover have "distinct (out @ map (\<lambda>j. ?c + word_of_nat j) [0..<k])"
  proof -
    have "inj_on (\<lambda>j. ?c + word_of_nat j) {0..<k}"
      using bump(1) by (intro inj_onI) (metis add_left_cancel atLeastLessThan_iff less_imp_le)
    moreover have "?c + word_of_nat j \<notin> set out" if "j < k" for j
      using low [of "?c + word_of_nat j"] bump [of j] that by auto
    ultimately show ?thesis using ok by (auto simp: pool_ok_def distinct_map)
  qed
  ultimately show ?thesis using ok unfolding pool_ok_def upd by blast
qed

section \<open>Every request keeps the invariant\<close>

definition alloc_ok :: "nat \<Rightarrow> nat \<Rightarrow> nat \<Rightarrow> alloc_state \<Rightarrow> bool" where
  "alloc_ok b n m s \<longleftrightarrow>
     pool_ok b n m (node_pool (as_allocator s)) (map cur_buffer_offset_and_index (as_contexts s)) (as_nodes s) \<and>
     pool_ok b n m (value_pool (as_allocator s)) (map value_buffer_offset_and_index (as_contexts s)) (as_values s)"

text \<open>A request for one slot, or for a block that fits in an array.\<close>

fun request_ok :: "nat \<Rightarrow> alloc_request \<Rightarrow> bool" where
  "request_ok b New_Context \<longleftrightarrow> True"
| "request_ok b (Allocate i k) \<longleftrightarrow> k < 2 ^ b"
| "request_ok b (Allocate_Value i) \<longleftrightarrow> True"

lemma pool_ok_grab:
  assumes ok: "pool_ok b n m p cs out" and i: "i < length cs" and k: "k < 2 ^ b" and m: "Suc m < 2 ^ 32" and bn: "b < 32" "b + n \<le> 32"
  shows "\<not> overflow_check b (cs ! i) k \<Longrightarrow>
      pool_ok b n (Suc m) p (cs[i := cs ! i + word_of_nat k]) (out @ map (\<lambda>j. cs ! i + word_of_nat j) [0..<k])"
    and "claim_buffer n msg p = (Inr idx, p') \<Longrightarrow>
      pool_ok b n (Suc m) p' (cs[i := push_bit b idx + word_of_nat k]) (out @ map (\<lambda>j. push_bit b idx + word_of_nat j) [0..<k])"
    and "claim_buffer n msg p = (Inl e, p') \<Longrightarrow> pool_ok b n (Suc m) p' cs out"
proof -
  show "pool_ok b n (Suc m) p (cs[i := cs ! i + word_of_nat k]) (out @ map (\<lambda>j. cs ! i + word_of_nat j) [0..<k])"
    if "\<not> overflow_check b (cs ! i) k"
    using pool_ok_more [OF pool_ok_bump [OF ok i _ bn(1)], of k "Suc m"] that by (simp add: overflow_iff [OF k bn(1)])
  show "pool_ok b n (Suc m) p' cs out" if "claim_buffer n msg p = (Inl e, p')" using pool_ok_claim [OF ok m bn(2) that] by simp
  assume "claim_buffer n msg p = (Inr idx, p')"
  note c = pool_ok_claim [OF ok m bn(2) this, simplified]
  have "pool_ok b n (Suc m) p' (cs[i := push_bit b idx]) out"
    by (rule pool_ok_new_cursor(2) [OF _ _ _ _ i]) (use c in auto)
  from pool_ok_bump [OF this, of i k] show "pool_ok b n (Suc m) p' (cs[i := push_bit b idx + word_of_nat k]) (out @ map (\<lambda>j. push_bit b idx + word_of_nat j) [0..<k])"
    using c i k bn(1) by simp
qed

lemma alloc_step_ok:
  assumes ok: "alloc_ok b n m s" and r: "request_ok b r" and m: "Suc m < 2 ^ 32" and bn: "0 < b" "b < 32" "b + n \<le> 32"
  shows "alloc_ok b n (Suc m) (alloc_step b n r s)"
proof -
  let ?al = "as_allocator s"
  let ?ncs = "map cur_buffer_offset_and_index (as_contexts s)" and ?vcs = "map value_buffer_offset_and_index (as_contexts s)"
  have np: "pool_ok b n m (node_pool ?al) ?ncs (as_nodes s)" and vp: "pool_ok b n m (value_pool ?al) ?vcs (as_values s)"
    using ok by (auto simp: alloc_ok_def)
  note np' = pool_ok_more [OF np le_SucI [OF order_refl]] and vp' = pool_ok_more [OF vp le_SucI [OF order_refl]]
  note keep = nth_map list_update_id map_update
  show ?thesis
  proof (cases r)
    case New_Context
    obtain x p y q where c: "claim_buffer n node_msg (node_pool ?al) = (x, p)" "claim_buffer n value_msg (value_pool ?al) = (y, q)"
      by (meson surj_pair)
    note n = pool_ok_claim [OF np m bn(3) c(1)] and v = pool_ok_claim [OF vp m bn(3) c(2)]
    show ?thesis
    proof (cases "(x, y)" rule: prod.exhaust)
      case (Pair x' y')
      then show ?thesis
        using New_Context c n v np' vp' pool_ok_new_cursor(1) [of b n "Suc m" p ?ncs "as_nodes s"] pool_ok_new_cursor(1) [of b n "Suc m" q ?vcs "as_values s"]
        by (cases x; cases y) (auto simp: get_new_allocator_def alloc_ok_def)
    qed
  next
    case (Allocate i k)
    then have k: "k < 2 ^ b" using r by simp
    show ?thesis
    proof (cases "i < length (as_contexts s)")
      case True
      then have i: "i < length ?ncs" by simp
      obtain x p where c: "claim_buffer n node_msg (node_pool ?al) = (x, p)" by (meson surj_pair)
      note g = pool_ok_grab [OF np i k m bn(2,3)]
      have same: "map value_buffer_offset_and_index ((as_contexts s)[i := c]) = ?vcs"
        if "value_buffer_offset_and_index c = value_buffer_offset_and_index (as_contexts s ! i)" for c
        using that True by (simp add: map_update list_update_same_conv)
      show ?thesis
        using Allocate True g(1) g(2) [of node_msg] g(3) [of node_msg] c np' vp' same
        by (cases x) (auto simp: allocate_def assign_new_buffer_def alloc_ok_def map_update)
    next
      case False
      then show ?thesis using Allocate np' vp' by (simp add: alloc_ok_def)
    qed
  next
    case (Allocate_Value i)
    have k: "1 < (2 :: nat) ^ b" using bn(1) one_less_power [of "2 :: nat" b] by simp
    show ?thesis
    proof (cases "i < length (as_contexts s)")
      case True
      then have i: "i < length ?vcs" by simp
      obtain x p where c: "claim_buffer n value_msg (value_pool ?al) = (x, p)" by (meson surj_pair)
      note g = pool_ok_grab [OF vp i k m bn(2,3)]
      have same: "map cur_buffer_offset_and_index ((as_contexts s)[i := c]) = ?ncs"
        if "cur_buffer_offset_and_index c = cur_buffer_offset_and_index (as_contexts s ! i)" for c
        using that True by (simp add: map_update list_update_same_conv)
      show ?thesis
        using Allocate_Value True g(1) g(2) [of value_msg] g(3) [of value_msg] c np' vp' same
        by (cases x) (auto simp: allocate_value_def assign_new_value_buffer_def alloc_ok_def map_update)
    next
      case False
      then show ?thesis using Allocate_Value np' vp' by (simp add: alloc_ok_def)
    qed
  qed
qed

lemma alloc_run_ok:
  assumes "alloc_ok b n m s" "\<forall>r \<in> set rs. request_ok b r" "m + length rs < 2 ^ 32" "0 < b" "b < 32" "b + n \<le> 32"
  shows "alloc_ok b n (m + length rs) (alloc_run b n rs s)"
  using assms(1-3)
proof (induction rs arbitrary: m s)
  case (Cons r rs)
  then show ?case using alloc_step_ok [OF Cons.prems(1), of r] assms(4-) Cons.IH [of "Suc m" "alloc_step b n r s"] by simp
qed simp

lemma alloc_start_ok: "alloc_ok b n 0 (alloc_start empty_allocator)" "alloc_ok b n 0 (alloc_start (reset al))"
  by (simp_all add: alloc_ok_def pool_ok_def alloc_start_def empty_allocator_def reset_def)

text \<open>What the invariant gives: distinct words, none of them null, that lead into existing arrays.\<close>

lemma pool_ok_slots:
  assumes "pool_ok b n m p cs out" "b \<le> 32"
  shows "distinct out" "a \<in> set out \<Longrightarrow> a \<noteq> - 1 \<and> get_slot b p a = Inr (unat a div 2 ^ b, unat a mod 2 ^ b) \<and> unat a div 2 ^ b < 2 ^ n"
proof -
  show "distinct out" using assms(1) by (simp add: pool_ok_def)
  assume a: "a \<in> set out"
  have max: "unat (- 1 :: 32 word) mod 2 ^ b = 2 ^ b - 1"
  proof -
    have pow: "(2 :: nat) ^ 32 = 2 ^ (32 - b) * 2 ^ b" using assms(2) by (simp flip: power_add)
    have split: "x * y - 1 = (x - 1) * y + (y - 1)" if "0 < x" "0 < y" for x y :: nat using that by (cases x) auto
    have "unat (- 1 :: 32 word) = 2 ^ 32 - 1" by (simp add: unsigned_minus_1_eq_mask mask_eq_exp_minus_1)
    also have "\<dots> = (2 ^ (32 - b) - 1) * 2 ^ b + (2 ^ b - 1)" unfolding pow by (rule split) simp_all
    finally show ?thesis by (simp only: mod_mult_self3) simp
  qed
  have "Suc (unat a mod 2 ^ b) < 2 ^ b" "unat a div 2 ^ b \<in> bp_buffers p" "unat a div 2 ^ b < 2 ^ n" using assms(1) a by (auto simp: pool_ok_def)
  then show "a \<noteq> - 1 \<and> get_slot b p a = Inr (unat a div 2 ^ b, unat a mod 2 ^ b) \<and> unat a div 2 ^ b < 2 ^ n"
    using max by (auto simp: get_slot_def unat_index unat_offset BUF_SIZE_def)
qed

end
