(* ===== verification/EphemeralTrie.thy ===== *)
theory EphemeralTrie
  imports SnapshotHash EphemeralAlloc Metadata
begin

text \<open>
  The lock-free trie of \<^verbatim>\<open>ephemeral_trie/atomic_ephemeral_trie.h\<close>.  It lives in arrays (theory \<open>EphemeralAlloc\<close>): a child is a 64-bit word with the
  handle of the node in the upper and the number of keys below it in the lower half, so that one compare-and-swap changes both.  This theory holds
  the operations; an insertion is a step function with a program counter, one step per atomic access.  Each step is also a step of the
  snapshot trie or changes nothing that trie has: the two tries share their theorems on shape and linearisability.
\<close>

unbundle bit_operations_syntax

section \<open>Nodes\<close>

text \<open>\<^verbatim>\<open>EphemeralTrieMetadataBase\<close>, the default metadata.\<close>

record EphemeralTrieMetadata =
  em_hash_valid :: bool
  em_hash :: "byte list"

definition em_clear :: "EphemeralTrieMetadata \<Rightarrow> EphemeralTrieMetadata" where
  "em_clear m = m\<lparr>em_hash_valid := False\<rparr>"

definition em_write_to :: "EphemeralTrieMetadata \<Rightarrow> byte list \<Rightarrow> byte list res" where
  "em_write_to m digest_bytes = (if em_hash_valid m then Inr (digest_bytes @ em_hash m) else throw ''invalid metadata write'')"

definition em_add :: "EphemeralTrieMetadata \<Rightarrow> EphemeralTrieMetadata \<Rightarrow> EphemeralTrieMetadata res" where
  "em_add m other = (if em_hash_valid m then throw ''invalid metadata modification'' else Inr m)"

text \<open>\<^verbatim>\<open>try_parse\<close>; the hash has 32 bytes.\<close>

definition em_try_parse :: "byte list \<Rightarrow> EphemeralTrieMetadata \<Rightarrow> EphemeralTrieMetadata option" where
  "em_try_parse data m = (if length data = 32 then Some (m\<lparr>em_hash_valid := True, em_hash := data\<rparr>) else None)"

text \<open>Child words.  A handle that is all ones is null.\<close>

definition get_ptr :: "64 word \<Rightarrow> 32 word" where
  "get_ptr ptr_and_size = ucast (drop_bit 32 ptr_and_size)"

definition get_sz :: "64 word \<Rightarrow> 32 word" where
  "get_sz ptr_and_size = ucast (ptr_and_size AND 0xFFFFFFFF)"

definition null_child :: "64 word" where
  "null_child = 0xFFFFFFFF00000000"

definition child_word :: "32 word \<Rightarrow> 32 word \<Rightarrow> 64 word" where
  "child_word ptr sz = push_bit 32 (ucast ptr) + ucast sz"

abbreviation UINT32_MAX :: "32 word" where
  "UINT32_MAX \<equiv> 0xFFFFFFFF"

text \<open>\<^verbatim>\<open>AtomicChildrenMap\<close>: 16 words.\<close>

type_synonym AtomicChildrenMap = "nat \<Rightarrow> 64 word"

definition acm_clear :: AtomicChildrenMap where
  "acm_clear = (\<lambda>_. null_child)"

definition acm_set_unique_child :: "nat \<Rightarrow> 64 word \<Rightarrow> AtomicChildrenMap" where
  "acm_set_unique_child single_child_branch_bits single_child_ptr = acm_clear(single_child_branch_bits := single_child_ptr)"

record 'p AtomicTrieNode =
  at_children :: AtomicChildrenMap
  at_prefix :: 'p
  at_prefix_len :: PrefixLenBits
  at_value_pointer :: "32 word"
  at_metadata :: EphemeralTrieMetadata

text \<open>
  The arrays of nodes and values.  The root is a member of the trie and not in an array; its address is not a handle.  A slot that is
  allocated but not yet in the trie belongs to its thread and is not in the map.
\<close>

record ('p, 'v) AtomicTrie =
  et_nodes :: "nat \<rightharpoonup> 'p AtomicTrieNode"
  et_values :: "nat \<rightharpoonup> 'v"
  et_hashed :: bool

definition root_addr :: nat where
  "root_addr = 2 ^ 32"

definition get_object :: "('p, 'v) AtomicTrie \<Rightarrow> nat \<Rightarrow> 'p AtomicTrieNode res" where
  "get_object t a = (case et_nodes t a of None \<Rightarrow> throw ''undefined'' | Some n \<Rightarrow> Inr n)"

definition et_value :: "('p, 'v) AtomicTrie \<Rightarrow> 32 word \<Rightarrow> 'v res" where
  "et_value t p = (case et_values t (unat p) of None \<Rightarrow> throw ''undefined'' | Some v \<Rightarrow> Inr v)"

definition set_as_empty_node :: "'p TriePrefix \<Rightarrow> 'p AtomicTrieNode \<Rightarrow> 'p AtomicTrieNode" where
  "set_as_empty_node P n = n\<lparr>at_prefix := prefix_zero P, at_prefix_len := 0, at_children := acm_clear, at_metadata := em_clear (at_metadata n)\<rparr>"

text \<open>The constructors work on a slot that may hold an old node, \<open>n\<close>.\<close>

definition set_as_new_value_leaf :: "'p TriePrefix \<Rightarrow> 'p AtomicTrieNode \<Rightarrow> 'p \<Rightarrow> 32 word \<Rightarrow> 'p AtomicTrieNode" where
  "set_as_new_value_leaf P n key value_pointer =
     n\<lparr>at_value_pointer := value_pointer, at_prefix := key, at_prefix_len := MAX_KEY_LEN_BITS P, at_metadata := em_clear (at_metadata n)\<rparr>"

definition set_as_new_branch_node ::
    "'p TriePrefix \<Rightarrow> 'p AtomicTrieNode \<Rightarrow> 'p \<Rightarrow> PrefixLenBits \<Rightarrow> 64 word \<Rightarrow> nat \<Rightarrow> 'p AtomicTrieNode res" where
  "set_as_new_branch_node P n key len single_child_pointer single_child_branch_bits =
     rbind (prefix_truncate P key len) (\<lambda>prefix.
       Inr (n\<lparr>at_prefix := prefix, at_prefix_len := len, at_children := acm_set_unique_child single_child_branch_bits single_child_pointer,
         at_metadata := em_clear (at_metadata n)\<rparr>))"

definition at_match_len :: "'p TriePrefix \<Rightarrow> 'p AtomicTrieNode \<Rightarrow> 'p \<Rightarrow> PrefixLenBits" where
  "at_match_len P n other_key = get_prefix_match_len P (at_prefix n) (at_prefix_len n) other_key (MAX_KEY_LEN_BITS P)"

definition insert_can_recurse :: "'p TriePrefix \<Rightarrow> 'p AtomicTrieNode \<Rightarrow> 'p \<Rightarrow> bool" where
  "insert_can_recurse P n query_prefix \<longleftrightarrow> at_match_len P n query_prefix \<ge> at_prefix_len n"

definition at_branch_bits :: "'p TriePrefix \<Rightarrow> 'p AtomicTrieNode \<Rightarrow> PrefixLenBits \<Rightarrow> nat res" where
  "at_branch_bits P n query = (if query \<ge> at_prefix_len n then throw ''invalid'' else get_branch_bits P (at_prefix n) query)"

definition at_is_leaf :: "'p TriePrefix \<Rightarrow> 'p AtomicTrieNode \<Rightarrow> bool" where
  "at_is_leaf P n \<longleftrightarrow> at_prefix_len n = MAX_KEY_LEN_BITS P"

section \<open>Insertion, step by step\<close>

text \<open>
  \<open>E_Call\<close>: the call on the trie; \<open>E_Enter a\<close>: the call on node \<open>a\<close>; \<open>E_Loop a w p\<close>: the loop with \<^verbatim>\<open>relevant_child = w\<close> and \<^verbatim>\<open>new_ptr = p\<close>;
  \<open>E_Bump a\<close>: \<^verbatim>\<open>bump_size\<close> on node \<open>a\<close>; \<open>E_Bump_Try a w\<close>: its loop.
\<close>

datatype eph_pc = E_Call | E_Enter nat | E_Load nat | E_Loop nat "64 word" "32 word option" | E_Bump nat | E_Bump_Try nat "64 word" | E_Return bool

text \<open>What a step takes from outside: the handles the allocator returns if it is asked, the old content of the slot of the new node,
  and whether the weak compare-and-swap fails although the word is as expected.\<close>

record 'p eph_label =
  el_ptr :: "32 word"
  el_value_ptr :: "32 word"
  el_slot :: "'p AtomicTrieNode"
  el_spurious :: bool

text \<open>\<^verbatim>\<open>try_set\<close>: on success the new node (if any) becomes part of the trie.\<close>

definition try_set :: "bool \<Rightarrow> nat \<Rightarrow> 'p AtomicTrieNode \<Rightarrow> nat \<Rightarrow> 64 word \<Rightarrow> 64 word \<Rightarrow> ('p, 'v) AtomicTrie \<Rightarrow> ('p, 'v) AtomicTrie option" where
  "try_set spurious a n bb expected desired t =
     (if at_children n bb = expected \<and> \<not> spurious
      then Some (t\<lparr>et_nodes := (et_nodes t)(a \<mapsto> n\<lparr>at_children := (at_children n)(bb := desired)\<rparr>)\<rparr>) else None)"

fun eph_step ::
    "'p TriePrefix \<Rightarrow> ('p, 'v, 'i, 'm) InsertFn \<Rightarrow> 'p eph_label \<Rightarrow> 'p \<Rightarrow> 'i \<Rightarrow> ('p, 'v) AtomicTrie \<Rightarrow> eph_pc \<Rightarrow> (('p, 'v) AtomicTrie \<times> eph_pc) res" where
  "eph_step P F l new_prefix value t E_Call =
     (if et_hashed t then throw ''cannot insert after hashing'' else Inr (t, E_Enter root_addr))"
| "eph_step P F l new_prefix value t (E_Enter a) =
     rbind (get_object t a) (\<lambda>n.
       if at_match_len P n new_prefix < at_prefix_len n then throw ''invalid insertion''
       else if at_is_leaf P n then
         rbind (et_value t (at_value_pointer n)) (\<lambda>v.
           Inr (t\<lparr>et_values := (et_values t)(unat (at_value_pointer n) \<mapsto> value_insert F v value)\<rparr>, E_Return False))
       else Inr (t, E_Load a))"
| "eph_step P F l new_prefix value t (E_Load a) =
     rbind (get_object t a) (\<lambda>n.
     rbind (get_branch_bits P new_prefix (at_prefix_len n)) (\<lambda>bb. Inr (t, E_Loop a (at_children n bb) None)))"
| "eph_step P F l new_prefix value t (E_Loop a relevant_child new_ptr) =
     rbind (get_object t a) (\<lambda>n.
     rbind (get_branch_bits P new_prefix (at_prefix_len n)) (\<lambda>bb.
       let ptr = get_ptr relevant_child; new = (case new_ptr of None \<Rightarrow> el_ptr l | Some p \<Rightarrow> p) in
       if ptr = UINT32_MAX then
         let new_child = set_as_new_value_leaf P (el_slot l) new_prefix (el_value_ptr l);
             t1 = t\<lparr>et_nodes := (et_nodes t)(unat new \<mapsto> new_child),
                    et_values := (et_values t)(unat (el_value_ptr l) \<mapsto> value_insert F (new_value F new_prefix) value)\<rparr>
         in case try_set (el_spurious l) a n bb relevant_child (child_word new 0) t1 of
              Some t' \<Rightarrow> Inr (t', E_Bump root_addr)
            | None \<Rightarrow> Inr (t, E_Loop a (at_children n bb) (Some new))
       else rbind (get_object t (unat ptr)) (\<lambda>child.
         if insert_can_recurse P child new_prefix then Inr (t, E_Enter (unat ptr))
         else let join_len = at_match_len P child new_prefix in
           rbind (at_branch_bits P child join_len) (\<lambda>child_bb.
           rbind (set_as_new_branch_node P (el_slot l) new_prefix join_len relevant_child child_bb) (\<lambda>new_node.
             case try_set (el_spurious l) a n bb relevant_child (child_word new (get_sz relevant_child))
                 (t\<lparr>et_nodes := (et_nodes t)(unat new \<mapsto> new_node)\<rparr>) of
               Some t' \<Rightarrow> Inr (t', E_Enter (unat new))
             | None \<Rightarrow> Inr (t, E_Loop a (at_children n bb) (Some new)))))))"
| "eph_step P F l new_prefix value t (E_Bump a) =
     rbind (get_object t a) (\<lambda>n.
       if at_is_leaf P n then Inr (t, E_Return True)
       else rbind (get_branch_bits P new_prefix (at_prefix_len n)) (\<lambda>bb. Inr (t, E_Bump_Try a (at_children n bb))))"
| "eph_step P F l new_prefix value t (E_Bump_Try a relevant_child) =
     rbind (get_object t a) (\<lambda>n.
     rbind (get_branch_bits P new_prefix (at_prefix_len n)) (\<lambda>bb.
       case try_set (el_spurious l) a n bb relevant_child (relevant_child + 1) t of
         Some t' \<Rightarrow> Inr (t', E_Bump (unat (get_ptr relevant_child)))
       | None \<Rightarrow> Inr (t, E_Bump_Try a (at_children n bb))))"
| "eph_step P F l new_prefix value t (E_Return r) = Inr (t, E_Return r)"

declare eph_step.simps [simp del]

text \<open>The machine.  The allocator hands out slots that are neither in the trie nor held by a thread.\<close>

fun held :: "eph_pc \<Rightarrow> 32 word set" where
  "held (E_Loop a w (Some p)) = {p}"
| "held _ = {}"

type_synonym ('p, 'i) eph_thread = "('p \<times> 'i) \<times> eph_pc"

definition fresh_label :: "('p, 'v) AtomicTrie \<Rightarrow> ('p, 'i) eph_thread list \<Rightarrow> 'p eph_label \<Rightarrow> bool" where
  "fresh_label t ts l \<longleftrightarrow> el_ptr l \<noteq> UINT32_MAX \<and> et_nodes t (unat (el_ptr l)) = None \<and> (\<forall>x \<in> set ts. el_ptr l \<notin> held (snd x)) \<and>
     et_values t (unat (el_value_ptr l)) = None"

inductive eph_machine ::
    "'p TriePrefix \<Rightarrow> ('p, 'v, 'i, 'm) InsertFn \<Rightarrow> ('p, 'v) AtomicTrie \<times> ('p, 'i) eph_thread list \<Rightarrow> nat \<Rightarrow>
     ('p, 'v) AtomicTrie \<times> ('p, 'i) eph_thread list \<Rightarrow> bool"
  for P F where
  eph_machine: "i < length ts \<Longrightarrow> ts ! i = ((key, v), pc) \<Longrightarrow> pc \<notin> range E_Return \<Longrightarrow> fresh_label t ts l \<Longrightarrow>
    eph_step P F l key v t pc = Inr (t', pc') \<Longrightarrow> eph_machine P F (t, ts) i (t', ts[i := ((key, v), pc')])"

definition AtomicTrie_empty :: "'p TriePrefix \<Rightarrow> 'p AtomicTrieNode \<Rightarrow> ('p, 'v) AtomicTrie" where
  "AtomicTrie_empty P n = \<lparr> et_nodes = [root_addr \<mapsto> set_as_empty_node P n], et_values = Map.empty, et_hashed = False \<rparr>"

definition eph_threads :: "('p \<times> 'i) list \<Rightarrow> ('p, 'i) eph_thread list" where
  "eph_threads kvs = map (\<lambda>kv. (kv, E_Call)) kvs"

section \<open>Words\<close>

lemma child_word_or: "child_word p sz = push_bit 32 (ucast p) OR ucast sz"
  unfolding child_word_def by (rule disjunctive_add) (auto simp: bit_simps dest: bit_imp_le_length)

lemma get_ptr_word [simp]: "get_ptr (child_word p sz) = p"
  unfolding get_ptr_def child_word_or by (rule bit_word_eqI) (auto simp: bit_simps dest: bit_imp_le_length)

lemma get_sz_ucast: "get_sz w = ucast w"
proof -
  have m: "0xFFFFFFFF = (mask 32 :: 64 word)" by (simp add: mask_eq_exp_minus_1)
  show ?thesis unfolding get_sz_def m by (rule bit_word_eqI) (simp add: bit_simps)
qed

lemma get_sz_word [simp]: "get_sz (child_word p sz) = sz"
  unfolding get_sz_ucast child_word_or by (rule bit_word_eqI) (simp add: bit_simps)

lemma child_word_get: "child_word (get_ptr w) (get_sz w) = w"
  unfolding child_word_or get_ptr_def get_sz_ucast by (rule bit_word_eqI) (auto simp: bit_simps)

lemma child_word_bump:
  assumes "unat (get_sz w) < 2 ^ 32 - 1"
  shows "get_ptr (w + 1) = get_ptr w" "unat (get_sz (w + 1)) = Suc (unat (get_sz w))"
proof -
  have nat: "unat (get_sz w + 1) = Suc (unat (get_sz w))" using assms by (simp add: unat_word_ariths)
  then have "(ucast (get_sz w + 1) :: 64 word) = ucast (get_sz w) + 1"
    using assms by (subst word_unat_eq_iff) (simp add: unat_word_ariths unsigned_ucast_eq take_bit_nat_eq_self)
  then have "child_word (get_ptr w) (get_sz w) + 1 = child_word (get_ptr w) (get_sz w + 1)" by (simp add: child_word_def add.assoc)
  then have "w + 1 = child_word (get_ptr w) (get_sz w + 1)" by (simp only: child_word_get)
  then show "get_ptr (w + 1) = get_ptr w" "unat (get_sz (w + 1)) = Suc (unat (get_sz w))" using nat by simp_all
qed

lemma null_child [simp]: "get_ptr null_child = UINT32_MAX" "get_sz null_child = 0"
  by (simp_all add: null_child_def get_ptr_def get_sz_def)

end
