(* ===== verification/EphemeralMachine.thy ===== *)
theory EphemeralMachine
  imports EphemeralTrie
begin

text \<open>
  Runs of the ephemeral trie.  Its nodes without the sizes are nodes of the snapshot trie; a step of an insertion is then a step of the snapshot trie
  or no step at all, so that shape and linearisability carry over.  On top: the invariant that ties the size next to each child pointer to
  the number of keys below it and to the threads that still have to count their key.
\<close>

section \<open>The trie without its sizes\<close>

definition at_path :: "('p \<Rightarrow> nat list) \<Rightarrow> 'p AtomicTrieNode \<Rightarrow> nat list" where
  "at_path nib n = take (at_prefix_len n div 4) (nib (at_prefix n))"

definition abs_child :: "64 word \<Rightarrow> nat option" where
  "abs_child w = (if get_ptr w = UINT32_MAX then None else Some (unat (get_ptr w)))"

definition abs_node :: "'p TriePrefix \<Rightarrow> (nat \<rightharpoonup> 'v) \<Rightarrow> 'p AtomicTrieNode \<Rightarrow> ('p, 'v, EmptyMetadata) AtomicMerkleTrieNode" where
  "abs_node P vals n =
     \<lparr> cn_prefix = at_prefix n, cn_len = at_prefix_len n, cn_hash_valid = False, cn_metadata = 0, cn_hash = [],
       cn_children = (\<lambda>bb. if at_is_leaf P n \<or> 16 \<le> bb then None else abs_child (at_children n bb)),
       cn_value = (if at_is_leaf P n then vals (unat (at_value_pointer n)) else None) \<rparr>"

definition abs_heap :: "'p TriePrefix \<Rightarrow> ('p, 'v) AtomicTrie \<Rightarrow> ('p, 'v, EmptyMetadata) node_heap" where
  "abs_heap P t = (\<lambda>a. map_option (abs_node P (et_values t)) (et_nodes t a))"

fun abs_pc :: "eph_pc \<Rightarrow> amt_pc" where
  "abs_pc E_Call = Enter root_addr"
| "abs_pc (E_Enter a) = Enter a"
| "abs_pc (E_Load a) = Load a"
| "abs_pc (E_Loop a w p) = Loop a (abs_child w)"
| "abs_pc (E_Bump a) = Return None"
| "abs_pc (E_Bump_Try a w) = Return None"
| "abs_pc (E_Return r) = Return None"

definition eph_fns :: "('p, 'v, 'i, 'm) InsertFn \<Rightarrow> ('v, 'p \<times> 'i) AmtFns" where
  "eph_fns F = \<lparr> mk_value = (\<lambda>(k, i). value_insert F (new_value F k) i), merge_value = (\<lambda>v (k, i). value_insert F v i) \<rparr>"

fun abs_thread :: "('p, 'i) eph_thread \<Rightarrow> ('p, 'p \<times> 'i) amt_op \<times> amt_pc" where
  "abs_thread ((k, i), pc) = (Insert k (k, i), abs_pc pc)"

lemma abs_node_simps [simp]:
  "cn_prefix (abs_node P vals n) = at_prefix n" "cn_len (abs_node P vals n) = at_prefix_len n" "cn_path nib (abs_node P vals n) = at_path nib n"
  "cn_is_leaf P (abs_node P vals n) \<longleftrightarrow> at_is_leaf P n" "cn_match_len P (abs_node P vals n) q (MAX_KEY_LEN_BITS P) = at_match_len P n q"
  by (simp_all add: abs_node_def cn_path_def at_path_def cn_is_leaf_def at_is_leaf_def cn_match_len_def at_match_len_def)

lemma abs_node_children: "\<not> at_is_leaf P n \<Longrightarrow> bb < 16 \<Longrightarrow> cn_children (abs_node P vals n) bb = abs_child (at_children n bb)"
  by (simp add: abs_node_def)

lemma abs_heap_Some: "abs_heap P t a = Some x \<longleftrightarrow> (\<exists>n. et_nodes t a = Some n \<and> x = abs_node P (et_values t) n)"
  by (auto simp: abs_heap_def)

lemma abs_heap_None: "abs_heap P t a = None \<longleftrightarrow> et_nodes t a = None"
  by (simp add: abs_heap_def)

text \<open>Every leaf has a value slot of its own.\<close>

definition values_ok :: "'p TriePrefix \<Rightarrow> ('p, 'v) AtomicTrie \<Rightarrow> bool" where
  "values_ok P t \<longleftrightarrow> (\<forall>a n. et_nodes t a = Some n \<longrightarrow> at_is_leaf P n \<longrightarrow> et_values t (unat (at_value_pointer n)) \<noteq> None \<and>
     (\<forall>b m. et_nodes t b = Some m \<longrightarrow> at_is_leaf P m \<longrightarrow> at_value_pointer m = at_value_pointer n \<longrightarrow> b = a))"

lemma values_okD:
  assumes "values_ok P t" "et_nodes t a = Some n" "at_is_leaf P n"
  shows "\<exists>v. et_values t (unat (at_value_pointer n)) = Some v"
    "et_nodes t b = Some m \<Longrightarrow> at_is_leaf P m \<Longrightarrow> at_value_pointer m = at_value_pointer n \<Longrightarrow> b = a"
  using assms unfolding values_ok_def by blast+

lemma abs_value_update:
  assumes "values_ok P t" "et_nodes t a = Some n" "at_is_leaf P n"
  shows "abs_heap P (t\<lparr>et_values := (et_values t)(unat (at_value_pointer n) \<mapsto> x)\<rparr>) =
    (abs_heap P t)(a \<mapsto> (abs_node P (et_values t) n)\<lparr>cn_hash_valid := False, cn_value := Some x\<rparr>)"
proof
  fix b
  show "abs_heap P (t\<lparr>et_values := (et_values t)(unat (at_value_pointer n) \<mapsto> x)\<rparr>) b =
    ((abs_heap P t)(a \<mapsto> (abs_node P (et_values t) n)\<lparr>cn_hash_valid := False, cn_value := Some x\<rparr>)) b"
  proof (cases "et_nodes t b")
    case (Some m)
    then have "at_is_leaf P m \<Longrightarrow> b \<noteq> a \<Longrightarrow> unat (at_value_pointer m) \<noteq> unat (at_value_pointer n)"
      using values_okD(2) [OF assms Some] word_unat_eq_iff by blast
    then show ?thesis using assms Some by (auto simp: abs_heap_def abs_node_def)
  qed (use assms(2) in \<open>auto simp: abs_heap_def\<close>)
qed

text \<open>Installing a node: one child word changes, and a node (with a fresh value slot) appears.\<close>

lemma abs_install:
  assumes ok: "values_ok P t" and n: "et_nodes t a = Some n" "\<not> at_is_leaf P n" "bb < 16" and p: "p \<noteq> UINT32_MAX" "et_nodes t (unat p) = None"
    and v: "vals = et_values t \<or> (\<exists>vp y. et_values t vp = None \<and> vals = (et_values t)(vp \<mapsto> y))"
  shows "abs_heap P (t\<lparr>et_nodes := (et_nodes t)(unat p \<mapsto> x, a \<mapsto> n\<lparr>at_children := (at_children n)(bb := child_word p sz)\<rparr>), et_values := vals\<rparr>) =
    (abs_heap P t)(unat p \<mapsto> abs_node P vals x,
      a \<mapsto> (abs_node P (et_values t) n)\<lparr>cn_children := (cn_children (abs_node P (et_values t) n))(bb \<mapsto> unat p)\<rparr>)"
proof
  fix b
  have new: "unat p \<noteq> a" using n(1) p(2) by auto
  have same: "abs_node P vals m = abs_node P (et_values t) m" if "et_nodes t c = Some m" for c m
    using v values_okD(1) [OF ok that] by (cases "at_is_leaf P m") (auto simp: abs_node_def)
  show "abs_heap P (t\<lparr>et_nodes := (et_nodes t)(unat p \<mapsto> x, a \<mapsto> n\<lparr>at_children := (at_children n)(bb := child_word p sz)\<rparr>), et_values := vals\<rparr>) b =
    ((abs_heap P t)(unat p \<mapsto> abs_node P vals x,
      a \<mapsto> (abs_node P (et_values t) n)\<lparr>cn_children := (cn_children (abs_node P (et_values t) n))(bb \<mapsto> unat p)\<rparr>)) b"
  proof (cases "b = a")
    case True
    then show ?thesis using n(2,3) p(1) same [OF n(1)] by (auto simp: abs_heap_def abs_node_def at_is_leaf_def abs_child_def fun_eq_iff)
  next
    case False
    then show ?thesis using same new by (cases "et_nodes t b") (auto simp: abs_heap_def)
  qed
qed

text \<open>Counting changes a word but not the node it points to.\<close>

lemma abs_bump:
  assumes "et_nodes t a = Some n" "get_ptr w = get_ptr (at_children n bb)"
  shows "abs_heap P (t\<lparr>et_nodes := (et_nodes t)(a \<mapsto> n\<lparr>at_children := (at_children n)(bb := w)\<rparr>)\<rparr>) = abs_heap P t"
  using assms by (auto simp: abs_heap_def abs_node_def at_is_leaf_def abs_child_def fun_eq_iff)

section \<open>Moves\<close>

text \<open>The moves on paths; \<open>e\<close> is the handle the allocator returns if it is asked.\<close>

inductive eph_move ::
    "'p TriePrefix \<Rightarrow> ('p \<Rightarrow> nat list) \<Rightarrow> ('p, 'v, 'i, 'm) InsertFn \<Rightarrow> 'p \<Rightarrow> 'i \<Rightarrow> 32 word \<Rightarrow> ('p, 'v) AtomicTrie \<Rightarrow> eph_pc \<Rightarrow> ('p, 'v) AtomicTrie \<Rightarrow> eph_pc \<Rightarrow> bool"
  for P nib F key i e t where
  em_call: "eph_move P nib F key i e t E_Call t (E_Enter root_addr)"
| em_write: "et_nodes t a = Some n \<Longrightarrow> at_is_leaf P n \<Longrightarrow> at_path nib n = nib key \<Longrightarrow> et_values t (unat (at_value_pointer n)) = Some y \<Longrightarrow>
    eph_move P nib F key i e t (E_Enter a) (t\<lparr>et_values := (et_values t)(unat (at_value_pointer n) \<mapsto> value_insert F y i)\<rparr>) (E_Return False)"
| em_enter: "et_nodes t a = Some n \<Longrightarrow> strict_prefix (at_path nib n) (nib key) \<Longrightarrow> eph_move P nib F key i e t (E_Enter a) t (E_Load a)"
| em_load: "et_nodes t a = Some n \<Longrightarrow> strict_prefix (at_path nib n) (nib key) \<Longrightarrow>
    eph_move P nib F key i e t (E_Load a) t (E_Loop a (at_children n (nib key ! length (at_path nib n))) None)"
| em_retry: "et_nodes t a = Some n \<Longrightarrow> strict_prefix (at_path nib n) (nib key) \<Longrightarrow> p \<noteq> UINT32_MAX \<Longrightarrow> et_nodes t (unat p) = None \<Longrightarrow> p = (case q of None \<Rightarrow> e | Some p \<Rightarrow> p) \<Longrightarrow>
    eph_move P nib F key i e t (E_Loop a w q) t (E_Loop a (at_children n (nib key ! length (at_path nib n))) (Some p))"
| em_descend: "et_nodes t a = Some n \<Longrightarrow> et_nodes t (unat (get_ptr w)) = Some m \<Longrightarrow> get_ptr w \<noteq> UINT32_MAX \<Longrightarrow>
    strict_prefix (at_path nib n) (at_path nib m) \<Longrightarrow> prefix (at_path nib m) (nib key) \<Longrightarrow>
    eph_move P nib F key i e t (E_Loop a w q) t (E_Enter (unat (get_ptr w)))"
| em_add: "et_nodes t a = Some n \<Longrightarrow> strict_prefix (at_path nib n) (nib key) \<Longrightarrow> at_children n (nib key ! length (at_path nib n)) = w \<Longrightarrow>
    get_ptr w = UINT32_MAX \<Longrightarrow> p \<noteq> UINT32_MAX \<Longrightarrow> et_nodes t (unat p) = None \<Longrightarrow> p = (case q of None \<Rightarrow> e | Some p \<Rightarrow> p) \<Longrightarrow> et_values t (unat vp) = None \<Longrightarrow>
    x = set_as_new_value_leaf P slot key vp \<Longrightarrow>
    eph_move P nib F key i e t (E_Loop a w q)
      (t\<lparr>et_nodes := (et_nodes t)(unat p \<mapsto> x, a \<mapsto> n\<lparr>at_children := (at_children n)(nib key ! length (at_path nib n) := child_word p 0)\<rparr>),
         et_values := (et_values t)(unat vp \<mapsto> value_insert F (new_value F key) i)\<rparr>) (E_Bump root_addr)"
| em_split: "et_nodes t a = Some n \<Longrightarrow> strict_prefix (at_path nib n) (nib key) \<Longrightarrow> at_children n (nib key ! length (at_path nib n)) = w \<Longrightarrow>
    get_ptr w \<noteq> UINT32_MAX \<Longrightarrow> et_nodes t (unat (get_ptr w)) = Some m \<Longrightarrow>
    prefix (at_path nib n @ [nib key ! length (at_path nib n)]) (at_path nib m) \<Longrightarrow> k = lcp (at_path nib m) (nib key) \<Longrightarrow> k < length (at_path nib m) \<Longrightarrow>
    p \<noteq> UINT32_MAX \<Longrightarrow> et_nodes t (unat p) = None \<Longrightarrow> p = (case q of None \<Rightarrow> e | Some p \<Rightarrow> p) \<Longrightarrow>
    set_as_new_branch_node P slot key (4 * k) w (at_path nib m ! k) = Inr x \<Longrightarrow>
    eph_move P nib F key i e t (E_Loop a w q)
      (t\<lparr>et_nodes := (et_nodes t)(unat p \<mapsto> x, a \<mapsto> n\<lparr>at_children := (at_children n)(nib key ! length (at_path nib n) := child_word p (get_sz w))\<rparr>),
         et_values := et_values t\<rparr>) (E_Enter (unat p))"
| em_done: "et_nodes t a = Some n \<Longrightarrow> at_is_leaf P n \<Longrightarrow> eph_move P nib F key i e t (E_Bump a) t (E_Return True)"
| em_bump_load: "et_nodes t a = Some n \<Longrightarrow> strict_prefix (at_path nib n) (nib key) \<Longrightarrow>
    eph_move P nib F key i e t (E_Bump a) t (E_Bump_Try a (at_children n (nib key ! length (at_path nib n))))"
| em_bump_retry: "et_nodes t a = Some n \<Longrightarrow> strict_prefix (at_path nib n) (nib key) \<Longrightarrow>
    eph_move P nib F key i e t (E_Bump_Try a w) t (E_Bump_Try a (at_children n (nib key ! length (at_path nib n))))"
| em_bump: "et_nodes t a = Some n \<Longrightarrow> strict_prefix (at_path nib n) (nib key) \<Longrightarrow> at_children n (nib key ! length (at_path nib n)) = w \<Longrightarrow>
    eph_move P nib F key i e t (E_Bump_Try a w)
      (t\<lparr>et_nodes := (et_nodes t)(a \<mapsto> n\<lparr>at_children := (at_children n)(nib key ! length (at_path nib n) := w + 1)\<rparr>)\<rparr>) (E_Bump (unat (get_ptr w)))"

text \<open>Where a thread that counts its key is: on the path to its leaf.\<close>

definition leaf_at :: "'p TriePrefix \<Rightarrow> ('p \<Rightarrow> nat list) \<Rightarrow> ('p, 'v) AtomicTrie \<Rightarrow> 'p \<Rightarrow> bool" where
  "leaf_at P nib t key \<longleftrightarrow> (\<exists>b m. et_nodes t b = Some m \<and> at_path nib m = nib key)"

fun bump_ok :: "'p TriePrefix \<Rightarrow> ('p \<Rightarrow> nat list) \<Rightarrow> ('p, 'v) AtomicTrie \<Rightarrow> 'p \<Rightarrow> eph_pc \<Rightarrow> bool" where
  "bump_ok P nib t key (E_Bump a) \<longleftrightarrow> leaf_at P nib t key \<and> (\<exists>n. et_nodes t a = Some n \<and> prefix (at_path nib n) (nib key))"
| "bump_ok P nib t key (E_Bump_Try a w) \<longleftrightarrow> leaf_at P nib t key \<and> (\<exists>n. et_nodes t a = Some n \<and> strict_prefix (at_path nib n) (nib key))"
| "bump_ok P nib t key pc \<longleftrightarrow> True"

context trie_prefix
begin

abbreviation apath where
  "apath \<equiv> at_path nib"

abbreviation aok where
  "aok t \<equiv> hok root_addr (abs_heap P t)"

lemma aokD:
  assumes "aok t" "et_nodes t a = Some n"
  shows "cn_ok P pvalid nib (abs_node P (et_values t) n)" "abs_heap P t a = Some (abs_node P (et_values t) n)"
    "at_prefix_len n = 4 * length (apath n)" "at_is_leaf P n \<longleftrightarrow> length (apath n) = prefix_bits P div 4" "length (apath n) \<le> prefix_bits P div 4"
    "pvalid (at_prefix n)"
proof -
  show h: "abs_heap P t a = Some (abs_node P (et_values t) n)" using assms(2) by (simp add: abs_heap_def)
  show ok: "cn_ok P pvalid nib (abs_node P (et_values t) n)" by (rule hokD(1) [OF assms(1) h])
  show "at_prefix_len n = 4 * length (apath n)" "at_is_leaf P n \<longleftrightarrow> length (apath n) = prefix_bits P div 4" "length (apath n) \<le> prefix_bits P div 4"
    using cn_len_path [OF ok] by simp_all
  show "pvalid (at_prefix n)" using ok by (simp add: cn_ok_def)
qed

text \<open>The slot of a node towards a key.\<close>

lemma slot_facts:
  assumes "aok t" "et_nodes t a = Some n" "pvalid key" "strict_prefix (apath n) (nib key)"
  shows "\<not> at_is_leaf P n" "nib key ! length (apath n) < 16" "get_branch_bits P key (at_prefix_len n) = Inr (nib key ! length (apath n))"
    "cn_children (abs_node P (et_values t) n) (nib key ! length (apath n)) = abs_child (at_children n (nib key ! length (apath n)))"
proof -
  note n = aokD [OF assms(1,2)]
  have lt: "length (apath n) < length (nib key)" using prefix_length_less [OF assms(4)] .
  then show leaf: "\<not> at_is_leaf P n" using n(4) nib_length [OF assms(3)] by simp
  show d: "nib key ! length (apath n) < 16" using nib_bound [OF assms(3) nth_mem [OF lt]] .
  show "cn_children (abs_node P (et_values t) n) (nib key ! length (apath n)) = abs_child (at_children n (nib key ! length (apath n)))"
    using leaf d by (rule abs_node_children)
  show "get_branch_bits P key (at_prefix_len n) = Inr (nib key ! length (apath n))"
    unfolding n(3) by (rule branch_bits_at [OF assms(3)]) (use lt nib_length [OF assms(3)] bits_eq in linarith)
qed

lemma at_match:
  assumes "aok t" "et_nodes t a = Some n" "pvalid key"
  shows "at_match_len P n key = 4 * lcp (apath n) (nib key)"
  using cn_match [OF aokD(1) [OF assms(1,2)] assms(3), of "prefix_bits P div 4"] nib_length [OF assms(3)] bits_eq by simp

end

context trie_prefix
begin

text \<open>In a good state every step returns and is one of the moves.\<close>

lemma enter_move:
  assumes t: "aok t" "values_ok P t" and key: "pvalid key" and pc: "pc_ok nib (abs_heap P t) (nib key) (Enter a)"
  shows "\<exists>t' pc'. eph_step P F l key i t (E_Enter a) = Inr (t', pc') \<and> eph_move P nib F key i (el_ptr l) t (E_Enter a) t' pc'"
proof -
  obtain n where n: "et_nodes t a = Some n" "prefix (apath n) (nib key)" using pc by (auto simp: abs_heap_Some)
  have "lcp (apath n) (nib key) = length (apath n)" using n(2) by (simp only: lcp_prefix)
  then have match: "\<not> at_match_len P n key < at_prefix_len n" using at_match [OF t(1) n(1) key] aokD(3) [OF t(1) n(1)] by simp
  show ?thesis
  proof (cases "at_is_leaf P n")
    case True
    then have "apath n = nib key" using aokD(4) [OF t(1) n(1)] nib_length [OF key] n(2) by (auto simp: prefix_def)
    moreover obtain y where y: "et_values t (unat (at_value_pointer n)) = Some y" using values_okD(1) [OF t(2) n(1) True] by blast
    ultimately show ?thesis
      using True match n(1) em_write [of t a n P nib key y F i "el_ptr l", OF n(1) True _ y] by (simp add: eph_step.simps get_object_def et_value_def)
  next
    case False
    then have "strict_prefix (apath n) (nib key)" using aokD(4) [OF t(1) n(1)] nib_length [OF key] n(2) by (auto simp: strict_prefix_def)
    then show ?thesis using False match n(1) em_enter [of t a n nib key P F i "el_ptr l", OF n(1)] by (simp add: eph_step.simps get_object_def)
  qed
qed

lemma loop_move:
  assumes t: "aok t" "values_ok P t" and key: "pvalid key" and pc: "pc_ok nib (abs_heap P t) (nib key) (Loop a (abs_child w))"
    and new: "new = (case q of None \<Rightarrow> el_ptr l | Some p \<Rightarrow> p)" "new \<noteq> UINT32_MAX" "et_nodes t (unat new) = None" "et_values t (unat (el_value_ptr l)) = None"
  shows "\<exists>t' pc'. eph_step P F l key i t (E_Loop a w q) = Inr (t', pc') \<and> eph_move P nib F key i (el_ptr l) t (E_Loop a w q) t' pc'"
proof -
  obtain n where n: "et_nodes t a = Some n" "strict_prefix (apath n) (nib key)" using pc by (auto simp: abs_heap_Some)
  let ?d = "nib key ! length (apath n)"
  note slot = slot_facts [OF t(1) n(1) key n(2)]
  note retry = em_retry [where t = t and w = w and F = F and i = i and e = "el_ptr l", OF n new(2,3) new(1)]
  show ?thesis
  proof (cases "get_ptr w = UINT32_MAX")
    case True
    let ?t1 = "t\<lparr>et_nodes := (et_nodes t)(unat new \<mapsto> set_as_new_value_leaf P (el_slot l) key (el_value_ptr l)),
      et_values := (et_values t)(unat (el_value_ptr l) \<mapsto> value_insert F (new_value F key) i)\<rparr>"
    have eq: "eph_step P F l key i t (E_Loop a w q) = (case try_set (el_spurious l) a n ?d w (child_word new 0) ?t1 of
        Some t' \<Rightarrow> Inr (t', E_Bump root_addr) | None \<Rightarrow> Inr (t, E_Loop a (at_children n ?d) (Some new)))"
      unfolding new(1) using True n(1) slot(3) by (simp add: eph_step.simps get_object_def Let_def)
    show ?thesis
    proof (cases "at_children n ?d = w \<and> \<not> el_spurious l")
      case success: True
      let ?A = "(et_nodes t)(unat new \<mapsto> set_as_new_value_leaf P (el_slot l) key (el_value_ptr l),
        a \<mapsto> n\<lparr>at_children := (at_children n)(?d := child_word new 0)\<rparr>)"
      have "?t1\<lparr>et_nodes := ?A\<rparr> = t\<lparr>et_nodes := ?A, et_values := et_values ?t1\<rparr>" by (cases t) simp
      then have "try_set (el_spurious l) a n ?d w (child_word new 0) ?t1 = Some (t\<lparr>et_nodes := ?A, et_values := et_values ?t1\<rparr>)"
        using success by (simp add: try_set_def)
      then show ?thesis
        unfolding eq using success em_add [where t = t and F = F and i = i and e = "el_ptr l" and P = P and slot = "el_slot l", OF n _ True new(2,3) new(1) new(4) refl] by simp
    next
      case False
      then show ?thesis unfolding eq using retry by (auto simp: try_set_def)
    qed
  next
    case False
    then obtain m where m: "et_nodes t (unat (get_ptr w)) = Some m" "prefix (apath n @ [?d]) (apath m)"
      using pc n(1) by (auto simp: abs_heap_Some abs_child_def)
    note am = aokD [OF t(1) m(1)] and mm = at_match [OF t(1) m(1) key]
    let ?k = "lcp (apath m) (nib key)"
    show ?thesis
    proof (cases "?k = length (apath m)")
      case True
      then have "prefix (apath m) (nib key)" by (simp only: lcp_prefix)
      then show ?thesis
        using True False n(1) m slot(3) mm am(3) em_descend [where t = t and F = F and i = i and e = "el_ptr l", OF n(1) m(1) False]
        by (auto simp: eph_step.simps get_object_def insert_can_recurse_def prefix_snoc_nth Let_def)
    next
      case lt: False
      then have k: "?k < length (apath m)" using lcp_le(1) [of "apath m" "nib key"] by linarith
      have kp: "4 * ?k < prefix_bits P" using k am(5) bits_eq by linarith
      have cbb: "at_branch_bits P m (4 * ?k) = Inr (apath m ! ?k)"
        using k am(3) child_branch [OF am(1), of ?k] by (simp add: at_branch_bits_def)
      obtain x where x: "set_as_new_branch_node P (el_slot l) key (4 * ?k) w (apath m ! ?k) = Inr x"
        using truncate_ok [OF key kp] by (auto simp: set_as_new_branch_node_def)
      have eq: "eph_step P F l key i t (E_Loop a w q) =
          (case try_set (el_spurious l) a n ?d w (child_word new (get_sz w)) (t\<lparr>et_nodes := (et_nodes t)(unat new \<mapsto> x)\<rparr>) of
             Some t' \<Rightarrow> Inr (t', E_Enter (unat new)) | None \<Rightarrow> Inr (t, E_Loop a (at_children n ?d) (Some new)))"
        unfolding new(1) using False n(1) m(1) slot(3) mm am(3) k x cbb
        by (simp add: eph_step.simps get_object_def insert_can_recurse_def Let_def)
      show ?thesis
      proof (cases "at_children n ?d = w \<and> \<not> el_spurious l")
        case True
        then show ?thesis
          unfolding eq using em_split [where t = t and F = F and i = i and e = "el_ptr l", OF n _ False m refl k new(2,3) new(1) x] by (simp add: try_set_def)
      next
        case False
        then show ?thesis unfolding eq using retry by (auto simp: try_set_def)
      qed
    qed
  qed
qed

lemma bump_move:
  assumes t: "aok t" and key: "pvalid key" and pc: "bump_ok P nib t key pc" "pc = E_Bump a \<or> pc = E_Bump_Try a w"
  shows "\<exists>t' pc'. eph_step P F l key i t pc = Inr (t', pc') \<and> eph_move P nib F key i (el_ptr l) t pc t' pc'"
proof -
  obtain n where n: "et_nodes t a = Some n" "prefix (apath n) (nib key)" "pc = E_Bump_Try a w \<longrightarrow> strict_prefix (apath n) (nib key)"
    using pc by (auto simp: strict_prefix_def)
  show ?thesis
  proof (cases "at_is_leaf P n")
    case True
    then have "\<not> strict_prefix (apath n) (nib key)" using slot_facts(1) [OF t n(1) key] by blast
    then show ?thesis using True n pc(2) em_done [where t = t and e = "el_ptr l", OF n(1) True] by (auto simp: eph_step.simps get_object_def)
  next
    case False
    then have st: "strict_prefix (apath n) (nib key)" using aokD(4) [OF t n(1)] nib_length [OF key] n(2) by (auto simp: strict_prefix_def)
    show ?thesis
      using pc(2) False n(1) slot_facts(3) [OF t n(1) key st] em_bump_load [of t a n nib key P F i "el_ptr l", OF n(1) st]
        em_bump_retry [of t a n nib key P F i "el_ptr l", OF n(1) st] em_bump [of t a n nib key w P F i "el_ptr l", OF n(1) st]
      by (auto simp: eph_step.simps get_object_def try_set_def)
  qed
qed

theorem eph_step_move:
  assumes t: "aok t" "values_ok P t" "\<not> et_hashed t" and key: "pvalid key"
    and pc: "pc_ok nib (abs_heap P t) (nib key) (abs_pc pc)" "bump_ok P nib t key pc" "pc \<notin> range E_Return"
    and lab: "el_ptr l \<noteq> UINT32_MAX" "et_nodes t (unat (el_ptr l)) = None" "et_values t (unat (el_value_ptr l)) = None"
    and held: "\<forall>p \<in> held pc. p \<noteq> UINT32_MAX \<and> et_nodes t (unat p) = None"
  shows "\<exists>t' pc'. eph_step P F l key i t pc = Inr (t', pc') \<and> eph_move P nib F key i (el_ptr l) t pc t' pc'"
proof (cases pc)
  case E_Call
  then show ?thesis using t(3) em_call by (fastforce simp: eph_step.simps)
next
  case (E_Enter a)
  then show ?thesis using enter_move [OF t(1,2) key] pc(1) by simp
next
  case (E_Load a)
  then obtain n where n: "et_nodes t a = Some n" "strict_prefix (apath n) (nib key)" using pc(1) by (auto simp: abs_heap_Some)
  then show ?thesis using E_Load slot_facts(3) [OF t(1) n(1) key n(2)] em_load [where t = t and e = "el_ptr l", OF n] by (auto simp: eph_step.simps get_object_def)
next
  case (E_Loop a w q)
  show ?thesis unfolding E_Loop by (rule loop_move [OF t(1,2) key _ refl]) (use E_Loop pc(1) lab held in \<open>auto split: option.split\<close>)
next
  case (E_Bump a)
  then show ?thesis by (intro bump_move [OF t(1) key pc(2)]) simp
next
  case (E_Bump_Try a w)
  then show ?thesis by (intro bump_move [OF t(1) key pc(2)]) simp
qed (use pc(3) in auto)

end

end
