(* ===== verification/EphemeralRun.thy ===== *)
theory EphemeralRun
  imports EphemeralMachine
begin

text \<open>
  Runs of the ephemeral trie: the simulation by the snapshot trie, the invariant of the machine, the sizes next to the child pointers,
  and the values after a run.
\<close>

section \<open>The simulation\<close>

text \<open>A step is a move of the snapshot trie, or a step that trie does not see.\<close>

definition unseen :: "'p TriePrefix \<Rightarrow> ('p, 'v) AtomicTrie \<Rightarrow> eph_pc \<Rightarrow> ('p, 'v) AtomicTrie \<Rightarrow> eph_pc \<Rightarrow> bool" where
  "unseen P t pc t' pc' \<longleftrightarrow> abs_heap P t' = abs_heap P t \<and> abs_pc pc' = abs_pc pc"

lemma eph_fns_simps [simp]:
  "mk_value (eph_fns F) (k, i) = value_insert F (new_value F k) i" "merge_value (eph_fns F) v (k, i) = value_insert F v i"
  by (simp_all add: eph_fns_def)

context trie_prefix
begin

lemma abs_node_flag [simp]: "\<not> cn_hash_valid (abs_node P vals n)"
  by (simp add: abs_node_def)

lemma abs_slot:
  assumes "aok t" "et_nodes t a = Some n" "pvalid key" "strict_prefix (apath n) (nib key)"
  shows "slot_at nib (abs_heap P t) (nib key) a = abs_child (at_children n (nib key ! length (apath n)))"
  using slot_facts(4) [OF assms] aokD(2) [OF assms(1,2)] by (simp add: slot_at_def)

lemma new_leaf_ok:
  assumes key: "pvalid key" and x: "x = set_as_new_value_leaf P slot key vp"
  shows "cn_ok P pvalid nib (abs_node P vals x)" "apath x = nib key" "cn_children (abs_node P vals x) = Map.empty"
    "cn_value (abs_node P vals x) = vals (unat vp)" "at_is_leaf P x" "at_value_pointer x = vp"
  using key nib_length [OF key] bits_eq dvd_triv_left [of 4 "prefix_bits P div 4"]
  by (auto simp: x set_as_new_value_leaf_def abs_node_def at_path_def at_is_leaf_def cn_ok_def cn_is_leaf_def fun_eq_iff)

lemma new_branch_ok:
  assumes key: "pvalid key" and k: "k < prefix_bits P div 4" and x: "set_as_new_branch_node P slot key (4 * k) w d = Inr x"
    and d: "d < 16" "get_ptr w \<noteq> UINT32_MAX"
  obtains y :: "('p, 'v, EmptyMetadata) AtomicMerkleTrieNode" where "cn_ok P pvalid nib y" "path_of y = take k (nib key)" "cn_children y = Map.empty" "cn_value y = None" "\<not> cn_hash_valid y"
    "abs_node P vals x = set_unique_child d (unat (get_ptr w)) y" "\<not> at_is_leaf P x" "apath x = take k (nib key)" "at_children x = acm_clear(d := w)"
proof -
  have kb: "4 * k < prefix_bits P" using k bits_eq by linarith
  obtain q where q: "prefix_truncate P key (4 * k) = Inr q" "pvalid q" "nib q = take k (nib key) @ replicate (prefix_bits P div 4 - k) 0"
    using truncate_ok [OF key kb] by blast
  have p: "at_prefix x = q" "at_prefix_len x = 4 * k" "at_children x = acm_clear(d := w)"
    using x q(1) by (auto simp: set_as_new_branch_node_def acm_set_unique_child_def)
  have leaf: "\<not> at_is_leaf P x" using p(2) kb by (simp add: at_is_leaf_def)
  have tk: "take k (nib q) = take k (nib key)" "drop k (nib q) = replicate (prefix_bits P div 4 - k) 0"
    using q(3) k nib_length [OF key] by simp_all
  let ?y = "\<lparr> cn_prefix = q, cn_len = 4 * k, cn_hash_valid = False, cn_metadata = 0, cn_hash = [], cn_children = Map.empty, cn_value = None \<rparr>
    :: ('p, 'v, EmptyMetadata) AtomicMerkleTrieNode"
  show ?thesis
  proof (rule that [of ?y])
    show "cn_ok P pvalid nib ?y" using q(2) kb tk(2) by (simp add: cn_ok_def cn_is_leaf_def)
    show "abs_node P vals x = set_unique_child d (unat (get_ptr w)) ?y"
      using p leaf d by (auto simp: abs_node_def set_unique_child_def abs_child_def acm_clear_def fun_eq_iff)
  qed (use p leaf tk in \<open>simp_all add: cn_path_def at_path_def\<close>)
qed

theorem eph_move_abs:
  assumes t: "aok t" "values_ok P t" and key: "pvalid key" and mv: "eph_move P nib F key i e t pc t' pc'"
    and pc: "bump_ok P nib t key pc" and small: "\<And>a n d. et_nodes t a = Some n \<Longrightarrow> strict_prefix (apath n) (nib key) \<Longrightarrow>
      pc = E_Bump_Try a (at_children n (nib key ! length (apath n))) \<Longrightarrow> unat (get_sz (at_children n (nib key ! length (apath n)))) < 2 ^ 32 - 1"
  shows "unseen P t pc t' pc' \<or> move (eph_fns F) (Insert key (key, i)) (abs_heap P t) (abs_pc pc) (abs_heap P t') (abs_pc pc')"
  using mv
proof cases
  case (em_write a n y)
  note h = aokD(2) [OF t(1) em_write(4)]
  have "cn_value (abs_node P (et_values t) n) = Some y" using em_write(5,7) by (simp add: abs_node_def)
  then show ?thesis
    using mv_write [of "Insert key (key, i)" key "(key, i)" "abs_heap P t" a _ nib P pvalid "eph_fns F", OF refl h]
      abs_value_update [OF t(2) em_write(4,5)] em_write(1-3,6) by (simp add: amt_update_def)
next
  case (em_enter a n)
  note h = aokD(2) [OF t(1) em_enter(4)]
  have "(abs_heap P t)(a \<mapsto> (abs_node P (et_values t) n)\<lparr>cn_hash_valid := False\<rparr>) = abs_heap P t"
    using h by (auto simp: abs_node_def fun_eq_iff)
  then show ?thesis
    using mv_clear [of "Insert key (key, i)" key "(key, i)" "abs_heap P t" a _ nib P pvalid "eph_fns F", OF refl h] em_enter(1-3,5) by simp
next
  case (em_load a n)
  then show ?thesis
    using mv_load [of "abs_heap P t" a _ nib "Insert key (key, i)" P pvalid "eph_fns F", OF aokD(2) [OF t(1) em_load(4)]]
      abs_slot [OF t(1) em_load(4) key em_load(5)] by simp
next
  case (em_retry a n p q w)
  then show ?thesis
    using mv_reload [of "abs_heap P t" a _ nib "Insert key (key, i)" "abs_child w" P pvalid "eph_fns F", OF aokD(2) [OF t(1) em_retry(4)]]
      abs_slot [OF t(1) em_retry(4) key em_retry(5)] by (auto simp: unseen_def)
next
  case (em_descend a n w m q)
  then show ?thesis
    using mv_descend [of "abs_heap P t" a _ "unat (get_ptr w)" _ nib "Insert key (key, i)" P pvalid "eph_fns F",
        OF aokD(2) [OF t(1) em_descend(4)] aokD(2) [OF t(1) em_descend(5)]] by (auto simp: abs_child_def)
next
  case (em_add a n w p q vp x slot)
  let ?vals = "(et_values t)(unat vp \<mapsto> value_insert F (new_value F key) i)"
  note slot = slot_facts [OF t(1) em_add(4) key em_add(5)]
  note new = new_leaf_ok(1,3,4) [OF key em_add(12), of ?vals] new_leaf_ok(2,5,6) [OF key em_add(12)]
  have none: "abs_child w = None" using em_add(7) by (simp add: abs_child_def)
  have v: "?vals = et_values t \<or> (\<exists>vp y. et_values t vp = None \<and> ?vals = (et_values t)(vp \<mapsto> y))" using em_add(11) by blast
  note inst = abs_install [OF t(2) em_add(4) slot(1,2) em_add(8,9) v, where x = x and sz = 0]
  have "move (eph_fns F) (Insert key (key, i)) (abs_heap P t) (Loop a None)
    ((abs_heap P t)(unat p \<mapsto> abs_node P ?vals x, a \<mapsto> (abs_node P (et_values t) n)\<lparr>cn_children :=
       (cn_children (abs_node P (et_values t) n))(op_path nib (Insert key (key, i)) ! length (path_of (abs_node P (et_values t) n)) \<mapsto> unat p)\<rparr>)) (Return None)"
    by (rule mv_add)
      (use aokD(2) [OF t(1) em_add(4)] new em_add(5,6,9) none abs_slot [OF t(1) em_add(4) key em_add(5)] in \<open>auto simp: abs_heap_None\<close>)
  then show ?thesis using inst em_add(1-3) none by simp
next
  case (em_split a n w m k p q slot x)
  note slot = slot_facts [OF t(1) em_split(4) key em_split(5)]
  note am = aokD [OF t(1) em_split(8)]
  have k: "k < prefix_bits P div 4" using em_split(11) am(5) by simp
  have d: "apath m ! k < 16" using em_split(11) am(6) nib_bound [OF am(6) nth_mem, of k] nib_length [OF am(6)] k by (simp add: at_path_def)
  have c: "abs_child w = Some (unat (get_ptr w))" using em_split(7) by (simp add: abs_child_def)
  obtain y where y: "cn_ok P pvalid nib y" "path_of y = take k (nib key)" "cn_children y = Map.empty" "cn_value y = None" "\<not> cn_hash_valid y"
    "abs_node P (et_values t) x = set_unique_child (apath m ! k) (unat (get_ptr w)) y"
    using new_branch_ok [OF key k em_split(15) d em_split(7), of "et_values t"] by metis
  note inst = abs_install [OF t(2) em_split(4) slot(1,2) em_split(12,13), where x = x and sz = "get_sz w" and vals = "et_values t"]
  have "move (eph_fns F) (Insert key (key, i)) (abs_heap P t) (Loop a (Some (unat (get_ptr w))))
    ((abs_heap P t)(unat p \<mapsto> set_unique_child (path_of (abs_node P (et_values t) m) ! k) (unat (get_ptr w)) y, a \<mapsto> (abs_node P (et_values t) n)\<lparr>cn_children :=
       (cn_children (abs_node P (et_values t) n))(op_path nib (Insert key (key, i)) ! length (path_of (abs_node P (et_values t) n)) \<mapsto> unat p)\<rparr>)) (Enter (unat p))"
    by (rule mv_split)
      (use aokD(2) [OF t(1) em_split(4)] am(2) y em_split(5,6,9,10,11,13) c abs_slot [OF t(1) em_split(4) key em_split(5)] in \<open>auto simp: abs_heap_None\<close>)
  then show ?thesis using inst em_split(1-3) c y(6) by simp
next
  case (em_bump a n w)
  have "unat (get_sz w) < 2 ^ 32 - 1" using small [OF em_bump(4,5)] em_bump(1,6) by simp
  then show ?thesis
    using em_bump abs_bump [OF em_bump(4), of "w + 1" "nib key ! length (apath n)" P] child_word_bump(1) [of w] by (simp add: unseen_def)
qed (simp_all add: unseen_def)

end

section \<open>The invariant\<close>

text \<open>The leaves below a path, and the threads that have added a leaf there and not yet counted it at the edge of that path.\<close>

definition leaves_below :: "'p TriePrefix \<Rightarrow> ('p \<Rightarrow> nat list) \<Rightarrow> ('p, 'v) AtomicTrie \<Rightarrow> nat list \<Rightarrow> nat set" where
  "leaves_below P nib t p = {b. \<exists>m. et_nodes t b = Some m \<and> at_is_leaf P m \<and> prefix p (at_path nib m)}"

fun bump_node :: "eph_pc \<Rightarrow> nat option" where
  "bump_node (E_Bump a) = Some a"
| "bump_node (E_Bump_Try a w) = Some a"
| "bump_node _ = None"

definition uncounted :: "('p \<Rightarrow> nat list) \<Rightarrow> ('p, 'v) AtomicTrie \<Rightarrow> nat list \<Rightarrow> ('p, 'i) eph_thread \<Rightarrow> bool" where
  "uncounted nib t p x \<longleftrightarrow> prefix p (nib (fst (fst x))) \<and>
     (\<exists>a n. bump_node (snd x) = Some a \<and> et_nodes t a = Some n \<and> strict_prefix (at_path nib n) p)"

definition pending :: "('p \<Rightarrow> nat list) \<Rightarrow> ('p, 'v) AtomicTrie \<Rightarrow> ('p, 'i) eph_thread list \<Rightarrow> nat list \<Rightarrow> nat" where
  "pending nib t ts p = length (filter (uncounted nib t p) ts)"

definition sizes_ok :: "'p TriePrefix \<Rightarrow> ('p \<Rightarrow> nat list) \<Rightarrow> ('p, 'v) AtomicTrie \<times> ('p, 'i) eph_thread list \<Rightarrow> bool" where
  "sizes_ok P nib = (\<lambda>(t, ts). \<forall>a n d. et_nodes t a = Some n \<longrightarrow> \<not> at_is_leaf P n \<longrightarrow> d < 16 \<longrightarrow> get_ptr (at_children n d) \<noteq> UINT32_MAX \<longrightarrow>
     unat (get_sz (at_children n d)) + pending nib t ts (at_path nib n @ [d]) = card (leaves_below P nib t (at_path nib n @ [d])))"

definition thread_ok :: "'p TriePrefix \<Rightarrow> ('p \<Rightarrow> bool) \<Rightarrow> ('p \<Rightarrow> nat list) \<Rightarrow> ('p, 'v) AtomicTrie \<Rightarrow> ('p, 'i) eph_thread \<Rightarrow> bool" where
  "thread_ok P pvalid nib t = (\<lambda>((key, i), pc). pvalid key \<and> pc_ok nib (abs_heap P t) (nib key) (abs_pc pc) \<and> bump_ok P nib t key pc \<and>
     (\<forall>p \<in> held pc. p \<noteq> UINT32_MAX \<and> et_nodes t (unat p) = None))"

definition held_apart :: "('p, 'i) eph_thread list \<Rightarrow> bool" where
  "held_apart ts \<longleftrightarrow> (\<forall>i < length ts. \<forall>j < length ts. i \<noteq> j \<longrightarrow> held (snd (ts ! i)) \<inter> held (snd (ts ! j)) = {})"

definition handles_ok :: "('p, 'v) AtomicTrie \<Rightarrow> bool" where
  "handles_ok t \<longleftrightarrow> (\<forall>a \<in> dom (et_nodes t). a = root_addr \<or> a < 2 ^ 32 - 1)"

text \<open>An empty slot counts nothing.\<close>

definition nulls_ok :: "'p TriePrefix \<Rightarrow> ('p, 'v) AtomicTrie \<Rightarrow> bool" where
  "nulls_ok P t \<longleftrightarrow> (\<forall>a n d. et_nodes t a = Some n \<longrightarrow> \<not> at_is_leaf P n \<longrightarrow> get_ptr (at_children n d) = UINT32_MAX \<longrightarrow> get_sz (at_children n d) = 0)"

definition eph_ok :: "'p TriePrefix \<Rightarrow> ('p \<Rightarrow> bool) \<Rightarrow> ('p \<Rightarrow> nat list) \<Rightarrow> ('p, 'v) AtomicTrie \<times> ('p, 'i) eph_thread list \<Rightarrow> bool" where
  "eph_ok P pvalid nib = (\<lambda>(t, ts). heap_ok P pvalid nib root_addr (abs_heap P t) \<and> values_ok P t \<and> handles_ok t \<and> nulls_ok P t \<and> \<not> et_hashed t \<and>
     (\<forall>x \<in> set ts. thread_ok P pvalid nib t x) \<and> held_apart ts \<and> sizes_ok P nib (t, ts))"

text \<open>A step in a good state.\<close>

definition eph_post :: "'p TriePrefix \<Rightarrow> ('p \<Rightarrow> bool) \<Rightarrow> ('p \<Rightarrow> nat list) \<Rightarrow> ('p, 'v, 'i, 'm) InsertFn \<Rightarrow> 'p \<Rightarrow> 'i \<Rightarrow>
    ('p, 'v) AtomicTrie \<Rightarrow> eph_pc \<Rightarrow> ('p, 'v) AtomicTrie \<Rightarrow> eph_pc \<Rightarrow> bool" where
  "eph_post P pvalid nib F key i t pc t' pc' \<longleftrightarrow>
     heap_ok P pvalid nib root_addr (abs_heap P t') \<and> heap_extends (abs_heap P t) (abs_heap P t') \<and> pc_ok nib (abs_heap P t') (nib key) (abs_pc pc') \<and>
     op_effect nib (eph_fns F) (Insert key (key, i)) (abs_pc pc' \<noteq> abs_pc pc \<and> abs_pc pc' = Return None) (abs_heap P t) (abs_heap P t')"

lemma handle_less: "p \<noteq> UINT32_MAX \<Longrightarrow> unat p < 2 ^ 32 - 1"
  using word_unat_eq_iff [of p UINT32_MAX] unsigned_less [of p, where 'a = nat] by simp

lemma op_effect_refl: "op_effect nib F act False h h"
  by (cases act) auto

lemma extends_node:
  assumes "heap_extends (abs_heap P t) (abs_heap P t')" "et_nodes t a = Some n"
  obtains n' where "et_nodes t' a = Some n'" "at_path nib n' = at_path nib n" "at_is_leaf P n' = at_is_leaf P n"
proof -
  have "abs_heap P t a = Some (abs_node P (et_values t) n)" using assms(2) by (simp add: abs_heap_def)
  then obtain x where "abs_heap P t' a = Some x" "cn_prefix x = at_prefix n" "cn_len x = at_prefix_len n"
    using assms(1) unfolding heap_extends_def by fastforce
  then show ?thesis using that by (auto simp: abs_heap_Some at_path_def at_is_leaf_def)
qed

lemma bump_ok_extends:
  assumes "heap_extends (abs_heap P t) (abs_heap P t')" "bump_ok P nib t key pc"
  shows "bump_ok P nib t' key pc"
proof -
  have "leaf_at P nib t key \<Longrightarrow> leaf_at P nib t' key" using extends_node [OF assms(1), where nib = nib] unfolding leaf_at_def by metis
  then show ?thesis using assms(2) extends_node [OF assms(1), where nib = nib] by (cases pc) (auto, metis+)
qed

context trie_prefix
begin

lemma eph_move_post:
  assumes t: "aok t" "values_ok P t" and key: "pvalid key" and mv: "eph_move P nib F key i e t pc t' pc'"
    and pc: "bump_ok P nib t key pc" "pc_ok nib (abs_heap P t) (nib key) (abs_pc pc)" "pc \<notin> range E_Return"
    and small: "\<And>a n d. et_nodes t a = Some n \<Longrightarrow> strict_prefix (apath n) (nib key) \<Longrightarrow>
      pc = E_Bump_Try a (at_children n (nib key ! length (apath n))) \<Longrightarrow> unat (get_sz (at_children n (nib key ! length (apath n)))) < 2 ^ 32 - 1"
  shows "eph_post P pvalid nib F key i t pc t' pc'"
  using eph_move_abs [OF t key mv pc(1) small]
proof
  assume "unseen P t pc t' pc'"
  then show ?thesis using t pc op_effect_refl by (auto simp: unseen_def eph_post_def heap_extends_def)
next
  assume mv': "move (eph_fns F) (Insert key (key, i)) (abs_heap P t) (abs_pc pc) (abs_heap P t') (abs_pc pc')"
  have post: "step_post P pvalid nib root_addr (eph_fns F) (Insert key (key, i)) (abs_heap P t) (abs_pc pc) (abs_heap P t') (abs_pc pc')"
    by (rule move_post [OF _ t(1) mv']) (simp add: key)
  have "abs_pc pc \<notin> range Return" using mv' by cases auto
  then have "abs_pc pc \<noteq> Return None" by auto
  then have "abs_pc pc' \<in> range Return \<longleftrightarrow> abs_pc pc' \<noteq> abs_pc pc \<and> abs_pc pc' = Return None" by (cases pc') auto
  then show ?thesis using post by (simp add: step_post_def eph_post_def)
qed

lemma move_values:
  assumes "values_ok P t" "eph_move P nib F key i e t pc t' pc'" "aok t" "pvalid key"
  shows "values_ok P t'"
  using assms(2)
proof cases
  case (em_write a n y)
  then show ?thesis using assms(1) by (auto simp: values_ok_def)
next
  case (em_add a n w p q vp x slot)
  note old = values_okD [OF assms(1)]
  have x: "at_is_leaf P x" "at_value_pointer x = vp" using new_leaf_ok(5,6) [OF assms(4) em_add(12)] by simp_all
  have n: "\<not> at_is_leaf P n" using slot_facts(1) [OF assms(3) em_add(4) assms(4) em_add(5)] .
  have lf: "et_nodes t' b = Some m \<and> at_is_leaf P m \<longleftrightarrow> b = unat p \<and> m = x \<or> et_nodes t b = Some m \<and> at_is_leaf P m" for b m
    using n x(1) em_add(2,4,9) by (auto simp: at_is_leaf_def split: if_splits)
  have vp: "et_nodes t b = Some m \<Longrightarrow> at_is_leaf P m \<Longrightarrow> at_value_pointer m \<noteq> vp" for b m using old(1) [of b m] em_add(11) by auto
  have ev: "et_values t (unat q) \<noteq> None \<Longrightarrow> et_values t' (unat q) \<noteq> None" "et_values t' (unat vp) \<noteq> None" for q using em_add(2) by auto
  show ?thesis
    unfolding values_ok_def
  proof (intro allI impI conjI)
    fix b m assume m: "et_nodes t' b = Some m" "at_is_leaf P m"
    then show "et_values t' (unat (at_value_pointer m)) \<noteq> None" using lf [of b m] ev x(2) old(1) by blast
    fix c k assume "et_nodes t' c = Some k" "at_is_leaf P k" "at_value_pointer k = at_value_pointer m"
    then show "c = b" using m lf vp x(2) old(2) by metis
  qed
next
  case (em_split a n w m k p q slot x)
  have n: "\<not> at_is_leaf P n" using slot_facts(1) [OF assms(3) em_split(4) assms(4) em_split(5)] .
  have "k < prefix_bits P div 4" using em_split(11) aokD(5) [OF assms(3) em_split(8)] by simp
  then have "4 * k \<noteq> MAX_KEY_LEN_BITS P" using bits_eq by linarith
  then have "\<not> at_is_leaf P x" using em_split(15) by (auto simp: set_as_new_branch_node_def at_is_leaf_def res_simps)
  then show ?thesis using assms(1) n em_split(2) unfolding values_ok_def by (auto simp: at_is_leaf_def split: if_splits)
next
  case (em_bump a n w)
  have n: "\<not> at_is_leaf P n" using slot_facts(1) [OF assms(3) em_bump(4) assms(4) em_bump(5)] .
  then show ?thesis using assms(1) em_bump(2) unfolding values_ok_def by (auto simp: at_is_leaf_def split: if_splits)
qed (use assms(1) in simp_all)

lemma move_handles:
  assumes "eph_move P nib F key i e t pc t' pc'" "handles_ok t"
  shows "handles_ok t'"
  using assms(1)
proof cases
  case (em_add a n w p q vp x slot)
  have "unat p < 2 ^ 32 - 1" using em_add(8) by (rule handle_less)
  then show ?thesis using em_add(2,4) assms(2) by (auto simp: handles_ok_def)
next
  case (em_split a n w m k p q slot x)
  have "unat p < 2 ^ 32 - 1" using em_split(12) by (rule handle_less)
  then show ?thesis using em_split(2,4) assms(2) by (auto simp: handles_ok_def)
qed (use assms(2) in \<open>auto simp: handles_ok_def\<close>)

text \<open>Which slots a step may fill, and which handle the thread holds after it.\<close>

lemma move_held:
  assumes "eph_move P nib F key i e t pc t' pc'" "et_nodes t b = None" "\<And>p. p \<in> insert e (held pc) \<Longrightarrow> unat p \<noteq> b"
  shows "et_nodes t' b = None"
  using assms by cases (auto split: option.splits)

lemma move_holds:
  assumes "eph_move P nib F key i e t pc t' pc'" "pc \<notin> range E_Return"
  shows "held pc' \<subseteq> insert e (held pc)" "p \<in> held pc' \<Longrightarrow> p \<noteq> UINT32_MAX \<and> et_nodes t' (unat p) = None"
  using assms by (cases; auto split: option.splits)+

end

end
