(* ===== verification/EphemeralSizes.thy ===== *)
theory EphemeralSizes
  imports EphemeralRun
begin

text \<open>
  The sizes next to the child pointers.  At every moment of every run, the size at an edge and the number of threads that have added a
  leaf below and not yet counted it there are together the number of leaves below.
\<close>

lemma filter_update:
  "i < length xs \<Longrightarrow> length (filter Q (xs[i := y])) + of_bool (Q (xs ! i)) = length (filter Q xs) + of_bool (Q y)"
proof (induction xs arbitrary: i)
  case (Cons x xs)
  then show ?case by (cases i) (auto simp: Suc_le_eq)
qed simp

lemma pending_update:
  assumes "i < length ts"
  shows "pending nib t (ts[i := y]) p + of_bool (uncounted nib t p (ts ! i)) = pending nib t ts p + of_bool (uncounted nib t p y)"
  unfolding pending_def by (rule filter_update [OF assms])

lemma pending_cong: "(\<And>x. x \<in> set ts \<Longrightarrow> uncounted nib t' p' x = uncounted nib t p x) \<Longrightarrow> pending nib t' ts p' = pending nib t ts p"
  unfolding pending_def by (metis filter_cong)

lemma prefix_snoc_strict: "strict_prefix r (p @ [d]) \<longleftrightarrow> prefix r p"
  by (auto simp: strict_prefix_def)

text \<open>A thread that counts is at a node above its leaf, in every later trie too.\<close>

lemma bump_node_ok:
  assumes "bump_ok P nib t key pc" "bump_node pc = Some a"
  shows "leaf_at P nib t key" "\<exists>n. et_nodes t a = Some n \<and> prefix (at_path nib n) (nib key)"
  using assms by (cases pc; auto simp: strict_prefix_def)+

lemma uncounted_extends:
  assumes "heap_extends (abs_heap P t) (abs_heap P t')" "thread_ok P pvalid nib t x"
  shows "uncounted nib t' p x = uncounted nib t p x"
proof (cases "bump_node (snd x)")
  case (Some a)
  then obtain n where n: "et_nodes t a = Some n" using bump_node_ok(2) assms(2) by (fastforce simp: thread_ok_def)
  then obtain n' where "et_nodes t' a = Some n'" "at_path nib n' = at_path nib n" using extends_node [OF assms(1)] by metis
  then show ?thesis using Some n by (simp add: uncounted_def)
qed (simp add: uncounted_def)

context trie_prefix
begin

lemma aok_shape:
  assumes "aok t" "et_nodes t a = Some n"
  shows "heap_shape nib (abs_heap P t) a = Some (apath n, cn_children (abs_node P (et_values t) n))"
  using hokD(2) [OF assms(1) aokD(2) [OF assms]] by simp

lemma shape_node: "heap_shape nib (abs_heap P t) a = Some (p, ch) \<Longrightarrow> \<exists>n. et_nodes t a = Some n \<and> apath n = p"
  by (auto simp: heap_shape_def abs_heap_def)

lemma apath_inject:
  assumes "aok t" "et_nodes t a = Some n" "et_nodes t b = Some m" "apath n = apath m"
  shows "a = b"
  using aok_shape [OF assms(1,2)] aok_shape [OF assms(1,3)] assms(1,4) unfolding heap_ok_def shape_ok_def by (metis paths_injectD)

text \<open>An edge with a child: every node below the edge is below the child.\<close>

lemma edge:
  assumes t: "aok t" and n: "et_nodes t a = Some n" "\<not> at_is_leaf P n" "d < 16" "get_ptr (at_children n d) \<noteq> UINT32_MAX"
  obtains m where "et_nodes t (unat (get_ptr (at_children n d))) = Some m" "prefix (apath n @ [d]) (apath m)"
    "\<And>b k. et_nodes t b = Some k \<Longrightarrow> prefix (apath n @ [d]) (apath k) \<Longrightarrow> prefix (apath m) (apath k)"
proof -
  have S: "children_extend (heap_shape nib (abs_heap P t))" "paths_linked (heap_shape nib (abs_heap P t))"
    using t by (auto simp: heap_ok_def shape_ok_def)
  have ch: "cn_children (abs_node P (et_values t) n) d = Some (unat (get_ptr (at_children n d)))"
    using n(2-4) abs_node_children [of P n d] by (simp add: abs_child_def)
  note a = aok_shape [OF t n(1)]
  obtain m where m: "et_nodes t (unat (get_ptr (at_children n d))) = Some m" "prefix (apath n @ [d]) (apath m)"
    using children_extendD [OF S(1) a ch] shape_node by metis
  have "prefix (apath m) (apath k)" if k: "et_nodes t b = Some k" "prefix (apath n @ [d]) (apath k)" for b k
    using paths_linkedD [OF S(2) a aok_shape [OF t k(1)]] k(2) ch aok_shape [OF t m(1)] by (auto simp: prefix_snoc_nth)
  then show ?thesis using that m by blast
qed

lemma no_edge:
  assumes t: "aok t" and n: "et_nodes t a = Some n" "\<not> at_is_leaf P n" "d < 16" "get_ptr (at_children n d) = UINT32_MAX" and m: "et_nodes t b = Some m"
  shows "\<not> prefix (apath n @ [d]) (apath m)"
  by (rule empty_slot [OF _ aok_shape [OF t n(1)] _ aok_shape [OF t m]])
    (use t n abs_node_children [of P n d] in \<open>auto simp: heap_ok_def shape_ok_def abs_child_def\<close>)

text \<open>The edge a thread counts at.\<close>

lemma bump_edge:
  assumes t: "aok t" and n: "et_nodes t a = Some n" "strict_prefix (apath n) (nib key)" and key: "pvalid key" "leaf_at P nib t key"
  shows "get_ptr (at_children n (nib key ! length (apath n))) \<noteq> UINT32_MAX" "prefix (apath n @ [nib key ! length (apath n)]) (nib key)"
proof -
  obtain b0 l where l: "et_nodes t b0 = Some l" "apath l = nib key" using key(2) by (auto simp: leaf_at_def)
  show p: "prefix (apath n @ [nib key ! length (apath n)]) (nib key)" using n(2) by (simp add: prefix_snoc_nth)
  show "get_ptr (at_children n (nib key ! length (apath n))) \<noteq> UINT32_MAX"
    using no_edge [OF t n(1) slot_facts(1,2) [OF t n(1) key(1) n(2)] _ l(1)] p l(2) by auto
qed

lemma bump_child:
  assumes t: "aok t" and n: "et_nodes t a = Some n" "strict_prefix (apath n) (nib key)" and key: "pvalid key" "leaf_at P nib t key"
  obtains m where "et_nodes t (unat (get_ptr (at_children n (nib key ! length (apath n))))) = Some m" "prefix (apath m) (nib key)"
    "prefix (apath n @ [nib key ! length (apath n)]) (apath m)"
    "\<And>b k. et_nodes t b = Some k \<Longrightarrow> prefix (apath n @ [nib key ! length (apath n)]) (apath k) \<Longrightarrow> prefix (apath m) (apath k)"
proof -
  obtain b l where l: "et_nodes t b = Some l" "apath l = nib key" using key(2) by (auto simp: leaf_at_def)
  note e = bump_edge [OF t n key]
  show ?thesis using edge [OF t n(1) slot_facts(1,2) [OF t n(1) key(1) n(2)] e(1)] that l e(2) by metis
qed

lemma leaves_finite: "aok t \<Longrightarrow> finite (leaves_below P nib t p)"
  by (rule finite_subset [of _ "dom (abs_heap P t)"]) (auto simp: leaves_below_def abs_heap_def heap_ok_def)

lemma leaves_card:
  assumes "aok t" "handles_ok t"
  shows "card (leaves_below P nib t p) \<le> 2 ^ 32 - 1"
proof -
  obtain r where r: "et_nodes t root_addr = Some r" "apath r = []"
    using assms(1) shape_node [of t root_addr "[]"] by (auto simp: heap_ok_def shape_ok_def)
  have "prefix_bits P div 4 \<noteq> 0" using bits_pos bits_eq by linarith
  then have root: "root_addr \<notin> leaves_below P nib t p" using r aokD(4) [OF assms(1) r(1)] by (auto simp: leaves_below_def)
  have "leaves_below P nib t p \<subseteq> {..<2 ^ 32 - 1}"
  proof
    fix b assume "b \<in> leaves_below P nib t p"
    then have "b \<in> dom (et_nodes t)" "b \<noteq> root_addr" using root by (auto simp: leaves_below_def)
    then have "b < 2 ^ 32 - 1" using assms(2) unfolding handles_ok_def by blast
    then show "b \<in> {..<2 ^ 32 - 1}" by simp
  qed
  then have "card (leaves_below P nib t p) \<le> card {..<2 ^ 32 - 1 :: nat}" by (intro card_mono) auto
  then show ?thesis by simp
qed

text \<open>The size at an edge does not overflow when a thread counts there.\<close>

lemma bump_small:
  assumes ok: "eph_ok P pvalid nib (t, ts)" and x: "((key, i), E_Bump_Try a w) \<in> set ts"
    and n: "et_nodes t a = Some n" "strict_prefix (apath n) (nib key)" "w = at_children n (nib key ! length (apath n))"
  shows "unat (get_sz w) < 2 ^ 32 - 1"
proof -
  let ?d = "nib key ! length (apath n)" and ?p = "apath n @ [nib key ! length (apath n)]"
  have t: "aok t" "handles_ok t" and key: "pvalid key" "leaf_at P nib t key"
    using ok x by (auto simp: eph_ok_def thread_ok_def)
  note e = bump_edge [OF t(1) n(1,2) key]
  have "uncounted nib t ?p ((key, i), E_Bump_Try a w)" using n(1) e(2) by (auto simp: uncounted_def strict_prefix_def)
  then have "0 < pending nib t ts ?p" using x by (auto simp: pending_def filter_empty_conv)
  moreover have "unat (get_sz w) + pending nib t ts ?p = card (leaves_below P nib t ?p)"
    using ok n e(1) slot_facts(1,2) [OF t(1) n(1) key(1) n(2)] by (auto simp: eph_ok_def sizes_ok_def)
  ultimately show ?thesis using leaves_card [OF t, of ?p] by linarith
qed

section \<open>The sizes after a step\<close>

lemma sizes_same:
  assumes "sizes_ok P nib (t, ts)" "et_nodes t' = et_nodes t" "i < length ts" "\<And>p. uncounted nib t p y = uncounted nib t p (ts ! i)"
  shows "sizes_ok P nib (t', ts[i := y])"
proof -
  have "pending nib t' (ts[i := y]) p = pending nib t (ts[i := y]) p" for p by (rule pending_cong) (simp add: uncounted_def assms(2))
  then have "pending nib t' (ts[i := y]) p = pending nib t ts p" for p
    using pending_update [OF assms(3), of nib t y p] assms(4) by simp
  moreover have "leaves_below P nib t' p = leaves_below P nib t p" for p using assms(2) by (simp add: leaves_below_def)
  ultimately show ?thesis using assms(1,2) by (simp add: sizes_ok_def)
qed

text \<open>The general form: the edge of each node in the new trie comes from an edge of the old one.\<close>

lemma pending_step:
  assumes "heap_extends (abs_heap P t) (abs_heap P t')" "\<And>x. x \<in> set ts \<Longrightarrow> thread_ok P pvalid nib t x" "i < length ts"
  shows "pending nib t' (ts[i := y]) p + of_bool (uncounted nib t p (ts ! i)) = pending nib t ts p + of_bool (uncounted nib t' p y)"
proof -
  have "pending nib t' ts p = pending nib t ts p" by (rule pending_cong) (rule uncounted_extends [OF assms(1,2)])
  moreover have "uncounted nib t' p (ts ! i) = uncounted nib t p (ts ! i)" by (rule uncounted_extends [OF assms(1,2)]) (simp add: assms(3))
  ultimately show ?thesis using pending_update [OF assms(3), of nib t' y p] by simp
qed

lemma sizes_okD:
  assumes "sizes_ok P nib (t, ts)" "et_nodes t a = Some n" "\<not> at_is_leaf P n" "d < 16" "get_ptr (at_children n d) \<noteq> UINT32_MAX"
  shows "unat (get_sz (at_children n d)) + pending nib t ts (apath n @ [d]) = card (leaves_below P nib t (apath n @ [d]))"
  using assms by (auto simp: sizes_ok_def)

lemma root_node:
  assumes "aok t"
  obtains r where "et_nodes t root_addr = Some r" "apath r = []"
  using assms shape_node [of t root_addr "[]"] by (auto simp: heap_ok_def shape_ok_def)

lemma sizes_add:
  assumes ok: "eph_ok P pvalid nib (t, ts)" and j: "j < length ts" "ts ! j = ((key, i), E_Loop a w q)"
    and n: "et_nodes t a = Some n" "strict_prefix (apath n) (nib key)" "get_ptr (at_children n (nib key ! length (apath n))) = UINT32_MAX"
    and new: "et_nodes t (unat p) = None" "at_is_leaf P x" "apath x = nib key" and ext: "heap_extends (abs_heap P t) (abs_heap P t')"
    and t': "et_nodes t' = (et_nodes t)(unat p \<mapsto> x, a \<mapsto> n\<lparr>at_children := (at_children n)(nib key ! length (apath n) := child_word p 0)\<rparr>)"
  shows "sizes_ok P nib (t', ts[j := ((key, i), E_Bump root_addr)])"
proof -
  let ?y = "((key, i), E_Bump root_addr)" and ?d = "nib key ! length (apath n)"
  have t: "aok t" and th: "\<And>x. x \<in> set ts \<Longrightarrow> thread_ok P pvalid nib t x" and sz: "sizes_ok P nib (t, ts)" using ok by (auto simp: eph_ok_def)
  have key: "pvalid key" using th [OF nth_mem [OF j(1)]] j(2) by (simp add: thread_ok_def)
  note slot = slot_facts [OF t n(1) key n(2)]
  obtain r where r: "et_nodes t root_addr = Some r" "apath r = []" using root_node [OF t] .
  obtain r' where "et_nodes t' root_addr = Some r'" "apath r' = []" using extends_node [OF ext r(1)] r(2) by metis
  then have un: "uncounted nib t' s ?y \<longleftrightarrow> prefix s (nib key)" if "s \<noteq> []" for s using that by (auto simp: uncounted_def strict_prefix_def)
  have pend: "pending nib t' (ts[j := ?y]) s = pending nib t ts s + of_bool (prefix s (nib key))" if "s \<noteq> []" for s
    using pending_step [OF ext th j(1), of ?y s] un [OF that] j(2) by (simp add: uncounted_def)
  have "leaves_below P nib t' s = leaves_below P nib t s \<union> (if prefix s (nib key) then {unat p} else {})" for s
    unfolding leaves_below_def t' using n(1) slot(1) new by (auto simp: at_is_leaf_def at_path_def split: if_splits)
  moreover have "unat p \<notin> leaves_below P nib t s" for s using new(1) by (simp add: leaves_below_def)
  ultimately have lv: "card (leaves_below P nib t' s) = card (leaves_below P nib t s) + of_bool (prefix s (nib key))" for s
    using leaves_finite [OF t] by simp
  have none: "pending nib t ts (apath n @ [?d]) = 0" "leaves_below P nib t (apath n @ [?d]) = {}"
  proof -
    note e = no_edge [OF t n(1) slot(1,2) n(3)]
    show "leaves_below P nib t (apath n @ [?d]) = {}" using e by (auto simp: leaves_below_def)
    have "\<not> uncounted nib t (apath n @ [?d]) z" if z: "z \<in> set ts" for z
    proof
      assume "uncounted nib t (apath n @ [?d]) z"
      then obtain b where "bump_node (snd z) = Some b" "prefix (apath n @ [?d]) (nib (fst (fst z)))" by (auto simp: uncounted_def)
      moreover have "bump_ok P nib t (fst (fst z)) (snd z)" using th [OF z] by (auto simp: thread_ok_def split: prod.splits)
      ultimately show False using bump_node_ok(1) e unfolding leaf_at_def by metis
    qed
    then show "pending nib t ts (apath n @ [?d]) = 0" by (simp add: pending_def)
  qed
  show ?thesis
    unfolding sizes_ok_def prod.case
  proof (intro allI impI)
    fix b m e assume m: "et_nodes t' b = Some m" "\<not> at_is_leaf P m" "e < 16" "get_ptr (at_children m e) \<noteq> UINT32_MAX"
    show "unat (get_sz (at_children m e)) + pending nib t' (ts[j := ?y]) (apath m @ [e]) = card (leaves_below P nib t' (apath m @ [e]))"
    proof (cases "b = a \<and> e = ?d")
      case True
      then have "apath m = apath n" "get_sz (at_children m e) = 0" using m(1) t' by (auto simp: at_path_def)
      then show ?thesis using none True by (simp add: pend lv)
    next
      case False
      then obtain m0 where "et_nodes t b = Some m0" "apath m0 = apath m" "at_is_leaf P m0 = at_is_leaf P m" "at_children m0 e = at_children m e"
        using m(1,2) new(2) n(1) t' by (auto simp: at_path_def at_is_leaf_def split: if_splits)
      then show ?thesis using sizes_okD [OF sz, of b m0 e] m by (simp add: pend lv)
    qed
  qed
qed

lemma sizes_split:
  assumes ok: "eph_ok P pvalid nib (t, ts)" and j: "j < length ts" "ts ! j = ((key, i), E_Loop a w q)"
    and n: "et_nodes t a = Some n" "strict_prefix (apath n) (nib key)" "w = at_children n (nib key ! length (apath n))" "get_ptr w \<noteq> UINT32_MAX"
    and m: "et_nodes t (unat (get_ptr w)) = Some m" "k = lcp (apath m) (nib key)" "k < length (apath m)"
    and new: "et_nodes t (unat p) = None" "\<not> at_is_leaf P x" "apath x = take k (nib key)" "at_children x = acm_clear(apath m ! k := w)"
    and ext: "heap_extends (abs_heap P t) (abs_heap P t')"
    and t': "et_nodes t' = (et_nodes t)(unat p \<mapsto> x, a \<mapsto> n\<lparr>at_children := (at_children n)(nib key ! length (apath n) := child_word p (get_sz w))\<rparr>)"
  shows "sizes_ok P nib (t', ts[j := ((key, i), E_Enter b)])"
proof -
  let ?y = "((key, i), E_Enter b)" and ?d = "nib key ! length (apath n)"
  let ?p = "apath n @ [?d]" and ?q = "take k (nib key) @ [apath m ! k]"
  have t: "aok t" and th: "\<And>x. x \<in> set ts \<Longrightarrow> thread_ok P pvalid nib t x" and sz: "sizes_ok P nib (t, ts)" using ok by (auto simp: eph_ok_def)
  have key: "pvalid key" using th [OF nth_mem [OF j(1)]] j(2) by (simp add: thread_ok_def)
  note slot = slot_facts [OF t n(1) key n(2)]
  have pend: "pending nib t' (ts[j := ?y]) s = pending nib t ts s" for s
    using pending_step [OF ext th j(1), of ?y s] j(2) by (simp add: uncounted_def)
  have lv: "leaves_below P nib t' s = leaves_below P nib t s" for s
    unfolding leaves_below_def t' using n(1) slot(1) new(1,2) by (auto simp: at_is_leaf_def at_path_def split: if_splits)
  have below: "prefix (apath m) (apath l)" if "et_nodes t c = Some l" "prefix ?p (apath l)" for c l
    using edge [OF t n(1) slot(1,2)] n(3,4) m(1) that by (metis option.inject)
  have pm: "prefix ?p (apath m)" using edge [OF t n(1) slot(1,2)] n(3,4) m(1) by (metis option.inject)
  have "?q = take (Suc k) (apath m)" using m(2,3) take_lcp [of "apath m" "nib key"] by (simp add: take_Suc_conv_app_nth)
  then have qm: "prefix ?q (apath m)" by (simp add: take_is_prefix)
  have "length ?p \<le> k" using prefix_le_lcp [OF pm, of "nib key"] n(2) m(2) by (simp add: prefix_snoc_nth)
  then have "length ?p \<le> length ?q" using m(2) lcp_le(2) [of "apath m" "nib key"] by simp
  then have pq: "prefix ?p ?q" using pm qm prefix_length_prefix by blast
  have "et_nodes t c = Some l \<Longrightarrow> prefix ?q (apath l) \<longleftrightarrow> prefix ?p (apath l)" for c l
    using pq qm below by (meson prefix_order.trans)
  then have mid: "leaves_below P nib t ?q = leaves_below P nib t ?p" unfolding leaves_below_def by blast
  have un: "uncounted nib t ?q z = uncounted nib t ?p z" if z: "z \<in> set ts" for z
  proof (cases "bump_node (snd z)")
    case (Some c)
    let ?k = "nib (fst (fst z))"
    have "bump_ok P nib t (fst (fst z)) (snd z)" using th [OF z] by (auto simp: thread_ok_def split: prod.splits)
    note b = bump_node_ok [OF this Some]
    obtain c0 l where l: "et_nodes t c0 = Some l" "apath l = ?k" using b(1) by (auto simp: leaf_at_def)
    obtain u where u: "et_nodes t c = Some u" "prefix (apath u) ?k" using b(2) by blast
    have k: "prefix ?q ?k \<longleftrightarrow> prefix ?p ?k"
      using prefix_order.trans [OF qm, of ?k] prefix_order.trans [OF pq, of ?k] below [OF l(1)] l(2) by auto
    have "strict_prefix (apath u) ?q \<longleftrightarrow> strict_prefix (apath u) ?p" if pk: "prefix ?p ?k"
    proof
      assume st: "strict_prefix (apath u) ?q"
      have "\<not> prefix ?p (apath u)" using below [OF u(1)] qm st by (meson prefix_order.leD prefix_order.trans)
      then show "strict_prefix (apath u) ?p" using strict_prefix_linear [OF u(2) pk] by (auto simp: strict_prefix_def)
    qed (use pq in \<open>auto intro: prefix_order.less_le_trans\<close>)
    then show ?thesis using Some u(1) k by (auto simp: uncounted_def)
  qed (simp add: uncounted_def)
  have pmid: "pending nib t ts ?q = pending nib t ts ?p" by (rule pending_cong) (rule un)
  have main: "unat (get_sz w) + pending nib t ts ?p = card (leaves_below P nib t ?p)"
    using sizes_okD [OF sz n(1) slot(1,2)] n(3,4) by simp
  show ?thesis
    unfolding sizes_ok_def prod.case
  proof (intro allI impI)
    fix c l e assume l: "et_nodes t' c = Some l" "\<not> at_is_leaf P l" "e < 16" "get_ptr (at_children l e) \<noteq> UINT32_MAX"
    have "a \<noteq> unat p" using n(1) new(1) by auto
    then consider "c = a" "e = ?d" | "c = unat p" "c \<noteq> a" | "c \<noteq> unat p" "c \<noteq> a \<or> e \<noteq> ?d" by blast
    then show "unat (get_sz (at_children l e)) + pending nib t' (ts[j := ?y]) (apath l @ [e]) = card (leaves_below P nib t' (apath l @ [e]))"
    proof cases
      case 1
      then have "apath l = apath n" "get_sz (at_children l e) = get_sz w" using l(1) t' by (auto simp: at_path_def)
      then show ?thesis using main 1 by (simp add: pend lv)
    next
      case 2
      then have "l = x" using l(1) t' by simp
      moreover have "e = apath m ! k" using l(4) new(4) \<open>l = x\<close> by (auto simp: acm_clear_def split: if_splits)
      ultimately show ?thesis using main new(3,4) mid pmid by (simp add: pend lv)
    next
      case 3
      then obtain l0 where "et_nodes t c = Some l0" "apath l0 = apath l" "at_is_leaf P l0 = at_is_leaf P l" "at_children l0 e = at_children l e"
        using l(1) n(1) t' by (auto simp: at_path_def at_is_leaf_def split: if_splits)
      then show ?thesis using sizes_okD [OF sz, of c l0 e] l by (simp add: pend lv)
    qed
  qed
qed

lemma sizes_bump:
  assumes ok: "eph_ok P pvalid nib (t, ts)" and j: "j < length ts" "ts ! j = ((key, i), E_Bump_Try a w)"
    and n: "et_nodes t a = Some n" "strict_prefix (apath n) (nib key)" "w = at_children n (nib key ! length (apath n))"
    and ext: "heap_extends (abs_heap P t) (abs_heap P t')"
    and t': "et_nodes t' = (et_nodes t)(a \<mapsto> n\<lparr>at_children := (at_children n)(nib key ! length (apath n) := w + 1)\<rparr>)"
  shows "sizes_ok P nib (t', ts[j := ((key, i), E_Bump (unat (get_ptr w)))])"
proof -
  let ?x = "((key, i), E_Bump_Try a w)" and ?y = "((key, i), E_Bump (unat (get_ptr w)))" and ?d = "nib key ! length (apath n)"
  let ?p = "apath n @ [?d]"
  have t: "aok t" and th: "\<And>x. x \<in> set ts \<Longrightarrow> thread_ok P pvalid nib t x" and sz: "sizes_ok P nib (t, ts)" using ok by (auto simp: eph_ok_def)
  have x: "?x \<in> set ts" using nth_mem [OF j(1)] j(2) by simp
  then have key: "pvalid key" "leaf_at P nib t key" using th [OF x] by (simp_all add: thread_ok_def)
  note slot = slot_facts [OF t n(1) key(1) n(2)] and e = bump_edge [OF t n(1,2) key] and small = bump_small [OF ok x n]
  obtain m where m: "et_nodes t (unat (get_ptr w)) = Some m" "prefix (apath m) (nib key)" "prefix ?p (apath m)"
    "\<And>b k. et_nodes t b = Some k \<Longrightarrow> prefix ?p (apath k) \<Longrightarrow> prefix (apath m) (apath k)"
    using bump_child [OF t n(1,2) key] n(3) by metis
  obtain m' where m': "et_nodes t' (unat (get_ptr w)) = Some m'" "apath m' = apath m" using extends_node [OF ext m(1)] by metis
  have old: "uncounted nib t s ?x \<longleftrightarrow> prefix s (nib key) \<and> strict_prefix (apath n) s" for s using n(1) by (simp add: uncounted_def)
  have new: "uncounted nib t' s ?y \<longleftrightarrow> prefix s (nib key) \<and> strict_prefix (apath m) s" for s using m' by (simp add: uncounted_def)
  have pend: "pending nib t' (ts[j := ?y]) s + of_bool (uncounted nib t s ?x) = pending nib t ts s + of_bool (uncounted nib t' s ?y)" for s
    using pending_step [OF ext th j(1), of ?y s] j(2) by simp
  have lv: "leaves_below P nib t' s = leaves_below P nib t s" for s
    unfolding leaves_below_def t' using n(1) slot(1) by (auto simp: at_is_leaf_def at_path_def split: if_splits)
  have nm: "strict_prefix (apath n) (apath m)" using m(3) by (simp add: prefix_snoc_nth)
  have "\<not> strict_prefix (apath m) ?p" using m(3) prefix_order.leD by blast
  then have here: "pending nib t' (ts[j := ?y]) ?p + 1 = pending nib t ts ?p"
    using pend [of ?p] old [of ?p] new [of ?p] e(2) by (simp add: prefix_snoc_strict)
  have other: "uncounted nib t (apath l @ [f]) ?x \<longleftrightarrow> uncounted nib t' (apath l @ [f]) ?y"
    if l: "et_nodes t c = Some l" "c \<noteq> a \<or> f \<noteq> ?d" for c l f
  proof -
    have "prefix (apath m) (apath l)" if q: "prefix (apath l @ [f]) (nib key)" "prefix (apath n) (apath l)"
    proof -
      have lk: "strict_prefix (apath l) (nib key)" "nib key ! length (apath l) = f" using q(1) by (auto simp: prefix_snoc_nth)
      have "apath n \<noteq> apath l" using apath_inject [OF t n(1) l(1)] l(2) lk(2) by auto
      then have nl: "strict_prefix (apath n) (apath l)" using q(2) by (simp add: strict_prefix_def)
      then have "prefix ?p (apath l)"
        using strict_prefix_nth [OF nl, of "nib key"] lk(1) by (auto simp: prefix_snoc_nth strict_prefix_def)
      then show ?thesis by (rule m(4) [OF l(1)])
    qed
    moreover have "prefix (apath m) (apath l) \<Longrightarrow> prefix (apath n) (apath l)" using nm by (meson prefix_order.less_imp_le prefix_order.trans)
    ultimately show ?thesis unfolding old new prefix_snoc_strict by blast
  qed
  show ?thesis
    unfolding sizes_ok_def prod.case
  proof (intro allI impI)
    fix c l f assume l: "et_nodes t' c = Some l" "\<not> at_is_leaf P l" "f < 16" "get_ptr (at_children l f) \<noteq> UINT32_MAX"
    show "unat (get_sz (at_children l f)) + pending nib t' (ts[j := ?y]) (apath l @ [f]) = card (leaves_below P nib t' (apath l @ [f]))"
    proof (cases "c = a \<and> f = ?d")
      case True
      then have "apath l = apath n" "at_children l f = w + 1" using l(1) t' by (auto simp: at_path_def)
      then show ?thesis using sizes_okD [OF sz n(1) slot(1,2)] e(1) n(3) here True child_word_bump(2) [OF small] by (simp add: lv)
    next
      case False
      then obtain l0 where l0: "et_nodes t c = Some l0" "apath l0 = apath l" "at_is_leaf P l0 = at_is_leaf P l" "at_children l0 f = at_children l f"
        using l(1) n(1) t' by (auto simp: at_path_def at_is_leaf_def split: if_splits)
      then show ?thesis using sizes_okD [OF sz, of c l0 f] l pend [of "apath l @ [f]"] other [OF l0(1), of f] False by (auto simp: lv)
    qed
  qed
qed

end

end
