(* ===== verification/EphemeralLinear.thy ===== *)
theory EphemeralLinear
  imports EphemeralSizes
begin

text \<open>
  Runs of the ephemeral trie.  Every step keeps the invariant; an insertion takes effect at one of its steps, and a run has the effect
  of its insertions one by one in that order; an insertion returns true iff it is the first with its key.
\<close>

section \<open>Steps\<close>

context trie_prefix
begin

abbreviation eok where
  "eok \<equiv> eph_ok P pvalid nib"

lemma eokD:
  assumes "eok (t, ts)"
  shows "aok t" "values_ok P t" "handles_ok t" "\<not> et_hashed t" "x \<in> set ts \<Longrightarrow> thread_ok P pvalid nib t x" "held_apart ts" "sizes_ok P nib (t, ts)" "nulls_ok P t"
  using assms by (auto simp: eph_ok_def)

lemma thread_step:
  assumes ok: "eok (t, ts)" and j: "j < length ts" "ts ! j = ((key, i), pc)" "pc \<notin> range E_Return" and l: "fresh_label t ts l"
  shows "\<exists>t' pc'. eph_step P F l key i t pc = Inr (t', pc') \<and> eph_move P nib F key i (el_ptr l) t pc t' pc' \<and> eph_post P pvalid nib F key i t pc t' pc'"
proof -
  note t = eokD [OF ok]
  have x: "((key, i), pc) \<in> set ts" using nth_mem [OF j(1)] j(2) by simp
  then have th: "pvalid key" "pc_ok nib (abs_heap P t) (nib key) (abs_pc pc)" "bump_ok P nib t key pc"
    "\<forall>p \<in> held pc. p \<noteq> UINT32_MAX \<and> et_nodes t (unat p) = None"
    using t(5) [OF x] by (auto simp: thread_ok_def)
  have lab: "el_ptr l \<noteq> UINT32_MAX" "et_nodes t (unat (el_ptr l)) = None" "et_values t (unat (el_value_ptr l)) = None"
    using l by (auto simp: fresh_label_def)
  obtain t' pc' where s: "eph_step P F l key i t pc = Inr (t', pc')" "eph_move P nib F key i (el_ptr l) t pc t' pc'"
    using eph_step_move [OF t(1,2,4) th(1-3) j(3) lab th(4), where F = F and i = i] by blast
  have "eph_post P pvalid nib F key i t pc t' pc'"
    by (rule eph_move_post [OF t(1,2) th(1) s(2) th(3,2) j(3)]) (use bump_small [OF ok] x in blast)
  then show ?thesis using s by blast
qed

lemma eph_step_elim:
  assumes "eok (t, ts)" "eph_machine P F (t, ts) j s'"
  obtains key i pc t' pc' e where "j < length ts" "ts ! j = ((key, i), pc)" "pc \<notin> range E_Return" "s' = (t', ts[j := ((key, i), pc')])"
    "e \<noteq> UINT32_MAX" "et_nodes t (unat e) = None" "\<And>x. x \<in> set ts \<Longrightarrow> e \<notin> held (snd x)"
    "eph_move P nib F key i e t pc t' pc'" "eph_post P pvalid nib F key i t pc t' pc'"
  using assms(2)
proof cases
  case (eph_machine key v pc l t' pc')
  then show ?thesis
    using that [OF eph_machine(2,3,4,1)] thread_step [OF assms(1) eph_machine(2,3,4,5), of F] by (auto simp: fresh_label_def)
qed

lemma sizes_step:
  assumes ok: "eok (t, ts)" and j: "j < length ts" "ts ! j = ((key, i), pc)" and mv: "eph_move P nib F key i e t pc t' pc'"
    and post: "eph_post P pvalid nib F key i t pc t' pc'"
  shows "sizes_ok P nib (t', ts[j := ((key, i), pc')])"
proof -
  note t = eokD [OF ok]
  have x: "((key, i), pc) \<in> set ts" using nth_mem [OF j(1)] j(2) by simp
  have th: "pvalid key" "bump_ok P nib t key pc" using t(5) [OF x] by (auto simp: thread_ok_def)
  have ext: "heap_extends (abs_heap P t) (abs_heap P t')" using post by (simp add: eph_post_def)
  note same = sizes_same [OF t(7) _ j(1), where t' = t' and y = "((key, i), pc')"]
  have plain: ?thesis if "et_nodes t' = et_nodes t" "bump_node pc' = bump_node pc"
    by (rule same [OF that(1)]) (use that(2) j(2) in \<open>simp add: uncounted_def\<close>)
  from mv show ?thesis
  proof cases
    case (em_add a n w p q vp x slot)
    show ?thesis
      unfolding em_add(3) by (rule sizes_add [OF ok j(1) j(2) [unfolded em_add(1)] em_add(4,5) _ em_add(9) _ _ ext, where x = x])
        (use em_add new_leaf_ok(2,5) [OF th(1) em_add(12)] in simp_all)
  next
    case (em_split a n w m k p q slot x)
    have k: "k < prefix_bits P div 4" using em_split(11) aokD(5) [OF t(1) em_split(8)] by simp
    note am = aokD(6) [OF t(1) em_split(8)]
    have d: "apath m ! k < 16" using em_split(11) nib_bound [OF am nth_mem, of k] nib_length [OF am] k by (simp add: at_path_def)
    have x: "\<not> at_is_leaf P x" "apath x = take k (nib key)" "at_children x = acm_clear(apath m ! k := w)"
      using new_branch_ok [OF th(1) k em_split(15) d em_split(7), of "et_values t"] by metis+
    show ?thesis
      unfolding em_split(3)
      by (rule sizes_split [OF ok j(1) j(2) [unfolded em_split(1)] em_split(4,5) em_split(6) [symmetric] em_split(7,8,10,11,13) x ext]) (use em_split(2) in simp)
  next
    case (em_done a n)
    have "apath n = nib key"
      using th em_done aokD(4) [OF t(1) em_done(4)] nib_length [OF th(1)] by (auto simp: prefix_def)
    then have "uncounted nib t p ((key, i), pc') = uncounted nib t p (ts ! j)" for p
      using em_done j(2) prefix_order.leD by (auto simp: uncounted_def)
    then show ?thesis by (intro same) (simp_all add: em_done)
  next
    case (em_bump a n w)
    show ?thesis
      unfolding em_bump(3) by (rule sizes_bump [OF ok j(1) j(2) [unfolded em_bump(1)] em_bump(4,5) em_bump(6) [symmetric] ext]) (use em_bump(2) in simp)
  qed (use plain in simp_all)
qed

lemma nulls_step:
  assumes ok: "eok (t, ts)" and j: "j < length ts" "ts ! j = ((key, i), pc)" and mv: "eph_move P nib F key i e t pc t' pc'"
  shows "nulls_ok P t'"
proof -
  note t = eokD [OF ok]
  have x: "((key, i), pc) \<in> set ts" using nth_mem [OF j(1)] j(2) by simp
  have th: "pvalid key" "bump_ok P nib t key pc" using t(5) [OF x] by (auto simp: thread_ok_def)
  from mv show ?thesis
  proof cases
    case (em_add a n w p q vp x slot)
    have "\<not> at_is_leaf P n" using slot_facts(1) [OF t(1) em_add(4) th(1) em_add(5)] .
    then show ?thesis
      using t(8) em_add(2,4,8) new_leaf_ok(5) [OF th(1) em_add(12)] by (auto simp: nulls_ok_def at_is_leaf_def split: if_splits)
  next
    case (em_split a n w m k p q slot x)
    have "\<not> at_is_leaf P n" using slot_facts(1) [OF t(1) em_split(4) th(1) em_split(5)] .
    moreover have "at_children x = acm_clear(apath m ! k := w)"
      using em_split(15) by (auto simp: set_as_new_branch_node_def acm_set_unique_child_def res_simps)
    ultimately show ?thesis
      using t(8) em_split(2,4,7,12) by (auto simp: nulls_ok_def at_is_leaf_def acm_clear_def split: if_splits)
  next
    case (em_bump a n w)
    have "\<not> at_is_leaf P n" using slot_facts(1) [OF t(1) em_bump(4) th(1) em_bump(5)] .
    moreover have "get_ptr (w + 1) \<noteq> UINT32_MAX"
      using child_word_bump(1) [OF bump_small [OF ok x [unfolded em_bump(1)] em_bump(4,5) em_bump(6) [symmetric]]]
        bump_edge(1) [OF t(1) em_bump(4,5) th(1)] th(2) em_bump(1,6) by simp
    ultimately show ?thesis using t(8) em_bump(2,4) by (auto simp: nulls_ok_def at_is_leaf_def split: if_splits)
  qed (use t(8) in \<open>auto simp: nulls_ok_def\<close>)
qed

text \<open>What the thread of a step may count on after it.\<close>

lemma bump_step:
  assumes t: "aok t" "aok t'" and mv: "eph_move P nib F key i e t pc t' pc'" and key: "pvalid key" "bump_ok P nib t key pc"
    and ext: "heap_extends (abs_heap P t) (abs_heap P t')"
  shows "bump_ok P nib t' key pc'"
  using mv
proof cases
  case (em_add a n w p q vp x slot)
  obtain r where r: "et_nodes t' root_addr = Some r" "apath r = []" using root_node [OF t(2)] .
  have "unat p \<noteq> a" using em_add(4,9) by auto
  then have "leaf_at P nib t' key" unfolding leaf_at_def em_add(2) using new_leaf_ok(2) [OF key(1) em_add(12)] by (intro exI [of _ "unat p"] exI [of _ x]) simp
  then show ?thesis using r em_add(3) by simp
next
  case (em_bump a n w)
  have l: "leaf_at P nib t key" using key(2) em_bump(1) by simp
  obtain m where m: "et_nodes t (unat (get_ptr w)) = Some m" "prefix (apath m) (nib key)"
    using bump_child [OF t(1) em_bump(4,5) key(1) l] em_bump(6) by metis
  have "bump_ok P nib t key (E_Bump (unat (get_ptr w)))" using l m by simp
  then show ?thesis using bump_ok_extends [OF ext] em_bump(3) by blast
qed (use key(2) in \<open>auto simp: leaf_at_def\<close>)

theorem eph_step_ok:
  assumes ok: "eok (t, ts)" and st: "eph_machine P F (t, ts) j s'"
  shows "eok s'"
proof -
  note t = eokD [OF ok]
  show ?thesis
    using ok st
  proof (cases rule: eph_step_elim)
    case (1 key i pc t' pc' e)
    let ?ts = "ts[j := ((key, i), pc')]"
    have x: "((key, i), pc) \<in> set ts" using nth_mem [OF 1(1)] 1(2) by simp
    note th = t(5) [OF x]
    have post: "aok t'" "heap_extends (abs_heap P t) (abs_heap P t')" "pc_ok nib (abs_heap P t') (nib key) (abs_pc pc')"
      using 1(9) by (simp_all add: eph_post_def)
    have key: "pvalid key" "bump_ok P nib t key pc" using th by (simp_all add: thread_ok_def)
    have hashed: "et_hashed t' = et_hashed t" using 1(8) by cases auto
    have apart: "held (snd (ts ! k)) \<inter> insert e (held pc) = {}" if k: "k < length ts" "k \<noteq> j" for k
      using t(6) k 1(1,2) 1(7) [OF nth_mem [OF k(1)]] unfolding held_apart_def by fastforce
    have "thread_ok P pvalid nib t' z" if k: "k < length ts" "z = ?ts ! k" for k z
    proof (cases "k = j")
      case True
      then have "z = ((key, i), pc')" using k 1(1) by simp
      then show ?thesis
        using key post(3) bump_step [OF t(1) post(1) 1(8) key post(2)] move_holds(2) [OF 1(8,3)] by (auto simp: thread_ok_def)
    next
      case False
      then have z: "z = ts ! k" using k by simp
      obtain key' i' pc2 where z': "z = ((key', i'), pc2)" by (metis surj_pair)
      then have pc2: "snd (ts ! k) = pc2" using z by (metis snd_conv)
      have old: "thread_ok P pvalid nib t z" using t(5) nth_mem [OF k(1)] z by simp
      have "et_nodes t' (unat p) = None" if p: "p \<in> held pc2" for p
      proof (rule move_held [OF 1(8)])
        show "et_nodes t (unat p) = None" using old p z' by (simp add: thread_ok_def)
        fix p' assume "p' \<in> insert e (held pc)"
        then have "p' \<noteq> p" using apart [OF k(1) False] p pc2 by auto
        then show "unat p' \<noteq> unat p" using word_unat_eq_iff by blast
      qed
      then show ?thesis using old z' pc_ok_extends [OF post(2)] bump_ok_extends [OF post(2)] by (auto simp: thread_ok_def)
    qed
    then have "\<forall>z \<in> set ?ts. thread_ok P pvalid nib t' z" by (simp add: all_set_conv_all_nth)
    moreover have "held_apart ?ts"
      unfolding held_apart_def
    proof (intro allI impI)
      fix k l assume kl: "k < length ?ts" "l < length ?ts" "k \<noteq> l"
      then consider "k = j" "l \<noteq> j" | "l = j" "k \<noteq> j" | "k \<noteq> j" "l \<noteq> j" by blast
      then show "held (snd (?ts ! k)) \<inter> held (snd (?ts ! l)) = {}"
        using kl apart [of k] apart [of l] move_holds(1) [OF 1(8,3)] t(6) 1(1) by cases (auto simp: held_apart_def)
    qed
    ultimately show ?thesis
      using 1(4) post(1) move_values [OF t(2) 1(8) t(1) key(1)] move_handles [OF 1(8) t(3)] hashed t(4) sizes_step [OF ok 1(1,2,8,9)] nulls_step [OF ok 1(1,2,8)]
      by (simp add: eph_ok_def)
  qed
qed

end

section \<open>Runs\<close>

text \<open>An insertion has taken effect once its leaf is in the trie or the value of the leaf of its key is updated; it returns true iff it has added a leaf.\<close>

fun effected :: "eph_pc \<Rightarrow> bool" where
  "effected (E_Bump a) = True"
| "effected (E_Bump_Try a w) = True"
| "effected (E_Return r) = True"
| "effected _ = False"

fun added :: "eph_pc \<Rightarrow> bool" where
  "added (E_Return r) = r"
| "added _ = True"

text \<open>A run, with the threads in the order in which their insertions take effect.\<close>

inductive eph_run ::
    "'p TriePrefix \<Rightarrow> ('p, 'v, 'i, 'm) InsertFn \<Rightarrow> ('p, 'v) AtomicTrie \<times> ('p, 'i) eph_thread list \<Rightarrow> nat list \<Rightarrow>
     ('p, 'v) AtomicTrie \<times> ('p, 'i) eph_thread list \<Rightarrow> bool"
  for P F s where
  eph_run_nil: "eph_run P F s [] s"
| eph_run_snoc: "eph_run P F s order s' \<Longrightarrow> eph_machine P F s' j s'' \<Longrightarrow>
    eph_run P F s (if effected (snd (snd s' ! j)) \<or> \<not> effected (snd (snd s'' ! j)) then order else order @ [j]) s''"

text \<open>The reference: one insertion on a map.\<close>

definition ref_insert :: "('p, 'v, 'i, 'm) InsertFn \<Rightarrow> 'p \<times> 'i \<Rightarrow> ('p \<rightharpoonup> 'v) \<Rightarrow> ('p \<rightharpoonup> 'v)" where
  "ref_insert F = (\<lambda>(k, i) m. m(k \<mapsto> value_insert F (case m k of None \<Rightarrow> new_value F k | Some v \<Rightarrow> v) i))"

definition linear_ok ::
    "('p, 'v, 'i, 'm) InsertFn \<Rightarrow> ('p \<rightharpoonup> 'v) \<Rightarrow> ('p \<times> 'i) list \<Rightarrow> nat list \<Rightarrow> ('p, 'i) eph_thread list \<Rightarrow> ('p \<rightharpoonup> 'v) \<Rightarrow> bool" where
  "linear_ok F m0 kvs order ts m \<longleftrightarrow> map fst ts = kvs \<and> distinct order \<and> set order = {j. j < length ts \<and> effected (snd (ts ! j))} \<and>
     m = fold (\<lambda>j. ref_insert F (kvs ! j)) order m0 \<and>
     (\<forall>x < length order. added (snd (ts ! (order ! x))) \<longleftrightarrow> fst (kvs ! (order ! x)) \<notin> dom m0 \<union> (\<lambda>y. fst (kvs ! y)) ` set (take x order))"

lemma effected_abs: "effected pc \<longleftrightarrow> abs_pc pc = Return None"
  by (cases pc) auto

lemma ref_insert_op: "apply_op (eph_fns F) (Insert k (k, i)) m = ref_insert F (k, i) m"
  by (auto simp: ref_insert_def amt_update_def split: option.splits)

lemma dom_fold_ref: "dom (fold (\<lambda>j. ref_insert F (kvs ! j)) order m0) = dom m0 \<union> (\<lambda>y. fst (kvs ! y)) ` set order"
  by (induction order arbitrary: m0) (auto simp: ref_insert_def split: prod.splits)

context trie_prefix
begin

lemma move_effect:
  assumes mv: "eph_move P nib F key i e t pc t' pc'" and t: "aok t" "pvalid key" and pc: "pc \<notin> range E_Return"
  shows "effected pc \<Longrightarrow> effected pc' \<and> added pc' = added pc"
    "\<not> effected pc \<Longrightarrow> effected pc' \<Longrightarrow> added pc' \<longleftrightarrow> (\<forall>v. \<not> val_at nib (abs_heap P t) (nib key) v)"
proof -
  show "effected pc' \<and> added pc' = added pc" if "effected pc" using mv that by cases auto
  show "added pc' \<longleftrightarrow> (\<forall>v. \<not> val_at nib (abs_heap P t) (nib key) v)" if "\<not> effected pc" "effected pc'"
    using mv
  proof cases
    case (em_write a n y)
    have "val_at nib (abs_heap P t) (nib key) y"
      unfolding val_at_def using aokD(2) [OF t(1) em_write(4)] em_write(5-7)
      by (intro exI [of _ a] exI [of _ "abs_node P (et_values t) n"]) (auto simp: abs_node_def at_path_def cn_path_def)
    then show ?thesis using em_write(3) by auto
  next
    case (em_add a n w p q vp x slot)
    note slot = slot_facts [OF t(1) em_add(4) t(2) em_add(5)]
    have "\<not> val_at nib (abs_heap P t) (nib key) v" for v
      using no_edge [OF t(1) em_add(4) slot(1,2)] em_add(5-7) by (fastforce simp: val_at_def abs_heap_Some prefix_snoc_nth)
    then show ?thesis using em_add(3) by simp
  qed (use that in auto)
qed

theorem eph_run_linear:
  assumes "eph_run P F (t0, eph_threads kvs) order s'" "eok (t0, eph_threads kvs)" "vals_are pvalid nib (abs_heap P t0) m0"
  shows "eok s' \<and> (\<exists>m. linear_ok F m0 kvs order (snd s') m \<and> vals_are pvalid nib (abs_heap P (fst s')) m)"
  using assms
proof (induction rule: eph_run.induct)
  case eph_run_nil
  then show ?case by (auto simp: linear_ok_def eph_threads_def comp_def intro!: exI [of _ m0])
next
  case (eph_run_snoc order s' j s'')
  obtain t ts where s': "s' = (t, ts)" by (cases s')
  obtain m where ok: "eok (t, ts)" and lin: "linear_ok F m0 kvs order ts m" "vals_are pvalid nib (abs_heap P t) m"
    using eph_run_snoc.IH eph_run_snoc.prems s' by auto
  have ok': "eok s''" using eph_step_ok [OF ok] eph_run_snoc.hyps(2) s' by simp
  show ?case
    using ok eph_run_snoc.hyps(2) [unfolded s']
  proof (cases rule: eph_step_elim)
    case (1 key i pc t' pc' e)
    let ?ts = "ts[j := ((key, i), pc')]"
    have key: "pvalid key" using eokD(5) [OF ok nth_mem [OF 1(1)]] 1(2) by (simp add: thread_ok_def)
    have kj: "kvs ! j = (key, i)" "length kvs = length ts" using lin(1) 1(1,2) by (auto simp: linear_ok_def)
    have "map fst ?ts = (map fst ts)[j := map fst ts ! j]" using 1(1,2) by (simp add: map_update)
    then have fst: "map fst ?ts = kvs" using lin(1) by (simp add: linear_ok_def)
    note eff = move_effect [OF 1(8) eokD(1) [OF ok] key 1(3)]
    let ?E = "\<not> effected pc \<and> effected pc'"
    have "(abs_pc pc' \<noteq> abs_pc pc \<and> abs_pc pc' = Return None) = ?E" by (auto simp: effected_abs)
    then have "op_effect nib (eph_fns F) (Insert key (key, i)) ?E (abs_heap P t) (abs_heap P t')"
      using 1(9) by (simp add: eph_post_def)
    then have vals: "vals_are pvalid nib (abs_heap P t') (if ?E then ref_insert F (key, i) m else m)"
      using vals_effect [OF _ lin(2)] key ref_insert_op [of F key i m] by fastforce
    have ordj: "j \<in> set order \<longleftrightarrow> effected pc" using lin(1) 1(1,2) by (auto simp: linear_ok_def)
    have other: "snd (?ts ! x) = snd (ts ! x)" if "x \<noteq> j" for x using that by simp
    have set': "{x. x < length ?ts \<and> effected (snd (?ts ! x))} = set order \<union> (if ?E then {j} else {})"
      using lin(1) eff(1) 1(1,2) by (auto simp: linear_ok_def nth_list_update split: if_splits)
    have added': "added (snd (?ts ! x)) = added (snd (ts ! x))" if x: "x \<in> set order" for x
      using eff(1) ordj x 1(1,2) by (cases "x = j") auto
    have IH: "added (snd (?ts ! (order ! x))) \<longleftrightarrow> fst (kvs ! (order ! x)) \<notin> dom m0 \<union> (\<lambda>y. fst (kvs ! y)) ` set (take x order)"
      if "x < length order" for x
      using lin(1) added' [OF nth_mem [OF that]] that by (simp add: linear_ok_def)
    show ?thesis
    proof (cases ?E)
      case True
      have dm: "dom m = dom m0 \<union> (\<lambda>y. fst (kvs ! y)) ` set order" using lin(1) by (simp add: linear_ok_def dom_fold_ref)
      have "added pc' \<longleftrightarrow> key \<notin> dom m" using eff(2) True lin(2) key by (auto simp: vals_are_def)
      then have "linear_ok F m0 kvs (order @ [j]) ?ts (ref_insert F (key, i) m)"
        using lin(1) fst set' True ordj IH dm kj(1) 1(1) by (auto simp: linear_ok_def nth_append less_Suc_eq)
      then show ?thesis using ok' vals True 1(1,2,4) s' by auto
    next
      case False
      then have "linear_ok F m0 kvs order ?ts m" using lin(1) fst set' IH by (auto simp: linear_ok_def)
      then show ?thesis using ok' vals False 1(1,2,4) s' by (auto split: if_splits)
    qed
  qed
qed

end

end
