(* ===== verification/EphemeralOps.thy ===== *)
theory EphemeralOps
  imports EphemeralLinear
begin

text \<open>
  The operations of the ephemeral trie that run while nobody inserts: lookup, sizes, traversals and hashing.  They work on the arrays;
  \<open>rep\<close> says which tree the arrays hold.  The fuel of a recursion bounds the depth of the trie.
\<close>

section \<open>Operations\<close>

definition at_children_list :: "'p AtomicTrieNode \<Rightarrow> 32 word list" where
  "at_children_list n = filter (\<lambda>ptr. ptr \<noteq> UINT32_MAX) (map (\<lambda>i. get_ptr (at_children n i)) [0..<16])"

definition at_children_and_sizes_list :: "'p AtomicTrieNode \<Rightarrow> 64 word list" where
  "at_children_and_sizes_list n = filter (\<lambda>ptr_and_size. get_ptr ptr_and_size \<noteq> UINT32_MAX) (map (at_children n) [0..<16])"

text \<open>\<^verbatim>\<open>size\<close> adds in \<^verbatim>\<open>uint32_t\<close>.\<close>

definition at_size :: "'p TriePrefix \<Rightarrow> 'p AtomicTrieNode \<Rightarrow> 32 word" where
  "at_size P n = (if at_is_leaf P n then 1 else fold (\<lambda>bb acc. acc + get_sz (at_children n bb)) [0..<16] 0)"

definition et_size :: "'p TriePrefix \<Rightarrow> ('p, 'v) AtomicTrie \<Rightarrow> 32 word res" where
  "et_size P t = rbind (get_object t root_addr) (\<lambda>n. Inr (at_size P n))"

fun deep_sizecheck :: "'p TriePrefix \<Rightarrow> nat \<Rightarrow> ('p, 'v) AtomicTrie \<Rightarrow> nat \<Rightarrow> 32 word res" where
  "deep_sizecheck P 0 t a = throw ''fuel''"
| "deep_sizecheck P (Suc fuel) t a =
     rbind (get_object t a) (\<lambda>n.
       if at_is_leaf P n then Inr 1
       else rfold (\<lambda>bb total_size.
         let ptr = get_ptr (at_children n bb) in
         if ptr \<noteq> UINT32_MAX then
           rbind (deep_sizecheck P fuel t (unat ptr)) (\<lambda>got_sz.
             if got_sz \<noteq> get_sz (at_children n bb) then throw ''size mismatch'' else Inr (total_size + got_sz))
         else Inr total_size) [0..<16] 0)"

fun et_get_value :: "'p TriePrefix \<Rightarrow> nat \<Rightarrow> ('p, 'v) AtomicTrie \<Rightarrow> nat \<Rightarrow> 'p \<Rightarrow> 'v option res" where
  "et_get_value P 0 t a query_prefix = throw ''fuel''"
| "et_get_value P (Suc fuel) t a query_prefix =
     rbind (get_object t a) (\<lambda>n.
       let match_len = at_match_len P n query_prefix in
       if match_len < at_prefix_len n then Inr None
       else if match_len = MAX_KEY_LEN_BITS P then rbind (et_value t (at_value_pointer n)) (\<lambda>v. Inr (Some v))
       else rbind (get_branch_bits P query_prefix match_len) (\<lambda>bb.
         let relevant_child = get_ptr (at_children n bb) in
         if relevant_child = UINT32_MAX then Inr None else et_get_value P fuel t (unat relevant_child) query_prefix))"

text \<open>\<^verbatim>\<open>apply_to_kvs\<close> and \<^verbatim>\<open>apply_to_keys\<close>; the callback works on a state.\<close>

fun apply_to_kvs :: "'p TriePrefix \<Rightarrow> ('p \<Rightarrow> 'v \<Rightarrow> 's \<Rightarrow> 's) \<Rightarrow> nat \<Rightarrow> ('p, 'v) AtomicTrie \<Rightarrow> nat \<Rightarrow> 's \<Rightarrow> 's res" where
  "apply_to_kvs P fn 0 t a s = throw ''fuel''"
| "apply_to_kvs P fn (Suc fuel) t a s =
     rbind (get_object t a) (\<lambda>n.
       if at_is_leaf P n then rbind (et_value t (at_value_pointer n)) (\<lambda>v. Inr (fn (at_prefix n) v s))
       else rfold (\<lambda>bb s.
         let ptr = get_ptr (at_children n bb) in
         if ptr \<noteq> UINT32_MAX then apply_to_kvs P fn fuel t (unat ptr) s else Inr s) [0..<16] s)"

fun apply_to_keys :: "'p TriePrefix \<Rightarrow> ('p \<Rightarrow> 's \<Rightarrow> 's) \<Rightarrow> PrefixLenBits \<Rightarrow> nat \<Rightarrow> ('p, 'v) AtomicTrie \<Rightarrow> nat \<Rightarrow> 's \<Rightarrow> 's res" where
  "apply_to_keys P fn max_len 0 t a s = throw ''fuel''"
| "apply_to_keys P fn max_len (Suc fuel) t a s =
     rbind (get_object t a) (\<lambda>n.
       if at_prefix_len n \<ge> max_len then Inr (fn (at_prefix n) s)
       else rfold (\<lambda>bb s.
         let ptr = get_ptr (at_children n bb) in
         if ptr \<noteq> UINT32_MAX then apply_to_keys P fn max_len fuel t (unat ptr) s else Inr s) [0..<16] s)"

text \<open>\<^verbatim>\<open>accumulate_values_parallel_worker\<close>: a write outside the vector is undefined.\<close>

fun accumulate_values_worker ::
    "'p TriePrefix \<Rightarrow> ('p \<Rightarrow> 'v \<Rightarrow> 'o) \<Rightarrow> nat \<Rightarrow> ('p, 'v) AtomicTrie \<Rightarrow> nat \<Rightarrow> 'o list \<Rightarrow> nat \<Rightarrow> 'o list res" where
  "accumulate_values_worker P get_fn 0 t a out vector_offset = throw ''fuel''"
| "accumulate_values_worker P get_fn (Suc fuel) t a out vector_offset =
     rbind (get_object t a) (\<lambda>n.
       if at_is_leaf P n then
         rbind (et_value t (at_value_pointer n)) (\<lambda>v.
           if vector_offset < length out then Inr (out[vector_offset := get_fn (at_prefix n) v]) else throw ''undefined'')
       else rbind (rfold (\<lambda>bb (out, offset).
         let ptr = get_ptr (at_children n bb) in
         if ptr \<noteq> UINT32_MAX then
           rbind (accumulate_values_worker P get_fn fuel t (unat ptr) out offset) (\<lambda>out'. Inr (out', offset + unat (get_sz (at_children n bb))))
         else Inr (out, offset)) [0..<16] (out, vector_offset)) (\<lambda>r. Inr (fst r)))"

fun et_get_metadata :: "'p TriePrefix \<Rightarrow> nat \<Rightarrow> ('p, 'v) AtomicTrie \<Rightarrow> nat \<Rightarrow> 'p \<Rightarrow> PrefixLenBits \<Rightarrow> EphemeralTrieMetadata res" where
  "et_get_metadata P 0 t a query_prefix query_len = throw ''fuel''"
| "et_get_metadata P (Suc fuel) t a query_prefix query_len =
     rbind (get_object t a) (\<lambda>n.
       if at_prefix_len n > query_len then throw ''invalid query''
       else if at_prefix_len n = query_len then
         (if em_hash_valid (at_metadata n) then Inr (at_metadata n) else throw ''invalid metadata access'')
       else rbind (get_branch_bits P query_prefix (at_prefix_len n)) (\<lambda>bb.
         et_get_metadata P fuel t (unat (get_ptr (at_children n bb))) query_prefix query_len))"

definition get_child :: "'p TriePrefix \<Rightarrow> ('p, 'v) AtomicTrie \<Rightarrow> 'p AtomicTrieNode \<Rightarrow> nat \<Rightarrow> 'p AtomicTrieNode option res" where
  "get_child P t n bb =
     (if at_is_leaf P n then throw ''invalid access''
      else let ptr = get_ptr (at_children n bb) in
        if ptr = UINT32_MAX then Inr None else rbind (get_object t (unat ptr)) (\<lambda>c. Inr (Some c)))"

definition append_metadata :: "'p AtomicTrieNode \<Rightarrow> byte list \<Rightarrow> EphemeralTrieMetadata \<Rightarrow> (byte list \<times> EphemeralTrieMetadata) res" where
  "append_metadata n digest_buffer acc =
     rbind (em_write_to (at_metadata n) digest_buffer) (\<lambda>d. rbind (em_add acc (at_metadata n)) (\<lambda>acc'. Inr (d, acc')))"

text \<open>\<^verbatim>\<open>compute_hash\<close> clears the buffer it is given before it uses it.\<close>

definition set_metadata :: "nat \<Rightarrow> EphemeralTrieMetadata \<Rightarrow> ('p, 'v) AtomicTrie \<Rightarrow> ('p, 'v) AtomicTrie res" where
  "set_metadata a md t = rbind (get_object t a) (\<lambda>n. Inr (t\<lparr>et_nodes := (et_nodes t)(a \<mapsto> n\<lparr>at_metadata := md\<rparr>)\<rparr>))"

fun et_compute_hash ::
    "'p TriePrefix \<Rightarrow> 'b BitVector_ops \<Rightarrow> ('p, 'v, 'b) HashEnv \<Rightarrow> nat \<Rightarrow> nat \<Rightarrow> ('p, 'v) AtomicTrie \<Rightarrow> ('p, 'v) AtomicTrie res" where
  "et_compute_hash P B E 0 a t = throw ''fuel''"
| "et_compute_hash P B E (Suc fuel) a t =
     rbind (get_object t a) (\<lambda>n.
       if em_hash_valid (at_metadata n) then Inr t
       else rbind
         (if at_is_leaf P n then
            rbind (et_value t (at_value_pointer n)) (\<lambda>value.
              Inr (t, copy_data E value (write_node_header E [] (at_prefix n) (at_prefix_len n)), at_metadata n))
          else
            rbind (rfold (\<lambda>bb (t, bits).
              let ptr = get_ptr (at_children n bb) in
              if ptr \<noteq> UINT32_MAX then rbind (et_compute_hash P B E fuel (unat ptr) t) (\<lambda>t'. Inr (t', bv_add B bits bb))
              else Inr (t, bits)) [0..<16] (t, bv_clear B)) (\<lambda>(t, bits).
            rbind (rfold (\<lambda>bb (digest_buffer, metadata).
              let ptr = get_ptr (at_children n bb) in
              if ptr \<noteq> UINT32_MAX then rbind (get_object t (unat ptr)) (\<lambda>c. append_metadata c digest_buffer metadata)
              else Inr (digest_buffer, metadata)) [0..<16]
              (bv_write E bits (write_node_header E [] (at_prefix n) (at_prefix_len n)), at_metadata n)) (\<lambda>(digest_buffer, metadata).
            Inr (t, digest_buffer, metadata))))
         (\<lambda>(t, digest_buffer, metadata). rbind (snap_generichash E digest_buffer) (\<lambda>h.
            set_metadata a (metadata\<lparr>em_hash := h, em_hash_valid := True\<rparr>) t)))"

definition hash_serial ::
    "'p TriePrefix \<Rightarrow> 'b BitVector_ops \<Rightarrow> ('p, 'v, 'b) HashEnv \<Rightarrow> nat \<Rightarrow> ('p, 'v) AtomicTrie \<Rightarrow> (Hash \<times> ('p, 'v) AtomicTrie) res" where
  "hash_serial P B E fuel t =
     rbind (et_compute_hash P B E fuel root_addr t) (\<lambda>t1.
       let t2 = t1\<lparr>et_hashed := True\<rparr> in rbind (get_object t2 root_addr) (\<lambda>n. Inr (em_hash (at_metadata n), t2)))"

text \<open>\<^verbatim>\<open>hash\<close>: some nodes are hashed first, each by one of the tasks; then the root.\<close>

definition et_hash ::
    "'p TriePrefix \<Rightarrow> 'b BitVector_ops \<Rightarrow> ('p, 'v, 'b) HashEnv \<Rightarrow> nat \<Rightarrow> nat list \<Rightarrow> ('p, 'v) AtomicTrie \<Rightarrow> (Hash \<times> ('p, 'v) AtomicTrie) res" where
  "et_hash P B E fuel tasks t = rbind (rfold (et_compute_hash P B E fuel) tasks t) (hash_serial P B E fuel)"

text \<open>\<^verbatim>\<open>clear\<close>: the root becomes empty, and the arrays are free again.\<close>

definition et_clear :: "'p TriePrefix \<Rightarrow> ('p, 'v) AtomicTrie \<Rightarrow> ('p, 'v) AtomicTrie res" where
  "et_clear P t = rbind (get_object t root_addr) (\<lambda>n.
     Inr \<lparr> et_nodes = [root_addr \<mapsto> set_as_empty_node P n], et_values = Map.empty, et_hashed = False \<rparr>)"

declare deep_sizecheck.simps [simp del] et_get_value.simps [simp del] apply_to_kvs.simps [simp del] apply_to_keys.simps [simp del]
  accumulate_values_worker.simps [simp del] et_get_metadata.simps [simp del] et_compute_hash.simps [simp del]

end
