(* ===== verification/EphemeralRep.thy ===== *)
theory EphemeralRep
  imports EphemeralOps
begin

text \<open>
  The tree the arrays hold, and what the operations compute on it: lookup is lookup in the map of the tree, the traversals visit its
  entries in order, and in a trie at rest the sizes are the numbers of entries.
\<close>

section \<open>The tree\<close>

abbreviation active :: "'p AtomicTrieNode \<Rightarrow> nat \<Rightarrow> bool" where
  "active n bb \<equiv> get_ptr (at_children n bb) \<noteq> UINT32_MAX"

abbreviation child_addr :: "'p AtomicTrieNode \<Rightarrow> nat \<Rightarrow> nat" where
  "child_addr n bb \<equiv> unat (get_ptr (at_children n bb))"

fun rep :: "'p TriePrefix \<Rightarrow> ('p, 'v) AtomicTrie \<Rightarrow> nat \<Rightarrow> ('p, 'v option, 'm) TrieNode \<Rightarrow> bool" where
  "rep P t a (TrieNode ch p l hv m h) \<longleftrightarrow>
     (\<exists>n. et_nodes t a = Some n \<and> at_prefix n = p \<and> at_prefix_len n = l \<and>
       (case ch of
          Value v \<Rightarrow> at_is_leaf P n \<and> v \<noteq> None \<and> et_values t (unat (at_value_pointer n)) = v
        | Children cs \<Rightarrow> \<not> at_is_leaf P n \<and> map fst cs = filter (active n) [0..<16] \<and>
            (\<forall>(bb, c) \<in> set cs. rep P t (child_addr n bb) c)))"

lemma rep_Value: "rep P t a (TrieNode (Value v) p l hv m h) \<longleftrightarrow>
    (\<exists>n w. et_nodes t a = Some n \<and> at_prefix n = p \<and> at_prefix_len n = l \<and> at_is_leaf P n \<and> v = Some w \<and>
       et_values t (unat (at_value_pointer n)) = Some w)"
  by auto

lemma rep_Children: "rep P t a (TrieNode (Children cs) p l hv m h) \<longleftrightarrow>
    (\<exists>n. et_nodes t a = Some n \<and> at_prefix n = p \<and> at_prefix_len n = l \<and> \<not> at_is_leaf P n \<and> map fst cs = filter (active n) [0..<16] \<and>
       (\<forall>(bb, c) \<in> set cs. rep P t (child_addr n bb) c))"
  by simp

declare rep.simps [simp del]

text \<open>The loops over the branch bits that skip the empty slots.\<close>

lemma rfold_skip: "rfold (\<lambda>x s. if Q x then f x s else Inr s) xs s = rfold f (filter Q xs) s"
proof (induction xs arbitrary: s)
  case (Cons x xs)
  then show ?case by (cases "f x s") auto
qed simp

lemma rfold_ok:
  assumes "\<And>x s. x \<in> set cs \<Longrightarrow> I s \<Longrightarrow> \<exists>s'. f (fst x) s = Inr s' \<and> I s'" "I s"
  shows "\<exists>s'. rfold f (map fst cs) s = Inr s' \<and> I s'"
  using assms
proof (induction cs arbitrary: s)
  case (Cons x cs)
  obtain s1 where "f (fst x) s = Inr s1" "I s1" using Cons.prems(1) [of x s] Cons.prems(2) by auto
  then show ?case using Cons.IH [of s1] Cons.prems(1) by auto
qed simp

lemma rfold_pure:
  assumes "\<And>x s. x \<in> set cs \<Longrightarrow> f (fst x) s = Inr (g x s)"
  shows "rfold f (map fst cs) s = Inr (fold g cs s)"
  using assms by (induction cs arbitrary: s) auto

context trie_prefix
begin

text \<open>The fuel a tree needs.\<close>

abbreviation fuel_ok :: "nat \<Rightarrow> ('p, 'x, 'm) TrieNode \<Rightarrow> bool" where
  "fuel_ok fuel T \<equiv> prefix_bits P div 4 < tn_prefix_len T div 4 + fuel"

lemma fuel_pos: "fuel_ok fuel T \<Longrightarrow> wf 0 T \<Longrightarrow> \<exists>f. fuel = Suc f"
  using wf_len [of 0 T] by (cases fuel) auto

lemma fuel_child:
  assumes "wf 0 (TrieNode (Children cs) p l hv m h)" "fuel_ok (Suc fuel) (TrieNode (Children cs) p l hv m h)" "(bb, c) \<in> set cs"
  shows "fuel_ok fuel c" "wf 0 c"
proof -
  have c: "wf 0 c" "l < tn_prefix_len c" "4 dvd l" using assms(1,3) by auto
  then show "wf 0 c" by simp
  have "l div 4 < tn_prefix_len c div 4" using c wf_len [OF c(1)] by (auto elim!: dvdE)
  then show "fuel_ok fuel c" using assms(2) by simp
qed

lemma rep_leaf: "rep P t a (TrieNode (Value v) p l hv m h) \<Longrightarrow> l = prefix_bits P"
  by (auto simp: rep_Value at_is_leaf_def)

lemma rep_inner: "rep P t a (TrieNode (Children cs) p l hv m h) \<Longrightarrow> l \<noteq> prefix_bits P"
  by (auto simp: rep_Children at_is_leaf_def)

text \<open>The tree that the abstract trie gives is the tree of the arrays.\<close>

lemma heap_tree_rep:
  assumes t: "aok t" "values_ok P t"
  shows "et_nodes t a = Some n \<Longrightarrow> heap_tree P fuel (abs_heap P t) a = Inr T \<Longrightarrow> rep P t a T"
proof (induction fuel arbitrary: a n T)
  case 0
  then show ?case by (simp add: heap_tree.simps)
next
  case (Suc fuel)
  let ?h = "abs_heap P t" and ?n = "abs_node P (et_values t) n"
  note an = aokD [OF t(1) Suc.prems(1)]
  show ?case
  proof (cases "at_is_leaf P n")
    case True
    then obtain v where "et_values t (unat (at_value_pointer n)) = Some v" using values_okD(1) [OF t(2) Suc.prems(1)] by blast
    moreover have "cn_value ?n = Some v" using calculation True by (simp add: abs_node_def)
    ultimately show ?thesis using True Suc.prems an(2) by (auto simp: heap_tree.simps node_at_def rep_Value)
  next
    case False
    define bs :: "nat list" where "bs = [0..<16]"
    have bs: "set bs = {..<16}" by (auto simp: bs_def simp del: upt_rec_numeral)
    let ?g = "\<lambda>c. projr (heap_tree P fuel ?h c)"
    have sub: "\<exists>m. et_nodes t c = Some m \<and> heap_tree P fuel ?h c = Inr (?g c)" if c: "cn_children ?n bb = Some c" for bb c
    proof -
      obtain m where m: "et_nodes t c = Some m" using child_node(2) [OF t(1) an(2) c] by (auto simp: abs_heap_Some)
      have bb: "bb \<in> set bs" using child_node(1) [OF t(1) an(2) c] bs by simp
      have ok: "\<exists>s. rfold (\<lambda>bb cs. case cn_children ?n bb of None \<Rightarrow> Inr cs | Some c \<Rightarrow> rbind (heap_tree P fuel ?h c) (\<lambda>t. Inr (cs @ [(bb, t)]))) bs [] = Inr s"
        using Suc.prems(2) False an(2) by (auto simp: heap_tree.simps node_at_def bs_def [symmetric] res_simps simp del: upt_rec_numeral)
      have "\<exists>x. heap_tree P fuel ?h c = Inr x"
      proof (rule ccontr)
        assume "\<nexists>x. heap_tree P fuel ?h c = Inr x"
        then obtain e where e: "heap_tree P fuel ?h c = Inl e" by (cases "heap_tree P fuel ?h c") auto
        have "\<nexists>s. rfold (\<lambda>bb cs. case cn_children ?n bb of None \<Rightarrow> Inr cs | Some c \<Rightarrow> rbind (heap_tree P fuel ?h c) (\<lambda>t. Inr (cs @ [(bb, t)]))) xs s0 = Inr s"
          if "bb \<in> set xs" for xs s0
          using that by (induction xs arbitrary: s0) (auto simp: c e res_simps split: option.splits)
        then show False using ok bb by blast
      qed
      then show ?thesis using m by auto
    qed
    have T: "T = TrieNode (Children (List.map_filter (\<lambda>bb. map_option (\<lambda>c. (bb, ?g c)) (cn_children ?n bb)) bs)) (at_prefix n) (at_prefix_len n) False 0 []"
    proof -
      have "rfold (\<lambda>bb cs. case cn_children ?n bb of None \<Rightarrow> Inr cs | Some c \<Rightarrow> rbind (heap_tree P fuel ?h c) (\<lambda>t. Inr (cs @ [(bb, t)]))) bs [] =
          Inr ([] @ List.map_filter (\<lambda>bb. map_option (\<lambda>c. (bb, ?g c)) (cn_children ?n bb)) bs)"
        by (rule rfold_children) (use sub in blast)
      then show ?thesis
        using Suc.prems(2) False an(2) by (simp add: heap_tree.simps node_at_def bs_def [symmetric] del: upt_rec_numeral) (simp add: abs_node_def)
    qed
    have ch: "bb < 16 \<Longrightarrow> cn_children ?n bb = abs_child (at_children n bb)" for bb by (rule abs_node_children [OF False])
    have keys: "map fst (List.map_filter (\<lambda>bb. map_option (\<lambda>c. (bb, ?g c)) (cn_children ?n bb)) xs) = filter (active n) xs"
      if "set xs \<subseteq> {..<16}" for xs
      using that ch by (induction xs) (auto simp: List.map_filter_simps abs_child_def)
    have kids: "rep P t (child_addr n bb) c" if x: "(bb, c) \<in> set (List.map_filter (\<lambda>bb. map_option (\<lambda>c. (bb, ?g c)) (cn_children ?n bb)) bs)" for bb c
    proof -
      obtain d where d: "bb < 16" "cn_children ?n bb = Some d" "c = ?g d" using x bs by (auto simp: map_filter_keys(1))
      then have "d = child_addr n bb" using ch by (simp add: abs_child_def split: if_splits)
      then show ?thesis using sub [OF d(2)] d(3) Suc.IH by blast
    qed
    show ?thesis
      unfolding T rep_Children using Suc.prems(1) False keys [of bs] kids bs by (auto simp: bs_def [symmetric] simp del: upt_rec_numeral)
  qed
qed

theorem rep_exists:
  assumes t: "aok t" "values_ok P t" and n: "et_nodes t a = Some n"
  obtains T :: "('p, 'v option, EmptyMetadata) TrieNode" where "rep P t a T" "tree_of (abs_heap P t) a T" "fuel_ok (Suc (prefix_bits P div 4 - length (apath n))) T"
proof -
  obtain T where T: "heap_tree P (Suc (prefix_bits P div 4 - length (apath n))) (abs_heap P t) a = Inr T" "tree_of (abs_heap P t) a T"
    using heap_tree_correct [OF t(1) aokD(2) [OF t(1) n], of "Suc (prefix_bits P div 4 - length (apath n))"] aokD(5) [OF t(1) n] by auto
  moreover have "tn_prefix_len T = 4 * length (apath n)" using T(2) aokD(2,3) [OF t(1) n] by (auto simp: tree_of_def)
  ultimately show ?thesis using that heap_tree_rep [OF t n T(1)] aokD(5) [OF t(1) n] by auto
qed

section \<open>Lookup and traversals\<close>

lemma match_le:
  assumes "wf k T" "pvalid q"
  shows "get_prefix_match_len P (tn_prefix T) (tn_prefix_len T) q (prefix_bits P) \<le> tn_prefix_len T"
proof -
  have "get_prefix_match_len P (tn_prefix T) (4 * (tn_prefix_len T div 4)) q (4 * (prefix_bits P div 4)) \<le> 4 * (tn_prefix_len T div 4)"
    using wf_prefix [OF assms(1)] wf_len [OF assms(1)] assms(2) bits_eq by (subst match_len) auto
  then show ?thesis using wf_len [OF assms(1)] bits_eq by simp
qed

lemma rep_child:
  assumes "map fst cs = filter (active n) [0..<16]"
  shows "map_of cs bb = None \<longleftrightarrow> \<not> (bb < 16 \<and> active n bb)" "(bb, c) \<in> set cs \<Longrightarrow> active n bb \<and> bb < 16"
proof -
  have set: "fst ` set cs = {bb. bb < 16 \<and> active n bb}" using arg_cong [OF assms, of set] by (auto simp del: upt_rec_numeral)
  show "map_of cs bb = None \<longleftrightarrow> \<not> (bb < 16 \<and> active n bb)" unfolding map_of_eq_None_iff set by simp
  show "active n bb \<and> bb < 16" if "(bb, c) \<in> set cs" using imageI [OF that, of fst] unfolding set by simp
qed

lemma rep_get_value:
  assumes k: "pvalid k"
  shows "rep P t a T \<Longrightarrow> wf 0 T \<Longrightarrow> fuel_ok fuel T \<Longrightarrow> et_get_value P fuel t a k = Inr (Option.bind (trie_map P T k) id)"
proof (induction T arbitrary: a fuel rule: node_induct)
  case (Value v p l hv m h)
  obtain n w where n: "et_nodes t a = Some n" "at_prefix n = p" "at_prefix_len n = l" "at_is_leaf P n" "v = Some w"
    "et_values t (unat (at_value_pointer n)) = Some w"
    using Value.prems(1) by (auto simp: rep_Value)
  obtain f where f: "fuel = Suc f" using fuel_pos [OF Value.prems(3,2)] by blast
  note le = match_le [OF Value.prems(2) k]
  have gv: "get_value P k (TrieNode (Value v) p l hv m h) = Inr (trie_map P (TrieNode (Value v) p l hv m h) k)" by (rule get_value_correct [OF Value.prems(2) k])
  then have "trie_map P (TrieNode (Value v) p l hv m h) k = (if get_prefix_match_len P p l k (prefix_bits P) = l then Some v else None)"
    using rep_leaf [OF Value.prems(1)] by (auto split: if_splits)
  then show ?case
    using n le rep_leaf [OF Value.prems(1)] by (auto simp: f et_get_value.simps get_object_def at_match_len_def et_value_def Let_def)
next
  case (Children cs p l hv m h)
  let ?T = "TrieNode (Children cs) p l hv m h"
  obtain n where n: "et_nodes t a = Some n" "at_prefix n = p" "at_prefix_len n = l" "\<not> at_is_leaf P n" "map fst cs = filter (active n) [0..<16]"
    "\<forall>(bb, c) \<in> set cs. rep P t (child_addr n bb) c"
    using Children.prems(1) by (auto simp: rep_Children)
  obtain f where f: "fuel = Suc f" using fuel_pos [OF Children.prems(3,2)] by blast
  note le = match_le [OF Children.prems(2) k] and kid = fuel_child [OF Children.prems(2) Children.prems(3) [unfolded f]]
  from Children.prems(2) obtain d where d: "l = 4 * d" "4 * d < prefix_bits P" by (rule wf_ChildrenE)
  have bb: "get_branch_bits P k l = Inr (nib k ! d)" using d branch_bits [OF k] by simp
  have d16: "nib k ! d < 16" using nib_bound [OF k nth_mem, of d] nib_length [OF k] d(2) bits_eq by auto
  have gv: "get_value P k ?T = Inr (trie_map P ?T k)" by (rule get_value_correct [OF Children.prems(2) k])
  show ?case
  proof (cases "get_prefix_match_len P p l k (prefix_bits P) = l")
    case True
    show ?thesis
    proof (cases "map_of cs (nib k ! d)")
      case None
      then have "\<not> active n (nib k ! d)" using rep_child(1) [OF n(5)] d16 by blast
      then show ?thesis
        using gv None True n bb d by (simp add: f et_get_value.simps get_object_def at_match_len_def Let_def)
    next
      case (Some c)
      note mem = map_of_SomeD [OF Some]
      have c: "wf 0 c" "fuel_ok f c" "rep P t (child_addr n (nib k ! d)) c" "active n (nib k ! d)"
        using kid [OF mem] mem n(6) rep_child(2) [OF n(5) mem] by auto
      have "trie_map P ?T k = trie_map P c k" using gv Some True bb d get_value_correct [OF c(1) k] by simp
      then show ?thesis
        using Children.IH [OF mem c(3,1,2)] c(4) True n bb d by (simp add: f et_get_value.simps get_object_def at_match_len_def Let_def)
    qed
  next
    case False
    then have "get_prefix_match_len P p l k (prefix_bits P) < l" using le by simp
    then show ?thesis using gv False n by (simp add: f et_get_value.simps get_object_def at_match_len_def)
  qed
qed

lemma rep_kvs: "rep P t a T \<Longrightarrow> wf 0 T \<Longrightarrow> fuel_ok fuel T \<Longrightarrow> apply_to_kvs P fn fuel t a s = Inr (fold (\<lambda>(k, v). fn k (the v)) (entries P T) s)"
proof (induction T arbitrary: a fuel s rule: node_induct)
  case (Value v p l hv m h)
  then obtain f where "fuel = Suc f" using fuel_pos by blast
  then show ?case using Value.prems(1) rep_leaf [OF Value.prems(1)] by (auto simp: rep_Value apply_to_kvs.simps get_object_def et_value_def)
next
  case (Children cs p l hv m h)
  obtain n where n: "et_nodes t a = Some n" "\<not> at_is_leaf P n" "map fst cs = filter (active n) [0..<16]" "\<forall>(bb, c) \<in> set cs. rep P t (child_addr n bb) c"
    using Children.prems(1) by (auto simp: rep_Children)
  obtain f where f: "fuel = Suc f" using fuel_pos [OF Children.prems(3,2)] by blast
  note kid = fuel_child [OF Children.prems(2) Children.prems(3) [unfolded f]]
  have "rfold (\<lambda>bb s. apply_to_kvs P fn f t (child_addr n bb) s) (map fst cs) s = Inr (fold (\<lambda>x. fold (\<lambda>(k, v). fn k (the v)) (entries P (snd x))) cs s)"
    by (rule rfold_pure) (use Children.IH kid n(4) in fastforce)
  moreover have "fold (\<lambda>x. fold (\<lambda>(k, v). fn k (the v)) (entries P (snd x))) cs s = fold (\<lambda>(k, v). fn k (the v)) (concat (map (\<lambda>(bb, c). entries P c) cs)) s"
    by (induction cs arbitrary: s) (auto simp: case_prod_beta)
  ultimately show ?case
    using n rep_inner [OF Children.prems(1)] by (simp add: f apply_to_kvs.simps get_object_def Let_def rfold_skip del: upt_rec_numeral)
qed

lemma rep_keys: "rep P t a T \<Longrightarrow> wf 0 T \<Longrightarrow> fuel_ok fuel T \<Longrightarrow> apply_to_keys P fn (prefix_bits P) fuel t a s = Inr (fold fn (map fst (entries P T)) s)"
proof (induction T arbitrary: a fuel s rule: node_induct)
  case (Value v p l hv m h)
  then obtain f where "fuel = Suc f" using fuel_pos by blast
  then show ?case using Value.prems(1) rep_leaf [OF Value.prems(1)] by (auto simp: rep_Value apply_to_keys.simps get_object_def)
next
  case (Children cs p l hv m h)
  obtain n where n: "et_nodes t a = Some n" "at_prefix_len n = l" "map fst cs = filter (active n) [0..<16]" "\<forall>(bb, c) \<in> set cs. rep P t (child_addr n bb) c"
    using Children.prems(1) by (auto simp: rep_Children)
  obtain f where f: "fuel = Suc f" using fuel_pos [OF Children.prems(3,2)] by blast
  note kid = fuel_child [OF Children.prems(2) Children.prems(3) [unfolded f]]
  have l: "l < prefix_bits P" using Children.prems(2) by auto
  have "rfold (\<lambda>bb s. apply_to_keys P fn (prefix_bits P) f t (child_addr n bb) s) (map fst cs) s = Inr (fold (\<lambda>x. fold fn (map fst (entries P (snd x)))) cs s)"
    by (rule rfold_pure) (use Children.IH kid n(4) in fastforce)
  moreover have "fold (\<lambda>x. fold fn (map fst (entries P (snd x)))) cs s = fold fn (map fst (concat (map (\<lambda>(bb, c). entries P c) cs))) s"
    by (induction cs arbitrary: s) (auto simp: case_prod_beta)
  ultimately show ?case
    using n l by (simp add: f apply_to_keys.simps get_object_def Let_def rfold_skip del: upt_rec_numeral)
qed

section \<open>Sizes at rest\<close>

lemma entries_inner: "l \<noteq> prefix_bits P \<Longrightarrow> entries P (TrieNode (Children cs) p l hv m h) = concat (map (\<lambda>(bb, c). entries P c) cs)"
  by simp

lemma leaves_edge:
  assumes t: "aok t" and n: "et_nodes t a = Some n" "\<not> at_is_leaf P n" "d < 16" "active n d"
  obtains m where "et_nodes t (child_addr n d) = Some m" "leaves_below P nib t (apath n @ [d]) = leaves_below P nib t (apath m)"
proof (rule edge [OF t n])
  fix m assume m: "et_nodes t (child_addr n d) = Some m" "prefix (apath n @ [d]) (apath m)"
    "\<And>b k. et_nodes t b = Some k \<Longrightarrow> prefix (apath n @ [d]) (apath k) \<Longrightarrow> prefix (apath m) (apath k)"
  have "et_nodes t b = Some k \<Longrightarrow> prefix (apath n @ [d]) (apath k) \<longleftrightarrow> prefix (apath m) (apath k)" for b k
    using m(2) m(3) [of b k] prefix_order.trans [OF m(2), of "apath k"] by blast
  then have "leaves_below P nib t (apath n @ [d]) = leaves_below P nib t (apath m)" unfolding leaves_below_def by blast
  then show thesis using that m(1) by blast
qed

lemma leaves_inner:
  assumes t: "aok t" and n: "et_nodes t a = Some n" "\<not> at_is_leaf P n" and bbs: "bbs = filter (active n) [0..<16]"
  shows "card (leaves_below P nib t (apath n)) = (\<Sum>bb \<leftarrow> bbs. card (leaves_below P nib t (apath n @ [bb])))"
proof -
  have set: "set bbs = {bb. bb < 16 \<and> active n bb}" "distinct bbs" using bbs by (auto simp del: upt_rec_numeral)
  have "leaves_below P nib t (apath n) = (\<Union>bb \<in> set bbs. leaves_below P nib t (apath n @ [bb]))"
  proof
    show "leaves_below P nib t (apath n) \<subseteq> (\<Union>bb \<in> set bbs. leaves_below P nib t (apath n @ [bb]))"
    proof
      fix b assume "b \<in> leaves_below P nib t (apath n)"
      then obtain m where m: "et_nodes t b = Some m" "at_is_leaf P m" "prefix (apath n) (apath m)" by (auto simp: leaves_below_def)
      have "apath n \<noteq> apath m" using n(2) m(2) aokD(4) [OF t n(1)] aokD(4) [OF t m(1)] by auto
      then have p: "prefix (apath n @ [apath m ! length (apath n)]) (apath m)" using m(3) by (simp add: prefix_snoc_nth strict_prefix_def)
      then have "length (apath n) < length (apath m)" using prefix_length_le by fastforce
      then have "apath m ! length (apath n) < 16" using nib_bound [OF aokD(6) [OF t m(1)]] in_set_takeD nth_mem unfolding at_path_def by metis
      moreover have "active n (apath m ! length (apath n))" using no_edge [OF t n calculation _ m(1)] p by blast
      ultimately show "b \<in> (\<Union>bb \<in> set bbs. leaves_below P nib t (apath n @ [bb]))" using m p set by (auto simp: leaves_below_def)
    qed
  qed (auto simp: leaves_below_def prefix_snoc_nth strict_prefix_def)
  moreover have "card (\<Union>bb \<in> set bbs. leaves_below P nib t (apath n @ [bb])) = (\<Sum>bb \<in> set bbs. card (leaves_below P nib t (apath n @ [bb])))"
  proof (rule card_UN_disjoint)
    show "\<forall>bb \<in> set bbs. finite (leaves_below P nib t (apath n @ [bb]))" using leaves_finite [OF t] by blast
  qed (auto simp: leaves_below_def prefix_snoc_nth)
  ultimately show ?thesis using set(2) by (simp add: sum_list_distinct_conv_sum_set)
qed

lemma rep_leaves:
  assumes t: "aok t"
  shows "rep P t a T \<Longrightarrow> et_nodes t a = Some n \<Longrightarrow> card (leaves_below P nib t (apath n)) = length (entries P T)"
proof (induction T arbitrary: a n rule: node_induct)
  case (Value v p l hv m h)
  then have leaf: "at_is_leaf P n" by (auto simp: rep_Value)
  have "b = a" if b: "et_nodes t b = Some m" "at_is_leaf P m" "prefix (apath n) (apath m)" for b m
  proof -
    have "length (apath m) = length (apath n)" using aokD(4) [OF t b(1)] aokD(4) [OF t Value.prems(2)] leaf b(2) by simp
    then have "apath m = apath n" using b(3) by (auto simp: prefix_def)
    then show ?thesis by (rule apath_inject [OF t b(1) Value.prems(2)])
  qed
  then have "leaves_below P nib t (apath n) \<subseteq> {a}" unfolding leaves_below_def by blast
  moreover have "a \<in> leaves_below P nib t (apath n)" using Value.prems(2) leaf by (simp add: leaves_below_def)
  ultimately have "leaves_below P nib t (apath n) = {a}" by blast
  then show ?case using rep_leaf [OF Value.prems(1)] by simp
next
  case (Children cs p l hv m h)
  have n: "\<not> at_is_leaf P n" "map fst cs = filter (active n) [0..<16]" "\<forall>(bb, c) \<in> set cs. rep P t (child_addr n bb) c"
    using Children.prems by (auto simp: rep_Children simp del: upt_rec_numeral)
  have "card (leaves_below P nib t (apath n @ [bb])) = length (entries P c)" if c: "(bb, c) \<in> set cs" for bb c
  proof -
    have bb: "bb < 16" "active n bb" using rep_child(2) [OF n(2) c] by auto
    obtain k where "et_nodes t (child_addr n bb) = Some k" "leaves_below P nib t (apath n @ [bb]) = leaves_below P nib t (apath k)"
      using leaves_edge [OF t Children.prems(2) n(1) bb] .
    then show ?thesis using Children.IH [OF c] n(3) c by auto
  qed
  then have "map (\<lambda>bb. card (leaves_below P nib t (apath n @ [bb]))) (map fst cs) = map (\<lambda>x. length (entries P (snd x))) cs" by auto
  then have "card (leaves_below P nib t (apath n)) = sum_list (map (\<lambda>x. length (entries P (snd x))) cs)"
    using leaves_inner [OF t Children.prems(2) n(1,2)] by (simp only:)
  then show ?case using rep_inner [OF Children.prems(1)] by (simp add: length_concat comp_def case_prod_beta)
qed

lemma edge_size:
  assumes t: "aok t" "sizes_ok P nib (t, [] :: ('p, 'i) eph_thread list)" and n: "et_nodes t a = Some n" "\<not> at_is_leaf P n" "d < 16" "active n d"
    and c: "rep P t (child_addr n d) c"
  shows "unat (get_sz (at_children n d)) = length (entries P c)" "get_sz (at_children n d) = of_nat (length (entries P c))"
proof -
  obtain m where m: "et_nodes t (child_addr n d) = Some m" "leaves_below P nib t (apath n @ [d]) = leaves_below P nib t (apath m)"
    using leaves_edge [OF t(1) n] .
  then show "unat (get_sz (at_children n d)) = length (entries P c)" using sizes_okD [OF t(2) n] rep_leaves [OF t(1) c m(1)] by (simp add: pending_def)
  then have "(of_nat (unat (get_sz (at_children n d))) :: 32 word) = of_nat (length (entries P c))" by (simp only:)
  then show "get_sz (at_children n d) = of_nat (length (entries P c))" by simp
qed

lemma rep_size:
  assumes t: "aok t" "sizes_ok P nib (t, [] :: ('p, 'i) eph_thread list)" "nulls_ok P t" and n: "et_nodes t a = Some n" and T: "rep P t a T"
  shows "at_size P n = of_nat (length (entries P T))"
proof (cases "tn_children T")
  case (Value v)
  then obtain p l hv m h where T': "T = TrieNode (Value v) p l hv m h" by (cases T) auto
  then have "at_is_leaf P n" "length (entries P T) = 1" using T n rep_leaf [OF T [unfolded T']] by (auto simp: rep_Value)
  then show ?thesis by (simp add: at_size_def)
next
  case (Children cs)
  obtain p l hv m h where T': "T = TrieNode (Children cs) p l hv m h" using Children by (cases T) auto
  have c: "\<not> at_is_leaf P n" "map fst cs = filter (active n) [0..<16]" "\<forall>(bb, c) \<in> set cs. rep P t (child_addr n bb) c"
    using T n unfolding T' by (auto simp: rep_Children simp del: upt_rec_numeral)
  have "fold (\<lambda>bb acc. acc + get_sz (at_children n bb)) xs acc = acc + (\<Sum>bb \<leftarrow> filter (active n) xs. get_sz (at_children n bb))" for xs acc
    using t(3) n c(1) by (induction xs arbitrary: acc) (auto simp: nulls_ok_def)
  then have "at_size P n = (\<Sum>bb \<leftarrow> map fst cs. get_sz (at_children n bb))" using c(1,2) by (simp add: at_size_def del: upt_rec_numeral)
  moreover have "get_sz (at_children n bb) = of_nat (length (entries P c))" if "(bb, c) \<in> set cs" for bb c
    using edge_size(2) [OF t(1,2) n c(1), of bb c] rep_child(2) [OF c(2) that] c(3) that by auto
  then have "map (\<lambda>bb. get_sz (at_children n bb)) (map fst cs) = map (\<lambda>x. of_nat (length (entries P (snd x)))) cs" by auto
  ultimately have "at_size P n = (\<Sum>x \<leftarrow> cs. of_nat (length (entries P (snd x))))" by (simp only:)
  moreover have "(\<Sum>x \<leftarrow> cs. of_nat (length (entries P (snd x)))) = (of_nat (length (concat (map (\<lambda>(bb, c). entries P c) cs))) :: 32 word)"
    by (induction cs) (auto simp: case_prod_beta)
  ultimately show ?thesis using rep_inner [OF T [unfolded T']] by (simp add: T')
qed

lemma rep_sizecheck:
  assumes t: "aok t" "sizes_ok P nib (t, [] :: ('p, 'i) eph_thread list)"
  shows "rep P t a T \<Longrightarrow> wf 0 T \<Longrightarrow> fuel_ok fuel T \<Longrightarrow> deep_sizecheck P fuel t a = Inr (of_nat (length (entries P T)))"
proof (induction T arbitrary: a fuel rule: node_induct)
  case (Value v p l hv m h)
  then obtain f where "fuel = Suc f" using fuel_pos by blast
  then show ?case using Value.prems(1) rep_leaf [OF Value.prems(1)] by (auto simp: rep_Value deep_sizecheck.simps get_object_def)
next
  case (Children cs p l hv m h)
  obtain n where n: "et_nodes t a = Some n" "\<not> at_is_leaf P n" "map fst cs = filter (active n) [0..<16]" "\<forall>(bb, c) \<in> set cs. rep P t (child_addr n bb) c"
    using Children.prems(1) by (auto simp: rep_Children)
  obtain f where f: "fuel = Suc f" using fuel_pos [OF Children.prems(3,2)] by blast
  note kid = fuel_child [OF Children.prems(2) Children.prems(3) [unfolded f]]
  let ?body = "\<lambda>bb total. rbind (deep_sizecheck P f t (child_addr n bb))
    (\<lambda>got_sz. if got_sz \<noteq> get_sz (at_children n bb) then throw ''size mismatch'' else Inr (total + got_sz))"
  have "?body (fst x) s = Inr (s + of_nat (length (entries P (snd x))))" if x: "x \<in> set cs" for x s
  proof -
    obtain bb c where bc: "x = (bb, c)" by (cases x)
    have c: "rep P t (child_addr n bb) c" "wf 0 c" "fuel_ok f c" "bb < 16" "active n bb"
      using n(4) kid [of bb c] rep_child(2) [OF n(3), of bb c] x bc by auto
    have "get_sz (at_children n bb) = of_nat (length (entries P c))" by (rule edge_size(2) [OF t n(1,2) c(4,5,1)])
    then show ?thesis using Children.IH [of bb c] x bc c by simp
  qed
  then have "rfold ?body (map fst cs) 0 = Inr (fold (\<lambda>x s. s + of_nat (length (entries P (snd x)))) cs 0)" by (rule rfold_pure)
  moreover have "fold (\<lambda>x s. s + of_nat (length (entries P (snd x)))) cs (s :: 32 word) = s + of_nat (length (concat (map (\<lambda>(bb, c). entries P c) cs)))" for s
    by (induction cs arbitrary: s) (auto simp: case_prod_beta)
  ultimately show ?case
    using n rep_inner [OF Children.prems(1)] by (simp add: f deep_sizecheck.simps get_object_def Let_def rfold_skip del: upt_rec_numeral)
qed

text \<open>The worker writes the entries of its subtree from the offset on.\<close>

definition overwrite :: "nat \<Rightarrow> 'x list \<Rightarrow> 'x list \<Rightarrow> 'x list" where
  "overwrite off ys out = take off out @ ys @ drop (off + length ys) out"

lemma overwrite_append:
  assumes "off + length ys + length zs \<le> length out"
  shows "overwrite (off + length ys) zs (overwrite off ys out) = overwrite off (ys @ zs) out"
  using assms by (simp add: overwrite_def ac_simps)

lemma overwrite_simps: "overwrite off [] out = out" "off + length ys \<le> length out \<Longrightarrow> length (overwrite off ys out) = length out"
  "off < length out \<Longrightarrow> overwrite off [y] out = out[off := y]"
  by (simp_all add: overwrite_def upd_conv_take_nth_drop)

lemma rep_accumulate:
  assumes t: "aok t" "sizes_ok P nib (t, [] :: ('p, 'i) eph_thread list)"
  shows "rep P t a T \<Longrightarrow> wf 0 T \<Longrightarrow> fuel_ok fuel T \<Longrightarrow> off + length (entries P T) \<le> length out \<Longrightarrow>
    accumulate_values_worker P get_fn fuel t a out off = Inr (overwrite off (map (\<lambda>(k, v). get_fn k (the v)) (entries P T)) out)"
proof (induction T arbitrary: a fuel out off rule: node_induct)
  case (Value v p l hv m h)
  then obtain f where "fuel = Suc f" using fuel_pos by blast
  then show ?case
    using Value.prems(1,4) rep_leaf [OF Value.prems(1)]
    by (auto simp: rep_Value accumulate_values_worker.simps get_object_def et_value_def overwrite_simps)
next
  case (Children cs p l hv m h)
  obtain n where n: "et_nodes t a = Some n" "\<not> at_is_leaf P n" "map fst cs = filter (active n) [0..<16]" "\<forall>(bb, c) \<in> set cs. rep P t (child_addr n bb) c"
    using Children.prems(1) by (auto simp: rep_Children)
  obtain f where f: "fuel = Suc f" using fuel_pos [OF Children.prems(3,2)] by blast
  note kid = fuel_child [OF Children.prems(2) Children.prems(3) [unfolded f]]
  let ?vals = "\<lambda>xs. map (\<lambda>(k, v). get_fn k (the v)) xs" and ?es = "\<lambda>xs. concat (map (\<lambda>(bb, c). entries P c) xs)"
  let ?body = "\<lambda>bb (out, offset). rbind (accumulate_values_worker P get_fn f t (child_addr n bb) out offset)
    (\<lambda>out'. Inr (out', offset + unat (get_sz (at_children n bb))))"
  have "rfold ?body (map fst xs) (out, off) = Inr (overwrite off (?vals (?es xs)) out, off + length (?es xs))"
    if "set xs \<subseteq> set cs" "off + length (?es xs) \<le> length out" for xs out off
    using that
  proof (induction xs arbitrary: out off)
    case (Cons x xs)
    obtain bb c where bc: "x = (bb, c)" "(bb, c) \<in> set cs" using Cons.prems(1) by (cases x) auto
    have c: "rep P t (child_addr n bb) c" "wf 0 c" "fuel_ok f c" "bb < 16" "active n bb"
      using n(4) kid [of bb c] rep_child(2) [OF n(3), of bb c] bc by auto
    have "unat (get_sz (at_children n bb)) = length (entries P c)" by (rule edge_size(1) [OF t n(1,2) c(4,5,1)])
    moreover have "accumulate_values_worker P get_fn f t (child_addr n bb) out off = Inr (overwrite off (?vals (entries P c)) out)"
      by (rule Children.IH [OF bc(2) c(1-3)]) (use Cons.prems(2) bc in simp)
    moreover have "rfold ?body (map fst xs) (overwrite off (?vals (entries P c)) out, off + length (entries P c)) =
        Inr (overwrite (off + length (entries P c)) (?vals (?es xs)) (overwrite off (?vals (entries P c)) out), off + length (entries P c) + length (?es xs))"
      by (rule Cons.IH) (use Cons.prems bc in \<open>auto simp: overwrite_simps\<close>)
    ultimately show ?case
      using overwrite_append [of off "?vals (entries P c)" "?vals (?es xs)" out] Cons.prems(2) bc(1) by (simp add: add.assoc)
  qed (simp add: overwrite_simps)
  from this [of cs off out]
  have "rfold ?body (map fst cs) (out, off) = Inr (overwrite off (?vals (?es cs)) out, off + length (?es cs))"
    using Children.prems(4) rep_inner [OF Children.prems(1)] by simp
  then have "rfold (\<lambda>bb s. if active n bb then ?body bb s else Inr s) [0..<16] (out, off) = Inr (overwrite off (?vals (?es cs)) out, off + length (?es cs))"
    unfolding rfold_skip n(3) .
  moreover have "(\<lambda>bb s. if active n bb then ?body bb s else Inr s) = (\<lambda>bb (out, offset). if active n bb then
      rbind (accumulate_values_worker P get_fn f t (child_addr n bb) out offset) (\<lambda>out'. Inr (out', offset + unat (get_sz (at_children n bb)))) else Inr (out, offset))"
    by (auto simp: fun_eq_iff)
  ultimately show ?case
    using n(1,2) rep_inner [OF Children.prems(1)] by (simp add: f accumulate_values_worker.simps get_object_def Let_def del: upt_rec_numeral)
qed

end

end
