(* ===== verification/EphemeralHash.thy ===== *)
theory EphemeralHash
  imports EphemeralRep
begin

text \<open>
  Hashing the ephemeral trie.  The specification is \<open>node_hash\<close> of the tree in the arrays, the one of the other tries.
  The invariant \<open>hash_cached\<close>: a hash that is marked valid is the hash of its subtree, and the children of its node are marked too.
\<close>

definition opt_env :: "('p, 'v, 'b) HashEnv \<Rightarrow> ('p, 'v option, 'b) HashEnv" where
  "opt_env E = \<lparr> generichash = generichash E, append_be16 = append_be16 E, prefix_write = prefix_write E, bv_write = bv_write E,
     copy_data = (\<lambda>v. copy_data E (the v)), apply_to_value = id \<rparr>"

lemma opt_env_header: "write_node_header (opt_env E) = write_node_header E"
  by (simp add: opt_env_def write_node_header_def fun_eq_iff)

abbreviation hash_valid :: "'p AtomicTrieNode \<Rightarrow> bool" where
  "hash_valid n \<equiv> em_hash_valid (at_metadata n)"

text \<open>Hashing changes metadata only, and those of a hashed node not at all.\<close>

definition same_data :: "'p AtomicTrieNode \<Rightarrow> 'p AtomicTrieNode \<Rightarrow> bool" where
  "same_data n n' \<longleftrightarrow> at_children n' = at_children n \<and> at_prefix n' = at_prefix n \<and> at_prefix_len n' = at_prefix_len n \<and> at_value_pointer n' = at_value_pointer n"

lemma same_data_sym: "same_data n n' \<Longrightarrow> same_data n' n"
  by (simp add: same_data_def)

definition hash_step :: "('p, 'v) AtomicTrie \<Rightarrow> ('p, 'v) AtomicTrie \<Rightarrow> bool" where
  "hash_step t t' \<longleftrightarrow> et_values t' = et_values t \<and> et_hashed t' = et_hashed t \<and> (\<forall>a. (et_nodes t' a = None) = (et_nodes t a = None)) \<and>
     (\<forall>a n n'. et_nodes t a = Some n \<longrightarrow> et_nodes t' a = Some n' \<longrightarrow> same_data n n' \<and> (hash_valid n \<longrightarrow> n' = n))"

lemma hash_step_refl [simp]: "hash_step t t"
  by (simp add: hash_step_def same_data_def)

lemma hash_stepD:
  assumes "hash_step t t'" "et_nodes t a = Some n"
  obtains n' where "et_nodes t' a = Some n'" "same_data n n'" "hash_valid n \<Longrightarrow> n' = n"
proof -
  obtain n' where "et_nodes t' a = Some n'" using assms unfolding hash_step_def by (metis not_Some_eq)
  then show ?thesis using that assms unfolding hash_step_def by blast
qed

lemma hash_stepD':
  assumes "hash_step t t'" "et_nodes t' a = Some n'"
  obtains n where "et_nodes t a = Some n" "same_data n n'" "hash_valid n \<Longrightarrow> n' = n"
proof -
  obtain n where "et_nodes t a = Some n" using assms unfolding hash_step_def by (metis not_Some_eq)
  then show ?thesis using that assms unfolding hash_step_def by blast
qed

lemma hash_step_trans:
  assumes "hash_step t t'" "hash_step t' t''"
  shows "hash_step t t''"
proof -
  have "same_data n n'' \<and> (hash_valid n \<longrightarrow> n'' = n)" if n: "et_nodes t a = Some n" "et_nodes t'' a = Some n''" for a n n''
  proof -
    obtain n' where n': "et_nodes t' a = Some n'" "same_data n n'" "hash_valid n \<Longrightarrow> n' = n" using hash_stepD [OF assms(1) n(1)] by blast
    then show ?thesis using hash_stepD [OF assms(2) n'(1)] n(2) by (fastforce simp: same_data_def)
  qed
  then show ?thesis using assms unfolding hash_step_def by metis
qed

lemma rep_struct:
  assumes vals: "et_values t' = et_values t" and nodes: "\<And>a n. et_nodes t a = Some n \<Longrightarrow> \<exists>n'. et_nodes t' a = Some n' \<and> same_data n n'"
  shows "rep P t a T \<Longrightarrow> rep P t' a T"
proof (induction T arbitrary: a rule: node_induct)
  case (Value v p l hv m h)
  then obtain n w where n: "et_nodes t a = Some n" "at_prefix n = p" "at_prefix_len n = l" "at_is_leaf P n" "v = Some w"
    "et_values t (unat (at_value_pointer n)) = Some w" by (auto simp: rep_Value)
  obtain n' where "et_nodes t' a = Some n'" "same_data n n'" using nodes [OF n(1)] by blast
  then show ?case using n vals by (auto simp: rep_Value same_data_def at_is_leaf_def)
next
  case (Children cs p l hv m h)
  obtain n where n: "et_nodes t a = Some n" "at_prefix n = p" "at_prefix_len n = l" "\<not> at_is_leaf P n" "map fst cs = filter (active n) [0..<16]"
    "\<forall>(bb, c) \<in> set cs. rep P t (child_addr n bb) c"
    using Children.prems unfolding rep_Children by blast
  obtain n' where n': "et_nodes t' a = Some n'" "same_data n n'" using nodes [OF n(1)] by blast
  have "rep P t' (child_addr n bb) c" if "(bb, c) \<in> set cs" for bb c using Children.IH [OF that] n(6) that by blast
  then show ?case using n n' unfolding rep_Children by (auto simp: same_data_def at_is_leaf_def simp del: upt_rec_numeral)
qed

lemma rep_hash_step:
  assumes "hash_step t t'"
  shows "rep P t' a T \<longleftrightarrow> rep P t a T"
proof
  have vals: "et_values t' = et_values t" using assms by (simp add: hash_step_def)
  show "rep P t a T \<Longrightarrow> rep P t' a T" by (rule rep_struct [OF vals]) (use hash_stepD [OF assms] in blast)
  have "\<exists>n. et_nodes t a = Some n \<and> same_data n' n" if "et_nodes t' a = Some n'" for a n'
    using hash_stepD' [OF assms that] same_data_sym by blast
  then show "rep P t' a T \<Longrightarrow> rep P t a T" by (rule rep_struct [OF vals [symmetric]])
qed

definition valid_at :: "('p, 'v) AtomicTrie \<Rightarrow> nat \<Rightarrow> bool" where
  "valid_at t a \<longleftrightarrow> (\<exists>n. et_nodes t a = Some n \<and> hash_valid n)"

lemma valid_at_step: "hash_step t t' \<Longrightarrow> valid_at t a \<Longrightarrow> valid_at t' a"
  by (auto simp: valid_at_def elim!: hash_stepD)

definition hash_cached ::
    "'p TriePrefix \<Rightarrow> 'b BitVector_ops \<Rightarrow> ('p, 'v, 'b) HashEnv \<Rightarrow> (byte list \<Rightarrow> Hash) \<Rightarrow> ('p, 'v) AtomicTrie \<Rightarrow> bool" where
  "hash_cached P B E H t \<longleftrightarrow> (\<forall>a n. et_nodes t a = Some n \<longrightarrow> hash_valid n \<longrightarrow>
     (\<forall>T :: ('p, 'v option, EmptyMetadata) TrieNode. rep P t a T \<longrightarrow> em_hash (at_metadata n) = node_hash B (opt_env E) H T) \<and>
     (\<not> at_is_leaf P n \<longrightarrow> (\<forall>bb < 16. active n bb \<longrightarrow> valid_at t (child_addr n bb))))"

context trie_hash
begin

abbreviation ehash :: "('p, 'v option, EmptyMetadata) TrieNode \<Rightarrow> Hash" where
  "ehash \<equiv> node_hash B (opt_env E) H"

abbreviation hcached where
  "hcached \<equiv> hash_cached P B E H"

lemma eph_generichash [simp]: "snap_generichash E d = Inr (H d)"
  by (simp add: snap_generichash_def generichash_ok)

lemma cached_hash: "hcached t \<Longrightarrow> et_nodes t a = Some n \<Longrightarrow> hash_valid n \<Longrightarrow> rep P t a T \<Longrightarrow> em_hash (at_metadata n) = ehash T"
  by (simp add: hash_cached_def)

text \<open>Two trees at one address are the same up to metadata.\<close>

lemma rep_unique: "rep P t a T \<Longrightarrow> rep P t a U \<Longrightarrow> strip T = strip U"
proof (induction T arbitrary: a U rule: node_induct)
  case (Value v p l hv m h)
  then show ?case by (cases U; cases "tn_children U") (auto simp: rep_Value rep_Children)
next
  case (Children cs p l hv m h)
  obtain n where n: "et_nodes t a = Some n" "at_prefix n = p" "at_prefix_len n = l" "\<not> at_is_leaf P n" "map fst cs = filter (active n) [0..<16]"
    "\<forall>(bb, c) \<in> set cs. rep P t (child_addr n bb) c"
    using Children.prems(1) unfolding rep_Children by blast
  obtain ds hv' m' h' where U: "U = TrieNode (Children ds) p l hv' m' h'" and ds: "map fst ds = map fst cs" "\<forall>(bb, c) \<in> set ds. rep P t (child_addr n bb) c"
  proof (cases U)
    case (TrieNode ch p' l' hv' m' h')
    then show ?thesis using Children.prems(2) n that by (cases ch) (auto simp: rep_Value rep_Children simp del: upt_rec_numeral)
  qed
  have "map (\<lambda>(bb, c). (bb, strip c)) cs = map (\<lambda>(bb, c). (bb, strip c)) ds"
  proof (rule nth_equalityI)
    show len: "length (map (\<lambda>(bb, c). (bb, strip c)) cs) = length (map (\<lambda>(bb, c). (bb, strip c)) ds)" using arg_cong [OF ds(1), of length] by simp
    fix i assume i: "i < length (map (\<lambda>(bb, c). (bb, strip c)) cs)"
    obtain bb c bb' d where x: "cs ! i = (bb, c)" "ds ! i = (bb', d)" by (metis surj_pair)
    have "bb' = bb" using arg_cong [OF ds(1), of "\<lambda>xs. xs ! i"] x i len by simp
    moreover have "(bb, c) \<in> set cs" "(bb', d) \<in> set ds" using x i len nth_mem by (metis length_map)+
    moreover have "strip c = strip d" using Children.IH [of bb c "child_addr n bb" d] n(6) ds(2) calculation by blast
    ultimately show "map (\<lambda>(bb, c). (bb, strip c)) cs ! i = map (\<lambda>(bb, c). (bb, strip c)) ds ! i" using x i len by simp
  qed
  then show ?case using U by simp
qed

lemma rep_hash_unique: "rep P t a T \<Longrightarrow> rep P t a U \<Longrightarrow> ehash T = ehash U"
  using rep_unique [of t a T U] node_hash_strip by metis

text \<open>Marking a node whose children are marked.\<close>

lemma set_metadata_ok:
  assumes t: "hcached t" and n: "et_nodes t a = Some n" "\<not> hash_valid n" and T: "rep P t a T"
    and kids: "\<And>bb. \<not> at_is_leaf P n \<Longrightarrow> bb < 16 \<Longrightarrow> active n bb \<Longrightarrow> valid_at t (child_addr n bb)"
    and md: "em_hash md = ehash T" "em_hash_valid md"
  shows "\<exists>t'. set_metadata a md t = Inr t' \<and> hash_step t t' \<and> hcached t' \<and> valid_at t' a"
proof -
  let ?t = "t\<lparr>et_nodes := (et_nodes t)(a \<mapsto> n\<lparr>at_metadata := md\<rparr>)\<rparr>"
  have st: "hash_step t ?t" using n by (auto simp: hash_step_def same_data_def)
  have hash: "em_hash (at_metadata m) = ehash U" if m: "et_nodes ?t b = Some m" "hash_valid m" "rep P ?t b U" for b m U
  proof (cases "b = a")
    case True
    have "ehash U = ehash T" using rep_hash_unique [of t a U T] m(3) T True unfolding rep_hash_step [OF st] by simp
    then show ?thesis using m(1) md(1) True by auto
  next
    case False
    then show ?thesis using t m unfolding rep_hash_step [OF st] by (simp add: hash_cached_def)
  qed
  have sub: "valid_at ?t (child_addr m bb)" if m: "et_nodes ?t b = Some m" "hash_valid m" "\<not> at_is_leaf P m" "bb < 16" "active m bb" for b m bb
  proof (rule valid_at_step [OF st])
    show "valid_at t (child_addr m bb)"
      using t m kids [of bb] n(1) by (cases "b = a") (auto simp: hash_cached_def at_is_leaf_def)
  qed
  have "hcached ?t" unfolding hash_cached_def using hash sub by blast
  moreover have "valid_at ?t a" using md(2) by (simp add: valid_at_def)
  ultimately show ?thesis using n(1) st by (simp add: set_metadata_def get_object_def)
qed

text \<open>Hashing a subtree does not touch the nodes above.\<close>

definition above_same :: "PrefixLenBits \<Rightarrow> ('p, 'v) AtomicTrie \<Rightarrow> ('p, 'v) AtomicTrie \<Rightarrow> bool" where
  "above_same l t t' \<longleftrightarrow> (\<forall>b n. et_nodes t b = Some n \<longrightarrow> at_prefix_len n < l \<longrightarrow> et_nodes t' b = Some n)"

definition hash_result :: "PrefixLenBits \<Rightarrow> nat \<Rightarrow> ('p, 'v) AtomicTrie \<Rightarrow> ('p, 'v) AtomicTrie \<Rightarrow> bool" where
  "hash_result l a t t' \<longleftrightarrow> hash_step t t' \<and> above_same l t t' \<and> hcached t' \<and> valid_at t' a"

lemma hash_children:
  assumes "\<And>bb c s. (bb, c) \<in> set cs \<Longrightarrow> rep P s (child_addr n bb) c \<Longrightarrow> hcached s \<Longrightarrow>
      \<exists>s'. et_compute_hash P B E f (child_addr n bb) s = Inr s' \<and> hash_result (tn_prefix_len c) (child_addr n bb) s s'"
    and "hcached s" "\<forall>(bb, c) \<in> set cs. rep P s (child_addr n bb) c \<and> l < tn_prefix_len c"
  shows "\<exists>s'. rfold (\<lambda>bb (t, bits). rbind (et_compute_hash P B E f (child_addr n bb) t) (\<lambda>t'. Inr (t', bv_add B bits bb))) (map fst cs) (s, bits) =
      Inr (s', fold (\<lambda>bb bits. bv_add B bits bb) (map fst cs) bits) \<and> hash_step s s' \<and> above_same (Suc l) s s' \<and> hcached s' \<and>
      (\<forall>bb \<in> fst ` set cs. valid_at s' (child_addr n bb))"
  using assms
proof (induction cs arbitrary: s bits)
  case (Cons x cs)
  obtain bb c where x: "x = (bb, c)" by (cases x)
  obtain s1 where s1: "et_compute_hash P B E f (child_addr n bb) s = Inr s1" "hash_result (tn_prefix_len c) (child_addr n bb) s s1"
    using Cons.prems(1) [of bb c s] Cons.prems(2,3) x by auto
  have st1: "hash_step s s1" "above_same (tn_prefix_len c) s s1" "hcached s1" "valid_at s1 (child_addr n bb)" using s1(2) by (auto simp: hash_result_def)
  have rep1: "\<forall>(bb, c) \<in> set cs. rep P s1 (child_addr n bb) c \<and> l < tn_prefix_len c"
    unfolding rep_hash_step [OF st1(1)] using Cons.prems(3) by simp
  have sub1: "\<exists>s'. et_compute_hash P B E f (child_addr n bb) s = Inr s' \<and> hash_result (tn_prefix_len c) (child_addr n bb) s s'"
    if "(bb, c) \<in> set cs" "rep P s (child_addr n bb) c" "hcached s" for bb c s
    using Cons.prems(1) [of bb c s] that by simp
  obtain s2 where s2: "rfold (\<lambda>bb (t, bits). rbind (et_compute_hash P B E f (child_addr n bb) t) (\<lambda>t'. Inr (t', bv_add B bits bb))) (map fst cs) (s1, bv_add B bits bb) =
      Inr (s2, fold (\<lambda>bb bits. bv_add B bits bb) (map fst cs) (bv_add B bits bb))" "hash_step s1 s2" "above_same (Suc l) s1 s2" "hcached s2"
      "\<forall>bb \<in> fst ` set cs. valid_at s2 (child_addr n bb)"
    using Cons.IH [OF sub1 st1(3) rep1] by blast
  have "hash_step s s2" using hash_step_trans [OF st1(1) s2(2)] .
  moreover have "valid_at s2 (child_addr n bb)" using valid_at_step [OF s2(2) st1(4)] .
  moreover have "above_same (Suc l) s s2" using st1(2) s2(3) Cons.prems(3) x by (auto simp: above_same_def)
  ultimately show ?case using s1(1) s2 x by simp
qed (simp add: above_same_def)

lemma append_children:
  assumes t: "hcached t" "\<forall>(bb, c) \<in> set cs. rep P t (child_addr n bb) c" "\<forall>bb \<in> fst ` set cs. valid_at t (child_addr n bb)" and md: "\<not> em_hash_valid md"
  shows "rfold (\<lambda>bb (d, md). rbind (get_object t (child_addr n bb)) (\<lambda>c. append_metadata c d md)) (map fst cs) (d, md) =
    Inr (d @ concat (map (\<lambda>(bb, c). ehash c) cs), md)"
  using t
proof (induction cs arbitrary: d)
  case (Cons x cs)
  obtain bb c where x: "x = (bb, c)" by (cases x)
  obtain m where m: "et_nodes t (child_addr n bb) = Some m" "hash_valid m" using Cons.prems(3) x by (auto simp: valid_at_def)
  have "em_hash (at_metadata m) = ehash c" using cached_hash [OF Cons.prems(1) m] Cons.prems(2) x by auto
  then show ?case
    using Cons.IH [of "d @ ehash c"] Cons.prems m md x by (simp add: get_object_def append_metadata_def em_write_to_def em_add_def)
qed simp

lemma rfold_split_skip: "rfold (\<lambda>x (s, r). if Q x then f x s r else Inr (s, r)) xs s = rfold (\<lambda>x (s, r). f x s r) (filter Q xs) s"
proof -
  have "(\<lambda>x (s, r). if Q x then f x s r else Inr (s, r)) = (\<lambda>x s. if Q x then (case s of (s, r) \<Rightarrow> f x s r) else Inr s)" by (auto simp: fun_eq_iff)
  then show ?thesis by (simp only: rfold_skip)
qed

lemma compute_hash_leaf:
  fixes m :: EmptyMetadata
  assumes T: "rep P t a (TrieNode (Value v) p l hv m h)" and t: "hcached t"
  shows "\<exists>t'. et_compute_hash P B E (Suc f) a t = Inr t' \<and> hash_result l a t t'"
proof -
  obtain n w where n: "et_nodes t a = Some n" "at_prefix n = p" "at_prefix_len n = l" "at_is_leaf P n" "v = Some w"
    "et_values t (unat (at_value_pointer n)) = Some w" using T by (auto simp: rep_Value)
  show ?thesis
  proof (cases "hash_valid n")
    case True
    then show ?thesis using n(1) t by (auto simp: et_compute_hash.simps get_object_def valid_at_def hash_result_def above_same_def)
  next
    case False
    let ?md = "(at_metadata n)\<lparr>em_hash := H (copy_data E w (write_node_header E [] p l)), em_hash_valid := True\<rparr>"
    have "em_hash ?md = ehash (TrieNode (Value v) p l hv m h)" using n(5) by (simp add: opt_env_header) (simp add: opt_env_def)
    then obtain t' where "set_metadata a ?md t = Inr t'" "hash_step t t'" "hcached t'" "valid_at t' a"
      using set_metadata_ok [OF t n(1) False T, of ?md] n(4) by auto
    then show ?thesis
      using n False by (auto simp: et_compute_hash.simps get_object_def et_value_def hash_result_def above_same_def set_metadata_def)
  qed
qed

theorem compute_hash_ok:
  fixes T :: "('p, 'v option, EmptyMetadata) TrieNode"
  shows "rep P t a T \<Longrightarrow> wf 0 T \<Longrightarrow> fuel_ok fuel T \<Longrightarrow> hcached t \<Longrightarrow>
   \<exists>t'. et_compute_hash P B E fuel a t = Inr t' \<and> hash_result (tn_prefix_len T) a t t'"
proof (induction T arbitrary: a fuel t rule: node_induct)
  case (Value v p l hv m h)
  obtain f where "fuel = Suc f" using fuel_pos [OF Value.prems(3,2)] by blast
  then show ?case using compute_hash_leaf [OF Value.prems(1,4)] by simp
next
  case (Children cs p l hv m h)
  let ?T = "TrieNode (Children cs) p l hv m h"
  obtain f where f: "fuel = Suc f" using fuel_pos [OF Children.prems(3,2)] by blast
  note kid = fuel_child [OF Children.prems(2) Children.prems(3) [unfolded f]]
  obtain n where n: "et_nodes t a = Some n" "at_prefix n = p" "at_prefix_len n = l" "\<not> at_is_leaf P n" "map fst cs = filter (active n) [0..<16]"
    "\<forall>(bb, c) \<in> set cs. rep P t (child_addr n bb) c"
    using Children.prems(1) unfolding rep_Children by blast
  have deeper: "\<forall>(bb, c) \<in> set cs. rep P t (child_addr n bb) c \<and> l < tn_prefix_len c" using n(6) Children.prems(2) by auto
  show ?case
  proof (cases "hash_valid n")
    case True
    then show ?thesis using n(1) Children.prems(4) by (auto simp: f et_compute_hash.simps get_object_def valid_at_def hash_result_def above_same_def)
  next
    case False
    let ?b1 = "\<lambda>bb (t, bits). rbind (et_compute_hash P B E f (child_addr n bb) t) (\<lambda>t'. Inr (t', bv_add B bits bb))"
    let ?b2 = "\<lambda>t bb (d, md). rbind (get_object t (child_addr n bb)) (\<lambda>c. append_metadata c d md)"
    obtain s where s: "rfold ?b1 (map fst cs) (t, bv_clear B) = Inr (s, bv_of_keys B (map fst cs))" "hash_step t s" "above_same (Suc l) t s" "hcached s"
      "\<forall>bb \<in> fst ` set cs. valid_at s (child_addr n bb)"
      using hash_children [OF _ Children.prems(4) deeper, of f "bv_clear B"] Children.IH kid unfolding bv_of_keys_def by blast
    let ?d = "bv_write E (bv_of_keys B (map fst cs)) (write_node_header E [] p l)"
    have app: "rfold (?b2 s) (map fst cs) (?d, at_metadata n) = Inr (?d @ concat (map (\<lambda>(bb, c). ehash c) cs), at_metadata n)"
      by (rule append_children [OF s(4) _ s(5) False]) (use n(6) in \<open>simp add: rep_hash_step [OF s(2)]\<close>)
    let ?md = "(at_metadata n)\<lparr>em_hash := H (?d @ concat (map (\<lambda>(bb, c). ehash c) cs)), em_hash_valid := True\<rparr>"
    have h: "em_hash ?md = ehash ?T" by (simp add: opt_env_header) (simp add: opt_env_def)
    have n': "et_nodes s a = Some n" using s(3) n(1,3) by (simp add: above_same_def)
    have "fst ` set cs = {bb. bb < 16 \<and> active n bb}" using arg_cong [OF n(5), of set] by (auto simp del: upt_rec_numeral)
    then have kids: "valid_at s (child_addr n bb)" if "bb < 16" "active n bb" for bb using s(5) that by blast
    have "rep P s a ?T" unfolding rep_hash_step [OF s(2)] by (rule Children.prems(1))
    from set_metadata_ok [OF s(4) n' False this kids h]
    obtain t' where t': "set_metadata a ?md s = Inr t'" "hash_step s t'" "hcached t'" "valid_at t' a" by auto
    have "above_same l t t'" using s(3) t'(1) n(3) n' by (auto simp: above_same_def set_metadata_def get_object_def)
    then have "hash_result l a t t'" using hash_step_trans [OF s(2) t'(2)] t'(3,4) by (simp add: hash_result_def)
    moreover have "et_compute_hash P B E fuel a t = set_metadata a ?md s"
      using n(1-4) False s(1) app by (simp add: f et_compute_hash.simps get_object_def Let_def rfold_split_skip n(5) [symmetric] del: upt_rec_numeral)
    ultimately show ?thesis using t'(1) by simp
  qed
qed

text \<open>The whole trie: \<^verbatim>\<open>hash_serial\<close>, and \<^verbatim>\<open>hash\<close> whichever nodes its tasks hash first.\<close>

lemma hash_serial_ok:
  fixes T :: "('p, 'v option, EmptyMetadata) TrieNode"
  assumes T: "rep P t root_addr T" "wf 0 T" "fuel_ok fuel T" and t: "hcached t"
  shows "\<exists>t'. hash_serial P B E fuel t = Inr (ehash T, t') \<and> et_hashed t' \<and> hcached t' \<and> valid_at t' root_addr \<and> hash_step t (t'\<lparr>et_hashed := et_hashed t\<rparr>)"
proof -
  obtain s where s: "et_compute_hash P B E fuel root_addr t = Inr s" "hash_step t s" "hcached s" "valid_at s root_addr"
    using compute_hash_ok [OF T t] by (auto simp: hash_result_def)
  obtain n where n: "et_nodes s root_addr = Some n" "hash_valid n" using s(4) by (auto simp: valid_at_def)
  have "em_hash (at_metadata n) = ehash T" using cached_hash [OF s(3) n] T(1) rep_hash_step [OF s(2)] by blast
  moreover have rep: "rep P (s\<lparr>et_hashed := b\<rparr>) a U \<longleftrightarrow> rep P s a U" for b a and U :: "('p, 'v option, EmptyMetadata) TrieNode"
    using rep_struct [of "s\<lparr>et_hashed := b\<rparr>" s P a U] rep_struct [of s "s\<lparr>et_hashed := b\<rparr>" P a U] by (auto simp: same_data_def)
  have "hcached (s\<lparr>et_hashed := True\<rparr>)" using s(3) by (simp add: hash_cached_def rep valid_at_def)
  moreover have "hash_step t (s\<lparr>et_hashed := True\<rparr>\<lparr>et_hashed := et_hashed t\<rparr>)" using s(2) by (simp add: hash_step_def)
  ultimately show ?thesis using s(1,4) n(1) by (simp add: hash_serial_def get_object_def valid_at_def)
qed

lemma hash_tasks_ok:
  assumes t: "hcached t" and tasks: "\<And>a. a \<in> set tasks \<Longrightarrow> \<exists>T :: ('p, 'v option, EmptyMetadata) TrieNode. rep P t a T \<and> wf 0 T \<and> fuel_ok fuel T"
  shows "\<exists>s. rfold (et_compute_hash P B E fuel) tasks t = Inr s \<and> hash_step t s \<and> hcached s"
  using assms
proof (induction tasks arbitrary: t)
  case (Cons a tasks)
  obtain T :: "('p, 'v option, EmptyMetadata) TrieNode" where T: "rep P t a T" "wf 0 T" "fuel_ok fuel T" using Cons.prems(2) [of a] by auto
  obtain s where s: "et_compute_hash P B E fuel a t = Inr s" "hash_step t s" "hcached s"
    using compute_hash_ok [OF T Cons.prems(1)] by (auto simp: hash_result_def)
  have "\<exists>T :: ('p, 'v option, EmptyMetadata) TrieNode. rep P s b T \<and> wf 0 T \<and> fuel_ok fuel T" if "b \<in> set tasks" for b
    unfolding rep_hash_step [OF s(2)] using Cons.prems(2) [of b] that by simp
  from Cons.IH [OF s(3) this] obtain s2 where "rfold (et_compute_hash P B E fuel) tasks s = Inr s2" "hash_step s s2" "hcached s2" by blast
  then show ?case using s(1) hash_step_trans [OF s(2)] by auto
qed simp

theorem et_hash_ok:
  fixes T :: "('p, 'v option, EmptyMetadata) TrieNode"
  assumes T: "rep P t root_addr T" "wf 0 T" "fuel_ok fuel T" and t: "hcached t"
    and tasks: "\<And>a. a \<in> set tasks \<Longrightarrow> \<exists>T :: ('p, 'v option, EmptyMetadata) TrieNode. rep P t a T \<and> wf 0 T \<and> fuel_ok fuel T"
  shows "\<exists>t'. et_hash P B E fuel tasks t = Inr (ehash T, t') \<and> et_hashed t' \<and> hcached t' \<and> valid_at t' root_addr \<and> hash_step t (t'\<lparr>et_hashed := et_hashed t\<rparr>)"
proof -
  obtain s where s: "rfold (et_compute_hash P B E fuel) tasks t = Inr s" "hash_step t s" "hcached s" using hash_tasks_ok [OF t tasks] by blast
  have "rep P s root_addr T" unfolding rep_hash_step [OF s(2)] by (rule T(1))
  from hash_serial_ok [OF this T(2,3) s(3)] obtain t' where t': "hash_serial P B E fuel s = Inr (ehash T, t')" "et_hashed t'" "hcached t'"
    "valid_at t' root_addr" "hash_step s (t'\<lparr>et_hashed := et_hashed s\<rparr>)" by blast
  have "et_hashed s = et_hashed t" using s(2) by (simp add: hash_step_def)
  then show ?thesis using s(1) t' hash_step_trans [OF s(2) t'(5)] by (simp add: et_hash_def)
qed

end

end
