(* ===== verification/EphemeralCanon.thy ===== *)
theory EphemeralCanon
  imports EphemeralHash
begin

text \<open>
  A trie at rest has no inner node with a single child except the root: a split makes such a node, but the thread that made it adds a
  leaf on the other side before it returns.  So the tree, and with it the hash, depends on the contents only and not on the schedule.
\<close>

text \<open>A path is wanted if a leaf is below it or a thread is about to put one there.\<close>

definition wanted :: "'p TriePrefix \<Rightarrow> ('p \<Rightarrow> nat list) \<Rightarrow> ('p, 'v) AtomicTrie \<Rightarrow> ('p, 'i) eph_thread list \<Rightarrow> nat list \<Rightarrow> bool" where
  "wanted P nib t ts p \<longleftrightarrow> leaves_below P nib t p \<noteq> {} \<or> (\<exists>x \<in> set ts. \<not> effected (snd x) \<and> prefix p (nib (fst (fst x))))"

definition forks_ok :: "'p TriePrefix \<Rightarrow> ('p \<Rightarrow> nat list) \<Rightarrow> ('p, 'v) AtomicTrie \<times> ('p, 'i) eph_thread list \<Rightarrow> bool" where
  "forks_ok P nib = (\<lambda>(t, ts). \<forall>a n. et_nodes t a = Some n \<longrightarrow> \<not> at_is_leaf P n \<longrightarrow> at_path nib n \<noteq> [] \<longrightarrow>
     (\<exists>d e. d \<noteq> e \<and> wanted P nib t ts (at_path nib n @ [d]) \<and> wanted P nib t ts (at_path nib n @ [e])))"

lemma wanted_prefix: "wanted P nib t ts p \<Longrightarrow> prefix q p \<Longrightarrow> wanted P nib t ts q"
  unfolding wanted_def leaves_below_def by (fastforce intro: prefix_order.trans)

text \<open>Every thread has returned.\<close>

definition all_returned :: "('p, 'i) eph_thread list \<Rightarrow> bool" where
  "all_returned ts \<longleftrightarrow> (\<forall>x \<in> set ts. snd x \<in> range E_Return)"

context trie_prefix
begin

lemma leaves_extend:
  assumes "heap_extends (abs_heap P t) (abs_heap P t')"
  shows "leaves_below P nib t p \<subseteq> leaves_below P nib t' p"
proof
  fix b assume "b \<in> leaves_below P nib t p"
  then obtain m where m: "et_nodes t b = Some m" "at_is_leaf P m" "prefix p (apath m)" by (auto simp: leaves_below_def)
  obtain m' where "et_nodes t' b = Some m'" "apath m' = apath m" "at_is_leaf P m' = at_is_leaf P m" using extends_node [OF assms m(1)] by metis
  then show "b \<in> leaves_below P nib t' p" using m by (simp add: leaves_below_def)
qed

text \<open>A thread that has taken effect has a leaf with its key.\<close>

lemma effect_leaf:
  assumes mv: "eph_move P nib F key i e t pc t' pc'" and key: "pvalid key" and eff: "\<not> effected pc" "effected pc'" and p: "prefix p (nib key)"
  shows "leaves_below P nib t' p \<noteq> {}"
  using mv
proof cases
  case (em_write a n y)
  then have "a \<in> leaves_below P nib t' p" using p by (simp add: leaves_below_def)
  then show ?thesis by blast
next
  case (em_add a n w q' q vp x slot)
  have "unat q' \<noteq> a" using em_add(4,9) by auto
  then have "unat q' \<in> leaves_below P nib t' p" using em_add(2) new_leaf_ok(2,5) [OF key em_add(12)] p by (simp add: leaves_below_def)
  then show ?thesis by blast
qed (use eff in auto)

lemma wanted_step:
  assumes j: "j < length ts" "ts ! j = ((key, i), pc)" and mv: "eph_move P nib F key i e t pc t' pc'" and key: "pvalid key"
    and ext: "heap_extends (abs_heap P t) (abs_heap P t')" and w: "wanted P nib t ts p"
  shows "wanted P nib t' (ts[j := ((key, i), pc')]) p"
proof (cases "leaves_below P nib t p \<noteq> {}")
  case True
  then show ?thesis using leaves_extend [OF ext] by (auto simp: wanted_def)
next
  case False
  then obtain k where k: "k < length ts" "\<not> effected (snd (ts ! k))" "prefix p (nib (fst (fst (ts ! k))))"
    using w by (auto simp: wanted_def in_set_conv_nth)
  let ?ts = "ts[j := ((key, i), pc')]"
  show ?thesis
  proof (cases "k = j \<and> effected pc'")
    case True
    then show ?thesis using effect_leaf [OF mv key] k j by (auto simp: wanted_def)
  next
    case False
    then have "\<not> effected (snd (?ts ! k))" "prefix p (nib (fst (fst (?ts ! k))))" using k j by (auto simp: nth_list_update)
    moreover have "?ts ! k \<in> set ?ts" using k(1) by (intro nth_mem) simp
    ultimately show ?thesis unfolding wanted_def by blast
  qed
qed

lemma node_wanted:
  assumes "forks_ok P nib (t, ts)" "et_nodes t a = Some n" "apath n \<noteq> []"
  shows "wanted P nib t ts (apath n)"
proof (cases "at_is_leaf P n")
  case True
  then have "a \<in> leaves_below P nib t (apath n)" using assms(2) by (simp add: leaves_below_def)
  then show ?thesis by (auto simp: wanted_def)
next
  case False
  then obtain d where "wanted P nib t ts (apath n @ [d])" using assms by (auto simp: forks_ok_def)
  then show ?thesis by (rule wanted_prefix) simp
qed

theorem forks_step:
  assumes ok: "eok (t, ts)" and f: "forks_ok P nib (t, ts)" and st: "eph_machine P F (t, ts) j s'"
  shows "forks_ok P nib s'"
  using ok st
proof (cases rule: eph_step_elim)
  case (1 key i pc t' pc' e)
  let ?ts = "ts[j := ((key, i), pc')]"
  note t = eokD [OF ok]
  have key: "pvalid key" using t(5) [OF nth_mem [OF 1(1)]] 1(2) by (simp add: thread_ok_def)
  have ext: "heap_extends (abs_heap P t) (abs_heap P t')" using 1(9) by (simp add: eph_post_def)
  note mono = wanted_step [OF 1(1,2,8) key ext]
  have old: "\<exists>d e. d \<noteq> e \<and> wanted P nib t' ?ts (apath n @ [d]) \<and> wanted P nib t' ?ts (apath n @ [e])"
    if m: "et_nodes t a = Some m" "apath m = apath n" "\<not> at_is_leaf P m" "apath n \<noteq> []" for a m n
  proof -
    have "apath m \<noteq> []" using m(2,4) by simp
    then obtain d e where "d \<noteq> e" "wanted P nib t ts (apath m @ [d])" "wanted P nib t ts (apath m @ [e])"
      using f m(1,3) unfolding forks_ok_def by blast
    then show ?thesis using mono unfolding m(2) by blast
  qed
  have "\<exists>d e. d \<noteq> e \<and> wanted P nib t' ?ts (apath n @ [d]) \<and> wanted P nib t' ?ts (apath n @ [e])"
    if n: "et_nodes t' a = Some n" "\<not> at_is_leaf P n" "apath n \<noteq> []" for a n
  proof (cases "et_nodes t a")
    case (Some m)
    obtain n' where "et_nodes t' a = Some n'" "apath n' = apath m" "at_is_leaf P n' = at_is_leaf P m" using extends_node [OF ext Some] by metis
    then show ?thesis using old [OF Some] n by simp
  next
    case None
    from 1(8) show ?thesis
    proof cases
      case (em_add b m w p q vp x slot)
      have "a = unat p \<and> n = x" using n(1) None em_add(2,4) by (auto split: if_splits)
      then show ?thesis using n(2) new_leaf_ok(5) [OF key em_add(12)] by simp
    next
      case (em_split b k w m l p q slot x)
      have a: "n = x" using n(1) None em_split(2,4) by (auto split: if_splits)
      have len: "l < prefix_bits P div 4" using em_split(11) aokD(5) [OF t(1) em_split(8)] by simp
      note am = aokD(6) [OF t(1) em_split(8)]
      have d: "apath m ! l < 16" using em_split(11) nib_bound [OF am nth_mem, of l] nib_length [OF am] len by (simp add: at_path_def)
      have x: "apath x = take l (nib key)" using new_branch_ok [OF key len em_split(15) d em_split(7), of "et_values t"] by metis
      have ln: "l < length (nib key)" using len nib_length [OF key] by simp
      have tk: "take l (nib key) = take l (apath m)" using take_lcp [of "apath m" "nib key"] em_split(10) by simp
      have "prefix (apath x @ [apath m ! l]) (apath m)" unfolding x tk using em_split(11) by (metis take_Suc_conv_app_nth take_is_prefix)
      moreover have "apath m \<noteq> []" using em_split(11) by auto
      ultimately have w1: "wanted P nib t' ?ts (apath x @ [apath m ! l])"
        using mono [OF wanted_prefix [OF node_wanted [OF f em_split(8)]]] by blast
      have "prefix (apath x @ [nib key ! l]) (nib key)" unfolding x using ln by (metis take_Suc_conv_app_nth take_is_prefix)
      moreover have "((key, i), pc') \<in> set ?ts" using 1(1) by (simp add: set_update_memI)
      ultimately have w2: "wanted P nib t' ?ts (apath x @ [nib key ! l])" 
        unfolding wanted_def using em_split(3) by (intro disjI2 bexI [of _ "((key, i), pc')"]) simp_all
      have "apath m ! l \<noteq> nib key ! l"
      proof
        assume eq: "apath m ! l = nib key ! l"
        have "prefix (take (Suc l) (apath m)) (nib key)"
          using em_split(11) ln tk eq by (metis take_Suc_conv_app_nth take_is_prefix)
        then show False using prefix_le_lcp [of "take (Suc l) (apath m)" "apath m" "nib key"] em_split(10,11) take_is_prefix by fastforce
      qed
      then show ?thesis using w1 w2 a by blast
    qed (use n(1) None in \<open>auto split: if_splits\<close>)
  qed
  then show ?thesis using 1(4) by (simp add: forks_ok_def)
qed

text \<open>At rest, the nodes below the root have two children.\<close>

lemma rep_wf2:
  assumes t: "aok t" and f: "forks_ok P nib (t, [] :: ('p, 'i) eph_thread list)"
  shows "rep P t a T \<Longrightarrow> wf 0 T \<Longrightarrow> 0 < tn_prefix_len T \<Longrightarrow> wf 2 T"
proof (induction T arbitrary: a rule: node_induct)
  case (Children cs p l hv m h)
  obtain n where n: "et_nodes t a = Some n" "at_prefix n = p" "at_prefix_len n = l" "\<not> at_is_leaf P n" "map fst cs = filter (active n) [0..<16]"
    "\<forall>(bb, c) \<in> set cs. rep P t (child_addr n bb) c"
    using Children.prems(1) unfolding rep_Children by blast
  have "apath n \<noteq> []" using Children.prems(3) aokD(3) [OF t n(1)] n(3) by auto
  then obtain d e where de: "d \<noteq> e" "wanted P nib t ([] :: ('p, 'i) eph_thread list) (apath n @ [d])" "wanted P nib t ([] :: ('p, 'i) eph_thread list) (apath n @ [e])"
    using f n(1,4) unfolding forks_ok_def by blast
  have in_cs: "b \<in> fst ` set cs" if w: "wanted P nib t ([] :: ('p, 'i) eph_thread list) (apath n @ [b])" for b
  proof -
    obtain c k where k: "et_nodes t c = Some k" "prefix (apath n @ [b]) (apath k)" using w by (auto simp: wanted_def leaves_below_def)
    have "b \<in> set (apath k)" using set_mono_prefix [OF k(2)] by simp
    then have "b < 16" using nib_bound [OF aokD(6) [OF t k(1)]] in_set_takeD unfolding at_path_def by metis
    moreover have "active n b" using no_edge [OF t n(1,4) calculation _ k(1)] k(2) by blast
    ultimately show ?thesis using arg_cong [OF n(5), of set] by (auto simp del: upt_rec_numeral)
  qed
  have "card {d, e} \<le> card (fst ` set cs)" using in_cs de by (intro card_mono) auto
  also have "\<dots> \<le> length cs" using card_image_le [of "set cs" fst] card_length [of cs] by simp
  finally have two: "2 \<le> length cs" using de(1) by simp
  from Children.prems(2) obtain k where k: "l = 4 * k" "pvalid p" "4 * k < prefix_bits P" "drop k (nib p) = replicate (prefix_bits P div 4 - k) 0" "branch 0 (take k (nib p)) cs"
    by (rule wf_ChildrenE)
  have "wf 2 c" if c: "(bb, c) \<in> set cs" for bb c
    by (rule Children.IH [OF c]) (use n(6) Children.prems(2) c in auto)
  then have "branch 2 (take k (nib p)) cs" using k(5) by (auto simp: branch_ok_def)
  then show ?case unfolding k(1) wf_Children using k two by simp
qed simp

section \<open>From the empty trie to a trie at rest\<close>

lemma rest_sizes: "all_returned ts \<Longrightarrow> sizes_ok P nib (t, ts) \<Longrightarrow> sizes_ok P nib (t, [] :: ('p, 'i) eph_thread list)"
proof -
  assume r: "all_returned ts" and s: "sizes_ok P nib (t, ts)"
  have "\<not> uncounted nib t p x" if "x \<in> set ts" for x p using r that by (auto simp: all_returned_def uncounted_def)
  then have "pending nib t ts p = 0" for p by (simp add: pending_def)
  then show ?thesis using s by (simp add: sizes_ok_def) (simp add: pending_def)
qed

lemma rest_forks: "all_returned ts \<Longrightarrow> forks_ok P nib (t, ts) \<Longrightarrow> forks_ok P nib (t, [] :: ('p, 'i) eph_thread list)"
proof -
  assume r: "all_returned ts" and f: "forks_ok P nib (t, ts)"
  have "effected (snd x)" if "x \<in> set ts" for x using r that by (auto simp: all_returned_def)
  then have "wanted P nib t ts p \<longleftrightarrow> wanted P nib t ([] :: ('p, 'i) eph_thread list) p" for p by (auto simp: wanted_def)
  then show ?thesis using f by (simp add: forks_ok_def)
qed

text \<open>No node is marked as hashed while threads insert.\<close>

definition unhashed :: "('p, 'v) AtomicTrie \<Rightarrow> bool" where
  "unhashed t \<longleftrightarrow> (\<forall>a n. et_nodes t a = Some n \<longrightarrow> \<not> hash_valid n)"

lemma unhashed_move:
  assumes "eph_move P nib F key i e t pc t' pc'" "unhashed t"
  shows "unhashed t'"
  using assms
  by cases (auto simp: unhashed_def set_as_new_value_leaf_def set_as_new_branch_node_def em_clear_def res_simps split: if_splits)

lemma empty_ok:
  assumes "\<forall>x \<in> set kvs. pvalid (fst x)"
  shows "eok (AtomicTrie_empty P n :: ('p, 'v) AtomicTrie, eph_threads kvs)" "vals_are pvalid nib (abs_heap P (AtomicTrie_empty P n :: ('p, 'v) AtomicTrie)) Map.empty"
    "forks_ok P nib (AtomicTrie_empty P n :: ('p, 'v) AtomicTrie, eph_threads kvs)" "unhashed (AtomicTrie_empty P n :: ('p, 'v) AtomicTrie)"
proof -
  let ?t = "AtomicTrie_empty P n :: ('p, 'v) AtomicTrie"
  have leaf: "\<not> at_is_leaf P (set_as_empty_node P n)" "apath (set_as_empty_node P n) = []" "at_children (set_as_empty_node P n) = acm_clear"
    using bits_pos by (simp_all add: at_is_leaf_def set_as_empty_node_def at_path_def)
  have nodes: "et_nodes ?t a = Some x \<longleftrightarrow> a = root_addr \<and> x = set_as_empty_node P n" for a x by (auto simp: AtomicTrie_empty_def)
  have heap: "abs_heap P ?t = [root_addr \<mapsto> amt_root P]"
    using leaf by (auto simp: abs_heap_def AtomicTrie_empty_def abs_node_def amt_root_def set_as_empty_node_def acm_clear_def abs_child_def fun_eq_iff)
  show "vals_are pvalid nib (abs_heap P ?t) Map.empty" unfolding heap by (rule root_vals)
  have th: "thread_ok P pvalid nib ?t x" if "x \<in> set (eph_threads kvs)" for x
    using that assms leaf(2) nodes unfolding heap
    by (auto simp: thread_ok_def eph_threads_def heap amt_root_def cn_path_def)
  have "aok ?t" unfolding heap by (rule root_ok)
  moreover have "values_ok P ?t" "handles_ok ?t" "nulls_ok P ?t" "\<not> et_hashed ?t"
    using leaf by (auto simp: values_ok_def handles_ok_def nulls_ok_def AtomicTrie_empty_def acm_clear_def split: if_splits)
  moreover have "held_apart (eph_threads kvs)" by (simp add: held_apart_def eph_threads_def)
  moreover have "sizes_ok P nib (?t, eph_threads kvs)" unfolding sizes_ok_def using leaf(3) by (auto simp: nodes acm_clear_def)
  ultimately show "eok (?t, eph_threads kvs)" using th by (simp add: eph_ok_def)
  show "forks_ok P nib (?t, eph_threads kvs)" unfolding forks_ok_def using leaf(2) by (auto simp: nodes)
  show "unhashed ?t" by (simp add: unhashed_def nodes set_as_empty_node_def em_clear_def)
qed

lemma run_forks:
  assumes "eph_run P F s order s'" "eok s" "forks_ok P nib s" "unhashed (fst s)"
  shows "eok s' \<and> forks_ok P nib s' \<and> unhashed (fst s')"
  using assms
proof (induction rule: eph_run.induct)
  case (eph_run_snoc order s' j s'')
  obtain t ts where s': "s' = (t, ts)" by (cases s')
  then have ok: "eok (t, ts)" "forks_ok P nib (t, ts)" "unhashed t" using eph_run_snoc by auto
  note st = eph_run_snoc.hyps(2) [unfolded s']
  have "unhashed (fst s'')" using ok(1) st by (cases rule: eph_step_elim) (use unhashed_move ok(3) in auto)
  then show ?case using eph_step_ok [OF ok(1) st] forks_step [OF ok(1,2) st] by simp
qed simp

text \<open>The tree after a run that is over.\<close>

theorem run_tree:
  assumes run: "eph_run P F (AtomicTrie_empty P n, eph_threads kvs) order (t, ts)" and keys: "\<forall>x \<in> set kvs. pvalid (fst x)"
    and r: "all_returned ts"
  obtains T :: "('p, 'v option, EmptyMetadata) TrieNode" where "rep P t root_addr T" "wf 0 T" "wfo 0 T" "tn_prefix_len T = 0"
    "\<forall>k. pvalid k \<longrightarrow> trie_map P T k = map_option Some (fold (\<lambda>j. ref_insert F (kvs ! j)) order Map.empty k)" "length (entries P T) < 2 ^ 32"
    "aok t" "values_ok P t" "sizes_ok P nib (t, [] :: ('p, 'i) eph_thread list)" "nulls_ok P t" "unhashed t" "linear_ok F Map.empty kvs order ts (fold (\<lambda>j. ref_insert F (kvs ! j)) order Map.empty)"
proof -
  note start = empty_ok [OF keys, where n = n and ?'v = 'v]
  have ok: "eok (t, ts)" "forks_ok P nib (t, ts)" "unhashed t" using run_forks [OF run start(1,3)] start(4) by auto
  obtain m where lin: "linear_ok F Map.empty kvs order ts m" "vals_are pvalid nib (abs_heap P t) m"
    using eph_run_linear [OF run start(1,2)] by auto
  have m: "m = fold (\<lambda>j. ref_insert F (kvs ! j)) order Map.empty" using lin(1) by (simp add: linear_ok_def)
  note e = eokD [OF ok(1)]
  obtain r0 where root: "et_nodes t root_addr = Some r0" "apath r0 = []" using root_node [OF e(1)] .
  obtain T :: "('p, 'v option, EmptyMetadata) TrieNode" where T: "rep P t root_addr T" "tree_of (abs_heap P t) root_addr T"
    using rep_exists [OF e(1,2) root(1)] by blast
  have w: "wf 0 T" "tn_prefix_len T = 0" using T(2) aokD(2,3) [OF e(1) root(1)] root(2) by (auto simp: tree_of_def)
  have forks: "forks_ok P nib (t, [] :: ('p, 'i) eph_thread list)" by (rule rest_forks [OF r ok(2)])
  have "wfo 0 T"
  proof (cases T)
    case (TrieNode ch p l hv md h)
    then obtain cs where ch: "ch = Children cs" using w bits_pos by (cases ch) auto
    have l: "l = 0" using w(2) TrieNode by simp
    obtain nd :: "'p AtomicTrieNode" where nd: "\<forall>(bb, c) \<in> set cs. rep P t (child_addr nd bb) c" using T(1) unfolding TrieNode ch rep_Children by blast
    have "wf 2 c" if c: "(bb, c) \<in> set cs" for bb c
      by (rule rep_wf2 [OF e(1) forks]) (use nd w(1) c TrieNode ch in auto)
    then show ?thesis using w(1) wfo_Children [of 0 cs p 0 hv md h] wf_Children [of 0 cs p 0 hv md h] TrieNode ch l by (auto simp: branch_ok_def)
  qed
  moreover have "trie_map P T k = map_option Some (m k)" if k: "pvalid k" for k
  proof -
    have some: "trie_map P T k = Some (Some v) \<longleftrightarrow> m k = Some v" for v
    proof -
      have "slot_val P nib (abs_heap P t) (nib k) (Some v) \<longleftrightarrow> val_at nib (abs_heap P t) (nib k) v"
        using hokD(1) [OF e(1)] cn_len_path(3) nib_length [OF k] by (fastforce simp: slot_val_def val_at_def)
      then show ?thesis using T(2) root aokD(2) [OF e(1) root(1)] lin(2) k by (auto simp: tree_of_def vals_are_def)
    qed
    have full: "trie_map P T k \<noteq> Some None"
    proof
      assume "trie_map P T k = Some None"
      then have "slot_val P nib (abs_heap P t) (nib k) None" using T(2) k by (auto simp: tree_of_def)
      then obtain b x where "et_nodes t b = Some x" "at_is_leaf P x" "cn_value (abs_node P (et_values t) x) = None"
        by (auto simp: slot_val_def abs_heap_Some)
      then show False using values_okD(1) [OF e(2)] by (fastforce simp: abs_node_def)
    qed
    show ?thesis
    proof (cases "m k")
      case None
      then have "trie_map P T k \<noteq> Some x" for x using some full by (cases x) auto
      then show ?thesis using None by (cases "trie_map P T k") auto
    qed (use some in simp)
  qed
  moreover have "length (entries P T) < 2 ^ 32" using rep_leaves [OF e(1) T(1) root(1)] leaves_card [OF e(1,3), of "apath r0"] by simp
  ultimately show ?thesis using that [OF T(1) w(1) _ w(2)] e(1,2,8) rest_sizes [OF r e(7)] ok(3) lin(1) m by blast
qed

text \<open>The entries of a trie at rest, without the option.\<close>

definition plain :: "('p \<times> 'v option) list \<Rightarrow> ('p \<times> 'v) list" where
  "plain es = map (\<lambda>(k, v). (k, the v)) es"

lemma plain_keys [simp]: "map fst (plain es) = map fst es"
  by (auto simp: plain_def)

lemma plain_entries:
  assumes w: "wf 0 T" and m: "\<And>k. pvalid k \<Longrightarrow> trie_map P T k = map_option Some (m k)" and d: "\<And>k. k \<in> dom m \<Longrightarrow> pvalid k"
  shows "map_of (plain (entries P T)) = m" "sorted_wrt (prefix_less P) (map fst (plain (entries P T)))" "length (entries P T) = card (dom m)"
proof -
  show sorted: "sorted_wrt (prefix_less P) (map fst (plain (entries P T)))" using entries_sorted [OF w] by simp
  have e: "map_of (plain es) k = map_option the (map_of es k)" for es :: "('p \<times> 'v option) list" and k
    by (induction es) (auto simp: plain_def)
  show map: "map_of (plain (entries P T)) = m"
  proof
    fix k
    show "map_of (plain (entries P T)) k = m k"
    proof (cases "pvalid k")
      case True
      then show ?thesis using m [OF True] by (cases "m k") (simp_all add: e trie_map_def [symmetric])
    next
      case False
      then have "trie_map P T k = None" using trie_map_covers [OF w, of k] by (cases "trie_map P T k") auto
      moreover have "m k = None" using d [of k] False by auto
      ultimately show ?thesis by (simp add: e trie_map_def [symmetric])
    qed
  qed
  have "distinct (map fst (entries P T))" by (rule entries_distinct [OF w])
  then have "card (fst ` set (entries P T)) = length (entries P T)" using distinct_card [of "map fst (entries P T)"] by simp
  moreover have "dom (map_of (plain (entries P T))) = fst ` set (entries P T)" by (force simp: plain_def dom_map_of_conv_image_fst)
  ultimately show "length (entries P T) = card (dom m)" using map by simp
qed

theorem rest_facts:
  assumes run: "eph_run P F (AtomicTrie_empty P n, eph_threads kvs) order (t, ts)" and keys: "\<forall>x \<in> set kvs. pvalid (fst x)" and r: "all_returned ts"
    and m: "m = fold (\<lambda>j. ref_insert F (kvs ! j)) order Map.empty"
  shows "set order = {..<length kvs}" "distinct order" "dom m = fst ` set kvs" "map fst ts = kvs"
    "\<And>x. x < length order \<Longrightarrow> snd (ts ! (order ! x)) = E_Return (fst (kvs ! (order ! x)) \<notin> (\<lambda>y. fst (kvs ! y)) ` set (take x order))"
    "\<And>k. pvalid k \<Longrightarrow> et_get_value P (Suc (prefix_bits P div 4)) t root_addr k = Inr (m k)"
    "\<exists>es. map_of es = m \<and> sorted_wrt (prefix_less P) (map fst es) \<and> length es = card (fst ` set kvs) \<and> length es < 2 ^ 32 \<and>
      et_size P t = Inr (of_nat (length es)) \<and> deep_sizecheck P (Suc (prefix_bits P div 4)) t root_addr = Inr (of_nat (length es)) \<and>
      (\<forall>(fn :: 'p \<Rightarrow> 'v \<Rightarrow> 's \<Rightarrow> 's) s. apply_to_kvs P fn (Suc (prefix_bits P div 4)) t root_addr s = Inr (fold (\<lambda>(k, v). fn k v) es s)) \<and>
      (\<forall>(fn :: 'p \<Rightarrow> 's \<Rightarrow> 's) s. apply_to_keys P fn (prefix_bits P) (Suc (prefix_bits P div 4)) t root_addr s = Inr (fold fn (map fst es) s)) \<and>
      (\<forall>(get_fn :: 'p \<Rightarrow> 'v \<Rightarrow> 'o) out. length out = length es \<longrightarrow>
        accumulate_values_worker P get_fn (Suc (prefix_bits P div 4)) t root_addr out 0 = Inr (map (\<lambda>(k, v). get_fn k v) es))"
proof -
  obtain T :: "('p, 'v option, EmptyMetadata) TrieNode" where T: "rep P t root_addr T" "wf 0 T" "wfo 0 T" "tn_prefix_len T = 0"
    "\<forall>k. pvalid k \<longrightarrow> trie_map P T k = map_option Some (m k)" "length (entries P T) < 2 ^ 32"
    and t: "aok t" "values_ok P t" "sizes_ok P nib (t, [] :: ('p, 'b) eph_thread list)" "nulls_ok P t" "unhashed t" and lin: "linear_ok F Map.empty kvs order ts m"
    unfolding m by (rule run_tree [OF run keys r])
  have ret: "snd (ts ! j) \<in> range E_Return" if "j < length ts" for j using r that by (auto simp: all_returned_def)
  have len: "length ts = length kvs" using lin by (auto simp: linear_ok_def)
  have "effected (snd (ts ! j))" if "j < length ts" for j using ret [OF that] by auto
  moreover have "set order = {j. j < length ts \<and> effected (snd (ts ! j))}" using lin by (simp add: linear_ok_def)
  ultimately show set: "set order = {..<length kvs}" unfolding len by auto
  show "distinct order" "map fst ts = kvs" using lin by (auto simp: linear_ok_def)
  show dm: "dom m = fst ` set kvs" unfolding m dom_fold_ref set by (force simp: in_set_conv_nth)
  show "snd (ts ! (order ! x)) = E_Return (fst (kvs ! (order ! x)) \<notin> (\<lambda>y. fst (kvs ! y)) ` set (take x order))" if x: "x < length order" for x
  proof -
    have "order ! x < length ts" using set nth_mem [OF x] len by auto
    then obtain b where "snd (ts ! (order ! x)) = E_Return b" using ret by blast
    moreover have "added (snd (ts ! (order ! x))) \<longleftrightarrow> fst (kvs ! (order ! x)) \<notin> (\<lambda>y. fst (kvs ! y)) ` set (take x order)"
      using lin x by (simp add: linear_ok_def)
    ultimately show ?thesis by simp
  qed
  have fuel: "fuel_ok (Suc (prefix_bits P div 4)) T" using T(4) by simp
  show "et_get_value P (Suc (prefix_bits P div 4)) t root_addr k = Inr (m k)" if k: "pvalid k" for k
    using rep_get_value [OF k T(1,2) fuel] T(5) k by (cases "m k") auto
  have pv: "k \<in> dom m \<Longrightarrow> pvalid k" for k using dm keys by auto
  note es = plain_entries [OF T(2) T(5) [rule_format] pv]
  obtain r0 where root: "et_nodes t root_addr = Some r0" "apath r0 = []" using root_node [OF t(1)] .
  show "\<exists>es. map_of es = m \<and> sorted_wrt (prefix_less P) (map fst es) \<and> length es = card (fst ` set kvs) \<and> length es < 2 ^ 32 \<and>
      et_size P t = Inr (of_nat (length es)) \<and> deep_sizecheck P (Suc (prefix_bits P div 4)) t root_addr = Inr (of_nat (length es)) \<and>
      (\<forall>(fn :: 'p \<Rightarrow> 'v \<Rightarrow> 's \<Rightarrow> 's) s. apply_to_kvs P fn (Suc (prefix_bits P div 4)) t root_addr s = Inr (fold (\<lambda>(k, v). fn k v) es s)) \<and>
      (\<forall>(fn :: 'p \<Rightarrow> 's \<Rightarrow> 's) s. apply_to_keys P fn (prefix_bits P) (Suc (prefix_bits P div 4)) t root_addr s = Inr (fold fn (map fst es) s)) \<and>
      (\<forall>(get_fn :: 'p \<Rightarrow> 'v \<Rightarrow> 'o) out. length out = length es \<longrightarrow>
        accumulate_values_worker P get_fn (Suc (prefix_bits P div 4)) t root_addr out 0 = Inr (map (\<lambda>(k, v). get_fn k v) es))"
  proof (intro exI [of _ "plain (entries P T)"] conjI allI impI)
    have pl: "length (plain (entries P T)) = length (entries P T)" by (simp add: plain_def)
    show "length (plain (entries P T)) = card (fst ` set kvs)" "length (plain (entries P T)) < 2 ^ 32" using pl es(3) dm T(6) by simp_all
    show "et_size P t = Inr (of_nat (length (plain (entries P T))))"
      using rep_size [OF t(1,3,4) root(1) T(1)] root(1) pl by (simp add: et_size_def get_object_def)
    show "deep_sizecheck P (Suc (prefix_bits P div 4)) t root_addr = Inr (of_nat (length (plain (entries P T))))"
      using rep_sizecheck [OF t(1,3) T(1,2) fuel] pl by simp
    show "apply_to_kvs P fn (Suc (prefix_bits P div 4)) t root_addr s = Inr (fold (\<lambda>(k, v). fn k v) (plain (entries P T)) s)" for fn :: "'p \<Rightarrow> 'v \<Rightarrow> 's \<Rightarrow> 's" and s
      using rep_kvs [OF T(1,2) fuel, of fn s] by (simp add: plain_def fold_map comp_def case_prod_unfold)
    show "apply_to_keys P fn (prefix_bits P) (Suc (prefix_bits P div 4)) t root_addr s = Inr (fold fn (map fst (plain (entries P T))) s)" for fn :: "'p \<Rightarrow> 's \<Rightarrow> 's" and s
      using rep_keys [OF T(1,2) fuel, of fn s] by simp
    show "accumulate_values_worker P get_fn (Suc (prefix_bits P div 4)) t root_addr out 0 = Inr (map (\<lambda>(k, v). get_fn k v) (plain (entries P T)))"
      if "length out = length (plain (entries P T))" for get_fn :: "'p \<Rightarrow> 'v \<Rightarrow> 'o" and out
      using rep_accumulate [OF t(1,3) T(1,2) fuel, of 0 out get_fn] that pl by (simp add: overwrite_def plain_def case_prod_unfold)
  qed (use es in auto)
qed

end

section \<open>The hash depends on the contents only\<close>

lemma fold_order:
  assumes order: "distinct order" "set order = {..<length kvs}"
    and comm: "\<And>x y. x \<in> set kvs \<Longrightarrow> y \<in> set kvs \<Longrightarrow> f x \<circ> f y = f y \<circ> f x"
  shows "fold (\<lambda>j. f (kvs ! j)) order = fold f kvs"
proof -
  have "mset order = mset [0..<length kvs]" using order by (intro set_eq_iff_mset_eq_distinct [THEN iffD1]) (auto simp: atLeast0LessThan)
  then have "mset (map ((!) kvs) order) = mset (map ((!) kvs) [0..<length kvs])" by (simp only: mset_map)
  then have ms: "mset (map ((!) kvs) order) = mset kvs" by (simp add: map_nth)
  have "fold f (map ((!) kvs) order) = fold f kvs"
    by (rule fold_multiset_equiv) (use comm order(2) ms in \<open>auto simp: nth_mem\<close>)
  then show ?thesis by (simp add: fold_map comp_def)
qed

context trie_hash
begin

lemma unhashed_cached: "unhashed t \<Longrightarrow> hcached t"
  by (simp add: unhashed_def hash_cached_def)

text \<open>\<^verbatim>\<open>hash\<close> after a run that is over, whichever nodes its tasks hash first.\<close>

theorem run_hashes:
  assumes run: "eph_run P F (AtomicTrie_empty P n, eph_threads kvs) order (t, ts)" and keys: "\<forall>x \<in> set kvs. pvalid (fst x)" and r: "all_returned ts"
    and tasks: "set tasks \<subseteq> dom (et_nodes t)" and m: "m = fold (\<lambda>j. ref_insert F (kvs ! j)) order Map.empty"
  obtains T :: "('p, 'v option, EmptyMetadata) TrieNode" and t' where "et_hash P B E (Suc (prefix_bits P div 4)) tasks t = Inr (ehash T, t')"
    "rep P t' root_addr T" "wf 0 T" "wfo 0 T" "tn_prefix_len T = 0" "\<forall>k. pvalid k \<longrightarrow> trie_map P T k = map_option Some (m k)"
    "et_hashed t'" "hcached t'" "valid_at t' root_addr" "rep P t root_addr T"
proof -
  obtain T :: "('p, 'v option, EmptyMetadata) TrieNode" where T: "rep P t root_addr T" "wf 0 T" "wfo 0 T" "tn_prefix_len T = 0"
    "\<forall>k. pvalid k \<longrightarrow> trie_map P T k = map_option Some (m k)" "length (entries P T) < 2 ^ 32"
    and t: "aok t" "values_ok P t" "sizes_ok P nib (t, [] :: ('p, 'i) eph_thread list)" "nulls_ok P t" "unhashed t" and lin: "linear_ok F Map.empty kvs order ts m"
    unfolding m by (rule run_tree [OF run keys r])
  have fuel: "fuel_ok (Suc (prefix_bits P div 4)) T" using T(4) by simp
  have "\<exists>T :: ('p, 'v option, EmptyMetadata) TrieNode. rep P t a T \<and> wf 0 T \<and> fuel_ok (Suc (prefix_bits P div 4)) T" if a: "a \<in> set tasks" for a
  proof -
    obtain x where x: "et_nodes t a = Some x" using tasks a by auto
    obtain U :: "('p, 'v option, EmptyMetadata) TrieNode" where U: "rep P t a U" "tree_of (abs_heap P t) a U" using rep_exists [OF t(1,2) x] by blast
    then show ?thesis by (intro exI [of _ U]) (auto simp: tree_of_def)
  qed
  from et_hash_ok [OF T(1,2) fuel unhashed_cached [OF t(5)] this] obtain t' where t': "et_hash P B E (Suc (prefix_bits P div 4)) tasks t = Inr (ehash T, t')"
    "et_hashed t'" "hcached t'" "valid_at t' root_addr" "hash_step t (t'\<lparr>et_hashed := et_hashed t\<rparr>)" by blast
  have "rep P (t'\<lparr>et_hashed := et_hashed t\<rparr>) root_addr T" unfolding rep_hash_step [OF t'(5)] by (rule T(1))
  then have "rep P t' root_addr T" by (rule rep_struct [rotated 2]) (auto simp: same_data_def)
  then show ?thesis using that [OF t'(1) _ T(2-5) t'(2-4) T(1)] by blast
qed

theorem runs_hash_agree:
  assumes run: "eph_run P F (AtomicTrie_empty P n, eph_threads kvs) order (t, ts)" and keys: "\<forall>x \<in> set kvs. pvalid (fst x)" and r: "all_returned ts"
    and tasks: "set tasks \<subseteq> dom (et_nodes t)"
    and run': "eph_run P F (AtomicTrie_empty P n', eph_threads kvs') order' (t', ts')" and r': "all_returned ts'" and tasks': "set tasks' \<subseteq> dom (et_nodes t')"
    and same: "mset kvs' = mset kvs" and comm: "\<And>x y. x \<in> set kvs \<Longrightarrow> y \<in> set kvs \<Longrightarrow> ref_insert F x \<circ> ref_insert F y = ref_insert F y \<circ> ref_insert F x"
  shows "\<exists>h s s'. et_hash P B E (Suc (prefix_bits P div 4)) tasks t = Inr (h, s) \<and> et_hash P B E (Suc (prefix_bits P div 4)) tasks' t' = Inr (h, s')"
proof -
  have set': "set kvs' = set kvs" using same by (rule mset_eq_setD)
  then have keys': "\<forall>x \<in> set kvs'. pvalid (fst x)" using keys by simp
  let ?m = "fold (ref_insert F) kvs Map.empty"
  have m: "?m = fold (\<lambda>j. ref_insert F (kvs ! j)) order Map.empty"
    using fold_order [where f = "ref_insert F", OF rest_facts(2,1) [OF run keys r refl] comm] by simp
  have comm': "ref_insert F x \<circ> ref_insert F y = ref_insert F y \<circ> ref_insert F x" if "x \<in> set kvs'" "y \<in> set kvs'" for x y
    using comm that unfolding set' .
  have "fold (ref_insert F) kvs' = fold (ref_insert F) kvs" by (rule fold_multiset_equiv) (use comm' same in auto)
  then have m': "?m = fold (\<lambda>j. ref_insert F (kvs' ! j)) order' Map.empty"
    using fold_order [where f = "ref_insert F", OF rest_facts(2,1) [OF run' keys' r' refl] comm'] by simp
  obtain T s where T: "et_hash P B E (Suc (prefix_bits P div 4)) tasks t = Inr (ehash T, s)" "wf 0 T" "wfo 0 T" "tn_prefix_len T = 0"
    "\<forall>k. pvalid k \<longrightarrow> trie_map P T k = map_option Some (?m k)"
    using run_hashes [OF run keys r tasks m] by metis
  obtain U s' where U: "et_hash P B E (Suc (prefix_bits P div 4)) tasks' t' = Inr (ehash U, s')" "wf 0 U" "wfo 0 U" "tn_prefix_len U = 0"
    "\<forall>k. pvalid k \<longrightarrow> trie_map P U k = map_option Some (?m k)"
    using run_hashes [OF run' keys' r' tasks' m'] by metis
  have "trie_map P T k = trie_map P U k" for k
  proof (cases "pvalid k")
    case False
    then show ?thesis using trie_map_covers [OF T(2), of k] trie_map_covers [OF U(2), of k] by (cases "trie_map P T k"; cases "trie_map P U k") auto
  qed (use T(5) U(5) in simp)
  then have "strip T = strip U" using root_canonical [OF T(3) U(3) T(4) U(4)] by blast
  then have "ehash T = ehash U" using node_hash_strip by metis
  then show ?thesis using T(1) U(1) by metis
qed

end

end
