(* ===== verification/EphemeralProof.thy ===== *)
theory EphemeralProof
  imports EphemeralCanon
begin

text \<open>
  Proofs of the ephemeral trie: \<^verbatim>\<open>TrieProof\<close> (\<^verbatim>\<open>common/proof.h\<close>), \<^verbatim>\<open>make_proof\<close> and \<^verbatim>\<open>verify_proof\<close>.  A proof of a key in a hashed trie verifies
  against the root hash, and what verifies against the root hash as a value is in the trie, if no other string has the hash of one of its nodes.
\<close>

section \<open>Operations\<close>

record 'b ProofLayer =
  pl_len :: PrefixLenBits
  pl_bv :: 'b
  pl_child_data :: "byte list list"

record ('p, 'b) TrieProof =
  proved_prefix :: 'p
  proof_stack :: "'b ProofLayer list"

text \<open>Serialisation calls another writer of the library than the node headers, \<open>write_be16\<close>.\<close>

definition layer_serialize :: "(nat \<Rightarrow> byte list \<Rightarrow> byte list) \<Rightarrow> ('p, 'v, 'b) HashEnv \<Rightarrow> 'b ProofLayer \<Rightarrow> byte list \<Rightarrow> byte list res" where
  "layer_serialize write_be16 E layer output =
     rfold (\<lambda>child output.
       if length child > 2 ^ 16 - 1 then throw ''too long'' else Inr (write_be16 (length child) output @ child))
     (pl_child_data layer) (bv_write E (pl_bv layer) (write_be16 (pl_len layer) output))"

definition proof_serialize ::
    "(nat \<Rightarrow> byte list \<Rightarrow> byte list) \<Rightarrow> 'p TriePrefix \<Rightarrow> ('p, 'v, 'b) HashEnv \<Rightarrow> ('p, 'b) TrieProof \<Rightarrow> byte list res" where
  "proof_serialize write_be16 P E proof =
     rfold (layer_serialize write_be16 E) (proof_stack proof) (prefix_write E (proved_prefix proof) [] (MAX_KEY_LEN_BITS P))"

text \<open>A fresh metadata object; its hash is not read before it is set.\<close>

definition em_new :: EphemeralTrieMetadata where
  "em_new = \<lparr> em_hash_valid = False, em_hash = [] \<rparr>"

text \<open>A layer for an inner node: the bits of all its children, and the metadata of the children but the one at \<open>skip\<close>.\<close>

definition layer_children ::
    "'b BitVector_ops \<Rightarrow> ('p, 'v) AtomicTrie \<Rightarrow> 'p AtomicTrieNode \<Rightarrow> nat option \<Rightarrow> ('b \<times> byte list list) res" where
  "layer_children B t n skip =
     rfold (\<lambda>bb (bits, child_data).
       if active n bb then
         if skip = Some bb then Inr (bv_add B bits bb, child_data)
         else rbind (get_object t (child_addr n bb)) (\<lambda>c. rbind (append_metadata c [] em_new) (\<lambda>(d, temp). Inr (bv_add B bits bb, child_data @ [d])))
       else Inr (bits, child_data)) [0..<16] (bv_clear B, [])"

fun make_proof ::
    "'p TriePrefix \<Rightarrow> 'b BitVector_ops \<Rightarrow> ('p, 'v, 'b) HashEnv \<Rightarrow> nat \<Rightarrow> ('p, 'v) AtomicTrie \<Rightarrow> nat \<Rightarrow> 'p \<Rightarrow> PrefixLenBits \<Rightarrow> ('p, 'b) TrieProof res" where
  "make_proof P B E 0 t a query query_len = throw ''fuel''"
| "make_proof P B E (Suc fuel) t a query query_len =
     rbind (get_object t a) (\<lambda>n.
       let match_len = at_match_len P n query; len = at_prefix_len n in
       rbind (if at_is_leaf P n then Inr UINT32_MAX
              else rbind (get_branch_bits P query len) (\<lambda>bb_self. Inr (get_ptr (at_children n bb_self)))) (\<lambda>ptr.
       if match_len < len \<or> match_len = len \<and> len \<ge> min query_len (MAX_KEY_LEN_BITS P) \<or> ptr = UINT32_MAX then
         if at_is_leaf P n then
           rbind (et_value t (at_value_pointer n)) (\<lambda>value.
             Inr \<lparr> proved_prefix = query, proof_stack = [\<lparr> pl_len = len, pl_bv = bv_clear B, pl_child_data = [copy_data E value []] \<rparr>] \<rparr>)
         else rbind (layer_children B t n None) (\<lambda>(bits, child_data).
           Inr \<lparr> proved_prefix = query, proof_stack = [\<lparr> pl_len = len, pl_bv = bits, pl_child_data = child_data \<rparr>] \<rparr>)
       else if at_is_leaf P n then throw ''absurd''
       else rbind (get_branch_bits P query len) (\<lambda>bb_self.
         rbind (make_proof P B E fuel t (unat ptr) query query_len) (\<lambda>p.
         rbind (layer_children B t n (Some bb_self)) (\<lambda>(bits, child_data).
           Inr (p\<lparr>proof_stack := proof_stack p @ [\<lparr> pl_len = len, pl_bv = bits, pl_child_data = child_data \<rparr>]\<rparr>))))))"

text \<open>
  \<^verbatim>\<open>verify_proof\<close>.  \<open>None\<close> is \<^verbatim>\<open>return false\<close> from inside the loops; \<open>carried\<close> is \<^verbatim>\<open>carried_meta\<close> with \<^verbatim>\<open>carried_len\<close>.
  \<open>value_from_bytes\<close> is the parser of the value type; the default metadata take nothing from the value.
\<close>

fun verify_children ::
    "'b BitVector_ops \<Rightarrow> nat \<Rightarrow> EphemeralTrieMetadata option \<Rightarrow> byte list list \<Rightarrow> nat \<Rightarrow> 'b \<Rightarrow> byte list \<Rightarrow> EphemeralTrieMetadata \<Rightarrow> nat \<Rightarrow> bool \<Rightarrow>
     (byte list \<times> EphemeralTrieMetadata \<times> bool) option res" where
  "verify_children B bb_self carried child_data fuel bits digest_buffer acc idx used_carried =
     (if bv_size B bits = 0 then Inr (Some (digest_buffer, acc, used_carried))
      else case fuel of 0 \<Rightarrow> throw ''fuel'' | Suc fuel \<Rightarrow>
        let (bb, bits') = bv_pop B bits in
        if bb = bb_self then
          (case carried of
             None \<Rightarrow> Inr None
           | Some m \<Rightarrow> rbind (em_add acc m) (\<lambda>acc'. rbind (em_write_to m digest_buffer) (\<lambda>d.
               verify_children B bb_self carried child_data fuel bits' d acc' idx True)))
        else if length child_data \<le> idx then Inr None
        else (case em_try_parse (child_data ! idx) em_new of
           None \<Rightarrow> Inr None
         | Some new_meta \<Rightarrow> rbind (em_add acc new_meta) (\<lambda>acc'. rbind (em_write_to new_meta digest_buffer) (\<lambda>d.
             verify_children B bb_self carried child_data fuel bits' d acc' (Suc idx) used_carried))))"

type_synonym carried = "(EphemeralTrieMetadata \<times> PrefixLenBits) option"

definition verify_value ::
    "('p, 'v, 'b) HashEnv \<Rightarrow> 'b BitVector_ops \<Rightarrow> (byte list \<Rightarrow> 'v res) \<Rightarrow> 'p \<Rightarrow> 'b ProofLayer \<Rightarrow> carried \<Rightarrow> carried option res" where
  "verify_value E B value_from_bytes proved layer carried =
     (if carried \<noteq> None then Inr None
      else let digest_buffer = write_node_header E [] proved (pl_len layer) in
        if length (pl_child_data layer) \<noteq> 1 then Inr None
        else if bv_size B (pl_bv layer) \<noteq> 0 then Inr None
        else rbind (value_from_bytes (pl_child_data layer ! 0)) (\<lambda>v.
          rbind (snap_generichash E (digest_buffer @ pl_child_data layer ! 0)) (\<lambda>h.
            Inr (Some (Some (em_new\<lparr>em_hash := h, em_hash_valid := True\<rparr>, pl_len layer))))))"

definition verify_inner ::
    "'p TriePrefix \<Rightarrow> 'b BitVector_ops \<Rightarrow> ('p, 'v, 'b) HashEnv \<Rightarrow> 'p \<Rightarrow> 'b ProofLayer \<Rightarrow> carried \<Rightarrow> carried option res" where
  "verify_inner P B E proved layer carried =
     (if (case carried of None \<Rightarrow> False | Some (m, carried_len) \<Rightarrow> carried_len \<le> pl_len layer) then Inr None
      else rbind (get_branch_bits P proved (pl_len layer)) (\<lambda>bb_self.
        let digest_buffer = bv_write E (pl_bv layer) (write_node_header E [] proved (pl_len layer)) in
        rbind (verify_children B bb_self (map_option fst carried) (pl_child_data layer) 16 (pl_bv layer) digest_buffer em_new 0 False) (\<lambda>r.
        case r of
          None \<Rightarrow> Inr None
        | Some (digest_buffer, acc, used_carried) \<Rightarrow>
            if carried \<noteq> None \<and> \<not> used_carried then Inr None
            else rbind (snap_generichash E digest_buffer) (\<lambda>h. Inr (Some (Some (acc\<lparr>em_hash := h, em_hash_valid := True\<rparr>, pl_len layer)))))))"

definition verify_layer ::
    "'p TriePrefix \<Rightarrow> 'b BitVector_ops \<Rightarrow> ('p, 'v, 'b) HashEnv \<Rightarrow> (byte list \<Rightarrow> 'v res) \<Rightarrow> 'p \<Rightarrow> 'b ProofLayer \<Rightarrow> carried \<Rightarrow> carried option res" where
  "verify_layer P B E value_from_bytes proved layer carried =
     (if pl_len layer = MAX_KEY_LEN_BITS P then verify_value E B value_from_bytes proved layer carried else verify_inner P B E proved layer carried)"

fun verify_layers ::
    "'p TriePrefix \<Rightarrow> 'b BitVector_ops \<Rightarrow> ('p, 'v, 'b) HashEnv \<Rightarrow> (byte list \<Rightarrow> 'v res) \<Rightarrow> 'p \<Rightarrow> 'b ProofLayer list \<Rightarrow> carried \<Rightarrow> carried option res" where
  "verify_layers P B E value_from_bytes proved [] carried = Inr (Some carried)"
| "verify_layers P B E value_from_bytes proved (layer # layers) carried =
     rbind (verify_layer P B E value_from_bytes proved layer carried) (\<lambda>r.
       case r of None \<Rightarrow> Inr None | Some carried' \<Rightarrow> verify_layers P B E value_from_bytes proved layers carried')"

definition verify_proof ::
    "'p TriePrefix \<Rightarrow> 'b BitVector_ops \<Rightarrow> ('p, 'v, 'b) HashEnv \<Rightarrow> (byte list \<Rightarrow> 'v res) \<Rightarrow> ('p, 'b) TrieProof \<Rightarrow> Hash \<Rightarrow> bool res" where
  "verify_proof P B E value_from_bytes proof root_hash =
     rbind (verify_layers P B E value_from_bytes (proved_prefix proof) (proof_stack proof) None) (\<lambda>r.
       Inr (case r of Some (Some (m, l)) \<Rightarrow> em_hash m = root_hash | _ \<Rightarrow> False))"

declare verify_children.simps [simp del] make_proof.simps [simp del]

section \<open>The encodings\<close>

text \<open>
  What proofs need of the encodings: a header shows the length and the digits of the prefix up to that length and nothing else, bit vectors and hashes
  have a fixed size, and values are appended.
\<close>

fun subtrees :: "('p, 'v, 'm) TrieNode \<Rightarrow> ('p, 'v, 'm) TrieNode set" where
  "subtrees (TrieNode ch p l hv m h) = insert (TrieNode ch p l hv m h) (\<Union>(bb, c) \<in> set (cm_list ch). subtrees c)"

text \<open>What is hashed for a node, and that no other string has the hash of a node of the trie.\<close>

fun node_digest :: "'b BitVector_ops \<Rightarrow> ('p, 'v, 'b) HashEnv \<Rightarrow> (byte list \<Rightarrow> Hash) \<Rightarrow> ('p, 'v option, EmptyMetadata) TrieNode \<Rightarrow> byte list" where
  "node_digest B E H (TrieNode ch p l hv m h) = write_node_header E [] p l @
     (case ch of
        Value v \<Rightarrow> copy_data E (the v) []
      | Children cs \<Rightarrow> bv_write E (bv_of_keys B (map fst cs)) [] @ concat (map (\<lambda>(bb, c). node_hash B (opt_env E) H c) cs))"

definition no_second_preimage ::
    "'p TriePrefix \<Rightarrow> 'b BitVector_ops \<Rightarrow> ('p, 'v, 'b) HashEnv \<Rightarrow> (byte list \<Rightarrow> Hash) \<Rightarrow> ('p, 'v) AtomicTrie \<Rightarrow> bool" where
  "no_second_preimage P B E H t \<longleftrightarrow>
     (\<forall>T. rep P t root_addr T \<longrightarrow> (\<forall>U \<in> subtrees T. \<forall>d. H d = H (node_digest B E H U) \<longrightarrow> d = node_digest B E H U))"

locale proof_env = trie_hash P pvalid nib B bvset E H
  for P :: "'p TriePrefix" and pvalid and nib and B :: "'b BitVector_ops" and bvset
    and E :: "('p, 'v, 'b) HashEnv" and H +
  assumes header_prefix: "pvalid p \<Longrightarrow> pvalid q \<Longrightarrow> 4 * i \<le> prefix_bits P \<Longrightarrow> take i (nib p) = take i (nib q) \<Longrightarrow>
      write_node_header E [] p (4 * i) = write_node_header E [] q (4 * i)"
    and header_split: "pvalid p \<Longrightarrow> pvalid q \<Longrightarrow> 4 * i \<le> prefix_bits P \<Longrightarrow> l \<le> prefix_bits P \<Longrightarrow>
      write_node_header E [] p (4 * i) @ x = write_node_header E [] q l @ y \<Longrightarrow> l = 4 * i \<and> take i (nib p) = take i (nib q) \<and> x = y"
    and bv_append: "bv_write E s d = d @ bv_write E s []"
    and bv_split: "bv_write E s [] @ x = bv_write E u [] @ y \<Longrightarrow> bvset s = bvset u \<and> x = y"
    and copy_append: "copy_data E v d = d @ copy_data E v []"
    and hash_length: "length (H d) = 32"
begin

abbreviation digest :: "('p, 'v option, EmptyMetadata) TrieNode \<Rightarrow> byte list" where
  "digest \<equiv> node_digest B E H"

lemma ehash_digest: "ehash T = H (digest T)"
proof (cases T)
  case (TrieNode ch p l hv m h)
  have "copy_data (opt_env E) v d = d @ copy_data E (the v) []" "apply_to_value (opt_env E) v = v" "bv_write (opt_env E) s d = d @ bv_write E s []" for v d s
    using copy_append [of "the v" d] bv_append [of s d] by (simp_all add: opt_env_def)
  then show ?thesis unfolding TrieNode by (cases ch) (simp_all add: opt_env_header)
qed

lemma ehash_Value: "ehash (TrieNode (Value v) p l hv m h) = H (write_node_header E [] p l @ copy_data E (the v) [])"
  by (subst ehash_digest) simp

lemma ehash_Children: "ehash (TrieNode (Children cs) p l hv m h) =
    H (write_node_header E [] p l @ bv_write E (bv_of_keys B (map fst cs)) [] @ concat (map (\<lambda>(bb, c). ehash c) cs))"
  by (subst ehash_digest) simp

lemma ehash_length: "length (ehash T) = 32"
  by (simp add: ehash_digest hash_length)

section \<open>Proofs verify\<close>

abbreviation marked :: "Hash \<Rightarrow> EphemeralTrieMetadata" where
  "marked h \<equiv> \<lparr> em_hash_valid = True, em_hash = h \<rparr>"

lemma bv_size_0: "bv_size B s = 0 \<longleftrightarrow> bvset s = {}"
  using bv_size [of s] bv_range [of s] finite_subset [of "bvset s" "{..<16}"] by auto

lemma bv_pop_least:
  assumes "bvset s = insert b X" "\<And>y. y \<in> X \<Longrightarrow> b < y"
  shows "bv_pop B s = (b, bv_erase B s b)" "bvset (bv_erase B s b) = X"
proof -
  have fin: "finite (insert b X)" using assms(1) bv_range [of s] finite_subset [of "bvset s" "{..<16}"] by simp
  have "Min (insert b X) = b" by (rule Min_eqI) (use fin assms(2) in \<open>auto intro: less_imp_le\<close>)
  then show "bv_pop B s = (b, bv_erase B s b)" using bv_pop [of s] assms(1) by simp
  have "b < 16" using assms(1) bv_range [of s] by auto
  then show "bvset (bv_erase B s b) = X" using bv_erase [of b s] assms by auto
qed

lemma layer_children_ok:
  assumes "hcached t" "\<forall>(bb, c) \<in> set cs. rep P t (child_addr n bb) c" "\<forall>bb \<in> fst ` set cs. valid_at t (child_addr n bb)"
    "map fst cs = filter (active n) [0..<16]"
  shows "layer_children B t n skip = Inr (bv_of_keys B (map fst cs), map (\<lambda>(bb, c). ehash c) (filter (\<lambda>(bb, c). skip \<noteq> Some bb) cs))"
proof -
  let ?f = "\<lambda>bb bits child_data. if skip = Some bb then Inr (bv_add B bits bb, child_data)
    else rbind (get_object t (child_addr n bb)) (\<lambda>c. rbind (append_metadata c [] em_new) (\<lambda>(d, temp). Inr (bv_add B bits bb, child_data @ [d])))"
  have "rfold (\<lambda>bb (bits, child_data). ?f bb bits child_data) (map fst xs) (bits, data) =
      Inr (fold (\<lambda>bb bits. bv_add B bits bb) (map fst xs) bits, data @ map (\<lambda>(bb, c). ehash c) (filter (\<lambda>(bb, c). skip \<noteq> Some bb) xs))"
    if "set xs \<subseteq> set cs" for xs bits data
    using that
  proof (induction xs arbitrary: bits data)
    case (Cons x xs)
    obtain bb c where x: "x = (bb, c)" "(bb, c) \<in> set cs" using Cons.prems by (cases x) auto
    obtain m where m: "et_nodes t (child_addr n bb) = Some m" "hash_valid m" using assms(3) x(2) by (force simp: valid_at_def)
    have "em_hash (at_metadata m) = ehash c" using cached_hash [OF assms(1) m] assms(2) x(2) by auto
    then show ?case
      using Cons.IH Cons.prems m x(1) by (auto simp: get_object_def append_metadata_def em_write_to_def em_add_def em_new_def)
  qed simp
  from this [of cs] show ?thesis unfolding layer_children_def rfold_split_skip assms(4) [symmetric] by (simp add: bv_of_keys_def)
qed

lemma verify_children_ok:
  assumes "sorted_keys cs" "bvset bits = fst ` set cs" "length cs \<le> fuel" "\<not> em_hash_valid acc" "idx \<le> length data"
    "drop idx data = map (\<lambda>(bb, c). ehash c) (filter (\<lambda>(bb, c). bb_self \<noteq> bb) cs)" "\<And>c. (bb_self, c) \<in> set cs \<Longrightarrow> h = ehash c"
  shows "verify_children B bb_self (Some (marked h)) data fuel bits d acc idx used =
    Inr (Some (d @ concat (map (\<lambda>(bb, c). ehash c) cs), acc, used \<or> bb_self \<in> fst ` set cs))"
  using assms
proof (induction cs arbitrary: fuel bits d idx used)
  case Nil
  then show ?case by (simp add: verify_children.simps bv_size_0)
next
  case (Cons x cs)
  obtain bb c where x: "x = (bb, c)" by (cases x)
  obtain f where f: "fuel = Suc f" using Cons.prems(3) by (cases fuel) auto
  have least: "\<And>y. y \<in> fst ` set cs \<Longrightarrow> bb < y" using Cons.prems(1) x by auto
  note pop = bv_pop_least [of bits bb "fst ` set cs", OF _ least]
  have bs: "bvset bits = insert bb (fst ` set cs)" using Cons.prems(2) x by simp
  have ne: "bv_size B bits \<noteq> 0" using bs bv_size_0 by simp
  show ?case
  proof (cases "bb = bb_self")
    case True
    have "verify_children B bb_self (Some (marked h)) data f (bv_erase B bits bb) (d @ h) acc idx True =
        Inr (Some ((d @ h) @ concat (map (\<lambda>(bb, c). ehash c) cs), acc, True \<or> bb_self \<in> fst ` set cs))"
      by (rule Cons.IH) (use Cons.prems x f True pop(2) [OF bs] in auto)
    moreover have "h = ehash c" using Cons.prems(7) [of c] x True by simp
    ultimately show ?thesis
      unfolding f by (subst verify_children.simps) (use True pop(1) [OF bs] ne x Cons.prems(4) in \<open>simp add: em_add_def em_write_to_def\<close>)
  next
    case False
    have idx: "idx < length data" "data ! idx = ehash c" "drop (Suc idx) data = map (\<lambda>(bb, c). ehash c) (filter (\<lambda>(bb, c). bb_self \<noteq> bb) cs)"
      using Cons.prems(6) False x by (auto simp: drop_Suc nth_via_drop drop_tl dest: arg_cong [of _ _ length] intro: le_less_trans)
    have "verify_children B bb_self (Some (marked h)) data f (bv_erase B bits bb) (d @ ehash c) acc (Suc idx) used =
        Inr (Some ((d @ ehash c) @ concat (map (\<lambda>(bb, c). ehash c) cs), acc, used \<or> bb_self \<in> fst ` set cs))"
      by (rule Cons.IH) (use Cons.prems x f idx pop(2) [OF bs] in auto)
    then show ?thesis
      unfolding f by (subst verify_children.simps)
        (use False pop(1) [OF bs] ne x idx Cons.prems(4) ehash_length [of c] in \<open>simp add: em_add_def em_write_to_def em_try_parse_def em_new_def\<close>)
  qed
qed

lemma verify_append: "verify_layers P B E fb q (xs @ ys) c =
    rbind (verify_layers P B E fb q xs c) (\<lambda>r. case r of None \<Rightarrow> Inr None | Some c' \<Rightarrow> verify_layers P B E fb q ys c')"
proof (induction xs arbitrary: c)
  case (Cons x xs)
  then show ?case by (cases "verify_layer P B E fb q x c") (auto split: option.splits)
qed simp

definition good_proof :: "(byte list \<Rightarrow> 'v res) \<Rightarrow> 'p \<Rightarrow> 'v \<Rightarrow> ('p, 'v option, EmptyMetadata) TrieNode \<Rightarrow> ('p, 'b) TrieProof \<Rightarrow> bool" where
  "good_proof fb q v T pr \<longleftrightarrow> proved_prefix pr = q \<and> (\<exists>x xs. proof_stack pr = x # xs \<and> pl_len x = prefix_bits P \<and> pl_child_data x = [copy_data E v []]) \<and>
     verify_layers P B E fb q (proof_stack pr) None = Inr (Some (Some (marked (ehash T), tn_prefix_len T)))"

lemma verify_inner_ok:
  assumes w: "wf 0 (TrieNode (Children cs) p l hv m h)" and q: "pvalid q" "covers nib (TrieNode (Children cs) p l hv m h) q"
    and c: "map_of cs (nib q ! (l div 4)) = Some c"
    and x: "x = \<lparr> pl_len = l, pl_bv = bv_of_keys B (map fst cs), pl_child_data = map (\<lambda>(bb, c). ehash c) (filter (\<lambda>(bb, c). Some (nib q ! (l div 4)) \<noteq> Some bb) cs) \<rparr>"
  shows "verify_layer P B E fb q x (Some (marked (ehash c), tn_prefix_len c)) =
    Inr (Some (Some (marked (ehash (TrieNode (Children cs) p l hv m h)), l)))"
proof -
  let ?T = "TrieNode (Children cs) p l hv m h" and ?d = "nib q ! (l div 4)"
  from w obtain k where k: "l = 4 * k" "pvalid p" "4 * k < prefix_bits P" "branch 0 (take k (nib p)) cs" "length (take k (nib p)) = k"
    by (rule wf_ChildrenE)
  have cs: "sorted_keys cs" "\<forall>bb \<in> set (map fst cs). bb < 16"
  proof -
    show "sorted_keys cs" using k(4) by (simp add: branch_ok_def)
    have "bb < 16" if y: "(bb, y) \<in> set cs" for bb y
    proof -
      have y': "wf 0 y" "take (Suc k) (nib (tn_prefix y)) = take k (nib p) @ [bb]" using k(4,5) y by (auto simp: branch_ok_def)
      then have "bb \<in> set (take (Suc k) (nib (tn_prefix y)))" by simp
      then show ?thesis using nib_bound [OF wf_prefix [OF y'(1)]] by (meson in_set_takeD)
    qed
    then show "\<forall>bb \<in> set (map fst cs). bb < 16" by auto
  qed
  have "distinct (map fst cs)" by (rule sorted_keys_distinct [OF cs(1)])
  then have "length cs = card (fst ` set cs)" using distinct_card [of "map fst cs"] by simp
  also have "\<dots> \<le> card {..<16 :: nat}" using cs(2) by (intro card_mono) auto
  finally have len: "length cs \<le> 16" by simp
  have bits: "bvset (bv_of_keys B (map fst cs)) = fst ` set cs" using bv_of_keys_set [OF cs(2)] by simp
  have mem: "(?d, c) \<in> set cs" by (rule map_of_SomeD [OF c])
  have uniq: "y = c" if "(?d, y) \<in> set cs" for y using map_of_sorted_iff [OF cs(1)] that c by (metis option.inject)
  have deeper: "\<not> tn_prefix_len c \<le> l" using w mem by auto
  have bb: "get_branch_bits P q l = Inr ?d" using branch_bits_at [OF q(1) k(3)] k(1) by simp
  have hd: "write_node_header E [] q l = write_node_header E [] p l"
    unfolding k(1) by (rule header_prefix [OF q(1) k(2)]) (use k q(2) in \<open>auto simp: covers_def\<close>)
  let ?b = "bv_write E (bv_of_keys B (map fst cs)) (write_node_header E [] p l)"
  have vc: "verify_children B ?d (Some (marked (ehash c))) (pl_child_data x) 16 (pl_bv x) ?b em_new 0 False =
      Inr (Some (?b @ concat (map (\<lambda>(bb, c). ehash c) cs), em_new, False \<or> ?d \<in> fst ` set cs))"
    unfolding x by (rule verify_children_ok) (use cs bits len uniq in \<open>auto simp: em_new_def\<close>)
  have "H (?b @ concat (map (\<lambda>(bb, c). ehash c) cs)) = ehash ?T"
    using bv_append [of "bv_of_keys B (map fst cs)" "write_node_header E [] p l"] by (simp add: ehash_Children del: node_hash.simps)
  moreover have "?d \<in> fst ` set cs" using mem by force
  ultimately show ?thesis
    using vc deeper bb hd k(1,3) x by (simp add: verify_layer_def verify_inner_def em_new_def)
qed

theorem make_proof_ok:
  assumes t: "hcached t" and q: "pvalid q" and fb: "\<exists>u. fb (copy_data E v []) = Inr u"
  shows "rep P t a T \<Longrightarrow> wf 0 T \<Longrightarrow> fuel_ok fuel T \<Longrightarrow> valid_at t a \<Longrightarrow> trie_map P T q = Some (Some v) \<Longrightarrow>
    \<exists>pr. make_proof P B E fuel t a q (prefix_bits P) = Inr pr \<and> good_proof fb q v T pr"
proof (induction T arbitrary: a fuel rule: node_induct)
  case (Value w p l hv m h)
  obtain f where f: "fuel = Suc f" using fuel_pos [OF Value.prems(3,2)] by blast
  have l: "l = prefix_bits P" by (rule rep_leaf [OF Value.prems(1)])
  have w: "q = p" "w = Some v" using Value.prems(5) by (auto simp: l trie_map_Value split: if_splits)
  obtain n where n: "et_nodes t a = Some n" "at_prefix_len n = l" "at_is_leaf P n" "et_values t (unat (at_value_pointer n)) = Some v"
    using Value.prems(1) w(2) by (auto simp: rep_Value)
  let ?x = "\<lparr> pl_len = l, pl_bv = bv_clear B, pl_child_data = [copy_data E v []] \<rparr>"
  have "bv_size B (bv_clear B) = 0" by (simp add: bv_size_0 bv_clear)
  then have "verify_layers P B E fb q [?x] None = Inr (Some (Some (marked (ehash (TrieNode (Value w) p l hv m h)), l)))"
    using fb w by (auto simp: verify_layer_def verify_value_def l ehash_Value em_new_def simp del: node_hash.simps)
  then show ?case using n l by (simp add: f make_proof.simps get_object_def et_value_def Let_def good_proof_def)
next
  case (Children cs p l hv m h)
  let ?T = "TrieNode (Children cs) p l hv m h" and ?d = "nib q ! (l div 4)"
  obtain f where f: "fuel = Suc f" using fuel_pos [OF Children.prems(3,2)] by blast
  note kid = fuel_child [OF Children.prems(2) Children.prems(3) [unfolded f]]
  obtain n where n: "et_nodes t a = Some n" "at_prefix n = p" "at_prefix_len n = l" "\<not> at_is_leaf P n" "map fst cs = filter (active n) [0..<16]"
    "\<forall>(bb, c) \<in> set cs. rep P t (child_addr n bb) c"
    using Children.prems(1) unfolding rep_Children by blast
  from Children.prems(2) obtain k where k: "l = 4 * k" "4 * k < prefix_bits P" "length (take k (nib p)) = k" by (rule wf_ChildrenE)
  have cov: "covers nib ?T q" using trie_map_covers [OF Children.prems(2,5)] by simp
  have match: "at_match_len P n q = l" using match_eq_iff [OF Children.prems(2) q] cov n(2,3) by (simp add: at_match_len_def)
  have bb: "get_branch_bits P q l = Inr ?d" using branch_bits_at [OF q k(2)] k(1) by simp
  obtain c where c: "map_of cs ?d = Some c" "trie_map P c q = Some (Some v)"
    using trie_map_Children [OF Children.prems(2) q] Children.prems(5) k by (auto split: option.splits)
  note mem = map_of_SomeD [OF c(1)]
  have act: "active n ?d" "?d < 16" using rep_child(2) [OF n(5) mem] by auto
  have kids: "valid_at t (child_addr n bb)" if "bb < 16" "active n bb" for bb
    using t n(1,4) Children.prems(4) that by (auto simp: hash_cached_def valid_at_def)
  have all: "\<forall>bb \<in> fst ` set cs. valid_at t (child_addr n bb)" using kids rep_child(2) [OF n(5)] by auto
  have rc: "rep P t (child_addr n ?d) c" using n(6) mem by auto
  obtain pr where pr: "make_proof P B E f t (child_addr n ?d) q (prefix_bits P) = Inr pr" "good_proof fb q v c pr"
    using Children.IH [OF mem rc kid(2) [OF mem] kid(1) [OF mem] kids [OF act(2,1)] c(2)] by blast
  let ?x = "\<lparr> pl_len = l, pl_bv = bv_of_keys B (map fst cs), pl_child_data = map (\<lambda>(bb, c). ehash c) (filter (\<lambda>(bb, c). Some ?d \<noteq> Some bb) cs) \<rparr>"
  have lc: "layer_children B t n (Some ?d) = Inr (pl_bv ?x, pl_child_data ?x)" using layer_children_ok [OF t n(6) all n(5)] by simp
  have "make_proof P B E fuel t a q (prefix_bits P) = Inr (pr\<lparr>proof_stack := proof_stack pr @ [?x]\<rparr>)"
    using n(1,3,4) match bb act k(1,2) pr(1) lc by (simp add: f make_proof.simps get_object_def Let_def)
  moreover have "good_proof fb q v ?T (pr\<lparr>proof_stack := proof_stack pr @ [?x]\<rparr>)"
    using pr(2) verify_inner_ok [OF Children.prems(2) q cov c(1) refl, of fb] by (auto simp: good_proof_def verify_append)
  ultimately show ?case by blast
qed

section \<open>What verifies is in the trie\<close>

text \<open>The children loop appends one hash for each bit, that of the carried node at its own bits.\<close>

lemma verify_children_sound:
  assumes "verify_children B bb_self carried data fuel bits d acc idx used = Inr (Some (d', acc', used'))"
    and "\<And>m. carried = Some m \<Longrightarrow> length (em_hash m) = 32"
  shows "\<exists>hs. d' = d @ concat (map snd hs) \<and> sorted_keys hs \<and> fst ` set hs = bvset bits \<and> (\<forall>x \<in> set hs. length (snd x) = 32) \<and>
    (\<forall>x \<in> set hs. fst x = bb_self \<longrightarrow> (\<exists>m. carried = Some m \<and> snd x = em_hash m)) \<and> used' = (used \<or> bb_self \<in> bvset bits)"
  using assms
proof (induction fuel arbitrary: bits d acc idx used)
  case 0
  then show ?case by (subst (asm) verify_children.simps) (auto simp: bv_size_0 split: if_splits intro: exI [of _ "[]"])
next
  case (Suc fuel)
  show ?case
  proof (cases "bvset bits = {}")
    case True
    then have "bv_size B bits = 0" using bv_size_0 by blast
    then show ?thesis using Suc.prems(1) True by (subst (asm) verify_children.simps) (auto intro: exI [of _ "[]"])
  next
    case False
    let ?b = "Min (bvset bits)"
    have fin: "finite (bvset bits)" using bv_range [of bits] finite_subset by blast
    have bs: "bvset bits = insert ?b (bvset bits - {?b})" using Min_in [OF fin False] by auto
    have least: "\<And>y. y \<in> bvset bits - {?b} \<Longrightarrow> ?b < y" using Min_le [OF fin] by (metis Diff_iff insertI1 le_neq_implies_less)
    note pop = bv_pop_least [OF bs least]
    have ne: "bv_size B bits \<noteq> 0" using False bv_size_0 by blast
    have step: "\<exists>h used1 acc1 idx1. verify_children B bb_self carried data fuel (bv_erase B bits ?b) (d @ h) acc1 idx1 used1 = Inr (Some (d', acc', used')) \<and>
        length h = 32 \<and> (?b = bb_self \<longrightarrow> (\<exists>m. carried = Some m \<and> h = em_hash m)) \<and> used1 = (used \<or> ?b = bb_self)"
    proof (cases "?b = bb_self")
      case True
      then obtain m where m: "carried = Some m" "em_hash_valid m"
          "verify_children B bb_self carried data fuel (bv_erase B bits ?b) (d @ em_hash m) acc idx True = Inr (Some (d', acc', used'))"
        using Suc.prems(1) ne pop(1)
        by (subst (asm) verify_children.simps) (auto simp: em_add_def em_write_to_def split: option.splits if_splits)
      then show ?thesis using True Suc.prems(2) by blast
    next
      case other: False
      then obtain m where m: "em_try_parse (data ! idx) em_new = Some m"
          "verify_children B bb_self carried data fuel (bv_erase B bits ?b) (d @ em_hash m) acc (Suc idx) used = Inr (Some (d', acc', used'))"
        using Suc.prems(1) ne pop(1)
        by (subst (asm) verify_children.simps) (auto simp: em_add_def em_write_to_def em_try_parse_def split: option.splits if_splits)
      moreover have "length (em_hash m) = 32" using m(1) by (auto simp: em_try_parse_def split: if_splits)
      ultimately show ?thesis using other by blast
    qed
    then obtain h used1 acc1 idx1 where h: "verify_children B bb_self carried data fuel (bv_erase B bits ?b) (d @ h) acc1 idx1 used1 = Inr (Some (d', acc', used'))"
        "length h = 32" "?b = bb_self \<Longrightarrow> \<exists>m. carried = Some m \<and> h = em_hash m" "used1 = (used \<or> ?b = bb_self)" by blast
    obtain hs where hs: "d' = (d @ h) @ concat (map snd hs)" "sorted_keys hs" "fst ` set hs = bvset bits - {?b}" "\<forall>x \<in> set hs. length (snd x) = 32"
        "\<forall>x \<in> set hs. fst x = bb_self \<longrightarrow> (\<exists>m. carried = Some m \<and> snd x = em_hash m)" "used' = (used1 \<or> bb_self \<in> bvset bits - {?b})"
      using Suc.IH [OF h(1) Suc.prems(2)] pop(2) by auto
    have "sorted_keys ((?b, h) # hs)" using hs(2,3) least by auto
    moreover have "fst ` set ((?b, h) # hs) = bvset bits" using hs(3) bs by simp
    moreover have "used' = (used \<or> bb_self \<in> bvset bits)" using hs(6) h(4) bs by auto
    ultimately show ?thesis using hs h by (intro exI [of _ "(?b, h) # hs"]) auto
  qed
qed

lemma verify_layer_Some:
  assumes "verify_layer P B E fb q x c = Inr (Some r)"
  obtains m where "r = Some (m, pl_len x)" "length (em_hash m) = 32"
  using assms hash_length
  by (auto simp: verify_layer_def verify_value_def verify_inner_def res_simps split: if_splits option.splits)

lemma verify_snoc:
  assumes "verify_layers P B E fb q (xs @ [y]) None = Inr (Some r)"
  obtains c where "verify_layers P B E fb q xs None = Inr (Some c)" "verify_layer P B E fb q y c = Inr (Some r)"
  using assms unfolding verify_append by (auto simp: res_simps split: option.splits)

lemma verify_layers_Some:
  assumes "verify_layers P B E fb q (x # xs) None = Inr (Some r)"
  obtains m l where "r = Some (m, l)" "length (em_hash m) = 32"
proof -
  obtain ys y where ys: "x # xs = ys @ [y]" by (metis rev_exhaust list.discI)
  obtain c where "verify_layer P B E fb q y c = Inr (Some r)" by (rule verify_snoc [OF assms [unfolded ys]])
  then show ?thesis using that by (rule verify_layer_Some)
qed

text \<open>One layer of an inner node, against the node.\<close>

lemma verify_inner_Some:
  assumes "verify_inner P B E q y (Some (m, l)) = Inr (Some (Some (m', l')))"
  obtains b d acc where "get_branch_bits P q (pl_len y) = Inr b"
    "verify_children B b (Some m) (pl_child_data y) 16 (pl_bv y) (bv_write E (pl_bv y) (write_node_header E [] q (pl_len y))) em_new 0 False = Inr (Some (d, acc, True))"
    "em_hash m' = H d"
proof -
  obtain b r where b: "get_branch_bits P q (pl_len y) = Inr b"
      "verify_children B b (Some m) (pl_child_data y) 16 (pl_bv y) (bv_write E (pl_bv y) (write_node_header E [] q (pl_len y))) em_new 0 False = Inr r"
      "(case r of None \<Rightarrow> Inr None | Some (d, acc, used) \<Rightarrow> if \<not> used then Inr None
        else rbind (snap_generichash E d) (\<lambda>h. Inr (Some (Some (acc\<lparr>em_hash := h, em_hash_valid := True\<rparr>, pl_len y))))) = Inr (Some (Some (m', l')))"
    using assms by (auto simp: verify_inner_def res_simps Let_def split: if_splits)
  obtain d acc used where r: "r = Some (d, acc, used)" using b(3) by (cases r) auto
  have used: "used" using b(3) r by (cases used) simp_all
  then have "em_hash m' = H d" using b(3) r by auto
  then show ?thesis using that b(1,2) r used by simp
qed

lemma verify_inner_sound:
  assumes q: "pvalid q" and w: "wf 0 T" and coll: "\<And>d. H d = ehash T \<Longrightarrow> d = digest T"
    and y: "verify_layer P B E fb q y (Some (m, l)) = Inr (Some (Some (m', l')))" "em_hash m' = ehash T" and m: "length (em_hash m) = 32"
  shows "\<exists>cs p hv md h c. T = TrieNode (Children cs) p (pl_len y) hv md h \<and> map_of cs (nib q ! (pl_len y div 4)) = Some c \<and> em_hash m = ehash c"
proof -
  have ne: "pl_len y \<noteq> prefix_bits P" using y(1) by (auto simp: verify_layer_def verify_value_def)
  obtain b d acc where b: "get_branch_bits P q (pl_len y) = Inr b"
      "verify_children B b (Some m) (pl_child_data y) 16 (pl_bv y) (bv_write E (pl_bv y) (write_node_header E [] q (pl_len y))) em_new 0 False = Inr (Some (d, acc, True))"
      "em_hash m' = H d"
    using y(1) ne unfolding verify_layer_def by (auto elim: verify_inner_Some)
  have le: "pl_len y < prefix_bits P" using b(1) ne branch_end [OF q, of "pl_len y"] by (cases "prefix_bits P \<le> pl_len y") auto
  obtain hs where hs: "d = bv_write E (pl_bv y) (write_node_header E [] q (pl_len y)) @ concat (map snd hs)" "sorted_keys hs" "fst ` set hs = bvset (pl_bv y)"
      "\<forall>x \<in> set hs. length (snd x) = 32" "\<forall>x \<in> set hs. fst x = b \<longrightarrow> (\<exists>m'. Some m = Some m' \<and> snd x = em_hash m')" "b \<in> bvset (pl_bv y)"
    using verify_children_sound [OF b(2)] m by auto
  have "d = digest T" using coll b(3) y(2) by simp
  then have dig: "digest T = write_node_header E [] q (pl_len y) @ bv_write E (pl_bv y) [] @ concat (map snd hs)"
    using hs(1) bv_append [of "pl_bv y" "write_node_header E [] q (pl_len y)"] by simp
  obtain ch p lT hv md h where T: "T = TrieNode ch p lT hv md h" by (cases T)
  have lT: "4 * (lT div 4) = lT" "lT \<le> prefix_bits P" "pvalid p" using wf_len [OF w] wf_prefix [OF w] T by auto
  let ?r = "case ch of Value v \<Rightarrow> copy_data E (the v) [] | Children cs \<Rightarrow> bv_write E (bv_of_keys B (map fst cs)) [] @ concat (map (\<lambda>(bb, c). ehash c) cs)"
  have split: "pl_len y = lT \<and> take (lT div 4) (nib p) = take (lT div 4) (nib q) \<and> ?r = bv_write E (pl_bv y) [] @ concat (map snd hs)"
    using header_split [OF lT(3) q, of "lT div 4" "pl_len y" ?r "bv_write E (pl_bv y) [] @ concat (map snd hs)"] dig le lT T by auto
  obtain cs where ch: "ch = Children cs" using split ne w T by (cases ch) auto
  from w [unfolded T ch] obtain k where k: "lT = 4 * k" "4 * k < prefix_bits P" "branch 0 (take k (nib p)) cs" "length (take k (nib p)) = k" by (rule wf_ChildrenE)
  have sorted: "sorted_keys cs" using k(3) by (simp add: branch_ok_def)
  have cs16: "\<forall>bb \<in> set (map fst cs). bb < 16" using branch_bound [OF w [unfolded T ch]] by (force simp: MAX_BRANCH_VALUE_def)
  have eqs: "bvset (bv_of_keys B (map fst cs)) = bvset (pl_bv y) \<and> concat (map (\<lambda>(bb, c). ehash c) cs) = concat (map snd hs)"
    by (rule bv_split) (use split ch in simp)
  have keys: "map fst hs = map fst cs"
    by (rule sorted_distinct_set_unique) (use hs(2,3) sorted eqs bv_of_keys_set [OF cs16] in \<open>auto simp: strict_sorted_iff\<close>)
  have "map (\<lambda>(bb, c). ehash c) cs = map snd hs"
  proof (rule concat_injective)
    show "length (map (\<lambda>(bb, c). ehash c) cs) = length (map snd hs)" using arg_cong [OF keys, of length] by simp
    show "\<forall>(x, y) \<in> set (zip (map (\<lambda>(bb, c). ehash c) cs) (map snd hs)). length x = length y"
    proof (clarify, goal_cases)
      case (1 x z)
      have "length x = 32" using set_zip_leftD [OF 1] ehash_length by auto
      then show ?case using set_zip_rightD [OF 1] hs(4) by auto
    qed
  qed (use eqs in simp)
  then have hs_cs: "hs = map (\<lambda>(bb, c). (bb, ehash c)) cs"
    using keys by (auto intro!: nth_equalityI simp: list_eq_iff_nth_eq prod_eq_iff case_prod_beta)
  have bn: "b = nib q ! (pl_len y div 4)" using b(1) branch_bits_at [OF q k(2)] k(1) split by simp
  have "b \<in> fst ` set cs" using hs(6) eqs bv_of_keys_set [OF cs16] by simp
  then obtain c where c: "(b, c) \<in> set cs" by auto
  then have "map_of cs b = Some c" using map_of_sorted_iff [OF sorted] by blast
  moreover have "(b, ehash c) \<in> set hs" using c unfolding hs_cs by force
  then have "em_hash m = ehash c" using hs(5) by auto
  ultimately show ?thesis using T ch split bn by blast
qed

theorem verify_sound:
  assumes q: "pvalid q" and x: "pl_len x = prefix_bits P"
  shows "verify_layers P B E fb q (x # xs) None = Inr (Some (Some (m, l))) \<Longrightarrow> em_hash m = ehash T \<Longrightarrow> wf 0 T \<Longrightarrow>
    (\<And>U d. U \<in> subtrees T \<Longrightarrow> H d = ehash U \<Longrightarrow> d = digest U) \<Longrightarrow> \<exists>w. trie_map P T q = Some w \<and> pl_child_data x = [copy_data E (the w) []]"
proof (induction xs arbitrary: m l T rule: rev_induct)
  case Nil
  obtain d where d: "pl_child_data x = [d]" "em_hash m = H (write_node_header E [] q (prefix_bits P) @ d)"
    using Nil.prems(1) x by (auto simp: verify_layer_def verify_value_def res_simps length_Suc_conv split: if_splits option.splits)
  have "T \<in> subtrees T" by (cases T) simp
  then have dig: "digest T = write_node_header E [] q (prefix_bits P) @ d" using Nil.prems(4) [of T] Nil.prems(2) d(2) by metis
  obtain ch p lT hv md h where T: "T = TrieNode ch p lT hv md h" by (cases T)
  have lT: "4 * (lT div 4) = lT" "lT \<le> prefix_bits P" "pvalid p" using wf_len [OF Nil.prems(3)] wf_prefix [OF Nil.prems(3)] T by auto
  let ?r = "case ch of Value v \<Rightarrow> copy_data E (the v) [] | Children cs \<Rightarrow> bv_write E (bv_of_keys B (map fst cs)) [] @ concat (map (\<lambda>(bb, c). ehash c) cs)"
  have split: "prefix_bits P = lT \<and> take (lT div 4) (nib p) = take (lT div 4) (nib q) \<and> ?r = d"
    using header_split [OF lT(3) q, of "lT div 4" "prefix_bits P" ?r d] dig lT T by auto
  obtain w where ch: "ch = Value w" using split Nil.prems(3) T by (cases ch) auto
  have "nib p = nib q" using split nib_length [OF lT(3)] nib_length [OF q] by simp
  then have "p = q" using nib_inject [OF lT(3) q] by blast
  then show ?case using T ch split d(1) by (auto simp: trie_map_Value)
next
  case (snoc y xs)
  obtain c where c: "verify_layers P B E fb q (x # xs) None = Inr (Some c)" "verify_layer P B E fb q y c = Inr (Some (Some (m, l)))"
    by (rule verify_snoc [OF snoc.prems(1) [folded append_Cons]])
  obtain m1 l1 where c1: "c = Some (m1, l1)" "length (em_hash m1) = 32" by (rule verify_layers_Some [OF c(1)])
  have "T \<in> subtrees T" by (cases T) simp
  then obtain cs p hv md h k where T: "T = TrieNode (Children cs) p (pl_len y) hv md h" and k: "map_of cs (nib q ! (pl_len y div 4)) = Some k" "em_hash m1 = ehash k"
    using verify_inner_sound [OF q snoc.prems(3) _ c(2) [unfolded c1(1)] snoc.prems(2) c1(2)] snoc.prems(4) by blast
  note mem = map_of_SomeD [OF k(1)]
  have wk: "wf 0 k" using snoc.prems(3) T mem by auto
  have "\<exists>w. trie_map P k q = Some w \<and> pl_child_data x = [copy_data E (the w) []]"
    by (rule snoc.IH [OF c(1) [unfolded c1(1)] k(2) wk]) (use snoc.prems(4) T mem in auto)
  moreover have "trie_map P T q = trie_map P k q"
    using trie_map_Children [OF snoc.prems(3) [unfolded T] q] k(1) T by simp
  ultimately show ?case by simp
qed

section \<open>Proofs after a run\<close>

theorem run_proof:
  assumes run: "eph_run P F (AtomicTrie_empty P n, eph_threads kvs) order (t, ts)" and keys: "\<forall>x \<in> set kvs. pvalid (fst x)" and r: "all_returned ts"
    and tasks: "set tasks \<subseteq> dom (et_nodes t)" and hash: "et_hash P B E (Suc (prefix_bits P div 4)) tasks t = Inr (h, t')"
    and get: "et_get_value P (Suc (prefix_bits P div 4)) t root_addr k = Inr (Some v)" "pvalid k" and fb: "\<exists>u. fb (copy_data E v []) = Inr u"
  shows "\<exists>pr x xs. make_proof P B E (Suc (prefix_bits P div 4)) t' root_addr k (prefix_bits P) = Inr pr \<and> verify_proof P B E fb pr h = Inr True \<and>
    proved_prefix pr = k \<and> proof_stack pr = x # xs \<and> pl_len x = prefix_bits P \<and> pl_child_data x = [copy_data E v []]"
proof -
  obtain T :: "('p, 'v option, EmptyMetadata) TrieNode" where T: "h = ehash T" "rep P t' root_addr T" "wf 0 T" "tn_prefix_len T = 0"
    "\<forall>k. pvalid k \<longrightarrow> trie_map P T k = map_option Some (fold (\<lambda>j. ref_insert F (kvs ! j)) order Map.empty k)" "hcached t'" "valid_at t' root_addr"
    by (rule run_hashes [OF run keys r tasks refl]) (use hash in auto)
  have "trie_map P T k = Some (Some v)" using T(5) get rest_facts(6) [OF run keys r refl get(2)] by simp
  moreover have "fuel_ok (Suc (prefix_bits P div 4)) T" using T(4) by simp
  ultimately obtain pr where "make_proof P B E (Suc (prefix_bits P div 4)) t' root_addr k (prefix_bits P) = Inr pr" "good_proof fb k v T pr"
    using make_proof_ok [where fb = fb and v = v, OF T(6) get(2) fb T(2,3) _ T(7)] by blast
  then show ?thesis using T(1) by (auto simp: good_proof_def verify_proof_def)
qed

theorem run_proof_sound:
  assumes run: "eph_run P F (AtomicTrie_empty P n, eph_threads kvs) order (t, ts)" and keys: "\<forall>x \<in> set kvs. pvalid (fst x)" and r: "all_returned ts"
    and tasks: "set tasks \<subseteq> dom (et_nodes t)" and hash: "et_hash P B E (Suc (prefix_bits P div 4)) tasks t = Inr (h, t')"
    and coll: "no_second_preimage P B E H t" and ok: "verify_proof P B E fb pr h = Inr True"
    and pr: "pvalid (proved_prefix pr)" "proof_stack pr = x # xs" "pl_len x = prefix_bits P"
  shows "\<exists>v. et_get_value P (Suc (prefix_bits P div 4)) t root_addr (proved_prefix pr) = Inr (Some v) \<and> pl_child_data x = [copy_data E v []]"
proof -
  obtain T :: "('p, 'v option, EmptyMetadata) TrieNode" where T: "h = ehash T" "rep P t root_addr T" "wf 0 T"
    "\<forall>k. pvalid k \<longrightarrow> trie_map P T k = map_option Some (fold (\<lambda>j. ref_insert F (kvs ! j)) order Map.empty k)"
    by (rule run_hashes [OF run keys r tasks refl]) (use hash in auto)
  obtain m l where m: "verify_layers P B E fb (proved_prefix pr) (x # xs) None = Inr (Some (Some (m, l)))" "em_hash m = ehash T"
    using ok T(1) pr(2) by (auto simp: verify_proof_def res_simps simp del: verify_layers.simps split: option.splits prod.splits)
  have "d = digest U" if "U \<in> subtrees T" "H d = ehash U" for U d
    using coll T(2) that unfolding no_second_preimage_def ehash_digest by blast
  then obtain w where w: "trie_map P T (proved_prefix pr) = Some w" "pl_child_data x = [copy_data E (the w) []]"
    using verify_sound [OF pr(1,3) m T(3)] by blast
  then obtain v where v: "fold (\<lambda>j. ref_insert F (kvs ! j)) order Map.empty (proved_prefix pr) = Some v" "w = Some v" using T(4) pr(1) by auto
  then show ?thesis using w(2) rest_facts(6) [OF run keys r refl pr(1)] by simp
qed

end

section \<open>The environment of 64-bit prefixes\<close>

text \<open>Big-endian writers, and a hash of 32 bytes made from any function.\<close>

definition be16 :: "nat \<Rightarrow> byte list \<Rightarrow> byte list" where
  "be16 n d = d @ [word_of_nat (n div 256), word_of_nat n]"

definition be64 :: "64 word \<Rightarrow> byte list \<Rightarrow> byte list" where
  "be64 w d = d @ map (\<lambda>j. ucast (drop_bit (56 - 8 * j) w)) [0..<8]"

definition be_bv :: "16 word \<Rightarrow> byte list \<Rightarrow> byte list" where
  "be_bv w d = d @ [ucast (drop_bit 8 w), ucast w]"

definition hash32 :: "(byte list \<Rightarrow> byte list) \<Rightarrow> byte list \<Rightarrow> Hash" where
  "hash32 H d = take 32 (H d @ replicate 32 0)"

abbreviation wire_env :: "(byte list \<Rightarrow> byte list) \<Rightarrow> ('v \<Rightarrow> byte list) \<Rightarrow> (UInt64Prefix, 'v, 16 word) HashEnv" where
  "wire_env H c \<equiv> UInt64_hash_env (hash32 H) be16 be64 be_bv (\<lambda>v d. d @ c v)"

definition header_bytes :: "64 word \<Rightarrow> nat \<Rightarrow> byte list" where
  "header_bytes w i = map (\<lambda>j. ucast (drop_bit (56 - 8 * j) (UInt64_truncate w (4 * i)))) [0..<num_prefix_bytes (4 * i)]"

lemma num_prefix_bytes_le: "l \<le> 64 \<Longrightarrow> num_prefix_bytes l \<le> 8"
  unfolding num_prefix_bytes_def by (cases "l mod 8 = 0") (simp_all, presburger)

lemma num_prefix_bytes_less: "8 * j < l \<Longrightarrow> j < num_prefix_bytes l"
  unfolding num_prefix_bytes_def by (cases "l mod 8 = 0") (simp_all, presburger+)

lemma u64_header_eq:
  assumes "l \<le> 64"
  shows "write_node_header (wire_env H c) [] w l =
    be16 l [] @ (case num_prefix_bytes l of 0 \<Rightarrow> [] | Suc n \<Rightarrow>
      map (\<lambda>j. ucast (drop_bit (56 - 8 * j) w)) [0..<n] @ [ucast (drop_bit (56 - 8 * n) w) AND get_truncate_mask l])"
proof (cases "num_prefix_bytes l")
  case 0
  then have "l = 0" by (auto simp: num_prefix_bytes_def split: if_splits)
  then show ?thesis using 0
    by (simp add: write_node_header_def UInt64_hash_env_def UInt64_write_bytes_to_def be16_def be64_def mask_back_def get_truncate_mask_def)
next
  case (Suc n)
  have "n < 8" using num_prefix_bytes_le [OF assms] Suc by simp
  then have "take (length (be64 w (be16 l [])) - (8 - num_prefix_bytes l)) (be64 w (be16 l [])) =
      (be16 l [] @ map (\<lambda>j. ucast (drop_bit (56 - 8 * j) w)) [0..<n]) @ [ucast (drop_bit (56 - 8 * n) w)]"
    using Suc by (simp add: be64_def be16_def take_map numeral_3_eq_3 del: upt_Suc) simp
  then show ?thesis using Suc
    by (simp add: write_node_header_def UInt64_hash_env_def UInt64_write_bytes_to_def mask_back_def Let_def butlast_append)
qed

lemma get_truncate_mask_bit: "bit (get_truncate_mask l) k \<longleftrightarrow> k < 8 \<and> l mod 8 \<le> k"
proof -
  have "(0xFF :: 32 word) = mask 8" by (simp add: mask_eq_exp_minus_1)
  then show ?thesis unfolding get_truncate_mask_def by (simp only: bit_simps) auto
qed

lemma header_byte:
  assumes "i \<le> 16" "num_prefix_bytes (4 * i) = Suc n" "j \<le> n"
  shows "(ucast (drop_bit (56 - 8 * j) (UInt64_truncate w (4 * i))) :: byte) =
    (if j = n then ucast (drop_bit (56 - 8 * n) w) AND get_truncate_mask (4 * i) else ucast (drop_bit (56 - 8 * j) w))"
proof -
  have "n < 8" "i = 2 * n + 1 \<or> i = 2 * n + 2" using assms(1,2) unfolding num_prefix_bytes_def by (auto split: if_splits) presburger+
  moreover have "4 * (2 * n + 1) mod 8 = 4" "4 * (2 * n + 2) mod 8 = 0" by presburger+
  ultimately have n: "n < 8" "i = 2 * n + 1 \<and> 4 * i mod 8 = 4 \<or> i = 2 * n + 2 \<and> 4 * i mod 8 = 0" by auto
  then obtain c where "n + c = 7" using le_Suc_ex [of n 7] by auto
  then have c: "56 - 8 * n = 8 * c" "64 - 4 * i = 8 * c + 4 * i mod 8" "i \<noteq> 0" using n(2) by auto
  have "\<not> 56 - 8 * j + k < 64 - 4 * i" if "j \<noteq> n" for k
  proof -
    have "j + 1 \<le> n" using assms(3) that by simp
    then have "56 - 8 * n + 8 \<le> 56 - 8 * j" using \<open>n + c = 7\<close> by linarith
    then show ?thesis using c(1,2) mod_less_divisor [of 8 "4 * i"] by linarith
  qed
  then have t: "bit (UInt64_truncate w (4 * i)) (56 - 8 * j + k) \<longleftrightarrow> bit w (56 - 8 * j + k) \<and> (j = n \<longrightarrow> 4 * i mod 8 \<le> k)" for k
    using c bit_imp_le_length [of w] by (cases "j = n") (auto simp: UInt64_truncate_def bit_simps)
  have u: "bit (ucast (drop_bit s v) :: byte) k \<longleftrightarrow> k < 8 \<and> bit v (s + k)" for s k and v :: "64 word"
    by (auto simp: bit_simps dest: bit_imp_le_length)
  show ?thesis
  proof (cases "j = n")
    case True
    show ?thesis unfolding if_P [OF True]
      by (rule bit_word_eqI) (use t True in \<open>simp only: u bit_and_iff get_truncate_mask_bit, blast\<close>)
  next
    case False
    show ?thesis unfolding if_not_P [OF False] by (rule bit_word_eqI) (use t False in \<open>simp only: u, blast\<close>)
  qed
qed

lemma u64_header:
  assumes "i \<le> 16"
  shows "write_node_header (wire_env H c) [] w (4 * i) = be16 (4 * i) [] @ header_bytes w i"
proof (cases "num_prefix_bytes (4 * i)")
  case (Suc n)
  have "map (\<lambda>j. ucast (drop_bit (56 - 8 * j) (UInt64_truncate w (4 * i)))) [0..<n] = map (\<lambda>j. ucast (drop_bit (56 - 8 * j) w) :: byte) [0..<n]"
    by (rule map_cong [OF refl]) (use header_byte [OF assms Suc] in simp)
  then show ?thesis using Suc assms header_byte [OF assms Suc, of n w] by (simp add: u64_header_eq header_bytes_def)
qed (use assms in \<open>simp add: u64_header_eq header_bytes_def\<close>)


lemma UInt64_truncate_nib':
  assumes "i \<le> 16"
  shows "UInt64_nib (UInt64_truncate w (4 * i)) = take i (UInt64_nib w) @ replicate (16 - i) 0"
  using UInt64_truncate_nib [of i w] assms by (cases "i = 16") (simp_all add: UInt64_truncate_def)

lemma header_bytes_eq: "header_bytes v i = header_bytes w i \<longleftrightarrow> take i (UInt64_nib v) = take i (UInt64_nib w)" if "i \<le> 16"
proof -
  have "take i (UInt64_nib v) = take i (UInt64_nib w) \<longleftrightarrow> UInt64_truncate v (4 * i) = UInt64_truncate w (4 * i)"
    using UInt64_truncate_nib' [OF that] UInt64_nib_inject by (metis append_same_eq)
  also have "\<dots> \<longleftrightarrow> header_bytes v i = header_bytes w i"
  proof
    assume eq: "header_bytes v i = header_bytes w i"
    show "UInt64_truncate v (4 * i) = UInt64_truncate w (4 * i)"
    proof (rule bit_word_eqI)
      fix m assume m: "m < LENGTH(64)"
      show "bit (UInt64_truncate v (4 * i)) m = bit (UInt64_truncate w (4 * i)) m"
      proof (cases "64 - 4 * i \<le> m")
        case True
        let ?j = "7 - m div 8"
        have "8 * ?j < 4 * i" using True m that by simp
        then have j: "?j < num_prefix_bytes (4 * i)" by (rule num_prefix_bytes_less)
        have "header_bytes v i ! ?j = header_bytes w i ! ?j" using eq by simp
        then have "(ucast (drop_bit (56 - 8 * ?j) (UInt64_truncate v (4 * i))) :: byte) = ucast (drop_bit (56 - 8 * ?j) (UInt64_truncate w (4 * i)))"
          using j by (simp add: header_bytes_def)
        then have "bit (ucast (drop_bit (56 - 8 * ?j) (UInt64_truncate v (4 * i))) :: byte) (m mod 8) =
            bit (ucast (drop_bit (56 - 8 * ?j) (UInt64_truncate w (4 * i))) :: byte) (m mod 8)" by simp
        moreover have "56 - 8 * ?j = 8 * (m div 8)" using m by (simp add: diff_mult_distrib2)
        then have "56 - 8 * ?j + m mod 8 = m" by simp
        ultimately show ?thesis by (simp add: bit_simps)
      next
        case False
        then show ?thesis using that by (auto simp: UInt64_truncate_def bit_simps)
      qed
    qed
  qed (simp add: header_bytes_def)
  finally show ?thesis by blast
qed

lemma be16_split:
  assumes "m \<le> 64" "n \<le> 64" "be16 m [] @ x = be16 n [] @ y"
  shows "m = n" "x = y"
proof -
  have "(word_of_nat m :: byte) = word_of_nat n" using assms(3) by (simp add: be16_def)
  then have "unat (word_of_nat m :: byte) = unat (word_of_nat n :: byte)" by simp
  then show "m = n" using assms(1,2) by (simp add: unat_of_nat)
qed (use assms(3) in \<open>simp add: be16_def\<close>)

lemma be_bv_split:
  assumes "be_bv s [] @ x = be_bv u [] @ y"
  shows "s = u" "x = y"
proof -
  have low: "(ucast s :: byte) = ucast u" and high: "(ucast (drop_bit 8 s) :: byte) = ucast (drop_bit 8 u)" using assms by (simp_all add: be_bv_def)
  show "s = u"
  proof (rule bit_word_eqI)
    fix m assume m: "m < LENGTH(16)"
    show "bit s m = bit u m"
    proof (cases "m < 8")
      case True
      then show ?thesis using arg_cong [OF low, of "\<lambda>w. bit w m"] by (simp add: bit_simps)
    next
      case False
      then show ?thesis using arg_cong [OF high, of "\<lambda>w. bit w (m - 8)"] m by (auto simp: bit_simps)
    qed
  qed
qed (use assms in \<open>simp add: be_bv_def\<close>)

interpretation u64_proof: proof_env UInt64Prefix_ops "\<lambda>_. True" UInt64_nib word16_ops "\<lambda>w. set (word16_bits w)" "wire_env H c" "hash32 H"
  for H c
proof unfold_locales
  have bits: "prefix_bits UInt64Prefix_ops = 64" by (simp add: UInt64Prefix_ops_def)
  fix p q :: UInt64Prefix and i l x y
  assume i: "4 * i \<le> prefix_bits UInt64Prefix_ops"
  show "write_node_header (wire_env H c) [] p (4 * i) = write_node_header (wire_env H c) [] q (4 * i)" if "take i (UInt64_nib p) = take i (UInt64_nib q)"
    using i that bits header_bytes_eq [of i p q] by (simp add: u64_header)
  assume l: "l \<le> prefix_bits UInt64Prefix_ops" and eq: "write_node_header (wire_env H c) [] p (4 * i) @ x = write_node_header (wire_env H c) [] q l @ y"
  have "4 * i = l" by (rule be16_split(1)) (use i l bits eq in \<open>auto simp: u64_header_eq\<close>)
  moreover have "header_bytes p i @ x = header_bytes q i @ y"
    using be16_split(2) [of "4 * i" "4 * i"] i bits eq calculation by (auto simp: u64_header)
  then have "header_bytes p i = header_bytes q i \<and> x = y" by (simp add: append_eq_append_conv header_bytes_def)
  ultimately show "l = 4 * i \<and> take i (UInt64_nib p) = take i (UInt64_nib q) \<and> x = y"
    using i bits header_bytes_eq [of i p q] by simp
qed (use be_bv_split in \<open>auto simp: UInt64_hash_env_def be_bv_def hash32_def\<close>)

end
