(* ===== verification/EphemeralSpec.thy ===== *)
theory EphemeralSpec
  imports EphemeralProof
begin

text \<open>
  What the ephemeral trie guarantees (\<^verbatim>\<open>ephemeral_trie/atomic_ephemeral_trie.h\<close>), for every schedule of concurrent insertions: the order of effects, the
  sizes at every moment, progress, the trie after the insertions, its hash and its proofs; and the slots the allocator hands out.  A runner of
  explicit schedules gives concrete runs.
\<close>

section \<open>Schedules\<close>

text \<open>A schedule names the thread of each step and what the step takes from outside.\<close>

fun eph_exec ::
    "'p TriePrefix \<Rightarrow> ('p, 'v, 'i, 'm) InsertFn \<Rightarrow> (nat \<times> 'p eph_label) list \<Rightarrow> nat list \<Rightarrow> ('p, 'v) AtomicTrie \<times> ('p, 'i) eph_thread list \<Rightarrow>
     (nat list \<times> ('p, 'v) AtomicTrie \<times> ('p, 'i) eph_thread list) option" where
  "eph_exec P F [] order s = Some (order, s)"
| "eph_exec P F ((j, l) # sched) order (t, ts) =
     (if j < length ts \<and> (case snd (ts ! j) of E_Return r \<Rightarrow> False | _ \<Rightarrow> True) \<and> el_ptr l \<noteq> UINT32_MAX \<and> Option.is_none (et_nodes t (unat (el_ptr l))) \<and>
        (\<forall>x \<in> set ts. el_ptr l \<notin> held (snd x)) \<and> Option.is_none (et_values t (unat (el_value_ptr l)))
      then case eph_step P F l (fst (fst (ts ! j))) (snd (fst (ts ! j))) t (snd (ts ! j)) of
          Inl e \<Rightarrow> None
        | Inr (t', pc') \<Rightarrow> eph_exec P F sched (if effected (snd (ts ! j)) \<or> \<not> effected pc' then order else order @ [j]) (t', ts[j := (fst (ts ! j), pc')])
      else None)"

lemma eph_exec_run: "eph_exec P F sched order s = Some (order', s') \<Longrightarrow> eph_run P F s0 order s \<Longrightarrow> eph_run P F s0 order' s'"
proof (induction P F sched order s arbitrary: order' s' rule: eph_exec.induct)
  case (2 P F j l sched order t ts)
  then obtain t' pc' where st: "j < length ts" "snd (ts ! j) \<notin> range E_Return" "fresh_label t ts l"
      "eph_step P F l (fst (fst (ts ! j))) (snd (fst (ts ! j))) t (snd (ts ! j)) = Inr (t', pc')"
      "eph_exec P F sched (if effected (snd (ts ! j)) \<or> \<not> effected pc' then order else order @ [j]) (t', ts[j := (fst (ts ! j), pc')]) = Some (order', s')"
    by (auto simp: Option.is_none_def fresh_label_def split: if_splits sum.splits eph_pc.splits)
  have "eph_machine P F (t, ts) j (t', ts[j := (fst (ts ! j), pc')])"
    using eph_machine [where key = "fst (fst (ts ! j))" and v = "snd (fst (ts ! j))" and pc = "snd (ts ! j)", OF st(1) _ st(2,3,4)] by simp
  from eph_run_snoc [OF 2(3) this]
  have "eph_run P F s0 (if effected (snd (ts ! j)) \<or> \<not> effected pc' then order else order @ [j]) (t', ts[j := (fst (ts ! j), pc')])"
    using st(1) by simp
  moreover have "eph_exec P F ((j, l) # sched) order (t, ts) = eph_exec P F sched
      (if effected (snd (ts ! j)) \<or> \<not> effected pc' then order else order @ [j]) (t', ts[j := (fst (ts ! j), pc')])"
    using 2(2) st(4) by (auto split: if_splits)
  ultimately show ?case using 2(1) 2(2) st(4) by (auto split: if_splits)
qed simp

lemma child_word_inject: "child_word p a = child_word q b \<longleftrightarrow> p = q \<and> a = b"
  by (metis get_ptr_word get_sz_word)

lemma child_word_Suc: "a \<noteq> UINT32_MAX \<Longrightarrow> child_word p a + 1 = child_word p (a + 1)"
proof -
  assume "a \<noteq> UINT32_MAX"
  then have "unat (get_sz (child_word p a)) < 2 ^ 32 - 1" using word_unat_eq_iff [of a UINT32_MAX] unsigned_less [of a, where 'a = nat] by simp
  from child_word_bump [OF this] have "get_ptr (child_word p a + 1) = p" "unat (get_sz (child_word p a + 1)) = Suc (unat a)" by simp_all
  moreover have "unat (a + 1) = Suc (unat a)" using \<open>unat _ < _\<close> by (simp add: unat_word_ariths)
  ultimately show ?thesis using child_word_get [of "child_word p a + 1"] by (metis word_unat_eq_iff)
qed

lemma null_child_word: "null_child = child_word UINT32_MAX 0"
  using child_word_get [of null_child] by simp

text \<open>Three insertions, two of them of the same key.  In the first schedule the first thread's compare-and-swap fails once for no reason, the second thread
  finds the slot it read filled by the first and splits the new leaf off, and the third thread updates the leaf before the second has counted its
  own.  The second schedule runs the threads one after the other, the last first.\<close>

definition eph_demo_slot :: "64 word AtomicTrieNode" where
  "eph_demo_slot = \<lparr> at_children = acm_clear, at_prefix = 0, at_prefix_len = 0, at_value_pointer = 0, at_metadata = \<lparr> em_hash_valid = False, em_hash = [] \<rparr> \<rparr>"

definition eph_demo_fn :: "(64 word, nat, nat, EmptyMetadata) InsertFn" where
  "eph_demo_fn = \<lparr> new_value = (\<lambda>_. 0), value_insert = (+), new_metadata = (\<lambda>_. EmptyMetadata), metadata_insert = (\<lambda>m v. (m, m)) \<rparr>"

definition eph_demo_sched :: "nat list \<Rightarrow> (nat \<times> 64 word eph_label) list" where
  "eph_demo_sched js = map (\<lambda>(x, j). (j, \<lparr> el_ptr = word_of_nat x, el_value_ptr = word_of_nat x, el_slot = eph_demo_slot, el_spurious = (x = 6) \<rparr>))
     (zip [0..<length js] js)"

abbreviation eph_demo_start :: "(64 word \<times> nat) list \<Rightarrow> (64 word, nat) AtomicTrie \<times> (64 word, nat) eph_thread list" where
  "eph_demo_start kvs \<equiv> (AtomicTrie_empty UInt64Prefix_ops eph_demo_slot, eph_threads kvs)"

definition eph_demo_exec :: "nat list \<Rightarrow> (64 word \<times> nat) list \<Rightarrow> (nat list \<times> (64 word, nat) AtomicTrie \<times> (64 word, nat) eph_thread list) option" where
  "eph_demo_exec js kvs = eph_exec UInt64Prefix_ops eph_demo_fn (eph_demo_sched js) [] (eph_demo_start kvs)"

definition eph_demo_kvs :: "(64 word \<times> nat) list" where
  "eph_demo_kvs = [(0x1000000000000001, 5), (0x1100000000000001, 7), (0x1000000000000001, 6)]"

definition eph_demo_js :: "nat list" where
  "eph_demo_js = [0, 0, 0, 1, 1, 1, 0, 0, 1, 1, 1, 1, 1, 0, 0, 0, 0, 0, 2, 2, 2, 2, 2, 2, 2, 2, 1, 1, 1, 1, 1]"

definition eph_demo_js2 :: "nat list" where
  "eph_demo_js2 = [2, 2, 2, 2, 2, 2, 2, 1, 1, 1, 1, 1, 1, 1, 1, 1, 1, 1, 1, 0, 0, 0, 0, 0, 0, 0, 0]"

abbreviation "eph_demo_trie \<equiv> fst (snd (the (eph_demo_exec eph_demo_js eph_demo_kvs)))"
abbreviation "eph_demo_ts \<equiv> snd (snd (the (eph_demo_exec eph_demo_js eph_demo_kvs)))"
abbreviation "eph_demo_trie2 \<equiv> fst (snd (the (eph_demo_exec eph_demo_js2 eph_demo_kvs)))"
abbreviation "eph_demo_ts2 \<equiv> snd (snd (the (eph_demo_exec eph_demo_js2 eph_demo_kvs)))"

lemma eph_u64_eval:
  "prefix_bits UInt64Prefix_ops = 64"
  "prefix_zero UInt64Prefix_ops = 0"
  "get_prefix_match_len UInt64Prefix_ops 0 0 k 64 = 0"
  "get_branch_bits UInt64Prefix_ops 0x1000000000000001 0 = Inr 1"
  "get_branch_bits UInt64Prefix_ops 0x1100000000000001 0 = Inr 1"
  "get_branch_bits UInt64Prefix_ops 0x1000000000000001 4 = Inr 0"
  "get_branch_bits UInt64Prefix_ops 0x1100000000000001 4 = Inr 1"
  "get_prefix_match_len UInt64Prefix_ops 0x1000000000000001 64 0x1100000000000001 64 = 4"
  "get_prefix_match_len UInt64Prefix_ops 0x1000000000000000 4 0x1100000000000001 64 = 4"
  "get_prefix_match_len UInt64Prefix_ops 0x1000000000000000 4 0x1000000000000001 64 = 4"
  "get_prefix_match_len UInt64Prefix_ops 0x1000000000000001 64 0x1000000000000001 64 = 64"
  "prefix_truncate UInt64Prefix_ops 0x1100000000000001 4 = Inr 0x1000000000000000"
  subgoal by code_simp
  subgoal by code_simp
  subgoal by (simp add: UInt64Prefix_ops_def UInt64_get_prefix_match_len_def)
  by code_simp+

lemmas eph_eval = Let_def child_word_inject child_word_Suc null_child_word eph_exec.simps eph_step.simps eph_u64_eval get_object_def et_value_def
  at_match_len_def insert_can_recurse_def at_branch_bits_def at_is_leaf_def set_as_new_value_leaf_def set_as_new_branch_node_def set_as_empty_node_def
  acm_clear_def acm_set_unique_child_def try_set_def eph_demo_fn_def eph_demo_slot_def em_clear_def root_addr_def AtomicTrie_empty_def eph_threads_def
  eph_demo_sched_def upt_rec_numeral Option.is_none_def eph_demo_exec_def

lemma eph_demo_run_of:
  assumes "map_option (\<lambda>(order, t, ts). (order, map snd ts)) (eph_demo_exec js kvs) = Some (order, pcs)"
  shows "eph_run UInt64Prefix_ops eph_demo_fn (eph_demo_start kvs) order (fst (snd (the (eph_demo_exec js kvs))), snd (snd (the (eph_demo_exec js kvs))))"
    "map snd (snd (snd (the (eph_demo_exec js kvs)))) = pcs"
  using assms eph_exec_run [OF _ eph_run_nil] by (auto simp: eph_demo_exec_def)

lemma eph_demo_results:
  "map_option (\<lambda>(order, t, ts). (order, map snd ts)) (eph_demo_exec eph_demo_js eph_demo_kvs) = Some ([0, 1, 2], [E_Return True, E_Return True, E_Return False])"
  "map_option (\<lambda>(order, t, ts). (order, map snd ts)) (eph_demo_exec eph_demo_js2 eph_demo_kvs) = Some ([2, 1, 0], [E_Return False, E_Return True, E_Return True])"
  unfolding eph_demo_kvs_def eph_demo_js_def eph_demo_js2_def by (simp_all add: eph_eval)

lemmas eph_demo_run = eph_demo_run_of(1) [OF eph_demo_results(1)] eph_demo_run_of(1) [OF eph_demo_results(2)]

lemma all_returned_map: "all_returned ts \<longleftrightarrow> list_all (\<lambda>pc. pc \<in> range E_Return) (map snd ts)"
  by (simp add: all_returned_def list_all_iff)

lemma eph_demo_rest: "all_returned eph_demo_ts" "all_returned eph_demo_ts2" "\<forall>x \<in> set eph_demo_kvs. True"
  unfolding all_returned_map eph_demo_run_of(2) [OF eph_demo_results(1)] eph_demo_run_of(2) [OF eph_demo_results(2)] by auto

lemma eph_demo_map:
  "fold (\<lambda>j. ref_insert eph_demo_fn (eph_demo_kvs ! j)) [0, 1, 2] Map.empty = [0x1000000000000001 \<mapsto> 11, 0x1100000000000001 \<mapsto> 7]"
  by (auto simp: eph_demo_kvs_def ref_insert_def eph_demo_fn_def)

section \<open>Concurrent insertions\<close>



text \<open>A moment of the first run: the first leaf is in the trie and not yet counted.\<close>

definition eph_demo_mid :: "nat list" where
  "eph_demo_mid = [0, 0, 0, 1, 1, 1, 0, 0]"

abbreviation "eph_demo_mid_trie \<equiv> fst (snd (the (eph_demo_exec eph_demo_mid eph_demo_kvs)))"
abbreviation "eph_demo_mid_ts \<equiv> snd (snd (the (eph_demo_exec eph_demo_mid eph_demo_kvs)))"

lemma eph_demo_mid_result:
  "map_option (\<lambda>(order, t, ts). (order, map snd ts)) (eph_demo_exec eph_demo_mid eph_demo_kvs) =
     Some ([0], [E_Bump root_addr, E_Loop root_addr null_child None, E_Call])"
  "map_option (\<lambda>x. (at_prefix x, at_prefix_len x, at_children x 1)) (et_nodes eph_demo_mid_trie root_addr) = Some (0, 0, child_word 6 0)"
  "et_nodes eph_demo_mid_trie 8 = None" "et_values eph_demo_mid_trie 8 = None"
  unfolding eph_demo_kvs_def eph_demo_mid_def by (simp_all add: eph_eval)

text \<open>C5: the sizes in the child words.  At every moment of every run, the size stored beside a child counts exactly the leaves below it,
  except those whose thread has not yet come to this word on its way down to count them; and no count wraps around.\<close>

theorem ephemeral_sizes:
  assumes "trie_prefix P pvalid nib" "\<forall>x \<in> set kvs. pvalid (fst x)" "eph_run P F (AtomicTrie_empty P n, eph_threads kvs) order (t, ts)"
    and "et_nodes t a = Some x" "\<not> at_is_leaf P x" "d < 16" "get_ptr (at_children x d) \<noteq> UINT32_MAX"
  shows "unat (get_sz (at_children x d)) + pending nib t ts (at_path nib x @ [d]) = card (leaves_below P nib t (at_path nib x @ [d])) \<and>
    card (leaves_below P nib t (at_path nib x @ [d])) < 2 ^ 32"
proof -
  have ok: "eph_ok P pvalid nib (t, ts)" using trie_prefix.eph_run_linear [OF assms(1,3) trie_prefix.empty_ok(1,2) [OF assms(1,2)]] by simp
  note e = trie_prefix.eokD [OF assms(1) ok]
  have "card (leaves_below P nib t (at_path nib x @ [d])) < 2 ^ 32" using trie_prefix.leaves_card [OF assms(1) e(1,3), of "at_path nib x @ [d]"] by simp
  then show ?thesis using e(7) assms(4-7) unfolding sizes_ok_def by blast
qed

theorem ephemeral_sizes_witness:
  "pending UInt64_nib eph_demo_mid_trie eph_demo_mid_ts [1] = card (leaves_below UInt64Prefix_ops UInt64_nib eph_demo_mid_trie [1])"
proof -
  obtain x where x: "et_nodes eph_demo_mid_trie root_addr = Some x" "at_prefix x = 0" "at_prefix_len x = 0" "at_children x 1 = child_word 6 0"
    using eph_demo_mid_result(2) by (cases "et_nodes eph_demo_mid_trie root_addr") auto
  have "\<not> at_is_leaf UInt64Prefix_ops x" "at_path UInt64_nib x = []" using x by (simp_all add: at_is_leaf_def eph_u64_eval at_path_def)
  then show ?thesis
    using ephemeral_sizes [OF u64.trie_prefix_axioms eph_demo_rest(3) eph_demo_run_of(1) [OF eph_demo_mid_result(1)] x(1), of 1] x(4) by simp
qed



section \<open>After the insertions\<close>




text \<open>An environment with a hash that is no hash: the first 32 bytes.\<close>

definition eph_demo_env :: "(UInt64Prefix, nat, 16 word) HashEnv" where
  "eph_demo_env = wire_env (\<lambda>d. d) (\<lambda>v. [word_of_nat v])"

lemma eph_demo_tasks: "set [6] \<subseteq> dom (et_nodes eph_demo_trie)"
proof -
  have "\<not> Option.is_none (et_nodes eph_demo_trie 6)" unfolding eph_demo_kvs_def eph_demo_js_def by (simp add: eph_eval)
  then show ?thesis by (auto simp: Option.is_none_def)
qed


section \<open>Proofs\<close>

text \<open>C9: after a run and \<^verbatim>\<open>hash\<close>, \<^verbatim>\<open>make_proof\<close> for a key in the trie succeeds, and \<^verbatim>\<open>verify_proof\<close> accepts the proof
  against the root hash; its first layer holds the serialised value.\<close>

theorem ephemeral_proof_roundtrip:
  assumes "proof_env P pvalid nib B bvset E H" "\<forall>x \<in> set kvs. pvalid (fst x)"
    and "eph_run P F (AtomicTrie_empty P n, eph_threads kvs) order (t, ts)" "all_returned ts" "set tasks \<subseteq> dom (et_nodes t)"
    and "et_hash P B E (Suc (prefix_bits P div 4)) tasks t = Inr (h, t')"
    and "et_get_value P (Suc (prefix_bits P div 4)) t root_addr k = Inr (Some v)" "pvalid k" "\<exists>u. value_from_bytes (copy_data E v []) = Inr u"
  shows "\<exists>pr x xs. make_proof P B E (Suc (prefix_bits P div 4)) t' root_addr k (prefix_bits P) = Inr pr \<and>
    verify_proof P B E value_from_bytes pr h = Inr True \<and>
    proved_prefix pr = k \<and> proof_stack pr = x # xs \<and> pl_len x = prefix_bits P \<and> pl_child_data x = [copy_data E v []]"
  by (rule proof_env.run_proof [where fb = value_from_bytes and v = v, OF assms(1,3,2,4-)])

lemma eph_demo_hashes:
  "\<exists>h t'. et_hash UInt64Prefix_ops word16_ops eph_demo_env (Suc (prefix_bits UInt64Prefix_ops div 4)) [6] eph_demo_trie = Inr (h, t')"
  by (rule u64_hash.run_hashes [OF eph_demo_run(1) _ eph_demo_rest(1) eph_demo_tasks refl]) (auto simp: eph_demo_env_def)

theorem ephemeral_proof_roundtrip_witness:
  "\<exists>h t' pr. et_hash UInt64Prefix_ops word16_ops eph_demo_env (Suc (prefix_bits UInt64Prefix_ops div 4)) [6] eph_demo_trie = Inr (h, t') \<and>
     make_proof UInt64Prefix_ops word16_ops eph_demo_env (Suc (prefix_bits UInt64Prefix_ops div 4)) t' root_addr 0x1000000000000001
       (prefix_bits UInt64Prefix_ops) = Inr pr \<and>
     verify_proof UInt64Prefix_ops word16_ops eph_demo_env (\<lambda>bs. Inr (unat (hd bs))) pr h = Inr True"
proof -
  obtain h t' where h: "et_hash UInt64Prefix_ops word16_ops eph_demo_env (Suc (prefix_bits UInt64Prefix_ops div 4)) [6] eph_demo_trie = Inr (h, t')"
    using eph_demo_hashes by blast
  have "et_get_value UInt64Prefix_ops (Suc (prefix_bits UInt64Prefix_ops div 4)) eph_demo_trie root_addr 0x1000000000000001 = Inr (Some 11)"
    using u64.rest_facts(6) [OF eph_demo_run(1) eph_demo_rest(3,1) refl TrueI] unfolding eph_demo_map by simp
  from ephemeral_proof_roundtrip [OF u64_proof.proof_env_axioms eph_demo_rest(3) eph_demo_run(1) eph_demo_rest(1) eph_demo_tasks h [unfolded eph_demo_env_def] this TrueI,
      of "\<lambda>bs. Inr (unat (hd bs))"]
  show ?thesis using h by (auto simp: eph_demo_env_def)
qed

text \<open>C10: what \<^verbatim>\<open>verify_proof\<close> accepts against the root hash as a proof of a value is in the trie with exactly these bytes, if no other
  string has the hash of what was hashed at a node of the trie.  The proof may come from anywhere.\<close>

theorem ephemeral_proof_sound:
  assumes "proof_env P pvalid nib B bvset E H" "\<forall>x \<in> set kvs. pvalid (fst x)"
    and "eph_run P F (AtomicTrie_empty P n, eph_threads kvs) order (t, ts)" "all_returned ts" "set tasks \<subseteq> dom (et_nodes t)"
    and "et_hash P B E (Suc (prefix_bits P div 4)) tasks t = Inr (h, t')" "no_second_preimage P B E H t"
    and "verify_proof P B E value_from_bytes pr h = Inr True" "pvalid (proved_prefix pr)" "proof_stack pr = x # xs" "pl_len x = prefix_bits P"
  shows "\<exists>v. et_get_value P (Suc (prefix_bits P div 4)) t root_addr (proved_prefix pr) = Inr (Some v) \<and> pl_child_data x = [copy_data E v []]"
  by (rule proof_env.run_proof_sound [OF assms(1,3,2,4-)])

text \<open>A trie with one key, and a hash without second preimages of its two nodes.\<close>

abbreviation "eph_one \<equiv> fst (snd (the (eph_demo_exec [0, 0, 0, 0, 0, 0, 0] [(0x1000000000000001, 5)])))"
abbreviation "eph_one_ts \<equiv> snd (snd (the (eph_demo_exec [0, 0, 0, 0, 0, 0, 0] [(0x1000000000000001, 5)])))"

definition eph_one_leaf :: "byte list" where
  "eph_one_leaf = [0, 64, 16, 0, 0, 0, 0, 0, 0, 1, 5]"

definition eph_one_root :: "byte list" where
  "eph_one_root = [0, 0, 0, 2, 1] @ replicate 31 0"

definition eph_one_H :: "byte list \<Rightarrow> byte list" where
  "eph_one_H d = (if d = eph_one_leaf then [1] else if d = eph_one_root then [2] else [])"

definition eph_one_env :: "(UInt64Prefix, nat, 16 word) HashEnv" where
  "eph_one_env = wire_env eph_one_H (\<lambda>v. [word_of_nat v])"

lemma eph_one_result:
  "map_option (\<lambda>(order, t, ts). (order, map snd ts)) (eph_demo_exec [0, 0, 0, 0, 0, 0, 0] [(0x1000000000000001, 5)]) = Some ([0], [E_Return True])"
  by (simp add: eph_eval)

lemma eph_one_nodes: "\<exists>r l. et_nodes eph_one root_addr = Some r \<and> at_prefix r = 0 \<and> at_prefix_len r = 0 \<and> at_children r = acm_clear(1 := child_word 3 1) \<and>
    et_nodes eph_one 3 = Some l \<and> at_prefix l = 0x1000000000000001 \<and> at_prefix_len l = 64 \<and> et_values eph_one (unat (at_value_pointer l)) = Some 5"
  by (simp add: eph_eval)

lemma eph_one_collision_free: "hash32 eph_one_H d = hash32 eph_one_H e \<Longrightarrow> e = eph_one_leaf \<or> e = eph_one_root \<Longrightarrow> d = e"
proof -
  have "replicate 32 (0 :: byte) = 0 # replicate 31 0" using replicate_Suc [of 31 "0 :: byte"] by simp
  then show "hash32 eph_one_H d = hash32 eph_one_H e \<Longrightarrow> e = eph_one_leaf \<or> e = eph_one_root \<Longrightarrow> d = e"
    by (auto simp: hash32_def eph_one_H_def eph_one_leaf_def eph_one_root_def split: if_splits)
qed

lemma eph_one_digests:
  "write_node_header eph_one_env [] 0x1000000000000001 64 @ copy_data eph_one_env 5 [] = eph_one_leaf"
  "write_node_header eph_one_env [] 0 0 @ bv_write eph_one_env (bv_of_keys word16_ops [1]) [] @ hash32 eph_one_H eph_one_leaf = eph_one_root"
  by code_simp+

lemma eph_one_preimages: "no_second_preimage UInt64Prefix_ops word16_ops eph_one_env (hash32 eph_one_H) eph_one"
  unfolding no_second_preimage_def
proof (intro allI impI ballI)
  fix T U :: "(UInt64Prefix, nat option, EmptyMetadata) TrieNode" and d
  assume T: "rep UInt64Prefix_ops eph_one root_addr T" and U: "U \<in> subtrees T"
    and d: "hash32 eph_one_H d = hash32 eph_one_H (node_digest word16_ops eph_one_env (hash32 eph_one_H) U)"
  obtain r l where rl: "et_nodes eph_one root_addr = Some r" "at_prefix r = 0" "at_prefix_len r = 0" "at_children r = acm_clear(1 := child_word 3 1)"
    "et_nodes eph_one 3 = Some l" "at_prefix l = 0x1000000000000001" "at_prefix_len l = 64" "et_values eph_one (unat (at_value_pointer l)) = Some 5"
    using eph_one_nodes by blast
  have "filter (\<lambda>bb. bb = Suc 0) [0..<16] = [Suc 0]" by code_simp
  then have act: "filter (active r) [0..<16] = [1]" using rl(4) by (simp add: acm_clear_def)
  obtain ch hv m h where T1: "T = TrieNode ch 0 0 hv m h" using T rl(1-3) by (cases T) (auto simp: rep.simps)
  obtain c where T2: "ch = Children [(1, c)]" "rep UInt64Prefix_ops eph_one 3 c"
    using T rl act unfolding T1 by (cases ch) (auto simp: rep.simps at_is_leaf_def eph_u64_eval)
  obtain hv' m' h' where c: "c = TrieNode (Value (Some 5)) 0x1000000000000001 64 hv' m' h'"
    using T2(2) rl(5-8) by (cases c) (auto simp: rep.simps at_is_leaf_def eph_u64_eval split: children_map.splits)
  have leaf: "node_digest word16_ops eph_one_env (hash32 eph_one_H) c = eph_one_leaf" unfolding c using eph_one_digests(1) by simp
  have "node_hash word16_ops (opt_env eph_one_env) (hash32 eph_one_H) c = hash32 eph_one_H eph_one_leaf"
    using u64_proof.ehash_digest [of eph_one_H "\<lambda>v. [word_of_nat v]" c, folded eph_one_env_def] leaf by simp
  then have root: "node_digest word16_ops eph_one_env (hash32 eph_one_H) T = eph_one_root" unfolding T1 T2 using eph_one_digests(2) by simp
  have "U = T \<or> U = c" using U unfolding T1 T2 c by auto
  then have "node_digest word16_ops eph_one_env (hash32 eph_one_H) U \<in> {eph_one_leaf, eph_one_root}" using leaf root by auto
  then show "d = node_digest word16_ops eph_one_env (hash32 eph_one_H) U" using eph_one_collision_free [OF d] by auto
qed

theorem ephemeral_proof_sound_witness:
  "\<exists>h t' pr v. et_hash UInt64Prefix_ops word16_ops eph_one_env (Suc (prefix_bits UInt64Prefix_ops div 4)) [] eph_one = Inr (h, t') \<and>
     verify_proof UInt64Prefix_ops word16_ops eph_one_env (\<lambda>bs. Inr (unat (hd bs))) pr h = Inr True \<and>
     et_get_value UInt64Prefix_ops (Suc (prefix_bits UInt64Prefix_ops div 4)) eph_one root_addr (proved_prefix pr) = Inr (Some v)"
proof -
  note run = eph_demo_run_of [OF eph_one_result]
  have r: "all_returned eph_one_ts" unfolding all_returned_map run(2) by simp
  obtain h t' where h: "et_hash UInt64Prefix_ops word16_ops eph_one_env (Suc (prefix_bits UInt64Prefix_ops div 4)) [] eph_one = Inr (h, t')"
    unfolding eph_one_env_def by (rule u64_hash.run_hashes [OF run(1) _ r _ refl, where tasks = "[]"]) auto
  have get: "et_get_value UInt64Prefix_ops (Suc (prefix_bits UInt64Prefix_ops div 4)) eph_one root_addr 0x1000000000000001 = Inr (Some 5)"
    using u64.rest_facts(6) [OF run(1) _ r refl TrueI, of "0x1000000000000001"] by (simp add: ref_insert_def eph_demo_fn_def)
  obtain pr x xs where pr: "verify_proof UInt64Prefix_ops word16_ops eph_one_env (\<lambda>bs. Inr (unat (hd bs))) pr h = Inr True"
      "proof_stack pr = x # xs" "pl_len x = prefix_bits UInt64Prefix_ops"
    using u64_proof.run_proof [where fb = "\<lambda>bs. Inr (unat (hd bs))", OF run(1) _ r _ h [unfolded eph_one_env_def] get TrueI] unfolding eph_one_env_def by auto
  from ephemeral_proof_sound [OF u64_proof.proof_env_axioms [of eph_one_H "\<lambda>v. [word_of_nat v]", folded eph_one_env_def] _ run(1) r _ h eph_one_preimages pr(1) TrueI pr(2,3)]
  show ?thesis using h pr(1) by auto
qed

section \<open>The allocator\<close>

text \<open>C11: after a reset and any sequence of requests to any number of allocation contexts, including requests that fail because no array is left, the
  slots handed out are all different, none is the null handle, and each leads to an existing array and an offset inside it.\<close>

theorem alloc_fresh:
  assumes "\<forall>r \<in> set rs. request_ok b r" "length rs < 2 ^ 32" "0 < b" "b < 32" "b + n \<le> 32" and s: "s = alloc_run b n rs (alloc_start (reset al))"
  shows "distinct (as_nodes s) \<and> distinct (as_values s) \<and>
    (\<forall>a \<in> set (as_nodes s). a \<noteq> UINT32_MAX \<and> get_slot b (node_pool (as_allocator s)) a = Inr (unat a div 2 ^ b, unat a mod 2 ^ b)) \<and>
    (\<forall>a \<in> set (as_values s). a \<noteq> UINT32_MAX \<and> get_slot b (value_pool (as_allocator s)) a = Inr (unat a div 2 ^ b, unat a mod 2 ^ b))"
proof -
  have "alloc_ok b n (0 + length rs) s" unfolding s by (rule alloc_run_ok [OF alloc_start_ok(2) assms(1) _ assms(3-5)]) (use assms(2) in simp)
  then have ok: "pool_ok b n (0 + length rs) (node_pool (as_allocator s)) (map cur_buffer_offset_and_index (as_contexts s)) (as_nodes s)"
    "pool_ok b n (0 + length rs) (value_pool (as_allocator s)) (map value_buffer_offset_and_index (as_contexts s)) (as_values s)" unfolding alloc_ok_def by blast+
  have b: "b \<le> 32" using assms(4) by simp
  have m: "UINT32_MAX = - 1" by simp
  have "\<forall>a \<in> set (as_nodes s). a \<noteq> - 1 \<and> get_slot b (node_pool (as_allocator s)) a = Inr (unat a div 2 ^ b, unat a mod 2 ^ b)"
    "\<forall>a \<in> set (as_values s). a \<noteq> - 1 \<and> get_slot b (value_pool (as_allocator s)) a = Inr (unat a div 2 ^ b, unat a mod 2 ^ b)"
    using pool_ok_slots(2) [OF ok(1) b] pool_ok_slots(2) [OF ok(2) b] by blast+
  then show ?thesis unfolding m using pool_ok_slots(1) [OF ok(1) b] pool_ok_slots(1) [OF ok(2) b] by blast
qed

definition demo_requests :: "alloc_request list" where
  "demo_requests = [New_Context, Allocate 0 1, New_Context, Allocate 1 2, Allocate 0 1, Allocate 0 1, Allocate 0 1, Allocate_Value 1, New_Context]"

theorem alloc_fresh_witness:
  "as_nodes (alloc_run 2 1 demo_requests (alloc_start (reset empty_allocator))) = [0, 4, 5, 1, 2] \<and>
   distinct (as_nodes (alloc_run 2 1 demo_requests (alloc_start (reset empty_allocator))))"
proof
  show "as_nodes (alloc_run 2 1 demo_requests (alloc_start (reset empty_allocator))) = [0, 4, 5, 1, 2]" by code_simp
  show "distinct (as_nodes (alloc_run 2 1 demo_requests (alloc_start (reset empty_allocator))))"
    by (rule conjunct1 [OF alloc_fresh [OF _ _ _ _ _ refl]]) (simp_all add: demo_requests_def)
qed

end
