(* ===== verification/Spec2Isabelle.thy ===== *)
theory Spec2Isabelle
  imports TrieMachine TrieRanges EphemeralSpec
begin

text \<open>
  A model of the Merkle tries of \<^verbatim>\<open>src/include/mtt\<close>: radix trees with 16 branches per node over fixed-length
  keys, that hash to a commitment to their contents.

  \<^bold>\<open>The program and its model.\<close>

  \<^item> \<^verbatim>\<open>common/prefix.h\<close>: keys as bit strings (\<^verbatim>\<open>UInt64Prefix\<close>, \<^verbatim>\<open>ByteArrayPrefix\<close>), read in groups of four bits.  Theories \<open>Prefix\<close> and
    \<open>ByteArrayPrefix\<close>, on machine words.  The record \<open>TriePrefix\<close> is the C++ concept, the locale \<open>trie_prefix\<close> its
    contract: every operation acts on the list of hexadecimal digits of a key.  Both types are proved to fulfil it, and everything below is proved
    from the contract alone.
  \<^item> \<^verbatim>\<open>trie/children_map.h\<close>: up to 16 children in an array with a bit vector, or a value, in a union.  Theory \<open>ChildrenMap\<close>: the
    representation with its operations (\<open>fcm_\<dots>\<close>), the abstract sorted list (\<open>cm_\<dots>\<close>) the node operations use, and the refinement.  The bit vector
    comes from the \<^verbatim>\<open>utils\<close> submodule: the locale \<open>bit_vector\<close> states its laws; 16-bit words are an instance.
  \<^item> \<^verbatim>\<open>trie/metadata.h\<close>, \<^verbatim>\<open>common/insert_fn.h\<close>, \<^verbatim>\<open>trie/utils.h\<close>: metadata that a node sums over its leaves (size, number of deletion and
    rollback marks, a user part) and the insert and merge callbacks.  Theory \<open>Metadata\<close>; counters keep their widths and wrap.
  \<^item> \<^verbatim>\<open>trie/merkle_trie.h\<close>, class \<^verbatim>\<open>TrieNode\<close>: \<open>TrieNode\<close> (data, lookup, traversals, the invariant \<open>wf_node\<close>), \<open>TrieInsert\<close>
    (\<^verbatim>\<open>_insert\<close>), \<open>TrieMerge\<close> (\<^verbatim>\<open>_merge_in\<close>), \<open>TrieDelete\<close> (deletion, marks, rollback), \<open>TrieHash\<close> (\<^verbatim>\<open>compute_hash\<close> and the
    hash from scratch), \<open>TrieQuery\<close> (ordered queries), \<open>TrieIterator\<close> (iterator, subtree references, metadata traversal),
    \<open>TrieEdit\<close> (split by endowment, stealing, contraction, single-node changes, proofs).  \<open>Canonical\<close>: a map
    has one well-formed trie.  \<open>TrieLeaves\<close>: what insertion and merge do to the metadata of the leaves.
  \<^item> \<^verbatim>\<open>trie/merkle_trie.h\<close>, class \<^verbatim>\<open>MerkleTrie\<close>: \<open>MerkleTrie\<close> (root, cached hash and its flag, all public operations) and
    \<open>TrieMachine\<close> (the inductive relation \<open>mt_reach\<close> between the tries a client can build and their abstract maps).
  \<^item> \<^verbatim>\<open>trie/ranges.h\<close>: the ranges that TBB splits.  \<open>TrieRanges\<close>; how TBB splits and schedules is left open (any strategy, any order).
  \<^item> \<^verbatim>\<open>snapshot_trie/atomic_merkle_trie.h\<close>: the lock-free trie.  \<open>SnapshotTrie\<close>: nodes on a heap, each operation as a step function with a program
    counter, one step per atomic access, and the shape invariant; \<open>SnapshotMachine\<close>: interleaved runs of many threads;
    \<open>SnapshotHash\<close>: hashing with normalisation, deletion and invalidation, which need the trie for themselves, on the tree that \<open>heap_tree\<close> reads off the heap.
  \<^item> \<^verbatim>\<open>ephemeral_trie/\<close>: a lock-free trie on arrays of slots, whose child words hold a 32-bit handle and a 32-bit size.  \<open>EphemeralAlloc\<close>
    (\<^verbatim>\<open>allocator.h\<close>: arrays, contexts, handles), \<open>EphemeralTrie\<close> (\<^verbatim>\<open>atomic_ephemeral_trie.h\<close>: nodes and words at their width, \<^verbatim>\<open>insert\<close> and \<^verbatim>\<open>bump_size\<close>
    as a step function, the machine of many threads), \<open>EphemeralMachine\<close> and \<open>EphemeralRun\<close> (what a step does; every step is one of the
    snapshot trie's or invisible there), \<open>EphemeralSizes\<close> (the counts), \<open>EphemeralLinear\<close> (runs and their order of effects), \<open>EphemeralOps\<close>
    (the operations of a trie at rest), \<open>EphemeralRep\<close> and \<open>EphemeralHash\<close> (these against the tree the arrays represent), \<open>EphemeralCanon\<close> (a trie at rest is
    canonical), \<open>EphemeralProof\<close> (\<^verbatim>\<open>make_proof\<close>, \<^verbatim>\<open>verify_proof\<close>, \<^verbatim>\<open>common/proof.h\<close>), \<open>EphemeralSpec\<close> (the theorems and concrete runs).

  \<^bold>\<open>How the code is rendered.\<close>  A node owns its children, so a subtree is a value and an update returns the new node; every
  \<^verbatim>\<open>throw\<close> is an \<open>Inl\<close> with the message, and a theorem that an operation returns \<open>Inr\<close> says that it does not throw.  Prefix lengths are naturals
  (\<^verbatim>\<open>uint16_t\<close> in the code; lengths of keys are far below \<open>2 ^ 16\<close>).  The recursion of \<^verbatim>\<open>_merge_in\<close> alternates between its arguments and
  carries fuel, the number of nodes of both, which is proved to be enough; the iterator loop has the number of entries as fuel.
  Template parameters become arguments: whether the metadata have a size or deletion marks, the callbacks, the functions applied to values.
  \<^verbatim>\<open>crypto_generichash\<close>, the big-endian writers, the serialisation of values and bit vectors are the record \<open>HashEnv\<close>; \<open>hash_env\<close> assumes that the
  hash function succeeds and that the function applied to values before hashing is idempotent.

  \<^bold>\<open>What the theorems show.\<close>  \<open>wf_node\<close>: every inner node has at least two children, whose prefixes extend its own by the branch
  bits; leaves have full keys.  \<open>root_ok\<close> and \<open>mt_ok\<close> add that metadata are the sums over the leaves, that counters count, and that every hash marked
  valid is right.  \<open>reach_refines\<close> is the invariant and the refinement of the map, \<open>reach_progress\<close> that nothing throws, \<open>hash_of_map\<close> that
  the hash is a function of the unmarked map; the sections below give the behaviour of the single operations.
  For the lock-free trie: no interleaving fails or loops, a finished run is the sequence of its insertions in some order, the hash flags are
  cleared where they must be, and the hash of the trie is a function of the map it stores, so that runs of commuting insertions agree on it
  (\<open>snapshot_runs_agree\<close>, which composes the machine, the reading of the heap, hashing and canonicity).  For the ephemeral trie: insertions are linearizable at every moment (\<open>ephemeral_linear\<close>), the sizes in the
  child words are exact up to the counts still on their way (\<open>ephemeral_sizes\<close>), no step fails (\<open>ephemeral_progress\<close>), the trie at rest is the
  map of the insertions (\<open>ephemeral_rest\<close>) and its hash depends on the map only (\<open>ephemeral_hash_agree\<close>), proofs of membership verify and, unless a second
  preimage is known, only true ones do (\<open>ephemeral_proof_roundtrip\<close>, \<open>ephemeral_proof_sound\<close>), and slots are never handed out twice (\<open>alloc_fresh\<close>).
  Theorems about errors record where the code departs from its intent.

  \<^bold>\<open>Bounds.\<close>  Tries have fewer than \<open>2 ^ 31\<close> keys, since \<^verbatim>\<open>num_deleted_subnodes\<close> is an \<^verbatim>\<open>int32_t\<close>; beyond, the counters wrap.

  The recursive operations of the ephemeral trie follow handles and carry fuel, one more than the number of digits of a key, which is proved to be enough.

  \<^bold>\<open>Not modelled.\<close>  Locks (the operations are sequential; the parallel loops are modelled by arbitrary schedules of their disjoint
  tasks), null pointers, memory, logging, batch merging (\<^verbatim>\<open>BatchMergeRange\<close>), garbage collection, weak memory orders, \<^verbatim>\<open>ephemeral_trie/ranges.h\<close> and the
  parallel loops over it, metadata of the ephemeral trie other than the default, that a failed attempt of its \<^verbatim>\<open>insert\<close> has moved the value away,
  the recycling trie, the layered and the memcached tries, which keep the same data on arenas, copy-on-write versions or disk.
\<close>

section \<open>Concrete tries for the witnesses\<close>

definition demo_leaf :: "64 word \<Rightarrow> nat \<Rightarrow> (64 word, nat, EmptyMetadata CombinedMetadata) TrieNode" where
  "demo_leaf k v = TrieNode (Value v) k 64 False (CombinedMetadata 1 0 0 EmptyMetadata) []"

definition demo_trie :: "(64 word, nat, EmptyMetadata CombinedMetadata) TrieNode" where
  "demo_trie = TrieNode (Children [(1, demo_leaf 0x1000000000000001 5), (2, demo_leaf 0x2000000000000001 7)])
     0 0 False (CombinedMetadata 2 0 0 EmptyMetadata) []"

definition demo_other :: "(64 word, nat, EmptyMetadata CombinedMetadata) TrieNode" where
  "demo_other = TrieNode (Children [(2, demo_leaf 0x2000000000000001 8), (3, demo_leaf 0x3000000000000001 9)])
     0 0 False (CombinedMetadata 2 0 0 EmptyMetadata) []"

definition demo_marked :: "(64 word, nat, EmptyMetadata CombinedMetadata) TrieNode" where
  "demo_marked = TrieNode (Children
       [(1, TrieNode (Value 5) 0x1000000000000001 64 False (CombinedMetadata 1 1 0 EmptyMetadata) []), (2, demo_leaf 0x2000000000000001 7)])
     0 0 False (CombinedMetadata 2 1 0 EmptyMetadata) []"

abbreviation demo_wf :: "(64 word, nat, EmptyMetadata CombinedMetadata) TrieNode \<Rightarrow> bool" where
  "demo_wf \<equiv> wf_node UInt64Prefix_ops (\<lambda>_. True) UInt64_nib 2"

lemma demo_ok: "demo_wf demo_trie" "demo_wf demo_other" "metadata_sum_ok demo_trie" "metadata_sum_ok demo_other"
  "wf_trie UInt64Prefix_ops (\<lambda>_. True) UInt64_nib demo_trie"
proof -
  show "demo_wf demo_trie" "demo_wf demo_other" "metadata_sum_ok demo_trie" "metadata_sum_ok demo_other"
    by code_simp+
  then show "wf_trie UInt64Prefix_ops (\<lambda>_. True) UInt64_nib demo_trie" by (simp add: wf_trie_def)
qed

lemma demo_counts: "counts_ok UInt64Prefix_ops demo_trie" "counts_ok UInt64Prefix_ops demo_marked"
proof -
  have "length (leaves UInt64Prefix_ops demo_trie) = 2" "length (leaves UInt64Prefix_ops demo_marked) = 2"
    "metadata_sum_ok demo_trie" "metadata_sum_ok demo_marked"
    "\<forall>(k, v, m) \<in> set (leaves UInt64Prefix_ops demo_trie). md_size m = 1 \<and> (num_deleted_subnodes m = 0 \<or> num_deleted_subnodes m = 1)"
    "\<forall>(k, v, m) \<in> set (leaves UInt64Prefix_ops demo_marked). md_size m = 1 \<and> (num_deleted_subnodes m = 0 \<or> num_deleted_subnodes m = 1)"
    by code_simp+
  then show "counts_ok UInt64Prefix_ops demo_trie" "counts_ok UInt64Prefix_ops demo_marked" unfolding counts_ok_def by simp_all
qed

lemma demo_lookup: "trie_map UInt64Prefix_ops demo_trie 0x2000000000000001 = Some 7"
  by code_simp

definition demo_insert :: "(64 word, nat, nat, EmptyMetadata CombinedMetadata) InsertFn" where
  "demo_insert = OverwriteInsertFn 0 (metadata_of (\<lambda>_. EmptyMetadata))"

lemma demo_insert_ok: "insert_fn demo_insert"
  "leaf_maker UInt64Prefix_ops demo_insert (\<lambda>_ v. v) (make_value_leaf UInt64Prefix_ops demo_insert)"
  unfolding demo_insert_def by (rule overwrite_insert.insert_fn_axioms make_value_leaf_maker)+

text \<open>A trie built by two insertions, and a hash environment.\<close>

definition demo_env :: "(UInt64Prefix, nat, 16 word) HashEnv" where
  "demo_env = UInt64_hash_env (\<lambda>d. d) (\<lambda>n d. d @ [word_of_nat n]) (\<lambda>w d. d @ [ucast (drop_bit 56 w), ucast w])
     (\<lambda>w d. d @ [ucast w]) (\<lambda>v d. d @ [word_of_nat v])"

definition demo_mt :: "(64 word, nat, EmptyMetadata CombinedMetadata) MerkleTrie" where
  "demo_mt = \<lparr> mt_root = demo_trie, mt_hash_valid = False, mt_root_hash = [] \<rparr>"

definition demo_mt_leaf :: "(64 word, nat, EmptyMetadata CombinedMetadata) MerkleTrie" where
  "demo_mt_leaf = \<lparr> mt_root = demo_leaf 0x1000000000000001 5, mt_hash_valid = False, mt_root_hash = [] \<rparr>"

abbreviation demo_reach :: "(64 word, nat, EmptyMetadata CombinedMetadata) MerkleTrie \<Rightarrow> (64 word \<rightharpoonup> nat \<times> bool) \<Rightarrow> bool" where
  "demo_reach \<equiv> mt_reach UInt64Prefix_ops (\<lambda>_. True) word16_ops demo_env (\<lambda>_. []) 0 (\<lambda>_. EmptyMetadata)"

abbreviation demo_std :: "(64 word, nat, nat, EmptyMetadata CombinedMetadata) InsertFn" where
  "demo_std \<equiv> std_insert 0 (\<lambda>_. EmptyMetadata)"

lemma demo_inserts:
  "MerkleTrie_insert UInt64Prefix_ops demo_std (make_value_leaf UInt64Prefix_ops demo_std) 0x1000000000000001 5
    (MerkleTrie_empty UInt64Prefix_ops 0 []) = Inr demo_mt_leaf"
  "MerkleTrie_insert UInt64Prefix_ops demo_std (make_value_leaf UInt64Prefix_ops demo_std) 0x2000000000000001 7 demo_mt_leaf = Inr demo_mt"
  by code_simp+

lemma demo_reachable:
  "demo_reach demo_mt_leaf [0x1000000000000001 \<mapsto> (5, False)]"
  "demo_reach demo_mt [0x1000000000000001 \<mapsto> (5, False), 0x2000000000000001 \<mapsto> (7, False)]"
proof -
  show l: "demo_reach demo_mt_leaf [0x1000000000000001 \<mapsto> (5, False)]"
    by (rule mt_reach.insert [OF mt_reach.empty _ _ demo_inserts(1)]) simp_all
  show "demo_reach demo_mt [0x1000000000000001 \<mapsto> (5, False), 0x2000000000000001 \<mapsto> (7, False)]"
    by (rule mt_reach.insert [OF l _ _ demo_inserts(2)]) simp_all
qed

lemma demo_hash_env:
  "trie_hash UInt64Prefix_ops (\<lambda>_. True) UInt64_nib word16_ops (\<lambda>w. set (word16_bits w)) demo_env (\<lambda>d. d)"
  "apply_to_value demo_env = id"
  unfolding demo_env_def by (rule u64_hash.trie_hash_axioms) (simp add: UInt64_hash_env_def)

lemmas demo_machine = demo_hash_env demo_reachable(2)

section \<open>The trie as a state machine\<close>





lemma reach_same_hash:
  fixes t u :: "('p, 'v, 'x::ab_group_add CombinedMetadata) MerkleTrie"
  assumes "trie_hash P pvalid nib B bvset E H" "apply_to_value E = id" "mt_reach P pvalid B E be32 dflt ex t s"
    and "mt_reach P pvalid B E be32 dflt ex u r" "live_map s = live_map r"
  shows "\<exists>h t' u' u''. MerkleTrie_hash P B (Some md_size) combined_kind E be32 schedule t = Inr (h, t') \<and>
    MerkleTrie_hash P B (Some md_size) combined_kind E be32 schedule' u = Inr (h, u') \<and>
    serial_hash P B (Some md_size) combined_kind E be32 u = Inr (h, u'')"
proof -
  note t = trie_hash.reach_ok [OF assms(1-3)] and u = trie_hash.reach_ok [OF assms(1,2,4)]
  have ok: "root_ok P pvalid nib (live_hash B E H True (is_live combined_kind)) (mt_root t)"
      "root_ok P pvalid nib (live_hash B E H True (is_live combined_kind)) (mt_root u)" "live_map (store P t) = live_map (store P u)"
    using t u assms(5) by (simp_all add: mt_ok_def)
  note trie_hash.digest_live [OF assms(1) ok, of be32]
  then show ?thesis
    using trie_hash.hash_ok [OF assms(1) conjunct1 [OF t] assms(2), of schedule] trie_hash.hash_ok [OF assms(1) conjunct1 [OF u] assms(2), of schedule']
      trie_hash.hash_ok [OF assms(1) conjunct1 [OF u] assms(2), of "[]"] trie_hash.serial_hash_eq [OF assms(1,2), of "Some md_size" combined_kind be32 u]
    by metis
qed



section \<open>Round trips and the purpose of marks\<close>

text \<open>C15: inserting a new key into a reachable trie and deleting it again gives back the value, the
  abstract map and the trie hash from before.\<close>

theorem insert_delete_roundtrip:
  fixes t :: "('p, 'v, 'x::ab_group_add CombinedMetadata) MerkleTrie"
  assumes "trie_hash P pvalid nib B bvset E H" "apply_to_value E = id" "mt_reach P pvalid B E be32 dflt ex t s"
    and "pvalid key" "s key = None" "card (dom s) + 1 < 2 ^ 31"
  shows "\<exists>t1 t2 h u u2. MerkleTrie_insert P (std_insert dflt ex) (make_value_leaf P (std_insert dflt ex)) key v t = Inr t1 \<and>
    MerkleTrie_perform_deletion P (Some md_size) dflt key t1 = Inr (Some v, t2) \<and> store P t2 = store P t \<and>
    MerkleTrie_hash P B (Some md_size) combined_kind E be32 schedule t = Inr (h, u) \<and>
    MerkleTrie_hash P B (Some md_size) combined_kind E be32 schedule t2 = Inr (h, u2)"
proof -
  note t = trie_hash.reach_ok [OF assms(1-3)]
  obtain t1 where t1: "MerkleTrie_insert P (std_insert dflt ex) (make_value_leaf P (std_insert dflt ex)) key v t = Inr t1"
      "store P t1 = (store P t)(key \<mapsto> (v, False))"
    using trie_hash.store_insert [OF assms(1) conjunct1 [OF t] assms(4)] t assms(6) by blast
  have r1: "mt_reach P pvalid B E be32 dflt ex t1 (s(key \<mapsto> (v, False)))" by (rule mt_reach.insert [OF assms(3,4,6) t1(1)])
  note ok1 = trie_hash.reach_ok [OF assms(1,2) r1]
  obtain t2 where t2: "MerkleTrie_perform_deletion P (Some md_size) dflt key t1 = Inr (Some v, t2)"
      "store P t2 = (store P t1)(key := None)"
    using trie_hash.store_delete [OF assms(1) conjunct1 [OF ok1] assms(4), where dflt = dflt] t1(2) by auto
  have r2: "mt_reach P pvalid B E be32 dflt ex t2 s"
    using mt_reach.delete [OF r1 assms(4) t2(1)] assms(5) by (simp add: fun_upd_idem)
  obtain h u u2 where "MerkleTrie_hash P B (Some md_size) combined_kind E be32 schedule t = Inr (h, u)"
      "MerkleTrie_hash P B (Some md_size) combined_kind E be32 schedule t2 = Inr (h, u2)"
    using reach_same_hash [OF assms(1-3) r2 refl, where schedule = schedule and schedule' = schedule] by blast
  then show ?thesis using t1 t2 t trie_hash.reach_ok [OF assms(1,2) r2] by blast
qed

theorem insert_delete_roundtrip_witness:
  "\<exists>t1 t2. MerkleTrie_insert UInt64Prefix_ops demo_std (make_value_leaf UInt64Prefix_ops demo_std) 3 9 demo_mt = Inr t1 \<and>
    MerkleTrie_perform_deletion UInt64Prefix_ops (Some md_size) 0 3 t1 = Inr (Some 9, t2) \<and>
    store UInt64Prefix_ops t2 = store UInt64Prefix_ops demo_mt"
  using insert_delete_roundtrip [OF demo_machine, where key = 3 and v = 9 and schedule = "[]"] by (auto simp: card_insert_if)

text \<open>Marking an unmarked key of a reachable trie and unmarking it again restores the abstract
  map, both return the value, and the hash is the one from before; in between the key is gone from the hashed map.\<close>

theorem mark_unmark_roundtrip:
  fixes t :: "('p, 'v, 'x::ab_group_add CombinedMetadata) MerkleTrie"
  assumes "trie_hash P pvalid nib B bvset E H" "apply_to_value E = id" "mt_reach P pvalid B E be32 dflt ex t s"
    and "pvalid key" "s key = Some (v, False)"
  shows "\<exists>t1 t2 h u u2. MerkleTrie_mark_for_deletion P key t = Inr (Some v, t1) \<and>
    live_map (store P t1) = (live_map (store P t))(key := None) \<and>
    MerkleTrie_unmark_for_deletion P key t1 = Inr (Some v, t2) \<and> store P t2 = store P t \<and>
    MerkleTrie_hash P B (Some md_size) combined_kind E be32 schedule t = Inr (h, u) \<and>
    MerkleTrie_hash P B (Some md_size) combined_kind E be32 schedule t2 = Inr (h, u2)"
proof -
  note t = trie_hash.reach_ok [OF assms(1-3)]
  obtain t1 where t1: "MerkleTrie_mark_for_deletion P key t = Inr (Some v, t1)" "store P t1 = s(key \<mapsto> (v, True))"
    using trie_hash.mark_ok [OF assms(1) conjunct1 [OF t] assms(4)] t assms(5) by (auto simp: mark_store_def live_map_def)
  have r1: "mt_reach P pvalid B E be32 dflt ex t1 (s(key \<mapsto> (v, True)))"
    using mt_reach.mark [OF assms(3,4) t1(1)] assms(5) by (simp add: mark_store_def)
  obtain t2 where t2: "MerkleTrie_unmark_for_deletion P key t1 = Inr (Some v, t2)"
    using trie_hash.unmark_ok [OF assms(1) conjunct1 [OF trie_hash.reach_ok [OF assms(1,2) r1]] assms(4)] t1(2) by auto
  have r2: "mt_reach P pvalid B E be32 dflt ex t2 s"
    using mt_reach.unmark [OF r1 assms(4) t2] assms(5) by (simp add: mark_store_def fun_upd_idem)
  obtain h u u2 where "MerkleTrie_hash P B (Some md_size) combined_kind E be32 schedule t = Inr (h, u)"
      "MerkleTrie_hash P B (Some md_size) combined_kind E be32 schedule t2 = Inr (h, u2)"
    using reach_same_hash [OF assms(1-3) r2 refl, where schedule = schedule and schedule' = schedule] by blast
  moreover have "live_map (store P t1) = (live_map (store P t))(key := None)" using t1(2) t by (auto simp: live_map_def fun_eq_iff)
  ultimately show ?thesis using t1 t2 t trie_hash.reach_ok [OF assms(1,2) r2] by metis
qed

theorem mark_unmark_roundtrip_witness:
  "\<exists>t1 t2. MerkleTrie_mark_for_deletion UInt64Prefix_ops 0x2000000000000001 demo_mt = Inr (Some 7, t1) \<and>
    MerkleTrie_unmark_for_deletion UInt64Prefix_ops 0x2000000000000001 t1 = Inr (Some 7, t2) \<and>
    store UInt64Prefix_ops t2 = store UInt64Prefix_ops demo_mt"
  using mark_unmark_roundtrip [OF demo_machine, where key = "0x2000000000000001" and v = 7 and schedule = "[]"] by auto

text \<open>C14: removing the marked keys does not change the trie hash: \<^verbatim>\<open>hash\<close> already leaves them out, collapsing
  the nodes that only marked keys kept apart.\<close>

theorem prune_keeps_hash:
  fixes t :: "('p, 'v, 'x::ab_group_add CombinedMetadata) MerkleTrie"
  assumes "trie_hash P pvalid nib B bvset E H" "apply_to_value E = id" "mt_reach P pvalid B E be32 dflt ex t s"
  shows "\<exists>t1 h u u1. MerkleTrie_perform_marked_deletions P dflt (\<lambda>_ _ s. s) t () = Inr (t1, ()) \<and>
    store P t1 = map_option (\<lambda>v. (v, False)) \<circ> live_map s \<and>
    MerkleTrie_hash P B (Some md_size) combined_kind E be32 schedule t = Inr (h, u) \<and>
    MerkleTrie_hash P B (Some md_size) combined_kind E be32 schedule' t1 = Inr (h, u1)"
proof -
  note t = trie_hash.reach_ok [OF assms(1-3)]
  obtain t1 where t1: "MerkleTrie_perform_marked_deletions P dflt (\<lambda>_ _ s. s) t () = Inr (t1, ())"
      "store P t1 = map_option (\<lambda>v. (v, False)) \<circ> live_map s"
    using trie_hash.perform_marked_ok [OF assms(1) conjunct1 [OF t], where dflt = dflt and act = "\<lambda>_ _ s. s" and s = "()"] conjunct2 [OF t] by auto
  have "live_map s = live_map (map_option (\<lambda>v. (v, False)) \<circ> live_map s)"
    by (auto simp: live_map_def fun_eq_iff split: option.split bool.split)
  from reach_same_hash [OF assms mt_reach.prune [OF assms(3) t1(1)] this] show ?thesis using t1 by blast
qed

theorem prune_keeps_hash_witness:
  "\<exists>t1 h u u1. MerkleTrie_perform_marked_deletions UInt64Prefix_ops 0 (\<lambda>_ _ s. s) demo_mt () = Inr (t1, ()) \<and>
    MerkleTrie_hash UInt64Prefix_ops word16_ops (Some md_size) combined_kind demo_env (\<lambda>_. []) [] demo_mt = Inr (h, u) \<and>
    MerkleTrie_hash UInt64Prefix_ops word16_ops (Some md_size) combined_kind demo_env (\<lambda>_. []) [] t1 = Inr (h, u1)"
  using prune_keeps_hash [OF demo_machine, where schedule = "[]" and schedule' = "[]"] by blast

section \<open>Insertion\<close>

text \<open>C12: \<^verbatim>\<open>TrieNode::_insert\<close> never throws on a well-formed trie (the empty one included).  The
  new trie is well formed, maps the key to the inserted value (merged with the
  old one by the callback) and every other key as before; inner nodes still carry the sums of their
  children's metadata, the returned difference is the change at the root, the root's cached hash is
  invalid, and every cached hash that is still marked valid belongs to an unchanged subtree.\<close>

theorem insert_correct:
  fixes t :: "('p, 'v, 'm::ab_group_add) TrieNode"
  assumes "trie_prefix P pvalid nib" "insert_fn I" "leaf_maker P I lv mk" "pvalid key" "wf_trie P pvalid nib t"
  shows "\<exists>t' delta. insert_node P I mk key i t = Inr (t', delta) \<and> wf_node P pvalid nib 2 t' \<and>
    trie_map P t' = (trie_map P t)(key \<mapsto> inserted_value I key i (trie_map P t key)) \<and>
    (metadata_sum_ok t \<longrightarrow> metadata_sum_ok t') \<and>
    ((is_empty_node t \<longrightarrow> tn_metadata t = 0) \<longrightarrow> tn_metadata t' = tn_metadata t + delta) \<and>
    \<not> tn_hash_valid t' \<and> hashed_nodes t' \<subseteq> hashed_nodes t"
  using trie_prefix.insert_trie [OF assms] .

theorem insert_correct_witness:
  "\<exists>t' delta. insert_node UInt64Prefix_ops demo_insert (make_value_leaf UInt64Prefix_ops demo_insert)
      0x2000000000000002 9 demo_trie = Inr (t', delta) \<and> demo_wf t' \<and>
    trie_map UInt64Prefix_ops t' 0x2000000000000002 = Some 9"
  using insert_correct [where key = "0x2000000000000002" and i = 9, OF u64.trie_prefix_axioms demo_insert_ok TrueI demo_ok(5)]
  by (auto simp: inserted_value_def demo_insert_def OverwriteInsertFn_def split: option.splits)

section \<open>Lookup\<close>

text \<open>\<^verbatim>\<open>get_value\<close> returns exactly what the map of the trie holds for the key, and
  \<^verbatim>\<open>contains_key\<close> says whether it holds anything; neither throws.\<close>

theorem get_value_spec:
  assumes "trie_prefix P pvalid nib" "wf_trie P pvalid nib t" "pvalid q"
  shows "get_value P q t = Inr (trie_map P t q) \<and> contains_key P q t = Inr (trie_map P t q \<noteq> None)"
  using trie_prefix.get_value_trie [OF assms] trie_prefix.contains_key_trie [OF assms] by simp

theorem get_value_spec_witness:
  "get_value UInt64Prefix_ops 0x2000000000000001 demo_trie = Inr (trie_map UInt64Prefix_ops demo_trie 0x2000000000000001) \<and>
   contains_key UInt64Prefix_ops 0x2000000000000001 demo_trie = Inr True"
  using get_value_spec [where q = "0x2000000000000001", OF u64.trie_prefix_axioms demo_ok(5) TrueI]
  by (simp add: demo_lookup)

section \<open>Merge\<close>

text \<open>C13: \<^verbatim>\<open>TrieNode::_merge_in\<close>, with any merge callbacks that do not throw on the common keys, returns
  (the fuel given is enough) a well-formed trie whose map is the union of both, a common key
  holding the merged value; metadata sums are kept and the returned difference is the change at the
  root; no stale cached hash survives.\<close>

theorem merge_correct:
  fixes t u :: "('p, 'v, 'm::ab_group_add) TrieNode"
  assumes "trie_prefix P pvalid nib" "merge_fn M" "wf_node P pvalid nib 2 t" "wf_node P pvalid nib 2 u"
    and "mergeable M (trie_map P t) (trie_map P u)"
  shows "\<exists>t' delta. merge_in_node P M t u = Inr (t', delta) \<and> wf_node P pvalid nib 2 t' \<and>
    trie_map P t' = map_merge (value_merge M) (trie_map P t) (trie_map P u) \<and>
    tn_metadata t' = tn_metadata t + delta \<and>
    (metadata_sum_ok t \<longrightarrow> metadata_sum_ok u \<longrightarrow> metadata_sum_ok t') \<and>
    \<not> tn_hash_valid t' \<and> hashed_nodes t' \<subseteq> hashed_nodes t \<union> hashed_nodes u"
  using trie_prefix.merge_in_node_correct [OF assms] unfolding merge_post_def by blast

theorem merge_correct_witness:
  "\<exists>t' delta. merge_in_node UInt64Prefix_ops OverwriteMergeFn demo_trie demo_other = Inr (t', delta) \<and> demo_wf t' \<and>
    trie_map UInt64Prefix_ops t' = trie_map UInt64Prefix_ops demo_trie ++ trie_map UInt64Prefix_ops demo_other"
  using merge_correct [OF u64.trie_prefix_axioms overwrite_merge.merge_fn_axioms demo_ok(1,2) mergeable_overwrite]
  by (auto simp: map_merge_overwrite)

text \<open>With the callbacks that forbid common keys, the merge of two tries without a common key returns the
  union of their maps; no callback runs.\<close>

theorem merge_disjoint:
  fixes t u :: "('p, 'v, 'm::ab_group_add) TrieNode"
  assumes "trie_prefix P pvalid nib" "wf_node P pvalid nib 2 t" "wf_node P pvalid nib 2 u"
    and "dom (trie_map P t) \<inter> dom (trie_map P u) = {}"
  shows "\<exists>t' delta. merge_in_node P NoDuplicateKeysMergeFn t u = Inr (t', delta) \<and> wf_node P pvalid nib 2 t' \<and>
    trie_map P t' = trie_map P t ++ trie_map P u \<and> tn_metadata t' = tn_metadata t + delta"
  using trie_prefix.merge_in_node_correct [OF assms(1) no_duplicates_merge.merge_fn_axioms assms(2,3) iffD2 [OF mergeable_no_duplicates assms(4)]]
    map_merge_disjoint [OF assms(4)]
  unfolding merge_post_def by auto

theorem merge_disjoint_witness:
  "\<exists>t' delta. merge_in_node UInt64Prefix_ops NoDuplicateKeysMergeFn demo_trie (demo_leaf 3 9) = Inr (t', delta) \<and> demo_wf t'"
proof -
  have "demo_wf (demo_leaf 3 9)" by code_simp
  moreover have "dom (trie_map UInt64Prefix_ops demo_trie) \<inter> dom (trie_map UInt64Prefix_ops (demo_leaf 3 9)) = {}"
    by (auto simp: trie_map_def demo_trie_def demo_leaf_def UInt64Prefix_ops_def split: if_splits)
  ultimately show ?thesis using merge_disjoint [OF u64.trie_prefix_axioms demo_ok(1)] by blast
qed

section \<open>Deletion\<close>

text \<open>C16: \<^verbatim>\<open>MerkleTrie::perform_deletion\<close> on any trie that satisfies the invariant returns the value of the key,
  if any, removes that key only (leaves keep their values and metadata), contracts what has one child left, and keeps the invariant.\<close>

theorem delete_correct:
  fixes t :: "('p, 'v, 'x::ab_group_add CombinedMetadata) MerkleTrie"
  assumes "trie_prefix P pvalid nib" "pvalid key" "mt_ok P pvalid nib H be32 f t"
  shows "\<exists>t'. MerkleTrie_perform_deletion P (Some md_size) dflt key t = Inr (trie_map P (mt_root t) key, t') \<and>
    mt_ok P pvalid nib H be32 f t' \<and> map_of (leaves P (mt_root t')) = (map_of (leaves P (mt_root t)))(key := None)"
  by (rule trie_prefix.MerkleTrie_delete_leaves [OF assms])

theorem delete_correct_witness:
  "\<exists>t'. MerkleTrie_perform_deletion UInt64Prefix_ops (Some md_size) 0 0x2000000000000001 demo_mt = Inr (Some 7, t')"
  using delete_correct [where key = "0x2000000000000001" and dflt = 0, OF u64.trie_prefix_axioms TrueI
      conjunct1 [OF trie_hash.reach_ok [OF demo_machine]]]
  by (auto simp: demo_mt_def demo_lookup)

section \<open>Canonical form and hashes\<close>



text \<open>C18: \<^verbatim>\<open>TrieNode::compute_hash\<close>, which skips subtrees whose cached hash is valid, returns a trie whose root hash
  is the hash computed from scratch by the reference definition (children with only marked keys left out, a node with one child left
  replaced by it), with all caches sound; keys, values and metadata stay as they were.\<close>

theorem compute_hash_spec:
  fixes t :: "('p, 'v, 'x::ab_group_add CombinedMetadata) TrieNode"
  assumes "trie_hash P pvalid nib B bvset E H" "wf_node P pvalid nib 2 t" "counts_ok P t"
    and "cache_ok (live_hash B E H True (is_live combined_kind)) t"
  shows "\<exists>t'. compute_hash P B E combined_kind t = Inr t' \<and> tn_hash_valid t' \<and>
    tn_hash t' = live_hash B E H True (is_live combined_kind) t \<and> wf_node P pvalid nib 2 t' \<and>
    cache_ok (live_hash B E H True (is_live combined_kind)) t' \<and> tn_metadata t' = tn_metadata t \<and>
    (apply_to_value E = id \<longrightarrow> leaves P t' = leaves P t)"
proof -
  have "trie_prefix P pvalid nib" using assms(1) by (simp add: trie_hash_def)
  then have "live_ok combined_kind t" using trie_prefix.counts_ok_sound [OF _ assms(2,3)] by blast
  then show ?thesis
    using trie_hash.compute_hash_correct [OF assms(1,2), of combined_kind] assms(4)
    by (auto simp: hash_post_def same_node_def)
qed

theorem compute_hash_spec_witness:
  "\<exists>t'. compute_hash UInt64Prefix_ops word16_ops demo_env combined_kind demo_trie = Inr t' \<and> tn_hash_valid t' \<and>
    tn_hash t' = live_hash word16_ops demo_env (\<lambda>d. d) True (is_live combined_kind) demo_trie"
proof -
  have "hashed_nodes demo_trie = {}" by (simp add: demo_trie_def demo_leaf_def)
  then show ?thesis
    using compute_hash_spec [OF demo_hash_env(1) demo_ok(1) demo_counts(1)] by (auto simp: cache_ok_def)
qed



section \<open>Traversals and queries\<close>





text \<open>\<^verbatim>\<open>endow_lt_key\<close> returns the sum of the endowments of the keys below the threshold, reading whole subtrees
  from their metadata; sums wrap like the counter's type.\<close>

theorem endow_lt_key_sum:
  fixes t :: "('p, 'v, 'm::ab_group_add) TrieNode"
  assumes "trie_prefix P pvalid nib" "\<And>a b. endow (a + b) = endow a + endow b" "endow 0 = 0"
    and "wf_node P pvalid nib 2 t" "metadata_sum_ok t" "pvalid key"
  shows "endow_lt_key P endow key t =
    Inr (sum_list (map (\<lambda>(q, v, m). endow m) (filter (\<lambda>(q, x). prefix_less P q key) (leaves P t))))"
  using trie_prefix.endow_lt_key_leaves [OF assms] by (simp add: case_prod_unfold)

theorem endow_lt_key_sum_witness:
  "endow_lt_key UInt64Prefix_ops md_size 0x2000000000000001 demo_trie = Inr 1"
proof -
  have "md_size (a + b) = md_size a + md_size b" "md_size (0 :: EmptyMetadata CombinedMetadata) = 0"
    for a b :: "EmptyMetadata CombinedMetadata"
    by (simp_all add: plus_CombinedMetadata_def zero_CombinedMetadata_def)
  from endow_lt_key_sum [where key = "0x2000000000000001", OF u64.trie_prefix_axioms this demo_ok(1,3) TrueI]
  show ?thesis by (simp add: demo_trie_def demo_leaf_def UInt64Prefix_ops_def)
qed



text \<open>C23: on a trie that holds a single key the iterator is at its end at once, so a loop over it misses
  the only entry.\<close>

theorem iterator_single_leaf:
  assumes "trie_prefix P pvalid nib" "wf_node P pvalid nib 2 t" "tn_prefix_len t = prefix_bits P"
  shows "iter_at_end (make_iterator P t) \<and> length (entries P t) = 1"
  by (rule trie_prefix.iter_single_leaf [OF assms])

theorem iterator_single_leaf_witness:
  "iter_at_end (make_iterator UInt64Prefix_ops (demo_leaf 3 9)) \<and> length (entries UInt64Prefix_ops (demo_leaf 3 9)) = 1"
  by (rule iterator_single_leaf [OF u64.trie_prefix_axioms]) code_simp+

text \<open>\<^verbatim>\<open>get_subnode_ref_nolocks\<close> never throws; the subtree it returns has a prefix no longer than the query, agrees
  with it, and holds every entry of the trie whose key starts with the query; nothing is returned only when the
  root's own prefix is longer than the query or disagrees with it.\<close>

theorem subnode_ref_covers:
  assumes "trie_prefix P pvalid nib" "pvalid q" "4 * j \<le> prefix_bits P" "wf_node P pvalid nib 2 t"
  shows "\<exists>r. get_subnode_ref P q (4 * j) t = Inr r \<and>
    (case r of None \<Rightarrow> \<not> (tn_prefix_len t \<le> 4 * j \<and> covers nib t q)
     | Some c \<Rightarrow> wf_node P pvalid nib 2 c \<and> tn_prefix_len c \<le> 4 * j \<and> covers nib c q \<and> set (entries P c) \<subseteq> set (entries P t) \<and>
        (\<forall>(key, v) \<in> set (entries P t). take j (nib key) = take j (nib q) \<longrightarrow> (key, v) \<in> set (entries P c)))"
  by (rule trie_prefix.get_subnode_ref_ok [OF assms])

theorem subnode_ref_covers_witness:
  "\<exists>r. get_subnode_ref UInt64Prefix_ops 0x2000000000000001 (4 * 1) demo_trie = Inr r"
  using subnode_ref_covers [where q = "0x2000000000000001" and j = 1, OF u64.trie_prefix_axioms TrueI _ demo_ok(1)]
  by (auto simp: UInt64Prefix_ops_def)

text \<open>\<^verbatim>\<open>metadata_integrity_check\<close> accepts exactly the tries whose inner nodes carry the sums of their
  children's metadata and whose leaves carry the metadata of their values.\<close>

theorem integrity_check_exact:
  fixes t :: "('p, 'v, 'm::ab_group_add) TrieNode"
  assumes "trie_prefix P pvalid nib" "wf_node P pvalid nib 2 t"
  shows "metadata_integrity_check P meta t = Inr (metadata_sum_ok t \<and> (\<forall>(q, v, m) \<in> set (leaves P t). m = meta v))"
  by (rule trie_prefix.metadata_integrity_check_ok [OF assms])

theorem integrity_check_exact_witness:
  "metadata_integrity_check UInt64Prefix_ops (metadata_of (\<lambda>_. EmptyMetadata)) demo_trie = Inr True"
  unfolding integrity_check_exact [OF u64.trie_prefix_axioms demo_ok(1)] by code_simp

text \<open>\<^verbatim>\<open>MerkleTrie::metadata_traversal\<close> returns a list whose last cumulative entry is the total metadata
  of the trie, whatever the query length, up to the length of a key.\<close>

theorem metadata_traversal_sum:
  fixes t :: "('p, 'v, 'm::ab_group_add) MerkleTrie" and g :: "'m \<Rightarrow> 'a::ab_group_add"
  assumes "trie_prefix P pvalid nib" "\<And>a b. g (a + b) = g a + g b" "g 0 = 0" "query_len \<le> prefix_bits P"
    and "wf_node P pvalid nib 2 (mt_root t)" "metadata_sum_ok (mt_root t)"
  shows "\<exists>vec. MerkleTrie_metadata_traversal P key_maker (\<lambda>_. g) query_len t = Inr vec \<and> vec \<noteq> [] \<and>
    snd (last vec) = g (tn_metadata (mt_root t))"
  by (rule trie_prefix.metadata_traversal_result [OF assms])

theorem metadata_traversal_sum_witness:
  "\<exists>vec. MerkleTrie_metadata_traversal UInt64Prefix_ops id (\<lambda>_. md_size) 4 demo_mt = Inr vec \<and> snd (last vec) = 2"
proof -
  have add: "md_size (a + b) = md_size a + md_size b" "md_size (0 :: EmptyMetadata CombinedMetadata) = 0"
    for a b :: "EmptyMetadata CombinedMetadata"
    by (simp_all add: plus_CombinedMetadata_def zero_CombinedMetadata_def)
  have "4 \<le> prefix_bits UInt64Prefix_ops" "demo_wf (mt_root demo_mt)" "metadata_sum_ok (mt_root demo_mt)"
    using demo_ok by (simp_all add: demo_mt_def UInt64Prefix_ops_def)
  from metadata_traversal_sum [where key_maker = id, OF u64.trie_prefix_axioms add this]
  show ?thesis by (auto simp: demo_mt_def demo_trie_def)
qed

section \<open>Parallel loops\<close>

text \<open>C27: \<^verbatim>\<open>accumulate_values_parallel\<close> returns the values in key order, as the sequential traversal does, for every
  way to split the range recursively and every order of the writes; no split and no worker throws.\<close>

theorem accumulate_parallel_eq:
  fixes t :: "('p, 'v, 'x::ab_group_add CombinedMetadata) MerkleTrie"
  assumes "trie_prefix P pvalid nib" "root_ok P pvalid nib f (mt_root t)" "\<And>ws. mset (perm ws) = mset ws"
  shows "accumulate_values_parallel P (Some md_size) s perm dflt t = Inr (map snd (entries P (mt_root t)))"
  by (rule trie_prefix.accumulate_values_parallel_ok [OF assms])

theorem accumulate_parallel_eq_witness:
  "accumulate_values_parallel UInt64Prefix_ops (Some md_size) (Split Run (Split Run Run)) rev 0 demo_mt = Inr [5, 7]"
proof -
  have "root_ok UInt64Prefix_ops (\<lambda>_. True) UInt64_nib (\<lambda>_. []) (mt_root demo_mt)"
    using demo_ok demo_counts by (simp add: root_ok_def demo_mt_def cache_ok_def) (simp add: demo_trie_def demo_leaf_def)
  moreover have "mset (rev ws) = mset ws" for ws :: "(nat \<times> nat) list" by simp
  moreover have "map snd (entries UInt64Prefix_ops (mt_root demo_mt)) = [5, 7]" by code_simp
  ultimately show ?thesis using accumulate_parallel_eq [OF u64.trie_prefix_axioms] by metis
qed

text \<open>\<^verbatim>\<open>parallel_apply\<close> of a function whose applications commute has the effect of the sequential
  traversal, for every way to split the range and every order of the tasks.\<close>

theorem parallel_apply_eq:
  fixes t :: "('p, 'v, 'x::ab_group_add CombinedMetadata) MerkleTrie"
  assumes "trie_prefix P pvalid nib" "root_ok P pvalid nib f (mt_root t)" "\<And>tasks. mset (order tasks) = mset tasks"
    and "\<And>v w. fn v \<circ> fn w = fn w \<circ> fn v"
  shows "parallel_apply P (Some md_size) s order fn t st = Inr (fold fn (map snd (entries P (mt_root t))) st)"
  by (rule trie_prefix.parallel_apply_ok [OF assms])

theorem parallel_apply_eq_witness:
  "parallel_apply UInt64Prefix_ops (Some md_size) (Split Run Run) rev (+) demo_mt 0 = Inr 12"
proof -
  have "root_ok UInt64Prefix_ops (\<lambda>_. True) UInt64_nib (\<lambda>_. []) (mt_root demo_mt)"
    using demo_ok demo_counts by (simp add: root_ok_def demo_mt_def cache_ok_def) (simp add: demo_trie_def demo_leaf_def)
  moreover have "mset (rev ts) = mset ts" for ts :: "(64 word, nat, EmptyMetadata CombinedMetadata) TrieNode list list" by simp
  moreover have "(+) v \<circ> (+) w = (+) w \<circ> (+) v" for v w :: nat by (simp add: fun_eq_iff)
  moreover have "fold (+) (map snd (entries UInt64Prefix_ops (mt_root demo_mt))) 0 = 12" by code_simp
  ultimately show ?thesis using parallel_apply_eq [OF u64.trie_prefix_axioms] by metis
qed

text \<open>However the range of the parallel hash is split, its tasks work on subtrees of the root that hold
  every key exactly once, in order; the branch that drops an empty list is never taken.\<close>

theorem hash_tasks_partition:
  fixes root :: "('p, 'v, 'x::ab_group_add CombinedMetadata) TrieNode"
  assumes "trie_prefix P pvalid nib" "wf_node P pvalid nib 2 root" "counts_ok P root"
  shows "\<exists>rng pns. HashRange_init P (Some md_size) combined_kind root = Inr rng \<and>
    hash_tasks P (Some md_size) combined_kind s rng = Inr pns \<and>
    (\<forall>(path, t) \<in> set pns. path_node path root = Some t \<and> wf_node P pvalid nib 2 t) \<and>
    concat (map (\<lambda>pn. leaves P (snd pn)) pns) = leaves P root"
  by (rule trie_prefix.hash_tasks_root [OF assms])

theorem hash_tasks_partition_witness:
  "\<exists>rng pns. HashRange_init UInt64Prefix_ops (Some md_size) combined_kind demo_trie = Inr rng \<and>
    hash_tasks UInt64Prefix_ops (Some md_size) combined_kind (Split Run Run) rng = Inr pns \<and>
    concat (map (\<lambda>pn. leaves UInt64Prefix_ops (snd pn)) pns) = leaves UInt64Prefix_ops demo_trie"
  using hash_tasks_partition [OF u64.trie_prefix_axioms demo_ok(1) demo_counts(1)] by blast

section \<open>Splitting, stealing, proofs\<close>

definition demo_eleaf :: "64 word \<Rightarrow> int \<Rightarrow> (64 word, nat, int) TrieNode" where
  "demo_eleaf k e = TrieNode (Value 0) k 64 False e []"

definition demo_endow :: "(64 word, nat, int) MerkleTrie" where
  "demo_endow = MerkleTrie_of_root (TrieNode (Children
      [(1, TrieNode (Children [(0, demo_eleaf 0x1000000000000001 5), (1, demo_eleaf 0x1100000000000001 6)]) 0x1000000000000000 4 False 11 []),
       (2, demo_eleaf 0x2000000000000001 7)]) 0 0 False 18 []) []"

lemma demo_endow_ok: "wf_node UInt64Prefix_ops (\<lambda>_. True) UInt64_nib 2 (mt_root demo_endow)" "metadata_sum_ok (mt_root demo_endow)"
  by code_simp+



text \<open>The trie that is split off keeps the inner nodes on the cut, with a single child each, so it is not canonical and its hash
  is not the hash of the map it holds.\<close>

theorem endow_split_single_child:
  "\<exists>out t'. MerkleTrie_endow_split UInt64Prefix_ops id 0 [] 8 demo_endow = Inr (out, t') \<and>
    entries UInt64Prefix_ops (mt_root out) = [(0x1000000000000001, 0)] \<and> single_child (mt_root out) \<and>
    \<not> wf_trie UInt64Prefix_ops (\<lambda>_. True) UInt64_nib (mt_root out)"
proof -
  let ?r = "MerkleTrie_endow_split UInt64Prefix_ops id 0 [] 8 demo_endow"
  have "case ?r of Inl e \<Rightarrow> False | Inr (out, t') \<Rightarrow> entries UInt64Prefix_ops (mt_root out) = [(0x1000000000000001, 0)] \<and> single_child (mt_root out) \<and>
      \<not> wf_trie UInt64Prefix_ops (\<lambda>_. True) UInt64_nib (mt_root out)"
    by code_simp
  then show ?thesis by (auto split: sum.splits)
qed

text \<open>C32: \<^verbatim>\<open>destructive_steal_child\<close>, with which a parallel merge takes over part of a trie, divides the leaves exactly: the stolen subtree
  has those below the given prefix, the node keeps the others, each with its metadata, and the totals are adjusted by the reported difference.  When the whole
  node lies below the prefix it only says so and changes nothing.\<close>

theorem steal_partition:
  fixes t :: "('p, 'v, 'm::ab_group_add) TrieNode"
  assumes "trie_prefix P pvalid nib" "pvalid q" "4 * j \<le> prefix_bits P" "wf_node P pvalid nib 0 t" "metadata_sum_ok t"
  shows "\<exists>entire delta ptr t'. destructive_steal_child P q (4 * j) t = Inr (entire, delta, ptr, t') \<and>
    (if entire then t' = t \<and> ptr = None \<and> delta = tn_metadata t \<and> (\<forall>(k, v, m) \<in> set (leaves P t). take j (nib k) = take j (nib q))
     else leaves P t' = filter (\<lambda>(k, v, m). take j (nib k) \<noteq> take j (nib q)) (leaves P t) \<and>
       (case ptr of None \<Rightarrow> [] | Some x \<Rightarrow> leaves P x) = filter (\<lambda>(k, v, m). take j (nib k) = take j (nib q)) (leaves P t) \<and>
       wf_node P pvalid nib 0 t' \<and> metadata_sum_ok t' \<and> tn_metadata t' = tn_metadata t - delta \<and>
       (\<forall>x. ptr = Some x \<longrightarrow> wf_node P pvalid nib 0 x \<and> metadata_sum_ok x \<and> delta = tn_metadata x))"
proof -
  have eq: "trie_prefix.below_prefix nib j q = (\<lambda>(k, v, m). take j (nib k) = take j (nib q))"
    by (simp add: fun_eq_iff trie_prefix.below_prefix_def [OF assms(1)])
  have ne: "Not \<circ> (\<lambda>(k, v, m). take j (nib k) = take j (nib q)) = (\<lambda>(k, v, m). take j (nib k) \<noteq> take j (nib q))" by (simp add: fun_eq_iff)
  obtain entire delta ptr t' where st: "destructive_steal_child P q (4 * j) t = Inr (entire, delta, ptr, t')"
      "trie_prefix.steal_post P pvalid nib j q t entire delta ptr t'"
    using trie_prefix.steal_correct [OF assms(1-4)] by blast
  show ?thesis
    by (rule exI [of _ entire], rule exI [of _ delta], rule exI [of _ ptr], rule exI [of _ t'])
      (use st assms(5) in \<open>auto simp: trie_prefix.steal_post_def [OF assms(1)] eq ne filter_id_conv\<close>)
qed

theorem steal_partition_witness:
  "\<exists>entire delta ptr t'. destructive_steal_child UInt64Prefix_ops 0x1100000000000000 (4 * 2) (mt_root demo_endow) = Inr (entire, delta, ptr, t')"
proof -
  have "wf_node UInt64Prefix_ops (\<lambda>_. True) UInt64_nib 0 (mt_root demo_endow)" by code_simp
  from steal_partition [where q = "0x1100000000000000" and j = 2, OF u64.trie_prefix_axioms _ _ this demo_endow_ok(2)]
  show ?thesis by (auto simp: UInt64Prefix_ops_def)
qed




text \<open>Both \<^verbatim>\<open>create_proof\<close> and \<^verbatim>\<open>modify_value_nolocks\<close> take the leaf they reach for the queried key, without a comparison.\<close>

theorem proof_of_absent_key:
  "trie_map UInt64Prefix_ops demo_trie 0x2222222222222222 = None \<and>
   map_sum id membership_flag (generate_proof UInt64Prefix_ops word16_ops demo_env (Some md_size) (\<lambda>_. []) 0 0x2222222222222222 demo_mt) = Inr 1"
  by code_simp

theorem modify_absent_key:
  "trie_map UInt64Prefix_ops demo_trie 0x2222222222222222 = None \<and>
   map_sum id (\<lambda>t. trie_map UInt64Prefix_ops t 0x2000000000000001) (modify_value_nolocks UInt64Prefix_ops Suc 0x2222222222222222 demo_trie) = Inr (Some 8)"
  by code_simp

section \<open>The lock-free trie\<close>

definition demo_fns :: "(nat, nat) AmtFns" where
  "demo_fns = \<lparr> mk_value = (\<lambda>x. x), merge_value = (+) \<rparr>"

text \<open>Two insertions that race for the same slot, and a third thread that asks for the node above both keys.\<close>

definition demo_acts :: "(64 word, nat) amt_op list" where
  "demo_acts = [Insert 0x1000000000000001 5, Insert 0x1100000000000001 7, Subnode 0x1000000000000000 4]"

definition demo_sched :: "(nat \<times> nat) list" where
  "demo_sched = [(0, 9), (0, 9), (1, 9), (1, 9), (0, 1), (1, 9), (1, 2), (2, 9), (1, 9), (2, 9), (1, 9), (2, 9), (1, 3), (2, 9)]"

definition demo_heap :: "(64 word, nat, nat) node_heap" where
  "demo_heap = [0 \<mapsto> amt_root UInt64Prefix_ops]"

definition demo_final :: "(64 word, nat, nat) node_heap \<times> ((64 word, nat) amt_op \<times> amt_pc) list" where
  "demo_final = the (amt_exec UInt64Prefix_ops demo_fns demo_sched (demo_heap, amt_threads 0 demo_acts))"

lemma demo_final_pcs: "map snd (snd demo_final) = [Return None, Return None, Return (Some 2)]"
  unfolding demo_final_def by code_simp

lemma demo_exec: "amt_exec UInt64Prefix_ops demo_fns demo_sched (demo_heap, amt_threads 0 demo_acts) = Some (fst demo_final, snd demo_final)"
proof -
  have "amt_exec UInt64Prefix_ops demo_fns demo_sched (demo_heap, amt_threads 0 demo_acts) \<noteq> None" by code_simp
  then show ?thesis by (auto simp: demo_final_def)
qed

lemma demo_run:
  "amt_run UInt64Prefix_ops demo_fns (demo_heap, amt_threads 0 demo_acts) (map fst demo_sched) (fst demo_final, snd demo_final)"
  "heap_ok UInt64Prefix_ops (\<lambda>_. True) UInt64_nib 0 demo_heap"
  "\<And>act. act \<in> set demo_acts \<Longrightarrow> op_ok UInt64Prefix_ops (\<lambda>_. True) act"
  "\<And>i. i < length (snd demo_final) \<Longrightarrow> returned (snd demo_final) i"
proof -
  show "amt_run UInt64Prefix_ops demo_fns (demo_heap, amt_threads 0 demo_acts) (map fst demo_sched) (fst demo_final, snd demo_final)"
    by (rule exec_run [OF demo_exec])
  show "heap_ok UInt64Prefix_ops (\<lambda>_. True) UInt64_nib 0 demo_heap" unfolding demo_heap_def by (rule u64.root_ok)
  show "op_ok UInt64Prefix_ops (\<lambda>_. True) act" if "act \<in> set demo_acts" for act
    using that by (auto simp: demo_acts_def UInt64Prefix_ops_def)
  have "list_all (\<lambda>x. x \<in> range Return) (map snd (snd demo_final))" unfolding demo_final_pcs by simp
  then show "returned (snd demo_final) i" if "i < length (snd demo_final)" for i
    using that by (simp add: returned_iff list_all_length)
qed

text \<open>C34: threads that insert and ask for subtrees of a well-formed \<^verbatim>\<open>AtomicMerkleTrie\<close> concurrently never fail an assertion,
  never follow a dangling pointer and never get stuck, however they are scheduled: as long as one of them has not returned it can take a
  step.  And they cannot go on forever, although a compare-and-swap may fail: \<open>T\<close> threads on keys of \<open>D\<close> digits take at most
  \<open>T ((T + 4) D + 3)\<close> steps together.\<close>

theorem snapshot_ends:
  assumes "trie_prefix P pvalid nib" "heap_ok P pvalid nib root h" "\<And>act. act \<in> set acts \<Longrightarrow> op_ok P pvalid act"
    and "amt_run P F (h, amt_threads root acts) sched (h', ts)"
  shows "length sched \<le> length acts * ((length acts + 4) * (prefix_bits P div 4) + 3) \<and>
    (\<forall>i < length ts. returned ts i \<or> (\<exists>s'. amt_step P F (h', ts) i s'))"
  using trie_prefix.run_result [OF assms] by blast

theorem snapshot_ends_witness:
  "length (map fst demo_sched) \<le> 3 * ((3 + 4) * 16 + 3)"
  using snapshot_ends [OF u64.trie_prefix_axioms demo_run(2,3,1)] by (simp add: demo_acts_def UInt64Prefix_ops_def)



text \<open>C36: after any number of steps of any interleaving the trie is well formed: each child extends the prefix of its parent by the digit of its
  slot, no prefix has two nodes, and every node lies on the pointer path towards all nodes that extend it.  A thread that asked for a subtree
  got a node with exactly the queried prefix, and concurrent splits never take it out of the trie.\<close>

theorem snapshot_shape:
  assumes "trie_prefix P pvalid nib" "heap_ok P pvalid nib root h" "\<And>act. act \<in> set acts \<Longrightarrow> op_ok P pvalid act"
    and "amt_run P F (h, amt_threads root acts) sched (h', ts)"
  shows "heap_ok P pvalid nib root h' \<and> map fst ts = acts \<and>
    (\<forall>q len a. (Subnode q len, Return (Some a)) \<in> set ts \<longrightarrow> (\<exists>n. h' a = Some n \<and> cn_path nib n = take (len div 4) (nib q)))"
  using trie_prefix.run_result [OF assms] by blast

theorem snapshot_shape_witness:
  "heap_ok UInt64Prefix_ops (\<lambda>_. True) UInt64_nib 0 (fst demo_final) \<and> map fst (snd demo_final) = demo_acts"
  using snapshot_shape [OF u64.trie_prefix_axioms demo_run(2,3,1)] by blast

text \<open>C37: a node that still has its hash flag set after a run of insertions has no key below it that was inserted in the run,
  so its cached hash is not stale: each insertion clears the flags of all nodes above its key, those created by concurrent splits included.\<close>

theorem snapshot_flags:
  assumes "trie_prefix P pvalid nib" "heap_ok P pvalid nib root h" "\<And>act. act \<in> set acts \<Longrightarrow> op_ok P pvalid act"
    and "amt_run P F (h, amt_threads root acts) sched (h', ts)" "(Insert key args, Return r) \<in> set ts"
    and "h' a = Some n" "cn_hash_valid n"
  shows "\<not> prefix (cn_path nib n) (nib key)"
  by (rule trie_prefix.run_flags [OF assms])

definition demo_flagged :: "(64 word, nat, nat) node_heap" where
  "demo_flagged = (\<lambda>a. map_option (\<lambda>n. n\<lparr>cn_hash_valid := True\<rparr>) (fst demo_final a))"

definition demo_final2 :: "(64 word, nat, nat) node_heap \<times> ((64 word, nat) amt_op \<times> amt_pc) list" where
  "demo_final2 = the (amt_exec UInt64Prefix_ops demo_fns [(0, 9), (0, 9), (0, 4)] (demo_flagged, amt_threads 0 [Insert 0x2000000000000001 9]))"

lemma demo_run2: "amt_run UInt64Prefix_ops demo_fns (demo_flagged, amt_threads 0 [Insert 0x2000000000000001 9]) [0, 0, 0] (fst demo_final2, snd demo_final2)"
proof -
  have "amt_exec UInt64Prefix_ops demo_fns [(0, 9), (0, 9), (0, 4)] (demo_flagged, amt_threads 0 [Insert 0x2000000000000001 9]) \<noteq> None" by code_simp
  then have "amt_exec UInt64Prefix_ops demo_fns [(0, 9), (0, 9), (0, 4)] (demo_flagged, amt_threads 0 [Insert 0x2000000000000001 9]) =
      Some (fst demo_final2, snd demo_final2)"
    by (auto simp: demo_final2_def)
  from exec_run [OF this] show ?thesis by simp
qed

theorem snapshot_flags_witness:
  "\<exists>n. fst demo_final2 2 = Some n \<and> cn_hash_valid n \<and> \<not> prefix (cn_path UInt64_nib n) (UInt64_nib 0x2000000000000001)"
proof -
  have "map_option cn_hash_valid (fst demo_final2 2) = Some True" by code_simp
  then obtain n where n: "fst demo_final2 2 = Some n" "cn_hash_valid n" by auto
  have ts: "snd demo_final2 = [(Insert 0x2000000000000001 9, Return None)]" by code_simp
  have "heap_ok UInt64Prefix_ops (\<lambda>_. True) UInt64_nib 0 (fst demo_final)"
    by (rule u64.run_result(1) [OF demo_run(2,3,1)])
  then have "heap_ok UInt64Prefix_ops (\<lambda>_. True) UInt64_nib 0 demo_flagged" unfolding demo_flagged_def by (rule u64.hok_flags)
  from snapshot_flags [OF u64.trie_prefix_axioms this _ demo_run2 _ n] show ?thesis using n ts by simp
qed

definition demo_snap_env :: "(nat, nat) SnapEnv" where
  "demo_snap_env = snap_env (\<lambda>v. v \<noteq> 0) (\<lambda>_. 1) (\<lambda>n. [word_of_nat n])"

definition demo_snap_tree :: "(64 word, nat, nat) snap_tree" where
  "demo_snap_tree = projr (heap_tree UInt64Prefix_ops (Suc (prefix_bits UInt64Prefix_ops div 4)) (fst demo_final) 0)"

lemma demo_snap_hash: "snapshot_hash UInt64Prefix_ops (\<lambda>_. True) UInt64_nib word16_ops (\<lambda>w. set (word16_bits w)) demo_env (\<lambda>d. d) demo_snap_env"
  unfolding demo_env_def demo_snap_env_def by (rule u64_snap.snapshot_hash_axioms)

lemma demo_snap_ok:
  "snap_ok UInt64Prefix_ops (\<lambda>_. True) UInt64_nib word16_ops demo_env (\<lambda>d. d) demo_snap_env demo_snap_tree" "tn_prefix_len demo_snap_tree = 0"
proof -
  note run = u64.run_result(1) [OF demo_run(2,3,1)]
  have "\<forall>a n. demo_heap a = Some n \<longrightarrow> \<not> cn_hash_valid n" by (simp add: demo_heap_def amt_root_def)
  note flags = u64.run_unflagged [OF demo_run(2) this demo_run(3,1)]
  have "vals_are (\<lambda>_. True) UInt64_nib demo_heap Map.empty" unfolding demo_heap_def by (rule u64.root_vals)
  moreover have "\<not> returned (amt_threads 0 demo_acts) i" if "i < length (amt_threads 0 demo_acts)" for i
    using that by (auto simp: amt_threads_def returned_iff)
  ultimately obtain m where m: "vals_are (\<lambda>_. True) UInt64_nib (fst demo_final) m"
    using u64.run_linear [OF u64.start_ok [OF demo_run(2,3)] _ demo_run(1)] by fastforce
  from snapshot_hash.heap_hash [OF demo_snap_hash run _ m] flags
  show "snap_ok UInt64Prefix_ops (\<lambda>_. True) UInt64_nib word16_ops demo_env (\<lambda>d. d) demo_snap_env demo_snap_tree" "tn_prefix_len demo_snap_tree = 0"
    by (auto simp: demo_snap_tree_def)
qed

text \<open>C39: \<^verbatim>\<open>hash_and_normalize\<close> on a trie whose valid flags are right never fails an assertion.  It drops exactly the leaves without a
  logical value and the inner nodes with fewer than two children, keeps all other entries, sums their metadata at the root, and returns the hash
  of the resulting trie; afterwards every node below the root has a valid, correct hash, so that the next call only recomputes what changed.\<close>

theorem snapshot_hash_correct:
  fixes t :: "('p, 'v, 'm::monoid_add) snap_tree"
  assumes "snapshot_hash P pvalid nib B bvset E H S" "snap_ok P pvalid nib B E H S t" "tn_prefix_len t = 0"
  shows "\<exists>t'. hash_and_normalize P B E S t = Inr (snap_hash B E H S t', t') \<and> wf_open P pvalid nib 0 t' \<and> snap_cached B E H S t' \<and>
    snap_ok P pvalid nib B E H S t' \<and> entries P t' = live_entries P S t \<and> tn_metadata t' = entries_md S (live_entries P S t)"
  using snapshot_hash.root_hash [OF assms] by blast

theorem snapshot_hash_correct_witness:
  "\<exists>h t'. hash_and_normalize UInt64Prefix_ops word16_ops demo_env demo_snap_env demo_snap_tree = Inr (h, t') \<and>
    entries UInt64Prefix_ops t' = [(0x1000000000000001, Some 5), (0x1100000000000001, Some 7)] \<and> tn_metadata t' = 2"
proof -
  have "live_entries UInt64Prefix_ops demo_snap_env demo_snap_tree = [(0x1000000000000001, Some 5), (0x1100000000000001, Some 7)]" by code_simp
  then show ?thesis using snapshot_hash_correct [OF demo_snap_hash demo_snap_ok] by (auto simp: entries_md_def demo_snap_env_def snap_env_def)
qed







text \<open>C40: \<^verbatim>\<open>delete_value\<close> on an inner node removes exactly the entry of a key that has a leaf and keeps the cached hashes sound, so
  that the next hash is that of the remaining entries; a key without a leaf fails an assertion.\<close>

theorem snapshot_delete:
  fixes t :: "('p, 'v, 'm::monoid_add) snap_tree"
  assumes "snapshot_hash P pvalid nib B bvset E H S" "snap_ok P pvalid nib B E H S t" "pvalid key" "tn_prefix_len t < prefix_bits P"
  shows "case trie_map P t key of
      None \<Rightarrow> delete_value P key t \<in> {throw ''mismatch'', throw ''must exist''}
    | Some v \<Rightarrow> \<exists>t'. delete_value P key t = Inr t' \<and> snap_ok P pvalid nib B E H S t' \<and> tn_prefix_len t' = tn_prefix_len t \<and>
        entries P t' = filter (\<lambda>(q, v). q \<noteq> key) (entries P t)"
  by (rule snapshot_hash.delete_ok [OF assms])

theorem snapshot_delete_witness:
  "\<exists>t'. delete_value UInt64Prefix_ops 0x1100000000000001 demo_snap_tree = Inr t' \<and> entries UInt64Prefix_ops t' = [(0x1000000000000001, Some 5)]"
proof -
  have "trie_map UInt64Prefix_ops demo_snap_tree 0x1100000000000001 = Some (Some 7)"
    "filter (\<lambda>(q, v). q \<noteq> 0x1100000000000001) (entries UInt64Prefix_ops demo_snap_tree) = [(0x1000000000000001, Some 5)]" by code_simp+
  then show ?thesis
    using snapshot_delete [OF demo_snap_hash demo_snap_ok(1), of "0x1100000000000001"] demo_snap_ok(2) u64.bits_pos by auto
qed

text \<open>\<^verbatim>\<open>invalidate_hash_to_key\<close> of a key that has a leaf clears the flag of every node above it, changes no entry
  and leaves no flag set whose hash is wrong.\<close>

theorem snapshot_invalidate:
  fixes t :: "('p, 'v, 'm::monoid_add) snap_tree"
  assumes "snapshot_hash P pvalid nib B bvset E H S" "snap_ok P pvalid nib B E H S t" "pvalid key" "trie_map P t key \<noteq> None"
  shows "\<exists>t'. snap_invalidate_to_key P key t = Inr t' \<and> snap_ok P pvalid nib B E H S t' \<and> entries P t' = entries P t \<and>
    (\<forall>x \<in> hashed_nodes t'. \<not> covers nib x key)"
  by (rule snapshot_hash.invalidate_key_ok [OF assms])

theorem snapshot_invalidate_witness:
  "\<exists>h t' t2. hash_and_normalize UInt64Prefix_ops word16_ops demo_env demo_snap_env demo_snap_tree = Inr (h, t') \<and>
    snap_invalidate_to_key UInt64Prefix_ops 0x1100000000000001 t' = Inr t2 \<and> (\<forall>x \<in> hashed_nodes t2. \<not> covers UInt64_nib x 0x1100000000000001)"
proof -
  obtain h t' where t': "hash_and_normalize UInt64Prefix_ops word16_ops demo_env demo_snap_env demo_snap_tree = Inr (h, t')"
      "snap_ok UInt64Prefix_ops (\<lambda>_. True) UInt64_nib word16_ops demo_env (\<lambda>d. d) demo_snap_env t'"
      "entries UInt64Prefix_ops t' = live_entries UInt64Prefix_ops demo_snap_env demo_snap_tree"
    using snapshot_hash.root_hash [OF demo_snap_hash demo_snap_ok] by blast
  have "map_of (live_entries UInt64Prefix_ops demo_snap_env demo_snap_tree) 0x1100000000000001 = Some (Some 7)" by code_simp
  then have "trie_map UInt64Prefix_ops t' 0x1100000000000001 \<noteq> None" by (simp add: trie_map_def t'(3))
  then show ?thesis using snapshot_invalidate [OF demo_snap_hash t'(2), of "0x1100000000000001"] t'(1) by blast
qed

section \<open>Keys and children\<close>

text \<open>C25: \<^verbatim>\<open>UInt64Prefix\<close> fulfils the contract the trie relies on: its bit operations (branch bits, match length by
  counting leading zeros, truncation, comparison) act as operations on the list of its 16 hexadecimal digits.\<close>

theorem UInt64Prefix_contract: "trie_prefix UInt64Prefix_ops (\<lambda>_. True) UInt64_nib"
  by (rule u64.trie_prefix_axioms)



text \<open>C28: a \<^verbatim>\<open>ByteArrayPrefix\<close> built from \<open>n\<close> bytes gives back these bytes, and one built from the bytes of a
  valid prefix is that prefix.\<close>

theorem ByteArray_roundtrip:
  assumes "length input = n" "ByteArray_valid n data"
  shows "ByteArray_get_bytes_array n (ByteArray_from_bytes n input) = input \<and>
    ByteArray_valid n (ByteArray_from_bytes n input) \<and>
    ByteArray_from_bytes n (ByteArray_get_bytes_array n data) = data"
  using ByteArray_bytes_from_bytes [OF assms(1)] ByteArray_from_bytes_valid ByteArray_from_bytes_bytes [OF assms(2)] by simp

theorem ByteArray_roundtrip_witness:
  "ByteArray_get_bytes_array 3 (ByteArray_from_bytes 3 [1, 2, 255]) = [1, 2, 255]"
  using ByteArray_roundtrip [OF _ ByteArray_from_bytes_valid, of "[1, 2, 255]" 3 "[]"] by simp

text \<open>\<^verbatim>\<open>set_next_branch_bits\<close> puts the branch bits behind the given prefix in both key types; \<^verbatim>\<open>UInt64Prefix\<close> keeps the
  digits that follow.\<close>

theorem next_branch_bits:
  fixes bb :: byte
  assumes "i < 16" "unat bb < 16" "ByteArray_valid n data" "4 * j < 8 * n"
  shows "UInt64_nib (UInt64_set_next_branch_bits w (4 * i) bb) = (UInt64_nib w)[i := unat bb] \<and>
    (\<exists>q. ByteArray_set_next_branch_bits n data (4 * j) bb = Inr q \<and> ByteArray_valid n q \<and>
      take (Suc j) (ByteArray_nib n q) = take j (ByteArray_nib n data) @ [unat bb])"
  using UInt64_set_next_nib [OF assms(1,2)] ByteArray_set_next_nib [OF assms(3,4,2)] by simp

theorem next_branch_bits_witness:
  "UInt64_nib (UInt64_set_next_branch_bits 0 (4 * 2) 5) = (UInt64_nib 0)[2 := 5]"
  using next_branch_bits [where i = 2 and bb = 5 and w = 0 and j = 0, OF _ _ ByteArray_from_bytes_valid, of 1] by simp

text \<open>C24: the optimised \<^verbatim>\<open>FixedChildrenMap\<close> (an array of pointers, a bit vector and a union with the value)
  refines the sorted association list that the node operations use: lookup, insertion, removal, size and iteration commute with the abstraction, the
  errors included, and keep its representation invariant.\<close>

theorem children_map_refines:
  assumes "bit_vector B bvset" "fcm_inv bvset m" "b < 16"
  shows "map_sum id (fcm_abs bvset) (fcm_emplace B m b n) = cm_emplace (fcm_abs bvset m) b n \<and>
    map_sum id (\<lambda>(out, m'). (the out, fcm_abs bvset m')) (fcm_extract B m b) = cm_extract (fcm_abs bvset m) b \<and>
    map_sum id (fcm_abs bvset) (fcm_erase B m b) = cm_erase (fcm_abs bvset m) b \<and>
    (case fcm_find B m b of None \<Rightarrow> cm_find (fcm_abs bvset m) b = None
     | Some it \<Rightarrow> fcm_deref B m it = (b, cm_find (fcm_abs bvset m) b) \<and> cm_find (fcm_abs bvset m) b \<noteq> None) \<and>
    fcm_list B m = map (\<lambda>(b, n). (b, Some n)) (cm_list (fcm_abs bvset m)) \<and> fcm_size B m = cm_size (fcm_abs bvset m) \<and>
    (\<forall>m'. fcm_emplace B m b n = Inr m' \<longrightarrow> fcm_inv bvset m') \<and> (\<forall>m'. fcm_erase B m b = Inr m' \<longrightarrow> fcm_inv bvset m') \<and>
    (\<forall>out m'. fcm_extract B m b = Inr (out, m') \<longrightarrow> fcm_inv bvset m')"
  using bit_vector.fcm_emplace_abs [OF assms] bit_vector.fcm_extract_abs [OF assms] bit_vector.fcm_erase_abs [OF assms]
    bit_vector.fcm_find_abs [OF assms] bit_vector.fcm_list_abs [OF assms(1,2)] bit_vector.fcm_size_abs [OF assms(1,2)]
  by blast

theorem children_map_refines_witness:
  "map_sum id (fcm_abs (\<lambda>w. set (word16_bits w)))
     (fcm_emplace word16_ops (fcm_clear word16_ops (fcm_of_value word16_ops (\<lambda>_. None) (3 :: nat))) 7 (9 :: nat)) = Inr (Children [(7, 9)])"
  using children_map_refines [where b = 7 and n = "9 :: nat" and m = "fcm_clear word16_ops (fcm_of_value word16_ops (\<lambda>_. None) (3 :: nat))",
      OF word16.bit_vector_axioms word16.fcm_init_abs(4)]
  by (simp add: word16.fcm_init_abs)

section \<open>Rollback and clearing\<close>

text \<open>\<^verbatim>\<open>TrieNode::do_rollback\<close> removes exactly the leaves with the rollback flag, keeps the metadata sums, and reports
  whether nothing is left together with the change of the metadata.\<close>

theorem rollback_correct:
  fixes t :: "('p, 'v, 'x::ab_group_add CombinedMetadata) TrieNode"
  assumes "trie_prefix P pvalid nib" "wf_node P pvalid nib 2 t" "metadata_sum_ok t"
    and "\<forall>(k, v, m) \<in> set (leaves P t). num_rollback_subnodes m = 0 \<or> num_rollback_subnodes m = 1"
    and "length (leaves P t) < 2 ^ 32"
  shows "\<exists>del delta t'. do_rollback P t = Inr (del, delta, t') \<and>
    (if del then (\<forall>(k, v, m) \<in> set (leaves P t). num_rollback_subnodes m \<noteq> 0) \<and> delta = - tn_metadata t
     else leaves P t' = filter (\<lambda>(k, v, m). num_rollback_subnodes m = 0) (leaves P t) \<and>
       tn_metadata t' = tn_metadata t + delta \<and> metadata_sum_ok t' \<and> hashed_nodes t' \<subseteq> hashed_nodes t)"
proof -
  obtain del delta t' where r: "prune_node P num_rollback_subnodes (\<lambda>n. 1 <s n) ''can't have num rollback subnodes > 1 at leaf'' (\<lambda>prefix ch s. Inr s) t () =
      Inr (del, delta, t', ())" and post: "cut_post P pvalid nib (\<lambda>(k, v, m). num_rollback_subnodes m = 0) t del delta t'"
    using trie_prefix.prune_node_correct [OF assms(1) rollback_counter.counter_axioms _ assms(2-5),
        where act = "\<lambda>_ _ s. s" and s = "()" and leaf_action = "\<lambda>prefix ch s. Inr s" and bad = "\<lambda>n. 1 <s n"
          and msg = "''can't have num rollback subnodes > 1 at leaf''"]
    by (auto simp: prune_post_def)
  then show ?thesis by (auto simp: do_rollback_def cut_post_def filter_empty_conv)
qed

theorem rollback_correct_witness:
  "\<exists>del delta t'. do_rollback UInt64Prefix_ops demo_trie = Inr (del, delta, t')"
proof -
  have "\<forall>(k, v, m) \<in> set (leaves UInt64Prefix_ops demo_trie). num_rollback_subnodes m = 0 \<or> num_rollback_subnodes m = 1" by code_simp
  moreover have "length (leaves UInt64Prefix_ops demo_trie) < 2 ^ 32" using demo_counts(1) by (simp add: counts_ok_def)
  ultimately show ?thesis using rollback_correct [OF u64.trie_prefix_axioms demo_ok(1,3)] by blast
qed

text \<open>\<^verbatim>\<open>clear_marked_deletions\<close>, which only descends where the counter is not zero, unmarks every key, keeps
  keys, values and the rest of the metadata, and keeps the sums.\<close>

theorem clear_marks_correct:
  fixes t :: "('p, 'v, 'x::ab_group_add CombinedMetadata) TrieNode"
  assumes "trie_prefix P pvalid nib" "wf_node P pvalid nib 2 t" "counts_ok P t"
  shows "wf_node P pvalid nib 2 (clear_marked_deletions t) \<and> metadata_sum_ok (clear_marked_deletions t) \<and>
    leaves P (clear_marked_deletions t) = map (\<lambda>(k, v, m). (k, v, set_num_deleted 0 m)) (leaves P t) \<and>
    tn_metadata (clear_marked_deletions t) = set_num_deleted 0 (tn_metadata t)"
proof -
  have "\<forall>(k, v, m) \<in> set (leaves P t). num_deleted_subnodes m = 0 \<or> num_deleted_subnodes m = 1"
    "length (leaves P t) < 2 ^ 32" "metadata_sum_ok t"
    using assms(3) by (auto simp: counts_ok_def)
  from trie_prefix.reset_node_correct [OF assms(1) clear_deleted.clearing_axioms assms(2) this(3,1,2)]
  show ?thesis unfolding clear_marked_deletions_reset by blast
qed

theorem clear_marks_correct_witness: "demo_wf (clear_marked_deletions demo_marked)"
proof -
  have "demo_wf demo_marked" by code_simp
  then show ?thesis using clear_marks_correct [OF u64.trie_prefix_axioms _ demo_counts(2)] by blast
qed



end
